(* ===== verification/Salt_Prelude.thy ===== *)
theory Salt_Prelude
  imports Main "HOL-Library.Word" "HOL-Library.List_Lexorder"
begin

text \<open>
  Shared vocabulary of the development: the machine integers of the Rust code, the result
  type that carries errors, panics and non-termination as values, the state-passing
  computations that model \<open>&mut self\<close> methods returning \<open>Result\<close>, and the generic facts on
  words, bytes and lists that the components use.

  Arithmetic follows the repository's release profile (\<open>overflow-checks = false\<close> in
  \<open>Cargo.toml\<close>): \<open>+\<close>, \<open>-\<close>, \<open>*\<close> wrap around, out-of-range indexing panics.
\<close>

unbundle bit_operations_syntax

section \<open>Types\<close>

type_synonym u8 = "8 word"
type_synonym u32 = "32 word"
type_synonym u64 = "64 word"
type_synonym u128 = "128 word"
type_synonym usize = "64 word"
type_synonym bytes = "u8 list"

named_theorems salt_consts \<open>values of the constants of constant.rs\<close>
named_theorems unat_simps \<open>words read as natural numbers\<close>

section \<open>Results and computations\<close>

text \<open>
  \<open>Ok\<close> and \<open>Err\<close> are Rust's \<open>Result\<close>; \<open>Panic\<close> is an abort (assertion, failed \<open>expect\<close>,
  index out of range); \<open>Diverge\<close> is a call that does not return.
\<close>

datatype ('a, 'e) res = Ok 'a | Err 'e | Panic | Diverge

fun bind_res :: "('a, 'e) res \<Rightarrow> ('a \<Rightarrow> ('b, 'e) res) \<Rightarrow> ('b, 'e) res" where
  "bind_res (Ok a) f = f a"
| "bind_res (Err e) f = Err e"
| "bind_res Panic f = Panic"
| "bind_res Diverge f = Diverge"

fun map_res :: "('a \<Rightarrow> 'b) \<Rightarrow> ('a, 'e) res \<Rightarrow> ('b, 'e) res" where
  "map_res f (Ok a) = Ok (f a)"
| "map_res f (Err e) = Err e"
| "map_res f Panic = Panic"
| "map_res f Diverge = Diverge"

fun map_err :: "('e \<Rightarrow> 'f) \<Rightarrow> ('a, 'e) res \<Rightarrow> ('a, 'f) res" where
  "map_err f (Ok a) = Ok a"
| "map_err f (Err e) = Err (f e)"
| "map_err f Panic = Panic"
| "map_err f Diverge = Diverge"

text \<open>\<open>expect\<close> / \<open>unwrap\<close>: an error becomes a panic.\<close>

fun expect :: "('a, 'e) res \<Rightarrow> ('a, 'f) res" where
  "expect (Ok a) = Ok a"
| "expect (Err e) = Panic"
| "expect Panic = Panic"
| "expect Diverge = Diverge"

text \<open>\<open>iter().map(f).collect::<Result<Vec<_>, _>>()\<close>: stops at the first failure.\<close>

fun map_collect :: "('a \<Rightarrow> ('b, 'e) res) \<Rightarrow> 'a list \<Rightarrow> ('b list, 'e) res" where
  "map_collect f [] = Ok []"
| "map_collect f (x # xs) =
     bind_res (f x) (\<lambda>y. bind_res (map_collect f xs) (\<lambda>ys. Ok (y # ys)))"

type_synonym ('s, 'a, 'e) comp = "'s \<Rightarrow> ('a, 'e) res \<times> 's"

definition ret :: "'a \<Rightarrow> ('s, 'a, 'e) comp" where
  "ret a = (\<lambda>s. (Ok a, s))"

definition lift_res :: "('a, 'e) res \<Rightarrow> ('s, 'a, 'e) comp" where
  "lift_res r = (\<lambda>s. (r, s))"

definition bind :: "('s, 'a, 'e) comp \<Rightarrow> ('a \<Rightarrow> ('s, 'b, 'e) comp) \<Rightarrow> ('s, 'b, 'e) comp" where
  "bind m f = (\<lambda>s. case m s of
      (Ok a, s') \<Rightarrow> f a s'
    | (Err e, s') \<Rightarrow> (Err e, s')
    | (Panic, s') \<Rightarrow> (Panic, s')
    | (Diverge, s') \<Rightarrow> (Diverge, s'))"

text \<open>Running a computation on the first component of a larger state.\<close>

definition on_fst :: "('s, 'a, 'e) comp \<Rightarrow> ('s \<times> 't, 'a, 'e) comp" where
  "on_fst m = (\<lambda>(s, t). case m s of (r, s') \<Rightarrow> (r, (s', t)))"

text \<open>\<open>if let Ok(Some(x)) = m { f(x) } else { g }\<close> on computations.\<close>

definition if_ok_some ::
  "('s, 'a option, 'e) comp \<Rightarrow> ('a \<Rightarrow> ('s, 'b, 'e) comp) \<Rightarrow> ('s, 'b, 'e) comp \<Rightarrow> ('s, 'b, 'e) comp"
where
  "if_ok_some m f g = (\<lambda>s. case m s of
      (Ok (Some x), s') \<Rightarrow> f x s'
    | (Ok None, s') \<Rightarrow> g s'
    | (Err _, s') \<Rightarrow> g s'
    | (Panic, s') \<Rightarrow> (Panic, s')
    | (Diverge, s') \<Rightarrow> (Diverge, s'))"

lemma bind_res_Ok_iff: "bind_res r f = Ok b \<longleftrightarrow> (\<exists>a. r = Ok a \<and> f a = Ok b)"
  by (cases r) auto

lemma map_res_Ok_iff: "map_res f r = Ok b \<longleftrightarrow> (\<exists>a. r = Ok a \<and> b = f a)"
  by (cases r) auto

lemma bind_Ok: "m s = (Ok a, s') \<Longrightarrow> bind m f s = f a s'"
  by (simp add: bind_def)

lemma bind_ret [simp]: "bind (ret a) f = f a"
  by (simp add: bind_def ret_def)

lemma bind_lift_Ok [simp]: "bind (lift_res (Ok a)) f = f a"
  by (simp add: bind_def lift_res_def)

lemma bind_lift_Panic [simp]: "bind (lift_res Panic) f = lift_res Panic"
  by (simp add: bind_def lift_res_def)

lemma bind_lift_Err [simp]: "bind (lift_res (Err e)) f = lift_res (Err e)"
  by (simp add: bind_def lift_res_def)

lemma ret_apply [simp]: "ret a s = (Ok a, s)"
  by (simp add: ret_def)

lemma lift_res_apply [simp]: "lift_res r s = (r, s)"
  by (simp add: lift_res_def)

lemma on_fst_Ok: "m s = (Ok a, s') \<Longrightarrow> on_fst m (s, t) = (Ok a, (s', t))"
  by (simp add: on_fst_def)

text \<open>
  \<open>runs m s a P\<close>: run in state \<open>s\<close>, the computation returns \<open>Ok a\<close> and ends in a state
  with \<open>P\<close> (total correctness: no error, no panic, no divergence).
\<close>

definition runs :: "('s, 'a, 'e) comp \<Rightarrow> 's \<Rightarrow> 'a \<Rightarrow> ('s \<Rightarrow> bool) \<Rightarrow> bool" where
  "runs m s a P \<longleftrightarrow> (\<exists>s'. m s = (Ok a, s') \<and> P s')"

lemma runs_ret [simp]: "runs (ret a) s b P \<longleftrightarrow> a = b \<and> P s"
  by (auto simp: runs_def)

lemma runs_Pair [simp]: "runs (Pair (Ok a)) s b P \<longleftrightarrow> a = b \<and> P s"
  by (auto simp: runs_def)

lemma runs_bind:
  "runs m s a P \<Longrightarrow> (\<And>s'. P s' \<Longrightarrow> runs (f a) s' b Q) \<Longrightarrow> runs (bind m f) s b Q"
  by (auto simp: runs_def bind_def)

lemma runs_mono: "runs m s a P \<Longrightarrow> (\<And>s'. P s' \<Longrightarrow> Q s') \<Longrightarrow> runs m s a Q"
  by (auto simp: runs_def)

lemma runs_on_fst: "runs m s a P \<Longrightarrow> runs (on_fst m) (s, t) a (\<lambda>(s', t'). P s' \<and> t' = t)"
  by (auto simp: runs_def on_fst_def)

lemma runs_lift_res [simp]: "runs (lift_res r) s a P \<longleftrightarrow> r = Ok a \<and> P s"
  by (auto simp: runs_def)

lemma runs_if_ok_some_None:
  "runs m s None P \<Longrightarrow> (\<And>s'. P s' \<Longrightarrow> runs g s' b Q) \<Longrightarrow> runs (if_ok_some m f g) s b Q"
  by (auto simp: runs_def if_ok_some_def)

lemma map_collect_map [simp]: "map_collect (\<lambda>x. Ok (f x)) xs = Ok (map f xs)"
  by (induction xs) auto

lemma map_collect_Ok:
  "(\<And>x. x \<in> set xs \<Longrightarrow> f x = Ok (g x)) \<Longrightarrow> map_collect f xs = Ok (map g xs)"
  by (induction xs) auto

lemma map_collect_length: "map_collect f xs = Ok ys \<Longrightarrow> length ys = length xs"
  by (induction xs arbitrary: ys) (auto simp: bind_res_Ok_iff)

section \<open>Words as natural numbers\<close>

lemma unat_ucast_u32_u64 [unat_simps]: "unat (ucast (b :: u32) :: u64) = unat b"
  by (simp add: unsigned_ucast_eq take_bit_nat_eq_self_iff
      order_less_le_trans [OF unsigned_less])

lemma unat_ucast_u8_u64 [unat_simps]: "unat (ucast (b :: u8) :: u64) = unat b"
  by (simp add: unsigned_ucast_eq take_bit_nat_eq_self_iff
      order_less_le_trans [OF unsigned_less])

lemma unat_add_small [unat_simps]:
  "unat (x :: 'a::len word) + unat y < 2 ^ LENGTH('a) \<Longrightarrow> unat (x + y) = unat x + unat y"
  by (simp add: unat_word_ariths)

lemma unat_mult_small [unat_simps]:
  "unat (x :: 'a::len word) * unat y < 2 ^ LENGTH('a) \<Longrightarrow> unat (x * y) = unat x * unat y"
  by (simp add: unat_word_ariths)

lemma unat_sub_le [unat_simps]:
  "unat (y :: 'a::len word) \<le> unat x \<Longrightarrow> unat (x - y) = unat x - unat y"
  by (simp add: unat_sub word_le_nat_alt)

lemma unat_u64_less: "unat (x :: u64) < 2 ^ 64"
  using unsigned_less [of x] by simp

lemma unat_u32_less: "unat (x :: u32) < 2 ^ 32"
  using unsigned_less [of x] by simp

lemma unat_push_bit_small [unat_simps]:
  "unat (x :: 'a::len word) * 2 ^ n < 2 ^ LENGTH('a) \<Longrightarrow> unat (push_bit n x) = unat x * 2 ^ n"
  by (subst unsigned_push_bit_eq) (simp add: push_bit_eq_mult take_bit_eq_mod)

lemma unat_drop_bit [unat_simps]: "unat (drop_bit n (x :: 'a::len word)) = unat x div 2 ^ n"
  by (subst unat_drop_bit_eq) (rule drop_bit_eq_div)

lemma unat_and_mask [unat_simps]: "unat (x AND mask n :: 'a::len word) = unat x mod 2 ^ n"
  by (subst take_bit_eq_mask [symmetric], subst unsigned_take_bit_eq) (rule take_bit_eq_mod)

lemma word_eq_unat: "(x :: 'a::len word) = y \<longleftrightarrow> unat x = unat y"
  by (rule word_unat_eq_iff)

lemma mult_add_unique:
  assumes "x * n + u = y * n + v" "u < n" "v < (n :: nat)"
  shows "x = y \<and> u = v"
proof -
  have "(x * n + u) div n = (y * n + v) div n" "(x * n + u) mod n = (y * n + v) mod n"
    using assms(1) by simp_all
  then show ?thesis
    using assms(2,3) by simp
qed

section \<open>Little-endian bytes\<close>

text \<open>\<open>to_le_bytes\<close> and \<open>from_le_bytes\<close> of Rust's integer types, at any width.\<close>

fun to_le_bytes :: "nat \<Rightarrow> 'a::len word \<Rightarrow> bytes" where
  "to_le_bytes 0 w = []"
| "to_le_bytes (Suc n) w = ucast w # to_le_bytes n (drop_bit 8 w)"

fun from_le_bytes :: "bytes \<Rightarrow> 'a::len word" where
  "from_le_bytes [] = 0"
| "from_le_bytes (b # bs) = ucast b OR push_bit 8 (from_le_bytes bs)"

lemma length_to_le_bytes [simp]: "length (to_le_bytes n w) = n"
  by (induction n arbitrary: w) auto

lemma from_to_le_bytes: "from_le_bytes (to_le_bytes n w) = take_bit (8 * n) (w :: 'a::len word)"
proof (induction n arbitrary: w)
  case 0
  then show ?case by simp
next
  case (Suc n)
  show ?case
    by (rule bit_word_eqI) (auto simp: Suc bit_simps)
qed

lemma from_to_le_bytes_full [simp]:
  "8 * n = LENGTH('a) \<Longrightarrow> from_le_bytes (to_le_bytes n w) = (w :: 'a::len word)"
  by (simp add: from_to_le_bytes)

lemma to_from_le_bytes: "8 * length bs \<le> LENGTH('a) \<Longrightarrow> to_le_bytes (length bs) (from_le_bytes bs :: 'a::len word) = bs"
proof (induction bs)
  case (Cons b bs)
  have b: "(ucast (ucast b OR push_bit 8 (from_le_bytes bs) :: 'a word) :: u8) = b"
    by (rule bit_word_eqI) (use Cons.prems in \<open>auto simp: bit_simps\<close>)
  have len: "8 < LENGTH('a) \<or> bs = []"
    using Cons.prems by (cases bs) auto
  have d: "drop_bit 8 (ucast b OR push_bit 8 (from_le_bytes bs) :: 'a word) = take_bit (LENGTH('a) - 8) (from_le_bytes bs)"
    by (rule bit_word_eqI) (auto simp: bit_simps dest: bit_imp_le_length)
  have "take_bit (LENGTH('a) - 8) (from_le_bytes bs :: 'a word) = from_le_bytes bs"
  proof -
    have "from_le_bytes bs = (from_le_bytes (to_le_bytes (length bs) (from_le_bytes bs :: 'a word)) :: 'a word)"
      using Cons by simp
    also have "\<dots> = take_bit (8 * length bs) (from_le_bytes bs)"
      by (rule from_to_le_bytes)
    finally have e: "take_bit (8 * length bs) (from_le_bytes bs :: 'a word) = from_le_bytes bs" by simp
    have "take_bit (LENGTH('a) - 8) (take_bit (8 * length bs) (from_le_bytes bs :: 'a word)) = take_bit (8 * length bs) (from_le_bytes bs)"
      using Cons.prems by (cases "8 * length bs = LENGTH('a) - 8") (auto simp: min_def)
    then show ?thesis unfolding e .
  qed
  then show ?case
    using Cons b d by simp
qed simp

section \<open>Chunks\<close>

definition div_ceil :: "nat \<Rightarrow> nat \<Rightarrow> nat" where
  "div_ceil a b = (a + b - 1) div b"

text \<open>\<open>slice::chunks\<close>, which panics for chunk size 0: the last chunk may be shorter.\<close>

function chunks_of :: "nat \<Rightarrow> 'a list \<Rightarrow> 'a list list" where
  "chunks_of n xs = (if xs = [] \<or> n = 0 then [] else take n xs # chunks_of n (drop n xs))"
  by pat_completeness auto
termination
  by (relation "measure (\<lambda>(n, xs). length xs)") auto

declare chunks_of.simps [simp del]

lemma concat_chunks_of: "0 < n \<Longrightarrow> concat (chunks_of n xs) = xs"
proof (induction n xs rule: chunks_of.induct)
  case (1 n xs)
  then show ?case
    by (simp add: chunks_of.simps [of n xs])
qed

end
