(* ===== verification/BTree_Map.thy ===== *)
theory BTree_Map
  imports Salt_Prelude
begin

text \<open>
  The model of \<open>std::collections::BTreeMap\<close> (and of the hash maps of the code): an association
  list in strictly ascending key order, so that equality is extensional (\<open>PartialEq\<close>) and
  iteration is in key order. \<open>bt_get\<close>, \<open>bt_insert\<close>, \<open>bt_remove\<close>, \<open>bt_range\<close> are \<open>get\<close>,
  \<open>insert\<close>, \<open>remove\<close> and \<open>range\<close> over an inclusive range. The locale \<open>key_map\<close> states what the
  clients rely on; the association lists are its interpretation.
\<close>

type_synonym ('k, 'v) btree = "('k \<times> 'v) list"

definition bt_get :: "('k, 'v) btree \<Rightarrow> 'k \<Rightarrow> 'v option" where
  "bt_get m k = map_of m k"

fun bt_insert :: "'k::linorder \<Rightarrow> 'v \<Rightarrow> ('k, 'v) btree \<Rightarrow> ('k, 'v) btree" where
  "bt_insert k v [] = [(k, v)]"
| "bt_insert k v ((k', v') # m) =
     (if k < k' then (k, v) # (k', v') # m
      else if k = k' then (k, v) # m
      else (k', v') # bt_insert k v m)"

definition bt_remove :: "'k \<Rightarrow> ('k, 'v) btree \<Rightarrow> ('k, 'v) btree" where
  "bt_remove k m = filter (\<lambda>(k', v). k' \<noteq> k) m"

definition bt_range :: "'k::linorder \<Rightarrow> 'k \<Rightarrow> ('k, 'v) btree \<Rightarrow> ('k, 'v) btree" where
  "bt_range lo hi m = filter (\<lambda>(k, v). lo \<le> k \<and> k \<le> hi) m"

definition bt_ok :: "('k::linorder, 'v) btree \<Rightarrow> bool" where
  "bt_ok m \<longleftrightarrow> sorted_wrt (<) (map fst m)"

text \<open>Collecting an iterator of pairs: later pairs win.\<close>

definition bt_collect :: "('k::linorder \<times> 'v) list \<Rightarrow> ('k, 'v) btree" where
  "bt_collect xs = fold (\<lambda>(k, v). bt_insert k v) xs []"

section \<open>Lookup and well-formedness\<close>

lemma bt_get_Nil [simp]: "bt_get [] k = None"
  by (simp add: bt_get_def)

lemma bt_get_insert [simp]: "bt_get (bt_insert k v m) = (bt_get m)(k \<mapsto> v)"
  by (induction k v m rule: bt_insert.induct) (auto simp: bt_get_def fun_eq_iff)

lemma bt_get_remove [simp]: "bt_get (bt_remove k m) = (bt_get m)(k := None)"
  by (induction m) (auto simp: bt_get_def bt_remove_def fun_eq_iff)

lemma bt_get_Some_in: "bt_get m k = Some v \<Longrightarrow> (k, v) \<in> set m"
  by (simp add: bt_get_def map_of_SomeD)

lemma bt_ok_Nil [simp]: "bt_ok []"
  by (simp add: bt_ok_def)

lemma bt_ok_Cons: "bt_ok ((k, v) # m) \<longleftrightarrow> (\<forall>x \<in> set m. k < fst x) \<and> bt_ok m"
  by (auto simp: bt_ok_def)

lemma bt_ok_distinct: "bt_ok m \<Longrightarrow> distinct (map fst m)"
  using strict_sorted_iff by (auto simp: bt_ok_def)

lemma bt_get_iff_in: "bt_ok m \<Longrightarrow> bt_get m k = Some v \<longleftrightarrow> (k, v) \<in> set m"
  by (simp add: bt_get_def bt_ok_distinct)

lemma bt_get_in: "bt_ok m \<Longrightarrow> (k, v) \<in> set m \<Longrightarrow> bt_get m k = Some v"
  by (simp add: bt_get_iff_in)

lemma set_keys_dom: "set (map fst m) = dom (bt_get m)"
proof -
  have "bt_get m = map_of m"
    by (simp add: bt_get_def fun_eq_iff)
  then show ?thesis
    by (simp add: dom_map_of_conv_image_fst)
qed

lemma bt_get_eqI:
  assumes "bt_ok m" "bt_ok n" "\<And>x. x \<in> set m \<longleftrightarrow> x \<in> set n"
  shows "bt_get m = bt_get n"
proof
  fix k
  have "bt_get m k = Some v \<longleftrightarrow> bt_get n k = Some v" for v
    using assms by (simp add: bt_get_iff_in)
  then show "bt_get m k = bt_get n k"
    by (metis not_None_eq)
qed

lemma set_bt_insert: "set (bt_insert k v m) \<subseteq> insert (k, v) (set m)"
  by (induction k v m rule: bt_insert.induct) auto

lemma bt_ok_insert [simp]: "bt_ok m \<Longrightarrow> bt_ok (bt_insert k v m)"
proof (induction k v m rule: bt_insert.induct)
  case (1 k v)
  then show ?case by (simp add: bt_ok_Cons)
next
  case (2 k v k' v' m)
  then show ?case
    using set_bt_insert [of k v m] by (fastforce simp: bt_ok_Cons dest: order.strict_trans)
qed

lemma bt_ok_filter [simp]: "bt_ok m \<Longrightarrow> bt_ok (filter P m)"
  by (simp add: bt_ok_def sorted_wrt_map sorted_wrt_filter)

lemma bt_ok_remove [simp]: "bt_ok m \<Longrightarrow> bt_ok (bt_remove k m)"
  by (simp add: bt_remove_def)

lemma bt_ok_range [simp]: "bt_ok m \<Longrightarrow> bt_ok (bt_range lo hi m)"
  by (simp add: bt_range_def)

lemma in_bt_range: "(k, v) \<in> set (bt_range lo hi m) \<longleftrightarrow> (k, v) \<in> set m \<and> lo \<le> k \<and> k \<le> hi"
  by (auto simp: bt_range_def)

lemma bt_get_range:
  "bt_ok m \<Longrightarrow> bt_get (bt_range lo hi m) k = (if lo \<le> k \<and> k \<le> hi then bt_get m k else None)"
proof -
  assume ok: "bt_ok m"
  have "bt_get (bt_range lo hi m) k = Some v \<longleftrightarrow> (lo \<le> k \<and> k \<le> hi) \<and> bt_get m k = Some v" for v
    using ok by (auto simp: bt_get_iff_in in_bt_range)
  then show ?thesis
    by (metis not_None_eq)
qed

lemma bt_ok_collect_aux: "bt_ok m \<Longrightarrow> bt_ok (fold (\<lambda>(k, v). bt_insert k v) xs m)"
  by (induction xs arbitrary: m) auto

lemma bt_ok_collect [simp]: "bt_ok (bt_collect xs)"
  by (simp add: bt_collect_def bt_ok_collect_aux)

lemma bt_get_collect_aux:
  "bt_get (fold (\<lambda>(k, v). bt_insert k v) xs m) k =
     (case map_of (rev xs) k of Some v \<Rightarrow> Some v | None \<Rightarrow> bt_get m k)"
  by (induction xs arbitrary: m) (auto simp: map_add_def split: option.splits)

lemma bt_get_collect: "bt_get (bt_collect xs) k = map_of (rev xs) k"
  by (simp add: bt_collect_def bt_get_collect_aux split: option.splits)

lemma map_of_rev_distinct: "distinct (map fst xs) \<Longrightarrow> map_of (rev xs) = map_of xs"
  by (rule map_of_eqI) (auto simp: rev_map [symmetric])

lemma bt_get_collect_distinct:
  "distinct (map fst xs) \<Longrightarrow> bt_get (bt_collect xs) k = map_of xs k"
  by (simp add: bt_get_collect map_of_rev_distinct)

text \<open>Well-formed trees with the same lookups are equal.\<close>

lemma bt_ext: "bt_ok m \<Longrightarrow> bt_ok m' \<Longrightarrow> bt_get m = bt_get m' \<Longrightarrow> m = m'"
proof (induction m arbitrary: m')
  case Nil
  then show ?case
    by (cases m') (auto simp: bt_get_def fun_eq_iff split: if_splits)
next
  case (Cons x m)
  obtain k v where x: "x = (k, v)" by (cases x)
  have in_iff: "y \<in> set (x # m) \<longleftrightarrow> y \<in> set m'" for y
    using Cons.prems by (cases y) (metis bt_get_iff_in)
  then obtain k' v' n where m': "m' = (k', v') # n"
    by (cases m') (use in_iff [of x] in auto)
  have "x = (k', v')"
    using in_iff [of x] in_iff [of "(k', v')"] Cons.prems(1,2) x m'
    by (force simp: bt_ok_Cons)
  moreover from this have "bt_get m = bt_get n"
    using Cons.prems in_iff x m'
    by (intro bt_get_eqI) (force simp: bt_ok_Cons)+
  ultimately show ?case
    using Cons.IH [of n] Cons.prems m' x by (auto simp: bt_ok_Cons)
qed

section \<open>The interface of an ordered map\<close>

locale key_map =
  fixes empty :: "'m"
    and get :: "'m \<Rightarrow> 'k::linorder \<Rightarrow> 'v option"
    and put :: "'k \<Rightarrow> 'v \<Rightarrow> 'm \<Rightarrow> 'm"
    and del :: "'k \<Rightarrow> 'm \<Rightarrow> 'm"
    and to_list :: "'m \<Rightarrow> ('k \<times> 'v) list"
    and invar :: "'m \<Rightarrow> bool"
  assumes get_empty: "get empty k = None"
    and get_put: "invar m \<Longrightarrow> get (put k v m) = (get m)(k \<mapsto> v)"
    and get_del: "invar m \<Longrightarrow> get (del k m) = (get m)(k := None)"
    and invar_empty: "invar empty"
    and invar_put: "invar m \<Longrightarrow> invar (put k v m)"
    and invar_del: "invar m \<Longrightarrow> invar (del k m)"
    and list_get: "invar m \<Longrightarrow> (k, v) \<in> set (to_list m) \<longleftrightarrow> get m k = Some v"
    and list_sorted: "invar m \<Longrightarrow> sorted_wrt (<) (map fst (to_list m))"
begin

lemma dom_finite: "invar m \<Longrightarrow> finite (dom (get m))"
proof -
  assume "invar m"
  then have "dom (get m) \<subseteq> fst ` set (to_list m)"
    by (auto simp: list_get [symmetric] intro!: image_eqI [rotated])
  then show ?thesis
    by (rule finite_subset) simp
qed

lemma keys_ascending: "invar m \<Longrightarrow> map fst (to_list m) = sorted_list_of_set (dom (get m))"
proof -
  assume inv: "invar m"
  have "set (map fst (to_list m)) = dom (get m)"
    using inv by (auto simp: list_get [symmetric] intro!: image_eqI [rotated])
  moreover have "sorted_wrt (<) (map fst (to_list m))"
    using inv by (rule list_sorted)
  ultimately show ?thesis
    by (metis strict_sorted_iff sorted_list_of_set.idem_if_sorted_distinct)
qed

lemma get_put_del: "invar m \<Longrightarrow> get (put k v (del k m)) = get (put k v m)"
  by (simp add: get_put get_del invar_del)

end

interpretation bt: key_map "[]" bt_get bt_insert bt_remove "\<lambda>m. m" bt_ok
  by unfold_locales (auto simp: bt_get_iff_in bt_ok_def [symmetric])

lemma bt_keys: "bt_ok m \<Longrightarrow> map fst m = sorted_list_of_set (dom (bt_get m))"
  by (rule bt.keys_ascending)

end
