(* ===== verification/Salt_Types.thy ===== *)
theory Salt_Types
  imports BTree_Map
begin

text \<open>
  The core data of \<open>salt/src/types.rs\<close> and the constants of \<open>salt/src/constant.rs\<close>: 64-bit
  \<open>SaltKey\<close>s (24-bit bucket, 40-bit slot), the 94-byte \<open>SaltValue\<close> records, \<open>BucketMeta\<close> and
  its 12-byte encoding, the metadata key mapping, and the breadth-first numbering of trie
  nodes. Slicing out of range is \<open>Panic\<close>, as in the code.
\<close>

section \<open>Constants\<close>

definition MIN_BUCKET_SIZE_BITS :: nat where "MIN_BUCKET_SIZE_BITS = 8"
definition MIN_BUCKET_SIZE :: nat where "MIN_BUCKET_SIZE = 2 ^ MIN_BUCKET_SIZE_BITS"
definition META_BUCKET_SIZE :: nat where "META_BUCKET_SIZE = MIN_BUCKET_SIZE"
definition MAIN_TRIE_LEVELS :: nat where "MAIN_TRIE_LEVELS = 4"
definition MAX_SUBTREE_LEVELS :: nat where "MAX_SUBTREE_LEVELS = 5"
definition TRIE_WIDTH_BITS :: nat where "TRIE_WIDTH_BITS = 8"
definition TRIE_WIDTH :: nat where "TRIE_WIDTH = 2 ^ TRIE_WIDTH_BITS"
definition NUM_BUCKETS :: nat where "NUM_BUCKETS = 2 ^ ((MAIN_TRIE_LEVELS - 1) * TRIE_WIDTH_BITS)"
definition NUM_META_BUCKETS :: nat where "NUM_META_BUCKETS = NUM_BUCKETS div MIN_BUCKET_SIZE"
definition NUM_KV_BUCKETS :: nat where "NUM_KV_BUCKETS = NUM_BUCKETS - NUM_META_BUCKETS"
definition ROOT_NODE_ID :: u64 where "ROOT_NODE_ID = 0"
definition EMPTY_SLOT_HASH :: bytes where "EMPTY_SLOT_HASH = replicate 32 1"
definition BUCKET_ID_BITS :: nat where "BUCKET_ID_BITS = 24"
definition BUCKET_SLOT_BITS :: nat where "BUCKET_SLOT_BITS = 40"
definition BUCKET_SLOT_ID_MASK :: u64 where "BUCKET_SLOT_ID_MASK = push_bit BUCKET_SLOT_BITS 1 - 1"
definition BUCKET_RESIZE_LOAD_FACTOR_PCT :: u64 where "BUCKET_RESIZE_LOAD_FACTOR_PCT = 80"
definition BUCKET_RESIZE_MULTIPLIER :: u64 where "BUCKET_RESIZE_MULTIPLIER = 2"
definition DOMAIN_SIZE :: nat where "DOMAIN_SIZE = 256"
definition MAX_SALT_VALUE_BYTES :: nat where "MAX_SALT_VALUE_BYTES = 94"

lemma const_vals [simp, salt_consts]:
  "MIN_BUCKET_SIZE_BITS = 8" "MIN_BUCKET_SIZE = 256" "META_BUCKET_SIZE = 256"
  "MAIN_TRIE_LEVELS = 4" "MAX_SUBTREE_LEVELS = 5" "TRIE_WIDTH_BITS = 8" "TRIE_WIDTH = 256"
  "NUM_BUCKETS = 16777216" "NUM_META_BUCKETS = 65536" "NUM_KV_BUCKETS = 16711680"
  "BUCKET_ID_BITS = 24" "BUCKET_SLOT_BITS = 40" "DOMAIN_SIZE = 256" "MAX_SALT_VALUE_BYTES = 94"
  by (simp_all add: MIN_BUCKET_SIZE_BITS_def MIN_BUCKET_SIZE_def META_BUCKET_SIZE_def
      MAIN_TRIE_LEVELS_def MAX_SUBTREE_LEVELS_def TRIE_WIDTH_BITS_def TRIE_WIDTH_def
      NUM_BUCKETS_def NUM_META_BUCKETS_def NUM_KV_BUCKETS_def BUCKET_ID_BITS_def
      BUCKET_SLOT_BITS_def DOMAIN_SIZE_def MAX_SALT_VALUE_BYTES_def)

lemma BUCKET_SLOT_ID_MASK_mask [salt_consts]: "BUCKET_SLOT_ID_MASK = mask 40"
  by (simp add: BUCKET_SLOT_ID_MASK_def mask_eq_exp_minus_1 push_bit_eq_mult)

lemma unat_BUCKET_SLOT_ID_MASK [simp]: "unat BUCKET_SLOT_ID_MASK = 2 ^ 40 - 1"
  by (simp add: BUCKET_SLOT_ID_MASK_def)

section \<open>SaltKey\<close>

type_synonym bucket_id = u32
type_synonym slot_id = u64
type_synonym salt_key = u64

definition salt_key_from :: "bucket_id \<Rightarrow> slot_id \<Rightarrow> salt_key" where
  "salt_key_from b s = push_bit BUCKET_SLOT_BITS (ucast b) + s"

definition key_bucket_id :: "salt_key \<Rightarrow> bucket_id" where
  "key_bucket_id k = ucast (drop_bit BUCKET_SLOT_BITS k)"

definition key_slot_id :: "salt_key \<Rightarrow> slot_id" where
  "key_slot_id k = k AND BUCKET_SLOT_ID_MASK"

definition is_in_meta_bucket :: "salt_key \<Rightarrow> bool" where
  "is_in_meta_bucket k \<longleftrightarrow> key_bucket_id k < of_nat NUM_META_BUCKETS"

definition bucket_range :: "bucket_id \<Rightarrow> bucket_id \<Rightarrow> salt_key \<times> salt_key" where
  "bucket_range start_bucket end_bucket =
     (salt_key_from start_bucket 0, salt_key_from end_bucket BUCKET_SLOT_ID_MASK)"

text \<open>Keys that the 24 + 40 bit layout can hold.\<close>

definition key_fits :: "bucket_id \<Rightarrow> slot_id \<Rightarrow> bool" where
  "key_fits b s \<longleftrightarrow> unat b < 2 ^ 24 \<and> unat s < 2 ^ 40"

lemma unat_salt_key_from:
  "key_fits b s \<Longrightarrow> unat (salt_key_from b s) = unat b * 2 ^ 40 + unat s"
  by (simp add: salt_key_from_def key_fits_def unat_simps)

lemma unat_key_bucket_id: "unat (key_bucket_id k) = unat k div 2 ^ 40"
proof -
  have "unat k div 2 ^ 40 < 2 ^ 24"
    using unat_u64_less [of k] by (simp add: less_mult_imp_div_less)
  then show ?thesis
    by (simp add: key_bucket_id_def unsigned_ucast_eq unat_drop_bit take_bit_nat_eq_self)
qed

lemma unat_key_slot_id: "unat (key_slot_id k) = unat k mod 2 ^ 40"
  by (simp add: key_slot_id_def BUCKET_SLOT_ID_MASK_mask unat_and_mask)

lemma key_bucket_id_from [simp]: "key_fits b s \<Longrightarrow> key_bucket_id (salt_key_from b s) = b"
  by (simp add: word_eq_unat unat_key_bucket_id unat_salt_key_from) (simp add: key_fits_def)

lemma key_slot_id_from [simp]: "key_fits b s \<Longrightarrow> key_slot_id (salt_key_from b s) = s"
  by (simp add: word_eq_unat unat_key_slot_id unat_salt_key_from) (simp add: key_fits_def)

lemma key_fits_parts [simp]: "key_fits (key_bucket_id k) (key_slot_id k)"
  using unat_u64_less [of k]
  by (simp add: key_fits_def unat_key_bucket_id unat_key_slot_id less_mult_imp_div_less)

lemma salt_key_from_parts [simp]: "salt_key_from (key_bucket_id k) (key_slot_id k) = k"
  by (simp add: word_eq_unat unat_salt_key_from unat_key_bucket_id unat_key_slot_id)

lemma salt_key_from_eq:
  "key_fits b s \<Longrightarrow> key_fits b' s' \<Longrightarrow> salt_key_from b s = salt_key_from b' s' \<longleftrightarrow> b = b' \<and> s = s'"
  by (metis key_bucket_id_from key_slot_id_from)

section \<open>SaltValue\<close>

text \<open>
  \<open>slice a b\<close> is \<open>&data[a..b]\<close>, \<open>copy_from_slice i xs\<close> is
  \<open>data[i..i + xs.len()].copy_from_slice(xs)\<close>; both panic past the end of the array.
\<close>

definition slice :: "nat \<Rightarrow> nat \<Rightarrow> 'a list \<Rightarrow> ('a list, 'e) res" where
  "slice a b data = (if a \<le> b \<and> b \<le> length data then Ok (take (b - a) (drop a data)) else Panic)"

definition copy_from_slice :: "nat \<Rightarrow> 'a list \<Rightarrow> 'a list \<Rightarrow> ('a list, 'e) res" where
  "copy_from_slice i xs data =
     (if i + length xs \<le> length data then Ok (take i data @ xs @ drop (i + length xs) data)
      else Panic)"

record salt_value =
  sv_data :: bytes

definition sv_key_len :: "salt_value \<Rightarrow> nat" where
  "sv_key_len v = unat (sv_data v ! 0)"

definition sv_value_len :: "salt_value \<Rightarrow> nat" where
  "sv_value_len v = unat (sv_data v ! 1)"

definition salt_value_new :: "bytes \<Rightarrow> bytes \<Rightarrow> (salt_value, 'e) res" where
  "salt_value_new key val =
     (let data = (replicate MAX_SALT_VALUE_BYTES 0)
            [0 := of_nat (length key), 1 := of_nat (length val)]
      in bind_res (copy_from_slice 2 key data) (\<lambda>data.
         bind_res (copy_from_slice (2 + length key) val data) (\<lambda>data.
         Ok \<lparr>sv_data = data\<rparr>)))"

definition sv_key :: "salt_value \<Rightarrow> (bytes, 'e) res" where
  "sv_key v = slice 2 (2 + sv_key_len v) (sv_data v)"

definition sv_value :: "salt_value \<Rightarrow> (bytes, 'e) res" where
  "sv_value v = slice (2 + sv_key_len v) (2 + sv_key_len v + sv_value_len v) (sv_data v)"

definition sv_data_len :: "salt_value \<Rightarrow> nat" where
  "sv_data_len v = 2 + sv_key_len v + sv_value_len v"

text \<open>
  The canonical encoding: what \<open>SaltValue::new\<close> produces. \<open>kv_fits\<close> says that the record
  fits in 94 bytes; \<open>sv_canon\<close> that a value is its own re-encoding (zero padding).
\<close>

definition kv_fits :: "bytes \<Rightarrow> bytes \<Rightarrow> bool" where
  "kv_fits key val \<longleftrightarrow> 2 + length key + length val \<le> MAX_SALT_VALUE_BYTES"

definition sv_enc :: "bytes \<Rightarrow> bytes \<Rightarrow> salt_value" where
  "sv_enc key val = \<lparr>sv_data = of_nat (length key) # of_nat (length val) # key @ val @
     replicate (92 - length key - length val) 0\<rparr>"

definition plain_key :: "salt_value \<Rightarrow> bytes" where
  "plain_key v = take (sv_key_len v) (drop 2 (sv_data v))"

definition plain_val :: "salt_value \<Rightarrow> bytes" where
  "plain_val v = take (sv_value_len v) (drop (2 + sv_key_len v) (sv_data v))"

definition sv_valid :: "salt_value \<Rightarrow> bool" where
  "sv_valid v \<longleftrightarrow> length (sv_data v) = MAX_SALT_VALUE_BYTES \<and> sv_data_len v \<le> MAX_SALT_VALUE_BYTES"

definition sv_canon :: "salt_value \<Rightarrow> bool" where
  "sv_canon v \<longleftrightarrow> kv_fits (plain_key v) (plain_val v) \<and> v = sv_enc (plain_key v) (plain_val v)"

lemma replicate_94: "replicate 94 (x :: 'a) = x # x # replicate 92 x"
  using replicate_add [of 2 92 x] by (simp add: numeral_2_eq_2)

lemma salt_value_new_ok: "kv_fits key val \<Longrightarrow> salt_value_new key val = Ok (sv_enc key val)"
  by (simp add: salt_value_new_def kv_fits_def copy_from_slice_def sv_enc_def Let_def
      replicate_94 take_Cons' drop_Cons')

lemma salt_value_new_panic: "\<not> kv_fits key val \<Longrightarrow> salt_value_new key val = Panic"
  by (auto simp: salt_value_new_def kv_fits_def copy_from_slice_def Let_def)

lemma sv_lens_enc:
  "kv_fits key val \<Longrightarrow> sv_key_len (sv_enc key val) = length key"
  "kv_fits key val \<Longrightarrow> sv_value_len (sv_enc key val) = length val"
  by (simp_all add: sv_key_len_def sv_value_len_def sv_enc_def kv_fits_def unat_of_nat)

lemma plain_key_enc [simp]: "kv_fits key val \<Longrightarrow> plain_key (sv_enc key val) = key"
  by (simp add: plain_key_def sv_lens_enc) (simp add: sv_enc_def)

lemma plain_val_enc [simp]: "kv_fits key val \<Longrightarrow> plain_val (sv_enc key val) = val"
  by (simp add: plain_val_def sv_lens_enc) (simp add: sv_enc_def)

lemma sv_valid_enc [simp]: "kv_fits key val \<Longrightarrow> sv_valid (sv_enc key val)"
  by (simp add: sv_valid_def sv_data_len_def sv_lens_enc) (simp add: sv_enc_def kv_fits_def)

lemma sv_canon_enc [simp]: "kv_fits key val \<Longrightarrow> sv_canon (sv_enc key val)"
  by (simp add: sv_canon_def)

lemma sv_canon_valid: "sv_canon v \<Longrightarrow> sv_valid v"
  by (metis sv_canon_def sv_valid_enc)

lemma sv_key_valid [simp]: "sv_valid v \<Longrightarrow> sv_key v = Ok (plain_key v)"
  by (simp add: sv_key_def slice_def sv_valid_def sv_data_len_def plain_key_def)

lemma sv_value_valid [simp]: "sv_valid v \<Longrightarrow> sv_value v = Ok (plain_val v)"
  by (simp add: sv_value_def slice_def sv_valid_def sv_data_len_def plain_val_def)

lemma kv_fits_plain: "sv_valid v \<Longrightarrow> kv_fits (plain_key v) (plain_val v)"
  by (auto simp: kv_fits_def sv_valid_def sv_data_len_def plain_key_def plain_val_def)

section \<open>Errors\<close>

text \<open>\<open>SaltError\<close>; the messages are the code's strings.\<close>

datatype salt_error =
    InvalidFormat string
  | NotInWitness string
  | UnsupportedOperation string
  | UnchainedTransition salt_key "salt_value option" "salt_value option"

section \<open>BucketMeta\<close>

record bucket_meta =
  nonce :: u32
  capacity :: u64
  used :: "u64 option"

definition default_meta :: bucket_meta where
  "default_meta = \<lparr>nonce = 0, capacity = of_nat MIN_BUCKET_SIZE, used = None\<rparr>"

definition meta_of_bytes :: "bytes \<Rightarrow> (bucket_meta, salt_error) res" where
  "meta_of_bytes bs =
     (if length bs \<noteq> 12 then Err (InvalidFormat ''BucketMeta requires exactly 12 bytes'')
      else Ok \<lparr>nonce = from_le_bytes (take 4 bs), capacity = from_le_bytes (take 8 (drop 4 bs)),
               used = None\<rparr>)"

definition meta_to_bytes :: "bucket_meta \<Rightarrow> bytes" where
  "meta_to_bytes m = to_le_bytes 4 (nonce m) @ to_le_bytes 8 (capacity m)"

definition meta_is_default :: "bucket_meta \<Rightarrow> bool" where
  "meta_is_default m \<longleftrightarrow> nonce m = 0 \<and> capacity m = of_nat MIN_BUCKET_SIZE"

definition salt_value_of_meta :: "bucket_meta \<Rightarrow> (salt_value, 'e) res" where
  "salt_value_of_meta m = salt_value_new (meta_to_bytes m) []"

definition meta_of_salt_value :: "salt_value \<Rightarrow> (bucket_meta, salt_error) res" where
  "meta_of_salt_value v = bind_res (sv_key v) meta_of_bytes"

definition meta_sv :: "bucket_meta \<Rightarrow> salt_value" where
  "meta_sv m = sv_enc (meta_to_bytes m) []"

lemma length_meta_to_bytes [simp]: "length (meta_to_bytes m) = 12"
  by (simp add: meta_to_bytes_def)

lemma kv_fits_meta [simp]: "kv_fits (meta_to_bytes m) []"
  by (simp add: kv_fits_def)

lemma salt_value_of_meta_ok [simp]: "salt_value_of_meta m = Ok (meta_sv m)"
  by (simp add: salt_value_of_meta_def meta_sv_def salt_value_new_ok)

lemma meta_bytes_roundtrip: "meta_of_bytes (meta_to_bytes m) = Ok (m\<lparr>used := None\<rparr>)"
  by (simp add: meta_of_bytes_def) (simp add: meta_to_bytes_def)

lemma meta_sv_roundtrip [simp]: "meta_of_salt_value (meta_sv m) = Ok (m\<lparr>used := None\<rparr>)"
  by (simp add: meta_of_salt_value_def meta_sv_def meta_bytes_roundtrip)

lemma meta_sv_used [simp]: "meta_sv (m\<lparr>used := u\<rparr>) = meta_sv m"
  by (simp add: meta_sv_def meta_to_bytes_def)

lemma meta_sv_canon [simp]: "sv_canon (meta_sv m)"
  by (simp add: meta_sv_def)

lemma meta_sv_eq: "meta_sv m = meta_sv m' \<longleftrightarrow> m\<lparr>used := None\<rparr> = m'\<lparr>used := None\<rparr>"
  by (metis meta_sv_roundtrip meta_sv_used res.inject(1))

section \<open>Metadata keys\<close>

definition is_valid_data_bucket :: "bucket_id \<Rightarrow> bool" where
  "is_valid_data_bucket b \<longleftrightarrow> of_nat NUM_META_BUCKETS \<le> b \<and> b < of_nat NUM_BUCKETS"

definition METADATA_KEYS_RANGE :: "salt_key \<times> salt_key" where
  "METADATA_KEYS_RANGE =
     (0, push_bit BUCKET_SLOT_BITS (of_nat (NUM_META_BUCKETS - 1)) OR BUCKET_SLOT_ID_MASK)"

definition bucket_metadata_key :: "bucket_id \<Rightarrow> (salt_key, 'e) res" where
  "bucket_metadata_key b =
     (if is_valid_data_bucket b
      then Ok (salt_key_from (drop_bit MIN_BUCKET_SIZE_BITS b) (ucast b mod of_nat MIN_BUCKET_SIZE))
      else Panic)"

definition bucket_id_from_metadata_key :: "salt_key \<Rightarrow> (bucket_id, 'e) res" where
  "bucket_id_from_metadata_key k =
     (if fst METADATA_KEYS_RANGE \<le> k \<and> k \<le> snd METADATA_KEYS_RANGE
      then Ok (push_bit MIN_BUCKET_SIZE_BITS (key_bucket_id k) + ucast (key_slot_id k))
      else Panic)"

lemma is_valid_data_bucket_unat:
  "is_valid_data_bucket b \<longleftrightarrow> 65536 \<le> unat b \<and> unat b < 16777216"
  by (simp add: is_valid_data_bucket_def word_le_nat_alt word_less_nat_alt)

lemma is_in_meta_bucket_unat: "is_in_meta_bucket k \<longleftrightarrow> unat k < 65536 * 2 ^ 40"
  by (simp add: is_in_meta_bucket_def word_less_nat_alt unat_key_bucket_id less_mult_imp_div_less
      div_less_iff_less_mult)

text \<open>The metadata key of a valid data bucket.\<close>

definition meta_key :: "bucket_id \<Rightarrow> salt_key" where
  "meta_key b = salt_key_from (drop_bit 8 b) (ucast b mod 256)"

lemma bucket_metadata_key_ok [simp]:
  "is_valid_data_bucket b \<Longrightarrow> bucket_metadata_key b = Ok (meta_key b)"
  by (simp add: bucket_metadata_key_def meta_key_def)

lemma unat_slot_of_bucket: "unat (ucast (b :: u32) mod 256 :: u64) = unat b mod 256"
  by (simp add: unat_mod unat_simps)

lemma meta_key_fits: "is_valid_data_bucket b \<Longrightarrow> key_fits (drop_bit 8 b) (ucast b mod 256)"
  unfolding key_fits_def is_valid_data_bucket_unat unat_slot_of_bucket unat_drop_bit
  by (auto intro: order_less_le_trans [OF mod_less_divisor])

lemma meta_key_parts:
  "is_valid_data_bucket b \<Longrightarrow> key_bucket_id (meta_key b) = drop_bit 8 b"
  "is_valid_data_bucket b \<Longrightarrow> key_slot_id (meta_key b) = ucast b mod 256"
  by (simp_all add: meta_key_def meta_key_fits)

lemma meta_key_in_meta: "is_valid_data_bucket b \<Longrightarrow> is_in_meta_bucket (meta_key b)"
  by (simp add: is_in_meta_bucket_def meta_key_parts word_less_nat_alt unat_drop_bit
      is_valid_data_bucket_unat div_less_iff_less_mult)

lemma data_key_not_meta:
  "is_valid_data_bucket b \<Longrightarrow> key_fits b s \<Longrightarrow> \<not> is_in_meta_bucket (salt_key_from b s)"
  by (simp add: is_in_meta_bucket_def word_less_nat_alt is_valid_data_bucket_unat)

lemma meta_key_inj:
  assumes "is_valid_data_bucket b" "is_valid_data_bucket b'" "meta_key b = meta_key b'"
  shows "b = b'"
proof -
  have "drop_bit 8 b = drop_bit 8 b'" "(ucast b mod 256 :: u64) = ucast b' mod 256"
    using assms by (metis meta_key_parts)+
  then have "unat b div 256 = unat b' div 256" "unat b mod 256 = unat b' mod 256"
    unfolding word_eq_unat unat_slot_of_bucket unat_drop_bit by simp_all
  then show ?thesis
    by (metis word_eq_unat div_mult_mod_eq)
qed

lemma METADATA_KEYS_RANGE_iff:
  "fst METADATA_KEYS_RANGE \<le> k \<and> k \<le> snd METADATA_KEYS_RANGE \<longleftrightarrow> is_in_meta_bucket k"
  by (simp add: METADATA_KEYS_RANGE_def is_in_meta_bucket_unat word_le_nat_alt
      BUCKET_SLOT_ID_MASK_def) auto

lemma metadata_key_roundtrip:
  assumes "is_valid_data_bucket b"
  shows "bucket_id_from_metadata_key (meta_key b) = Ok b"
proof -
  have "unat (ucast (ucast b mod 256 :: u64) :: u32) = unat b mod 256"
    by (simp add: unsigned_ucast_eq unat_slot_of_bucket take_bit_nat_eq_self
        order_less_le_trans [OF mod_less_divisor])
  moreover have "unat (push_bit 8 (drop_bit 8 b)) = unat b div 256 * 256"
    using unat_u32_less [of b] by (subst unat_push_bit_small) (simp_all add: unat_drop_bit)
  ultimately have "push_bit 8 (drop_bit 8 b) + ucast (ucast b mod 256 :: u64) = b"
    using unat_u32_less [of b] by (simp add: word_eq_unat unat_simps)
  then show ?thesis
    using assms meta_key_in_meta
    by (simp add: bucket_id_from_metadata_key_def METADATA_KEYS_RANGE_iff meta_key_parts)
qed

section \<open>Node identifiers\<close>

type_synonym node_id = u64

definition get_local_number :: "node_id \<Rightarrow> u64" where
  "get_local_number n = n AND BUCKET_SLOT_ID_MASK"

definition is_subtree_node :: "node_id \<Rightarrow> (bool, 'e) res" where
  "is_subtree_node n =
     (let b = drop_bit BUCKET_SLOT_BITS n
      in if b = 0 then Ok False
         else if b < of_nat NUM_META_BUCKETS then Panic
         else Ok True)"

text \<open>
  \<open>leftmost_node\<close>: the power is a checked \<open>u128\<close> power, the result must fit a \<open>u64\<close>.
\<close>

definition leftmost_node :: "nat \<Rightarrow> u64 option" where
  "leftmost_node level =
     (if level = 0 then Some 0
      else let pow = TRIE_WIDTH ^ level
           in if pow \<ge> 2 ^ 128 then None
              else let r = (pow - 1) div (TRIE_WIDTH - 1)
                   in if r > 2 ^ 64 - 1 then None else Some (of_nat r))"

definition STARTING_NODE_ID :: "u64 list" where
  "STARTING_NODE_ID = map (\<lambda>l. the (leftmost_node l)) [0..<MAX_SUBTREE_LEVELS]"

text \<open>Indexing the table panics past its end.\<close>

definition starting_node_id :: "nat \<Rightarrow> (u64, 'e) res" where
  "starting_node_id l = (if l < length STARTING_NODE_ID then Ok (STARTING_NODE_ID ! l) else Panic)"

text \<open>The loop \<open>for level in (0..=8).rev()\<close>; falling through is \<open>unreachable!\<close>.\<close>

fun bfs_scan :: "nat list \<Rightarrow> u64 \<Rightarrow> (nat, 'e) res" where
  "bfs_scan [] n = Panic"
| "bfs_scan (l # ls) n =
     (case leftmost_node l of
        Some m \<Rightarrow> if n \<ge> m then Ok l else bfs_scan ls n
      | None \<Rightarrow> bfs_scan ls n)"

definition get_bfs_level :: "u64 \<Rightarrow> (nat, 'e) res" where
  "get_bfs_level n = bfs_scan (rev [0..<9]) n"

lemma leftmost_vals [simp]:
  "leftmost_node 0 = Some 0" "leftmost_node (Suc 0) = Some 1" "leftmost_node 2 = Some 257"
  "leftmost_node 3 = Some 65793" "leftmost_node 4 = Some 16843009"
  "leftmost_node 5 = Some 4311810305" "leftmost_node 6 = Some 1103823438081"
  "leftmost_node 7 = Some 282578800148737" "leftmost_node 8 = Some 72340172838076673"
  by (simp_all add: leftmost_node_def)

lemma STARTING_NODE_ID_val [salt_consts]: "STARTING_NODE_ID = [0, 1, 257, 65793, 16843009]"
  by (simp add: STARTING_NODE_ID_def upt_rec numeral_2_eq_2 [symmetric] numeral_3_eq_3 [symmetric])

lemma starting_node_id_vals [simp]:
  "starting_node_id 0 = Ok 0" "starting_node_id (Suc 0) = Ok 1" "starting_node_id 2 = Ok 257"
  "starting_node_id 3 = Ok 65793" "starting_node_id 4 = Ok 16843009"
  by (simp_all add: starting_node_id_def salt_consts)

lemma starting_node_id_panic: "5 \<le> l \<Longrightarrow> starting_node_id l = Panic"
  by (simp add: starting_node_id_def salt_consts)

lemma get_bfs_level_eq:
  "get_bfs_level n = Ok (if n \<ge> 72340172838076673 then 8 else if n \<ge> 282578800148737 then 7
     else if n \<ge> 1103823438081 then 6 else if n \<ge> 4311810305 then 5
     else if n \<ge> 16843009 then 4 else if n \<ge> 65793 then 3 else if n \<ge> 257 then 2
     else if n \<ge> 1 then 1 else 0)"
proof -
  have "rev [0..<9] = [8, 7, 6, 5, 4, 3, 2, Suc 0, 0]"
    by (simp add: upt_rec)
  then show ?thesis
    by (simp add: get_bfs_level_def)
qed

section \<open>Properties\<close>

text \<open>Keys: splitting a 64-bit key into bucket and slot and packing it again gives the key,
  and packing a bucket below \<open>2^24\<close> with a slot below \<open>2^40\<close> and splitting gives both back.\<close>
theorem salt_key_roundtrip:
  "salt_key_from (key_bucket_id k) (key_slot_id k) = k \<and>
     (key_fits b s \<longrightarrow> key_bucket_id (salt_key_from b s) = b \<and> key_slot_id (salt_key_from b s) = s)"
  by simp

theorem salt_key_roundtrip_witness:
  "key_bucket_id (salt_key_from 65536 7) = 65536 \<and> key_slot_id (salt_key_from 65536 7) = 7"
  using salt_key_roundtrip [of 0 65536 7] by (simp add: key_fits_def)

text \<open>Values: a key and value that fit in 94 bytes with the two length bytes are encoded in
  exactly 94 bytes, from which \<open>key()\<close>, \<open>value()\<close> and \<open>data_len()\<close> read them back.\<close>
theorem salt_value_roundtrip:
  assumes "2 + length key + length val \<le> 94"
  shows "\<exists>v. salt_value_new key val = (Ok v :: (_, 'e) res) \<and> length (sv_data v) = 94 \<and>
    sv_key v = (Ok key :: (_, 'e) res) \<and> sv_value v = (Ok val :: (_, 'e) res) \<and>
    sv_data_len v = 2 + length key + length val"
proof -
  have fit: "kv_fits key val"
    using assms by (simp add: kv_fits_def)
  show ?thesis
    by (intro exI [of _ "sv_enc key val"])
       (use fit sv_valid_enc [OF fit] in \<open>simp add: salt_value_new_ok sv_data_len_def sv_lens_enc sv_valid_def [of "sv_enc _ _"]\<close>)
qed

theorem salt_value_roundtrip_witness:
  "\<exists>v. salt_value_new [1, 2, 3] [9] = (Ok v :: (_, unit) res) \<and> sv_key v = (Ok [1, 2, 3] :: (_, unit) res)"
  using salt_value_roundtrip [of "[1, 2, 3]" "[9]"] by auto

text \<open>\<open>SaltValue::new\<close> panics exactly when the record does not fit in 94 bytes; it never
  truncates and never produces a wrong length byte.\<close>
theorem salt_value_new_panic_iff:
  "salt_value_new key val = (Panic :: (_, 'e) res) \<longleftrightarrow> 94 < 2 + length key + length val"
proof (cases "kv_fits key val")
  case True
  then show ?thesis by (simp add: salt_value_new_ok) (simp add: kv_fits_def)
next
  case False
  then show ?thesis by (simp add: salt_value_new_panic) (simp add: kv_fits_def)
qed

text \<open>Bucket metadata: decoding 12 bytes and encoding are inverse on nonce and capacity, in
  both directions; any other length is the documented \<open>InvalidFormat\<close> error.\<close>
theorem bucket_meta_bytes:
  "meta_of_bytes (meta_to_bytes m) = Ok (m\<lparr>used := None\<rparr>)
   \<and> (if length bs = 12 then \<exists>m'. meta_of_bytes bs = Ok m' \<and> used m' = None \<and> meta_to_bytes m' = bs
      else meta_of_bytes bs = Err (InvalidFormat ''BucketMeta requires exactly 12 bytes''))"
proof -
  have "meta_to_bytes \<lparr>nonce = from_le_bytes (take 4 bs), capacity = from_le_bytes (take 8 (drop 4 bs)), used = None\<rparr> = bs"
    if "length bs = 12"
  proof -
    have "take 8 (drop 4 bs) = drop 4 bs" using that by simp
    moreover have "length (take 4 bs) = 4" "length (drop 4 bs) = 8" using that by simp_all
    ultimately show ?thesis
      using to_from_le_bytes [of "take 4 bs", where 'a=32] to_from_le_bytes [of "drop 4 bs", where 'a=64]
      by (simp add: meta_to_bytes_def)
  qed
  then show ?thesis
    by (simp add: meta_bytes_roundtrip) (simp add: meta_of_bytes_def)
qed

text \<open>Metadata keys: a valid data bucket has a key in the metadata range from which
  \<open>bucket_id_from_metadata_key\<close> recovers it; for any other bucket the call panics.\<close>
theorem metadata_key_mapping:
  "if is_valid_data_bucket b
   then \<exists>k. bucket_metadata_key b = (Ok k :: (_, 'e) res) \<and> is_in_meta_bucket k \<and>
     bucket_id_from_metadata_key k = (Ok b :: (_, 'e) res)
   else bucket_metadata_key b = (Panic :: (_, 'e) res)"
  by (simp add: metadata_key_roundtrip meta_key_in_meta) (simp add: bucket_metadata_key_def)

text \<open>\<open>get_bfs_level\<close> returns, for every node number, the level whose first and next-level
  first node enclose it; the \<open>unreachable!\<close> branch is never taken.\<close>
theorem bfs_level_correct:
  "\<exists>l m. l \<le> 8 \<and> get_bfs_level n = (Ok l :: (_, 'e) res) \<and> leftmost_node l = Some m \<and> m \<le> n \<and>
     (\<forall>m'. leftmost_node (l + 1) = Some m' \<longrightarrow> n < m')"
proof -
  have 9: "leftmost_node 9 = None" and 2: "leftmost_node (Suc (Suc 0)) = Some 257"
    by (simp_all add: leftmost_node_def)
  let ?l = "if n \<ge> 72340172838076673 then 8 else if n \<ge> 282578800148737 then 7
     else if n \<ge> 1103823438081 then 6 else if n \<ge> 4311810305 then 5
     else if n \<ge> 16843009 then 4 else if n \<ge> 65793 then 3 else if n \<ge> 257 then 2
     else if n \<ge> 1 then 1 else (0 :: nat)"
  show ?thesis
    by (rule exI [of _ ?l]) (auto simp: get_bfs_level_eq 9 2 not_le)
qed

theorem bfs_level_correct_witness:
  "\<exists>l m. get_bfs_level 300 = (Ok l :: (_, unit) res) \<and> leftmost_node l = Some m \<and> m \<le> 300"
  using bfs_level_correct [of 300, where 'e=unit] by blast

end
