(* ===== verification/Node_Utils.thy ===== *)
theory Node_Utils
  imports Salt_Types
begin

text \<open>
  Navigation in the 256-ary tries, \<open>salt/src/trie/node_utils.rs\<close>: the position of a node in
  its parent's vector commitment, child and parent identifiers, bucket roots, subtree leaves
  and the level of a bucket's subtree root. \<open>STARTING_NODE_ID\<close> has five entries, so the code
  panics on a child of a level-4 node and on the parent of a root; the model does too.
\<close>

definition vc_position_in_parent :: "node_id \<Rightarrow> (nat, 'e) res" where
  "vc_position_in_parent node =
     (let local = get_local_number node
      in bind_res (get_bfs_level local) (\<lambda>level.
         bind_res (starting_node_id level) (\<lambda>start.
         Ok (unat ((local - start) mod of_nat TRIE_WIDTH)))))"

definition get_child_node :: "node_id \<Rightarrow> nat \<Rightarrow> (node_id, 'e) res" where
  "get_child_node parent child_idx =
     (let local = get_local_number parent;
          bucket = parent - local
      in bind_res (get_bfs_level local) (\<lambda>level.
         bind_res (starting_node_id level) (\<lambda>start.
         bind_res (starting_node_id (level + 1)) (\<lambda>child_start.
         Ok (bucket + child_start + push_bit TRIE_WIDTH_BITS (local - start) + of_nat child_idx)))))"

text \<open>\<open>level - 1\<close> on \<open>usize\<close> wraps for a root, so the table index is out of range.\<close>

definition get_parent_node :: "node_id \<Rightarrow> (node_id, 'e) res" where
  "get_parent_node node =
     (let local = get_local_number node;
          bucket = node - local
      in bind_res (get_bfs_level local) (\<lambda>level.
         bind_res (starting_node_id level) (\<lambda>start.
         bind_res (if level = 0 then Panic else starting_node_id (level - 1)) (\<lambda>parent_start.
         Ok (bucket + (drop_bit TRIE_WIDTH_BITS (local - start) + parent_start))))))"

definition bucket_root_node_id :: "bucket_id \<Rightarrow> node_id" where
  "bucket_root_node_id b = ucast b + STARTING_NODE_ID ! (MAIN_TRIE_LEVELS - 1)"

definition subtree_leaf_for_key :: "salt_key \<Rightarrow> node_id" where
  "subtree_leaf_for_key k =
     push_bit BUCKET_SLOT_BITS (ucast (key_bucket_id k))
     + drop_bit MIN_BUCKET_SIZE_BITS (key_slot_id k)
     + STARTING_NODE_ID ! (MAX_SUBTREE_LEVELS - 1)"

definition subtree_leaf_start_key :: "node_id \<Rightarrow> salt_key" where
  "subtree_leaf_start_key node =
     (let local = get_local_number node;
          bucket = node - local;
          relative = local - STARTING_NODE_ID ! (MAX_SUBTREE_LEVELS - 1)
      in bucket + push_bit MIN_BUCKET_SIZE_BITS relative)"

text \<open>
  The loop of \<open>subtree_root_level\<close>, with \<open>level\<close> a \<open>usize\<close>: \<open>level -= 1\<close> wraps below 0 when the
  capacity exceeds \<open>256^5\<close>. It stops because the capacity shrinks in every round.
\<close>

lemma shrink_capacity:
  "cap > (256 :: u64) \<Longrightarrow> unat (drop_bit 8 (cap + 255)) < unat cap"
proof -
  assume "cap > (256 :: u64)"
  moreover have "unat (cap + 255) \<le> unat cap + 255"
    by (simp add: unat_word_ariths)
  ultimately show ?thesis
    by (simp add: unat_drop_bit word_less_nat_alt less_mult_imp_div_less div_less_iff_less_mult)
qed

function subtree_root_level_loop :: "u64 \<Rightarrow> usize \<Rightarrow> usize" where
  "subtree_root_level_loop cap level =
     (if cap > of_nat MIN_BUCKET_SIZE
      then subtree_root_level_loop
             (drop_bit MIN_BUCKET_SIZE_BITS (cap + (of_nat MIN_BUCKET_SIZE - 1))) (level - 1)
      else level)"
  by pat_completeness auto
termination
  by (relation "measure (\<lambda>(cap, level). unat cap)")
     (simp_all add: shrink_capacity del: drop_bit_numeral_bit0)

declare subtree_root_level_loop.simps [simp del]

definition subtree_root_level :: "u64 \<Rightarrow> usize" where
  "subtree_root_level cap = subtree_root_level_loop cap (of_nat (MAX_SUBTREE_LEVELS - 1))"

section \<open>Node coordinates\<close>

text \<open>
  A well-formed node is given by its bucket prefix, its level and its position in the level;
  \<open>node_at\<close> is the breadth-first identifier.
\<close>

definition level_start :: "nat \<Rightarrow> nat" where
  "level_start l = (256 ^ l - 1) div 255"

definition node_at :: "bucket_id \<Rightarrow> nat \<Rightarrow> nat \<Rightarrow> node_id" where
  "node_at b level pos = push_bit 40 (ucast b) + of_nat (level_start level + pos)"

definition node_fits :: "bucket_id \<Rightarrow> nat \<Rightarrow> nat \<Rightarrow> bool" where
  "node_fits b level pos \<longleftrightarrow> unat b < 2 ^ 24 \<and> level \<le> 4 \<and> pos < 256 ^ level"

lemma level_cases: "(l :: nat) \<le> 4 \<Longrightarrow> l = 0 \<or> l = 1 \<or> l = 2 \<or> l = 3 \<or> l = 4"
  by auto

lemma level_start_vals [simp]:
  "level_start 0 = 0" "level_start (Suc 0) = 1" "level_start 2 = 257"
  "level_start 3 = 65793" "level_start 4 = 16843009"
  by (simp_all add: level_start_def)

lemma local_bound: "node_fits b l p \<Longrightarrow> level_start l + p < 2 ^ 40"
  using level_cases [of l] by (auto simp: node_fits_def)

lemma unat_local: "n < 2 ^ 40 \<Longrightarrow> unat (of_nat n :: u64) = n"
  by (simp add: unat_of_nat)

lemma unat_node_at:
  "node_fits b l p \<Longrightarrow> unat (node_at b l p) = unat b * 2 ^ 40 + (level_start l + p)"
  using local_bound [of b l p]
  by (simp add: node_at_def node_fits_def unat_simps unat_local)

lemma local_node_at: "node_fits b l p \<Longrightarrow> get_local_number (node_at b l p) = of_nat (level_start l + p)"
  using local_bound [of b l p]
  by (simp add: word_eq_unat get_local_number_def BUCKET_SLOT_ID_MASK_mask unat_and_mask
      unat_node_at unat_local del: of_nat_add)

lemma bucket_node_at:
  "node_fits b l p \<Longrightarrow> node_at b l p - get_local_number (node_at b l p) = push_bit 40 (ucast b)"
  by (simp only: local_node_at) (simp add: node_at_def)

lemma bfs_level_of_nat:
  assumes "l \<le> 4" "p < 256 ^ l"
  shows "get_bfs_level (of_nat (level_start l + p)) = Ok l"
proof -
  have "level_start l + p < 2 ^ 40"
    using assms level_cases [of l] by auto
  then show ?thesis
    using assms level_cases [of l]
    by (auto simp: get_bfs_level_eq word_le_nat_alt unat_local simp del: of_nat_add of_nat_Suc)
qed

lemma level_node_at: "node_fits b l p \<Longrightarrow> get_bfs_level (get_local_number (node_at b l p)) = Ok l"
  by (simp add: local_node_at bfs_level_of_nat node_fits_def del: of_nat_add)

lemma minus_level_start:
  "node_fits b l p \<Longrightarrow> get_local_number (node_at b l p) - of_nat (level_start l) = of_nat p"
  by (simp add: local_node_at)

lemma starting_level_start: "l \<le> 4 \<Longrightarrow> starting_node_id l = Ok (of_nat (level_start l))"
  by (drule level_cases) (elim disjE, simp_all)

lemma node_at_inj:
  assumes "node_fits b l p" "node_fits b' l' p'" "node_at b l p = node_at b' l' p'"
  shows "b = b' \<and> l = l' \<and> p = p'"
proof -
  have eq: "unat b * 2 ^ 40 + (level_start l + p) = unat b' * 2 ^ 40 + (level_start l' + p')"
    using assms unat_node_at by metis
  have "level_start l + p < 2 ^ 40" "level_start l' + p' < 2 ^ 40"
    using assms local_bound by blast+
  with eq have "unat b = unat b' \<and> level_start l + p = level_start l' + p'"
    by (rule mult_add_unique)
  moreover have "l = l'"
    using assms level_node_at by (metis res.inject(1))
  ultimately show ?thesis
    by (simp add: word_eq_unat)
qed

section \<open>Navigation on coordinates\<close>

lemma vc_position_node_at:
  assumes "node_fits b l p"
  shows "vc_position_in_parent (node_at b l p) = Ok (p mod 256)"
proof -
  have "p < 2 ^ 40"
    using local_bound [OF assms] by simp
  then have "unat ((of_nat p :: u64) mod 256) = p mod 256"
    by (simp add: unat_mod unat_local)
  then show ?thesis
    using assms
    by (simp add: vc_position_in_parent_def Let_def local_node_at bfs_level_of_nat
        starting_level_start node_fits_def del: of_nat_add) simp
qed

lemma child_node_at:
  assumes "node_fits b l p" "l < 4" "i < 256"
  shows "get_child_node (node_at b l p) i = Ok (node_at b (l + 1) (256 * p + i))"
proof -
  have "push_bit 8 (of_nat p :: u64) = of_nat (256 * p)"
    by (simp add: push_bit_eq_mult mult.commute)
  then show ?thesis
    using assms
    by (simp add: get_child_node_def Let_def bucket_node_at level_node_at starting_level_start
        minus_level_start)
       (simp add: node_at_def algebra_simps)
qed

lemma child_fits: "node_fits b l p \<Longrightarrow> l < 4 \<Longrightarrow> i < 256 \<Longrightarrow> node_fits b (l + 1) (256 * p + i)"
  by (simp add: node_fits_def)

lemma parent_node_at:
  assumes "node_fits b l p" "0 < l"
  shows "get_parent_node (node_at b l p) = Ok (node_at b (l - 1) (p div 256))"
proof -
  have "p < 2 ^ 40"
    using local_bound [OF assms(1)] by simp
  then have "drop_bit 8 (of_nat p :: u64) = of_nat (p div 256)"
    by (simp add: word_eq_unat unat_drop_bit unat_local order_le_less_trans [OF div_le_dividend])
  moreover have "l \<le> 4" "l - 1 \<le> 4"
    using assms(1) by (auto simp: node_fits_def)
  ultimately show ?thesis
    using assms
    by (simp add: get_parent_node_def Let_def bucket_node_at level_node_at starting_level_start
        minus_level_start)
       (simp add: node_at_def algebra_simps)
qed

lemma parent_fits: "node_fits b l p \<Longrightarrow> 0 < l \<Longrightarrow> node_fits b (l - 1) (p div 256)"
  by (cases l) (auto simp: node_fits_def less_mult_imp_div_less mult.commute)

section \<open>Buckets and subtree leaves\<close>

lemma bucket_root_node_at: "bucket_root_node_id b = node_at 0 3 (unat b)"
  by (simp add: bucket_root_node_id_def node_at_def salt_consts)

lemma bucket_root_fits: "unat b < 2 ^ 24 \<Longrightarrow> node_fits 0 3 (unat b)"
  by (simp add: node_fits_def)

lemma leaf_fits: "key_fits b s \<Longrightarrow> node_fits b 4 (unat s div 256)"
  by (simp add: node_fits_def key_fits_def div_less_iff_less_mult)

lemma subtree_leaf_node_at:
  "subtree_leaf_for_key k = node_at (key_bucket_id k) 4 (unat (key_slot_id k) div 256)"
proof -
  have "drop_bit 8 (key_slot_id k) = of_nat (unat (key_slot_id k) div 256)"
    by (simp add: word_eq_unat unat_drop_bit unat_local order_le_less_trans [OF div_le_dividend]
        unat_key_slot_id)
  then show ?thesis
    by (simp add: subtree_leaf_for_key_def node_at_def salt_consts)
qed

lemma leaf_start_node_at:
  assumes "node_fits b 4 p"
  shows "subtree_leaf_start_key (node_at b 4 p) = salt_key_from b (of_nat (256 * p))"
proof -
  have start: "STARTING_NODE_ID ! (MAX_SUBTREE_LEVELS - 1) = of_nat (level_start 4)"
    by (simp add: salt_consts)
  have "subtree_leaf_start_key (node_at b 4 p) = push_bit 40 (ucast b) + push_bit 8 (of_nat p)"
    unfolding subtree_leaf_start_key_def Let_def start bucket_node_at [OF assms]
      minus_level_start [OF assms] by simp
  then show ?thesis
    by (simp add: salt_key_from_def push_bit_eq_mult mult.commute)
qed

section \<open>The level of a subtree root\<close>

lemma ceil_div_le: "(c + 255) div 256 \<le> (m :: nat) \<longleftrightarrow> c \<le> 256 * m"
  using div_less_iff_less_mult [of 256 "c + 255" "Suc m"] by (auto simp: less_Suc_eq_le)

lemma subtree_root_level_loop_spec:
  assumes "unat cap \<le> 256 ^ (n + 1)" "n \<le> 4"
  shows "\<exists>l \<le> n. subtree_root_level_loop cap (of_nat n) = of_nat l
    \<and> unat cap \<le> 256 ^ (n - l + 1) \<and> (l < n \<longrightarrow> 256 ^ (n - l) < unat cap)"
  using assms
proof (induction n arbitrary: cap)
  case 0
  then show ?case
    by (simp add: subtree_root_level_loop.simps word_less_nat_alt)
next
  case (Suc n)
  show ?case
  proof (cases "cap > 256")
    case False
    then show ?thesis
      by (intro exI [of _ "Suc n"])
         (simp add: subtree_root_level_loop.simps [of cap] word_less_nat_alt)
  next
    case True
    let ?c = "drop_bit 8 (cap + 255)"
    have "(256 :: nat) ^ (Suc n + 1) \<le> 256 ^ 5"
      by (rule power_increasing) (use Suc.prems in auto)
    then have c: "unat ?c = (unat cap + 255) div 256"
      using Suc.prems by (simp add: unat_drop_bit unat_add_small)
    have le: "unat ?c \<le> m \<longleftrightarrow> unat cap \<le> 256 * m" for m
      by (simp add: c ceil_div_le)
    obtain l where l: "l \<le> n" "subtree_root_level_loop ?c (of_nat n) = of_nat l"
        "unat ?c \<le> 256 ^ (n - l + 1)" "l < n \<longrightarrow> 256 ^ (n - l) < unat ?c"
      using Suc.IH [of ?c] Suc.prems le [of "256 ^ (n + 1)"] by auto
    have "subtree_root_level_loop cap (of_nat (Suc n)) = of_nat l"
      using True l(2) by (simp add: subtree_root_level_loop.simps [of cap])
    moreover have "unat cap \<le> 256 ^ (Suc n - l + 1)"
      using l(1,3) le by (simp add: Suc_diff_le)
    moreover have "256 ^ (Suc n - l) < unat cap"
      using l(1,4) le [of "256 ^ (n - l)"] True
      by (cases "l = n") (auto simp: Suc_diff_le word_less_nat_alt not_le [symmetric])
    ultimately show ?thesis
      using l(1) by (intro exI [of _ l]) simp
  qed
qed

lemma subtree_root_level_spec:
  assumes "unat cap \<le> 2 ^ 40"
  shows "\<exists>l \<le> 4. subtree_root_level cap = of_nat l \<and> unat cap \<le> 256 ^ (5 - l)
    \<and> (l < 4 \<longrightarrow> 256 ^ (4 - l) < unat cap)"
proof -
  have "\<exists>l \<le> 4. subtree_root_level_loop cap (of_nat 4) = of_nat l
    \<and> unat cap \<le> 256 ^ (4 - l + 1) \<and> (l < 4 \<longrightarrow> 256 ^ (4 - l) < unat cap)"
    by (rule subtree_root_level_loop_spec) (use assms in simp_all)
  moreover have "4 - l + 1 = 5 - l" if "l \<le> 4" for l :: nat
    using that by simp
  ultimately show ?thesis
    unfolding subtree_root_level_def by (metis const_vals(5) diff_add_inverse2 numeral_plus_one
        semiring_norm(3) semiring_norm(5))
qed

section \<open>Properties\<close>

text \<open>Child and parent: the parent of child \<open>i\<close> of a node is the node, and the child's position
  in its parent's vector commitment is \<open>i\<close>, in the main trie and in every bucket subtree.\<close>
theorem child_parent_roundtrip:
  assumes "node_fits b l p" "l < 4" "i < 256"
  shows "\<exists>c. get_child_node (node_at b l p) i = (Ok c :: (_, 'e) res) \<and>
    get_parent_node c = (Ok (node_at b l p) :: (_, 'e) res) \<and>
    vc_position_in_parent c = (Ok i :: (_, 'e) res)"
proof (intro exI conjI)
  have fits: "node_fits b (l + 1) (256 * p + i)"
    by (rule child_fits [OF assms])
  show "get_child_node (node_at b l p) i = (Ok (node_at b (l + 1) (256 * p + i)) :: (_, 'e) res)"
    by (rule child_node_at [OF assms])
  show "get_parent_node (node_at b (l + 1) (256 * p + i)) = (Ok (node_at b l p) :: (_, 'e) res)"
    using parent_node_at [OF fits, where 'a='e] assms(3) by simp
  show "vc_position_in_parent (node_at b (l + 1) (256 * p + i)) = (Ok i :: (_, 'e) res)"
    using vc_position_node_at [OF fits, where 'a='e] assms(3) by simp
qed

theorem child_parent_roundtrip_witness:
  "\<exists>c. get_child_node (node_at 0 3 100000) 7 = (Ok c :: (_, unit) res) \<and>
    vc_position_in_parent c = (Ok 7 :: (_, unit) res)"
  using child_parent_roundtrip [of 0 3 100000 7, where 'e=unit] by (auto simp: node_fits_def)

text \<open>Navigation off the tree panics: there is no child of a level-4 node and no parent of a
  root.\<close>
theorem navigation_panics:
  "(node_fits b 4 p \<longrightarrow> get_child_node (node_at b 4 p) i = (Panic :: (_, 'e) res)) \<and>
   (node_fits b 0 p \<longrightarrow> get_parent_node (node_at b 0 p) = (Panic :: (_, 'e) res))"
  by (simp add: get_child_node_def get_parent_node_def Let_def level_node_at starting_node_id_panic)

theorem navigation_panics_witness:
  "get_child_node (node_at 70000 4 3) 0 = (Panic :: (_, unit) res) \<and>
   get_parent_node (node_at 0 0 0) = (Panic :: (_, unit) res)"
  using navigation_panics [of 70000 3 0, where 'e=unit] navigation_panics [of 0 0 0, where 'e=unit]
  by (simp add: node_fits_def)

text \<open>The subtree leaf of a key starts at the key's slot rounded down to a multiple of 256, in
  the same bucket.\<close>
theorem subtree_leaf_roundtrip:
  "key_bucket_id (subtree_leaf_start_key (subtree_leaf_for_key k)) = key_bucket_id k \<and>
   unat (key_slot_id (subtree_leaf_start_key (subtree_leaf_for_key k))) = unat (key_slot_id k) div 256 * 256"
proof -
  let ?b = "key_bucket_id k" and ?p = "unat (key_slot_id k) div 256"
  have start: "subtree_leaf_start_key (subtree_leaf_for_key k) = salt_key_from ?b (of_nat (256 * ?p))"
    unfolding subtree_leaf_node_at by (rule leaf_start_node_at [OF leaf_fits]) simp
  have "256 * ?p \<le> unat (key_slot_id k)"
    by simp
  moreover have k: "unat ?b < 2 ^ 24" "unat (key_slot_id k) < 2 ^ 40"
    using key_fits_parts [of k] unfolding key_fits_def by blast+
  ultimately have p: "256 * ?p < 2 ^ 40"
    by linarith
  then have "unat (of_nat (256 * ?p) :: u64) = 256 * ?p"
    by (rule unat_local)
  moreover from this have "key_fits ?b (of_nat (256 * ?p))"
    using k p unfolding key_fits_def by simp
  ultimately show ?thesis
    unfolding start by (simp only: key_bucket_id_from key_slot_id_from) simp
qed

end
