(* ===== verification/Shape.thy ===== *)
theory Shape
  imports Node_Utils BTree_Map
begin

text \<open>
  Which nodes and which positions a proof has to open, \<open>salt/src/proof/shape.rs\<close>:
  \<open>parents_and_points\<close> and the encoding of the bridge between the main trie and a bucket's
  subtree in a node identifier. A \<open>BTreeMap<NodeId, BTreeSet<usize>>\<close> is a map to sets of
  positions. The theory then states declaratively which (parent, position) pairs lie on the
  authentication path of a key and shows that the code collects exactly those, whatever the
  order of the keys; this justifies the sequential reading of the parallel \<open>reduce!\<close>.
\<close>

type_synonym points = "(node_id, nat set) btree"
type_synonym bucket_levels = "(bucket_id, u8) btree"

section \<open>Encoded parents\<close>

definition encode_parent :: "node_id \<Rightarrow> u8 \<Rightarrow> node_id" where
  "encode_parent parent level = parent OR push_bit 33 (ucast level)"

definition is_encoded_node :: "node_id \<Rightarrow> bool" where
  "is_encoded_node n \<longleftrightarrow> n AND push_bit 33 0x07 \<noteq> 0"

definition connect_parent_id :: "node_id \<Rightarrow> node_id" where
  "connect_parent_id n = (if is_encoded_node n then n AND (push_bit 33 1 - 1) else n)"

text \<open>
  \<open>MAX_SUBTREE_LEVELS - levels as usize\<close> wraps for more than five levels, and the table access
  panics.
\<close>

definition logic_parent_id :: "node_id \<Rightarrow> (node_id, 'e) res" where
  "logic_parent_id n =
     (if is_encoded_node n
      then let connect_parent = n AND (push_bit 33 1 - 1);
               levels = (ucast (drop_bit 33 n) :: u8);
               bucket = connect_parent - STARTING_NODE_ID ! 3
           in if MAX_SUBTREE_LEVELS < unat levels then Panic
              else bind_res (starting_node_id (MAX_SUBTREE_LEVELS - unat levels)) (\<lambda>start.
                   Ok (start OR push_bit BUCKET_SLOT_BITS bucket))
      else Ok n)"

section \<open>Collecting points\<close>

definition points_at :: "points \<Rightarrow> node_id \<Rightarrow> nat set" where
  "points_at m n = (case bt_get m n of Some s \<Rightarrow> s | None \<Rightarrow> {})"

text \<open>\<open>map.entry(parent).or_default().insert(position)\<close>\<close>

definition add_point :: "node_id \<Rightarrow> nat \<Rightarrow> points \<Rightarrow> points" where
  "add_point n i m = bt_insert n (insert i (points_at m n)) m"

definition merge_points :: "points \<Rightarrow> points \<Rightarrow> points" where
  "merge_points m acc = fold (\<lambda>(n, ps) acc. bt_insert n (points_at acc n \<union> ps) acc) m acc"

lemma bind_res_cong [fundef_cong]:
  "r = r' \<Longrightarrow> (\<And>a. r' = Ok a \<Longrightarrow> f a = g a) \<Longrightarrow> bind_res r f = bind_res r' g"
  by (cases r') auto

lemma bfs_level_bounds:
  assumes "get_bfs_level n = Ok l" "starting_node_id l = Ok start"
  shows "l \<le> 4 \<and> start = of_nat (level_start l) \<and> level_start l \<le> unat n"
proof -
  have "l \<le> 4"
    using assms(2) by (simp add: starting_node_id_def salt_consts split: if_splits)
  then show ?thesis
    using assms level_cases [of l] starting_level_start [of l]
    by (auto simp: get_bfs_level_eq word_le_nat_alt split: if_splits)
qed

lemma local_add_bucket: "unat (n - get_local_number n) + unat (get_local_number n) = unat n"
proof -
  have "unat (get_local_number n) \<le> unat n"
    by (simp add: get_local_number_def BUCKET_SLOT_ID_MASK_mask unat_and_mask)
  then show ?thesis
    by (simp add: unat_sub_le)
qed

text \<open>A parent has a smaller identifier, so the walk towards the root ends.\<close>

lemma parent_smaller:
  assumes "get_parent_node n = (Ok p :: (_, 'e) res)"
  shows "unat p < unat n"
proof -
  define m where "m = get_local_number n"
  obtain l start pstart where l: "get_bfs_level m = (Ok l :: (_, 'e) res)"
      "starting_node_id l = (Ok start :: (_, 'e) res)" "l \<noteq> 0"
      "starting_node_id (l - 1) = (Ok pstart :: (_, 'e) res)"
      and p: "p = (n - m) + (drop_bit 8 (m - start) + pstart)"
    using assms
    by (auto simp: get_parent_node_def Let_def bind_res_Ok_iff m_def split: if_splits)
  have b: "l \<le> 4" "start = of_nat (level_start l)" "level_start l \<le> unat m"
    using bfs_level_bounds [OF l(1,2)] by auto
  have ps: "pstart = of_nat (level_start (l - 1))"
    using l(4) b(1) by (simp add: starting_level_start)
  have sum: "unat (n - m) + unat m = unat n"
    unfolding m_def by (rule local_add_bucket)
  have m64: "unat m < 2 ^ 64"
    by (rule unat_u64_less)
  have small: "level_start l < 2 ^ 64" "level_start (l - 1) < 2 ^ 64" "level_start (l - 1) < level_start l"
      "l \<noteq> 0"
    using level_cases [OF b(1)] l(3) by auto
  have d: "unat (drop_bit 8 (m - start)) = (unat m - level_start l) div 256"
    using b small by (simp add: unat_drop_bit unat_sub_le unat_of_nat)
  have lt: "(unat m - level_start l) div 256 + level_start (l - 1) < unat m"
    using b(3) small(3) div_le_dividend [of "unat m - level_start l" 256] by linarith
  have q: "unat (drop_bit 8 (m - start) + pstart) = (unat m - level_start l) div 256 + level_start (l - 1)"
    using lt m64 small by (subst unat_add_small) (simp_all add: d ps unat_of_nat)
  have "unat p = unat (n - m) + ((unat m - level_start l) div 256 + level_start (l - 1))"
    unfolding p using q lt sum unat_u64_less [of n] by (subst unat_add_small) simp_all
  then show ?thesis
    using lt sum by linarith
qed

text \<open>Phase 1: from the bucket root to the root of the main trie.\<close>

function main_path :: "node_id \<Rightarrow> points \<Rightarrow> (points, 'e) res" where
  "main_path node internal =
     (if node \<noteq> 0
      then bind_res (get_parent_node node) (\<lambda>parent.
           bind_res (vc_position_in_parent node) (\<lambda>pos.
           main_path parent (add_point parent pos internal)))
      else Ok internal)"
  by pat_completeness auto
termination
  by (relation "measure (\<lambda>(node, internal). unat node)") (simp_all add: parent_smaller)

text \<open>Phase 2: from the leaf segment up to the level below the subtree's root.\<close>

function bucket_path :: "node_id \<Rightarrow> u8 \<Rightarrow> points \<Rightarrow> (node_id \<times> u8 \<times> points, 'e) res" where
  "bucket_path node count internal =
     (if 2 < count
      then bind_res (get_parent_node node) (\<lambda>parent.
           bind_res (vc_position_in_parent node) (\<lambda>pos.
           bucket_path parent (count - 1) (add_point parent pos internal)))
      else Ok (node, count, internal))"
  by pat_completeness auto
termination
  by (relation "measure (\<lambda>(node, count, internal). unat count)")
     (auto simp: word_less_nat_alt unat_sub_le)

declare main_path.simps [simp del] bucket_path.simps [simp del]

text \<open>The four phases for one key; a bucket without a level makes the index \<open>levels[..]\<close> panic.\<close>

definition key_points :: "bucket_levels \<Rightarrow> salt_key \<Rightarrow> (points \<times> points, 'e) res" where
  "key_points levels k =
     (case bt_get levels (key_bucket_id k) of
        None \<Rightarrow> Panic
      | Some level \<Rightarrow>
          bind_res (main_path (bucket_root_node_id (key_bucket_id k)) []) (\<lambda>internal.
          bind_res (bucket_path (subtree_leaf_for_key k) level internal) (\<lambda>(node, count, internal).
          bind_res (if count = 2
                    then bind_res (vc_position_in_parent node) (\<lambda>pos.
                           Ok (add_point (encode_parent (bucket_root_node_id (key_bucket_id k)) level)
                                 pos internal))
                    else Ok internal) (\<lambda>internal.
          let node = if level = 1 then bucket_root_node_id (key_bucket_id k)
                     else subtree_leaf_for_key k
          in Ok (internal, add_point node (unat (key_slot_id k AND 0xFF)) [])))))"

definition parents_and_points ::
  "salt_key list \<Rightarrow> bucket_levels \<Rightarrow> (points \<times> points, 'e) res"
where
  "parents_and_points keys levels =
     map_res (\<lambda>ps. fold (\<lambda>(im, sm) acc. (merge_points im (fst acc), merge_points sm (snd acc)))
                     ps ([], []))
       (map_collect (key_points levels) keys)"

section \<open>Sets of edges\<close>

text \<open>The (parent, position) pairs of a point map; no node of it has an empty set.\<close>

definition edges :: "points \<Rightarrow> (node_id \<times> nat) set" where
  "edges m = {(n, i). i \<in> points_at m n}"

definition pts_ok :: "points \<Rightarrow> bool" where
  "pts_ok m \<longleftrightarrow> bt_ok m \<and> (\<forall>(n, s) \<in> set m. s \<noteq> {} \<and> finite s)"

lemma in_edges: "(n, i) \<in> edges m \<longleftrightarrow> i \<in> points_at m n"
  by (simp add: edges_def)

lemma edges_Nil [simp]: "edges [] = {}"
  by (simp add: edges_def points_at_def)

lemma pts_ok_Nil [simp]: "pts_ok []"
  by (simp add: pts_ok_def)

lemma pts_ok_bt: "pts_ok m \<Longrightarrow> bt_ok m"
  by (simp add: pts_ok_def)

lemma points_at_in: "pts_ok m \<Longrightarrow> (n, s) \<in> set m \<Longrightarrow> points_at m n = s"
  by (simp add: points_at_def pts_ok_def bt_get_in)

lemma points_at_finite: "pts_ok m \<Longrightarrow> finite (points_at m n)"
  by (auto simp: points_at_def pts_ok_def split: option.splits dest: bt_get_Some_in)

lemma in_edges_iff: "pts_ok m \<Longrightarrow> (n, i) \<in> edges m \<longleftrightarrow> (\<exists>s. (n, s) \<in> set m \<and> i \<in> s)"
  by (simp add: edges_def points_at_def pts_ok_def bt_get_iff_in [symmetric] split: option.splits)

lemma pts_ok_keys: "pts_ok m \<Longrightarrow> fst ` set m = fst ` edges m"
proof -
  assume ok: "pts_ok m"
  have "n \<in> fst ` set m \<longleftrightarrow> (\<exists>i. (n, i) \<in> edges m)" for n
  proof -
    have "n \<in> fst ` set m \<longleftrightarrow> (\<exists>s. bt_get m n = Some s)"
      using set_keys_dom [of m] by (auto simp: dom_def)
    also have "\<dots> \<longleftrightarrow> (\<exists>i. (n, i) \<in> edges m)"
      using ok by (auto simp: in_edges points_at_def pts_ok_def split: option.splits dest!: bt_get_Some_in)
    finally show ?thesis .
  qed
  then show ?thesis
    by force
qed

lemma points_at_insert: "points_at (bt_insert n s m) x = (if x = n then s else points_at m x)"
  by (simp add: points_at_def)

lemma pts_ok_insert: "pts_ok m \<Longrightarrow> s \<noteq> {} \<Longrightarrow> finite s \<Longrightarrow> pts_ok (bt_insert n s m)"
  using set_bt_insert [of n s m] by (fastforce simp: pts_ok_def)

lemma edges_add_point [simp]: "edges (add_point n i m) = insert (n, i) (edges m)"
  by (auto simp: edges_def add_point_def points_at_insert split: if_splits)

lemma pts_ok_add_point [simp]: "pts_ok m \<Longrightarrow> pts_ok (add_point n i m)"
  by (simp add: add_point_def pts_ok_insert points_at_finite)

lemma merge_points_spec:
  assumes "pts_ok m" "pts_ok acc"
  shows "pts_ok (merge_points m acc) \<and> edges (merge_points m acc) = edges m \<union> edges acc"
proof -
  have *: "pts_ok (merge_points xs acc) \<and>
      edges (merge_points xs acc) = {(n, i). \<exists>s. (n, s) \<in> set xs \<and> i \<in> s} \<union> edges acc"
    if "\<forall>(n, s) \<in> set xs. s \<noteq> {} \<and> finite s" "pts_ok acc" for xs acc
    using that
  proof (induction xs arbitrary: acc)
    case Nil
    then show ?case by (simp add: merge_points_def)
  next
    case (Cons x xs)
    obtain n s where x: "x = (n, s)" by (cases x)
    let ?acc = "bt_insert n (points_at acc n \<union> s) acc"
    have "pts_ok ?acc"
      using Cons.prems by (simp add: x pts_ok_insert points_at_finite)
    moreover have "edges ?acc = {n} \<times> s \<union> edges acc"
      by (auto simp: edges_def points_at_insert split: if_splits)
    ultimately show ?case
      using Cons.IH [of ?acc] Cons.prems by (auto simp: merge_points_def x)
  qed
  have "{(n, i). \<exists>s. (n, s) \<in> set m \<and> i \<in> s} = edges m"
    using in_edges_iff [OF assms(1)] by auto
  with * [OF _ assms(2), of m] show ?thesis
    using assms(1) by (simp add: pts_ok_def)
qed

text \<open>The edges determine the map.\<close>

lemma pts_unique:
  assumes "pts_ok m" "pts_ok m'" "edges m = edges m'"
  shows "m = m'"
proof (rule bt_ext)
  have *: "bt_get m n = (if points_at m n = {} then None else Some (points_at m n))" if "pts_ok m" for m n
    using that by (auto simp: points_at_def pts_ok_def split: option.splits dest: bt_get_Some_in)
  have "points_at m n = points_at m' n" for n
    using assms(3) in_edges [of n] by blast
  then show "bt_get m = bt_get m'"
    by (simp add: fun_eq_iff * [OF assms(1)] * [OF assms(2)])
qed (use assms in \<open>simp_all add: pts_ok_def\<close>)

section \<open>The authentication path of a key\<close>

text \<open>The edges met when climbing \<open>c\<close> levels from the node at level \<open>l\<close> and position \<open>p\<close>.\<close>

definition climb :: "bucket_id \<Rightarrow> nat \<Rightarrow> nat \<Rightarrow> nat \<Rightarrow> (node_id \<times> nat) set" where
  "climb b l p c =
     (\<lambda>i. (node_at b (l - Suc i) (p div 256 ^ Suc i), p div 256 ^ i mod 256)) ` {..<c}"

definition internal_edges :: "bucket_id \<Rightarrow> nat \<Rightarrow> u8 \<Rightarrow> (node_id \<times> nat) set" where
  "internal_edges b s level =
     climb 0 3 (unat b) 3 \<union>
     (if 2 \<le> level
      then insert (encode_parent (bucket_root_node_id b) level, s div 256 ^ (unat level - 1) mod 256)
             (climb b 4 (s div 256) (unat level - 2))
      else {})"

definition leaf_edge :: "bucket_id \<Rightarrow> nat \<Rightarrow> u8 \<Rightarrow> node_id \<times> nat" where
  "leaf_edge b s level =
     (if level = 1 then bucket_root_node_id b else node_at b 4 (s div 256), s mod 256)"

lemma climb_0 [simp]: "climb b l p 0 = {}"
  by (simp add: climb_def)

lemma climb_Suc:
  "climb b l p (Suc c) = insert (node_at b (l - 1) (p div 256), p mod 256) (climb b (l - 1) (p div 256) c)"
  unfolding climb_def lessThan_Suc_eq_insert_0
  by (simp add: image_image div_mult2_eq)

lemma node_at_0_iff: "node_fits 0 l p \<Longrightarrow> node_at 0 l p = 0 \<longleftrightarrow> l = 0"
  using unat_node_at [of 0 l p] level_cases [of l] by (auto simp: word_eq_unat node_fits_def)

lemma main_path_climb:
  assumes "node_fits 0 l p" "pts_ok m"
  shows "\<exists>m'. main_path (node_at 0 l p) m = Ok m' \<and> pts_ok m' \<and> edges m' = edges m \<union> climb 0 l p l"
  using assms
proof (induction l arbitrary: p m)
  case 0
  then show ?case
    by (simp add: main_path.simps node_at_0_iff)
next
  case (Suc l)
  then show ?case
    using Suc.IH [of "p div 256" "add_point (node_at 0 l (p div 256)) (p mod 256) m"] parent_fits [of 0 "Suc l" p]
    by (simp add: main_path.simps [of "node_at 0 (Suc l) p"] node_at_0_iff parent_node_at
        vc_position_node_at climb_Suc Un_insert_left)
qed

lemma bucket_path_climb:
  assumes "node_fits b l p" "pts_ok m" "unat count = c + 2" "c \<le> l"
  shows "\<exists>m'. bucket_path (node_at b l p) count m = Ok (node_at b (l - c) (p div 256 ^ c), 2, m') \<and>
    pts_ok m' \<and> edges m' = edges m \<union> climb b l p c"
  using assms
proof (induction c arbitrary: l p m count)
  case 0
  then have "count = 2"
    by (simp add: word_eq_unat)
  then show ?case
    using 0 by (simp add: bucket_path.simps)
next
  case (Suc c)
  have count: "2 < count" "unat (count - 1) = c + 2"
    using Suc.prems(3) by (simp_all add: word_less_nat_alt unat_sub_le)
  then show ?case
    using Suc.IH [of "l - 1" "p div 256" "add_point (node_at b (l - 1) (p div 256)) (p mod 256) m" "count - 1"]
      Suc.prems parent_fits [of b l p]
    by (simp add: bucket_path.simps [of "node_at b l p"] parent_node_at vc_position_node_at climb_Suc
        div_mult2_eq)
qed

text \<open>What one key contributes, and what all keys contribute.\<close>

definition level_ok :: "bucket_levels \<Rightarrow> bucket_id \<Rightarrow> bool" where
  "level_ok levels b \<longleftrightarrow> (\<exists>L. bt_get levels b = Some L \<and> 1 \<le> L \<and> L \<le> 5)"

definition level_of :: "bucket_levels \<Rightarrow> bucket_id \<Rightarrow> u8" where
  "level_of levels b = (case bt_get levels b of Some L \<Rightarrow> L | None \<Rightarrow> 1)"

definition key_internal :: "bucket_levels \<Rightarrow> salt_key \<Rightarrow> (node_id \<times> nat) set" where
  "key_internal levels k =
     internal_edges (key_bucket_id k) (unat (key_slot_id k)) (level_of levels (key_bucket_id k))"

definition key_leaf :: "bucket_levels \<Rightarrow> salt_key \<Rightarrow> node_id \<times> nat" where
  "key_leaf levels k =
     leaf_edge (key_bucket_id k) (unat (key_slot_id k)) (level_of levels (key_bucket_id k))"

lemma level_okD: "level_ok levels b \<Longrightarrow> bt_get levels b = Some (level_of levels b) \<and>
    1 \<le> level_of levels b \<and> level_of levels b \<le> 5"
  by (auto simp: level_ok_def level_of_def)

lemma unat_and_FF: "unat ((s :: u64) AND 0xFF) = unat s mod 256"
proof -
  have "s AND 0xFF = s AND mask 8"
    by (simp add: mask_eq_exp_minus_1)
  then show ?thesis
    by (simp only: unat_and_mask) simp
qed

lemma key_bucket_small: "unat (key_bucket_id k) < 2 ^ 24"
  using unat_u64_less [of k] by (simp add: unat_key_bucket_id less_mult_imp_div_less)

lemma key_slot_small: "unat (key_slot_id k) < 2 ^ 40"
  by (simp add: unat_key_slot_id)

lemma key_leaf_fits: "node_fits (key_bucket_id k) 4 (unat (key_slot_id k) div 256)"
  using key_bucket_small [of k] key_slot_small [of k]
  by (simp add: node_fits_def less_mult_imp_div_less)

lemma key_points_spec:
  assumes "level_ok levels (key_bucket_id k)"
  shows "\<exists>im sm. key_points levels k = (Ok (im, sm) :: (_, 'e) res) \<and> pts_ok im \<and> pts_ok sm \<and>
    edges im = key_internal levels k \<and> edges sm = {key_leaf levels k}"
proof -
  let ?b = "key_bucket_id k" and ?s = "unat (key_slot_id k)"
  define L where "L = level_of levels ?b"
  have L: "bt_get levels ?b = Some L" "1 \<le> L" "L \<le> 5"
    using level_okD [OF assms] by (simp_all add: L_def)
  obtain m1 where m1: "main_path (bucket_root_node_id ?b) [] = (Ok m1 :: (_, 'e) res)" "pts_ok m1"
      "edges m1 = climb 0 3 (unat ?b) 3"
    using main_path_climb [OF bucket_root_fits [OF key_bucket_small], of "[]"]
    by (auto simp: bucket_root_node_at)
  show ?thesis
  proof (cases "L = 1")
    case True
    have "bucket_path (subtree_leaf_for_key k) 1 m1 = (Ok (subtree_leaf_for_key k, 1, m1) :: (_, 'e) res)"
      by (simp add: bucket_path.simps)
    then show ?thesis
      using m1 L True
      by (simp add: key_points_def Let_def key_internal_def internal_edges_def key_leaf_def
          leaf_edge_def unat_and_FF word_le_nat_alt flip: L_def)
  next
    case False
    have uL: "2 \<le> unat L" "unat L \<le> 5"
      using L False by (auto simp: word_le_nat_alt word_eq_unat)
    then have L2: "2 \<le> L"
      by (simp add: word_le_nat_alt)
    define c where "c = unat L - 2"
    have c: "unat L = c + 2" "c \<le> 4"
      using uL by (simp_all add: c_def)
    let ?p = "?s div 256"
    obtain m2 where m2: "bucket_path (node_at ?b 4 ?p) L m1 =
          (Ok (node_at ?b (4 - c) (?p div 256 ^ c), 2, m2) :: (_, 'e) res)"
        "pts_ok m2" "edges m2 = climb 0 3 (unat ?b) 3 \<union> climb ?b 4 ?p c"
      using bucket_path_climb [OF key_leaf_fits [of k] m1(2) c] m1(3) by auto
    have "node_fits ?b (4 - c) (?p div 256 ^ c)"
      using key_leaf_fits [of k] c(2) level_cases [OF c(2)]
      by (auto simp: node_fits_def less_mult_imp_div_less)
    then have pos: "vc_position_in_parent (node_at ?b (4 - c) (?p div 256 ^ c)) =
        (Ok (?s div 256 ^ (unat L - 1) mod 256) :: (_, 'e) res)"
      by (simp add: vc_position_node_at c div_mult2_eq)
    show ?thesis
      using m1 m2 L L2 False pos
      by (simp add: key_points_def Let_def key_internal_def internal_edges_def key_leaf_def
          leaf_edge_def unat_and_FF subtree_leaf_node_at flip: L_def c_def)
  qed
qed

lemma parents_and_points_spec:
  assumes "\<forall>k \<in> set keys. level_ok levels (key_bucket_id k)"
  shows "\<exists>im sm. parents_and_points keys levels = (Ok (im, sm) :: (_, 'e) res) \<and> pts_ok im \<and>
    pts_ok sm \<and> edges im = (\<Union>k \<in> set keys. key_internal levels k) \<and>
    edges sm = key_leaf levels ` set keys"
proof -
  let ?step = "\<lambda>(im, sm) acc. (merge_points im (fst acc), merge_points sm (snd acc))"
  define kp where "kp k = (SOME r. key_points levels k = (Ok r :: (_, 'e) res))" for k
  have kp: "key_points levels k = (Ok (kp k) :: (_, 'e) res)" "pts_ok (fst (kp k))" "pts_ok (snd (kp k))"
      "edges (fst (kp k)) = key_internal levels k" "edges (snd (kp k)) = {key_leaf levels k}"
    if "k \<in> set keys" for k
    using key_points_spec [of levels k, where 'e='e] that assms by (auto simp: kp_def)
  have fold: "pts_ok (fst (fold ?step (map kp ks) acc)) \<and> pts_ok (snd (fold ?step (map kp ks) acc)) \<and>
      edges (fst (fold ?step (map kp ks) acc)) = (\<Union>k \<in> set ks. key_internal levels k) \<union> edges (fst acc) \<and>
      edges (snd (fold ?step (map kp ks) acc)) = key_leaf levels ` set ks \<union> edges (snd acc)"
    if "set ks \<subseteq> set keys" "pts_ok (fst acc)" "pts_ok (snd acc)" for ks acc
    using that
  proof (induction ks arbitrary: acc)
    case Nil
    then show ?case by simp
  next
    case (Cons k ks)
    have k: "k \<in> set keys"
      using Cons.prems by simp
    obtain im sm where ims: "kp k = (im, sm)" by (cases "kp k")
    show ?case
      using Cons.IH [of "?step (kp k) acc"] Cons.prems kp [OF k]
        merge_points_spec [of im "fst acc"] merge_points_spec [of sm "snd acc"]
      by (auto simp: ims)
  qed
  have "map_collect (key_points levels) keys = (Ok (map kp keys) :: (_, 'e) res)"
    by (rule map_collect_Ok) (rule kp(1))
  then show ?thesis
    using fold [of keys "([], [])"] unfolding parents_and_points_def
    by (cases "fold ?step (map kp keys) ([], [])") simp
qed

section \<open>The bridge encoding\<close>

lemma level_start_fits33: "l \<le> 4 \<Longrightarrow> p < 256 ^ l \<Longrightarrow> level_start l + p < 2 ^ 33"
  using level_cases [of l] by auto

lemma push_7: "push_bit 33 (0x07 :: u64) = push_bit 33 (mask 3)"
  by (simp add: mask_eq_exp_minus_1)

lemma bit_33: "is_encoded_node n \<longleftrightarrow> unat n div 2 ^ 33 mod 8 \<noteq> 0"
proof -
  have "n AND push_bit 33 (mask 3) = push_bit 33 (take_bit 3 (drop_bit 33 n))"
    by (rule bit_word_eqI) (auto simp: bit_simps)
  moreover have "unat (take_bit 3 (drop_bit 33 n)) = unat n div 2 ^ 33 mod 8"
    by (simp add: take_bit_eq_mask unat_and_mask unat_drop_bit)
  moreover have "push_bit 33 (take_bit 3 (drop_bit 33 n)) = 0 \<longleftrightarrow> take_bit 3 (drop_bit 33 n) = 0"
  proof
    assume "push_bit 33 (take_bit 3 (drop_bit 33 n)) = 0"
    then have "drop_bit 33 (push_bit 33 (take_bit 3 (drop_bit 33 n))) = 0"
      by simp
    moreover have "drop_bit 33 (push_bit 33 (take_bit 3 (drop_bit 33 n))) = take_bit 3 (drop_bit 33 n)"
      by (rule bit_word_eqI) (auto simp: bit_simps)
    ultimately show "take_bit 3 (drop_bit 33 n) = 0"
      by simp
  qed simp
  ultimately show ?thesis
    unfolding is_encoded_node_def push_7 by (simp add: word_eq_unat [of "take_bit 3 _"])
qed

lemma node_at_not_encoded:
  assumes "node_fits b l p"
  shows "\<not> is_encoded_node (node_at b l p)"
proof -
  have "level_start l + p < 2 ^ 33"
    using assms level_start_fits33 by (simp add: node_fits_def)
  then have "unat (node_at b l p) div 2 ^ 33 = unat b * 2 ^ 7"
    by (simp add: unat_node_at [OF assms])
  then show ?thesis
    by (simp add: bit_33)
qed

lemma push_bit_33_1: "push_bit 33 (1 :: u64) - 1 = mask 33"
  by (simp add: mask_eq_exp_minus_1)

lemma or_high_low: "take_bit k y = y \<Longrightarrow> y OR push_bit k x = y + push_bit k (x :: u64)"
proof -
  assume y: "take_bit k y = y"
  have "y AND push_bit k x = 0"
  proof (rule bit_word_eqI)
    fix n
    have "bit y n \<Longrightarrow> n < k"
      using y by (metis bit_take_bit_iff)
    then show "bit (y AND push_bit k x) n = bit 0 n"
      by (auto simp: bit_simps)
  qed
  then show ?thesis
    by (simp add: disjunctive_add_eq_or)
qed

lemma take_bit_small: "unat (y :: u64) < 2 ^ k \<Longrightarrow> take_bit k y = y"
  by (simp add: word_eq_unat unsigned_take_bit_eq take_bit_nat_eq_self)

text \<open>A bucket with a subtree of one to five levels.\<close>

definition bridge_ok :: "bucket_id \<Rightarrow> u8 \<Rightarrow> bool" where
  "bridge_ok b L \<longleftrightarrow> unat b < 2 ^ 24 \<and> 1 \<le> L \<and> L \<le> 5"

lemma bridge_okD: "bridge_ok b L \<Longrightarrow> unat b < 2 ^ 24 \<and> 1 \<le> unat L \<and> unat L \<le> 5"
  by (simp add: bridge_ok_def word_le_nat_alt)

lemma unat_bucket_root: "unat b < 2 ^ 24 \<Longrightarrow> unat (bucket_root_node_id b) = 65793 + unat b"
  using unat_node_at [OF bucket_root_fits] by (simp add: bucket_root_node_at)

lemma unat_encode:
  "bridge_ok b L \<Longrightarrow> unat (encode_parent (bucket_root_node_id b) L) = 65793 + unat b + unat L * 2 ^ 33"
proof -
  assume "bridge_ok b L"
  then have b: "unat b < 2 ^ 24" and l: "unat L \<le> 5"
    using bridge_okD by auto
  let ?n = "bucket_root_node_id b"
  note root = unat_bucket_root [OF b]
  have n: "unat ?n < 2 ^ 33"
    using b by (simp add: unat_bucket_root)
  have p: "unat (push_bit 33 (ucast L :: u64)) = unat L * 2 ^ 33"
    using l by (simp add: unat_push_bit_small unat_ucast_u8_u64)
  have "encode_parent ?n L = ?n + push_bit 33 (ucast L)"
    unfolding encode_parent_def using n by (intro or_high_low take_bit_small)
  then show ?thesis
    using n l by (simp add: unat_add_small p root)
qed

lemma encode_div:
  "bridge_ok b L \<Longrightarrow> unat (encode_parent (bucket_root_node_id b) L) div 2 ^ 33 = unat L"
  using bridge_okD [of b L] by (simp add: unat_encode)

lemma encode_is_encoded:
  "bridge_ok b L \<Longrightarrow> is_encoded_node (encode_parent (bucket_root_node_id b) L)"
  unfolding bit_33 using bridge_okD [of b L] by (simp only: encode_div) simp

lemma encode_mask:
  "bridge_ok b L \<Longrightarrow> encode_parent (bucket_root_node_id b) L AND (push_bit 33 1 - 1) = bucket_root_node_id b"
  unfolding push_bit_33_1 using bridge_okD [of b L]
  by (simp only: word_eq_unat unat_and_mask unat_encode unat_bucket_root) simp

lemma encode_connect:
  "bridge_ok b L \<Longrightarrow> connect_parent_id (encode_parent (bucket_root_node_id b) L) = bucket_root_node_id b"
  by (simp only: connect_parent_id_def encode_is_encoded encode_mask if_True)

lemma encode_levels:
  "bridge_ok b L \<Longrightarrow> (ucast (drop_bit 33 (encode_parent (bucket_root_node_id b) L)) :: u8) = L"
proof -
  assume b: "bridge_ok b L"
  then have "unat L < 256"
    using bridge_okD by fastforce
  then show ?thesis
    using encode_div [OF b] by (simp add: word_eq_unat unsigned_ucast_eq unat_drop_bit take_bit_eq_mod)
qed

lemma encode_logic:
  "bridge_ok b L \<Longrightarrow> logic_parent_id (encode_parent (bucket_root_node_id b) L) = Ok (node_at b (5 - unat L) 0)"
proof -
  assume b: "bridge_ok b L"
  then have l: "unat L \<le> 5" "5 - unat L \<le> 4"
    using bridge_okD [OF b] by auto
  have bk: "bucket_root_node_id b - STARTING_NODE_ID ! 3 = ucast b"
    by (simp add: bucket_root_node_id_def salt_consts)
  have "unat (of_nat (level_start (5 - unat L)) :: u64) < 2 ^ 40"
    using level_cases [OF l(2)] by (auto simp: unat_of_nat)
  then have "of_nat (level_start (5 - unat L)) OR push_bit 40 (ucast b) = node_at b (5 - unat L) 0"
    unfolding node_at_def by (subst or_high_low [OF take_bit_small]) simp_all
  then show ?thesis
    using l unfolding logic_parent_id_def encode_mask [OF b] encode_levels [OF b] Let_def bk
    by (simp add: encode_is_encoded [OF b] starting_level_start)
qed

section \<open>The path as a list from the root to the slot\<close>

definition auth_path :: "bucket_id \<Rightarrow> nat \<Rightarrow> u8 \<Rightarrow> (node_id \<times> nat) list" where
  "auth_path b s level =
     [(node_at 0 0 0, unat b div 65536), (node_at 0 1 (unat b div 65536), unat b div 256 mod 256),
      (node_at 0 2 (unat b div 256), unat b mod 256)] @
     (if level = 1 then [(bucket_root_node_id b, s mod 256)]
      else (encode_parent (bucket_root_node_id b) level, s div 256 ^ (unat level - 1) mod 256) #
        map (\<lambda>j. (node_at b (6 - unat level + j) (s div 256 ^ (unat level - 1 - j)),
                    s div 256 ^ (unat level - 2 - j) mod 256)) [0..<unat level - 1])"

text \<open>The child a step of the path leads to, as the prover and the verifier compute it.\<close>

definition child_node_id :: "node_id \<Rightarrow> nat \<Rightarrow> (node_id, 'e) res" where
  "child_node_id n i = bind_res (logic_parent_id n) (\<lambda>p. get_child_node p i)"

lemma level_word_cases: "bridge_ok b L \<Longrightarrow> L = 1 \<or> L = 2 \<or> L = 3 \<or> L = 4 \<or> L = 5"
  using bridge_okD [of b L] by (auto simp: word_eq_unat)

lemma upt_small: "[0..<Suc 0] = [0]" "[0..<2] = [0, 1]" "[0..<3] = [0, 1, 2]" "[0..<4] = [0, 1, 2, 3]"
  by (simp_all add: upt_rec numeral_2_eq_2 numeral_3_eq_3)

lemma lessThan_small: "{..<Suc 0} = {0 :: nat}" "{..<2 :: nat} = {0, 1}" "{..<3 :: nat} = {0, 1, 2}"
  by auto

lemma Suc_small: "Suc (Suc 0) = 2" "Suc 2 = 3"
  by simp_all

lemma auth_path_edges:
  assumes "bridge_ok b L"
  shows "set (butlast (auth_path b s L)) = internal_edges b s L \<and>
    last (auth_path b s L) = leaf_edge b s L"
proof -
  have "unat b < 16777216"
    using bridge_okD [OF assms] by simp
  then have b: "unat b div 16777216 = 0" "unat b div 65536 mod 256 = unat b div 65536"
    by (simp_all add: less_mult_imp_div_less)
  from level_word_cases [OF assms] show ?thesis
    by (elim disjE)
       (simp_all add: b auth_path_def internal_edges_def leaf_edge_def climb_def upt_small
         lessThan_small Suc_small word_le_nat_alt div_mult2_eq [symmetric] insert_commute)
qed

text \<open>Every step leads to the node of the next one.\<close>

fun linked :: "(node_id \<Rightarrow> nat \<Rightarrow> (node_id, 'e) res) \<Rightarrow> (node_id \<times> nat) list \<Rightarrow> bool" where
  "linked child ((n, i) # (n', i') # ps) \<longleftrightarrow>
     child n i = Ok (connect_parent_id n') \<and> linked child ((n', i') # ps)"
| "linked child _ \<longleftrightarrow> True"

lemma child_node_at_plain:
  "node_fits a l p \<Longrightarrow> l < 4 \<Longrightarrow> i < 256 \<Longrightarrow>
    child_node_id (node_at a l p) i = Ok (node_at a (l + 1) (256 * p + i))"
  by (simp add: child_node_id_def logic_parent_id_def child_node_at node_at_not_encoded)

lemma child_encode:
  assumes "bridge_ok b L" "2 \<le> unat L" "i < 256"
  shows "child_node_id (encode_parent (bucket_root_node_id b) L) i = Ok (node_at b (6 - unat L) i)"
proof -
  have "5 - unat L + 1 = 6 - unat L" "5 - unat L < 4"
    using assms(2) bridge_okD [OF assms(1)] by auto
  moreover have "node_fits b (5 - unat L) 0"
    using bridge_okD [OF assms(1)] by (auto simp: node_fits_def)
  ultimately show ?thesis
    using child_node_at [of b "5 - unat L" 0 i] assms(3)
    by (simp add: child_node_id_def encode_logic [OF assms(1)])
qed

lemma connect_node_at: "node_fits b l p \<Longrightarrow> connect_parent_id (node_at b l p) = node_at b l p"
  by (simp add: connect_parent_id_def node_at_not_encoded)

text \<open>One step of a climb read downwards.\<close>

lemma child_div:
  assumes "node_fits a l (q div 256)" "l < 4"
  shows "child_node_id (node_at a l (q div 256)) (q mod 256) = Ok (node_at a (l + 1) q)"
  using child_node_at_plain [OF assms, of "q mod 256"] by simp

lemma auth_path_linked:
  assumes "bridge_ok b L" "s < 256 ^ unat L"
  shows "linked child_node_id (auth_path b s L)"
proof -
  have b: "unat b < 2 ^ 24"
    using bridge_okD [OF assms(1)] by simp
  have fits: "node_fits 0 1 (unat b div 65536)" "node_fits 0 2 (unat b div 256)" "node_fits 0 3 (unat b)"
    using b by (simp_all add: node_fits_def less_mult_imp_div_less)
  have main: "child_node_id (node_at 0 0 0) (unat b div 65536) = Ok (node_at 0 1 (unat b div 65536))"
    "child_node_id (node_at 0 1 (unat b div 65536)) (unat b div 256 mod 256) =
      Ok (node_at 0 2 (unat b div 256))"
    "child_node_id (node_at 0 2 (unat b div 256)) (unat b mod 256) = Ok (bucket_root_node_id b)"
    using child_node_at_plain [of 0 0 0 "unat b div 65536"] child_div [of 0 1 "unat b div 256"]
      child_div [of 0 2 "unat b"] b
    by (auto simp: node_fits_def less_mult_imp_div_less bucket_root_node_at div_mult2_eq [symmetric]
        Suc_small)
  have "(256 :: nat) ^ unat L \<le> 256 ^ 5"
    by (rule power_increasing) (use bridge_okD [OF assms(1)] in simp_all)
  then have s40: "s < 1099511627776"
    using assms(2) by simp
  then have sfits: "node_fits b 4 (s div 256)" "node_fits b 3 (s div 65536)"
      "node_fits b 2 (s div 16777216)" "node_fits b 1 (s div 4294967296)"
    using b by (simp_all add: node_fits_def less_mult_imp_div_less)
  have sub: "child_node_id (node_at b 3 (s div 65536)) (s div 256 mod 256) = Ok (node_at b 4 (s div 256))"
    "child_node_id (node_at b 2 (s div 16777216)) (s div 65536 mod 256) = Ok (node_at b 3 (s div 65536))"
    "child_node_id (node_at b 1 (s div 4294967296)) (s div 16777216 mod 256) = Ok (node_at b 2 (s div 16777216))"
    using child_div [of b 3 "s div 256"] child_div [of b 2 "s div 65536"] child_div [of b 1 "s div 16777216"] sfits
    by (simp_all add: div_mult2_eq [symmetric] Suc_small)
  have top: "s div 256 ^ (unat L - 1) < 256"
    using assms(2) bridge_okD [OF assms(1)]
    by (simp add: less_mult_imp_div_less power_Suc [symmetric] del: power_Suc)
  note enc = child_encode [OF assms(1) _ top] and conn = encode_connect [OF assms(1)]
  note nodes = main sub top fits [THEN connect_node_at] sfits [THEN connect_node_at]
  show ?thesis
  proof (cases "L = 1")
    case True
    then show ?thesis
      using nodes by (simp add: auth_path_def bucket_root_node_at)
  next
    case False
    then have "L = 2 \<or> L = 3 \<or> L = 4 \<or> L = 5"
      using level_word_cases [OF assms(1)] by simp
    then show ?thesis
      using nodes enc conn
      by (elim disjE) (simp_all add: auth_path_def upt_small Suc_small div_mult2_eq [symmetric])
  qed
qed

section \<open>Properties\<close>

text \<open>C39: \<open>parents_and_points\<close> collects exactly the authentication paths of the keys: the internal
  map holds every step of a key's path but the last, the slot map the last ones. The result depends
  on the set of keys only, not on their order, so the parallel reduction is deterministic.\<close>
theorem shape_exact:
  assumes "\<forall>k \<in> set keys. level_ok levels (key_bucket_id k)"
  shows "\<exists>im sm. parents_and_points keys levels = (Ok (im, sm) :: (_, 'e) res) \<and> pts_ok im \<and> pts_ok sm \<and>
    edges im = (\<Union>k \<in> set keys. set (butlast (auth_path (key_bucket_id k) (unat (key_slot_id k))
      (level_of levels (key_bucket_id k))))) \<and>
    edges sm = (\<lambda>k. last (auth_path (key_bucket_id k) (unat (key_slot_id k))
      (level_of levels (key_bucket_id k)))) ` set keys \<and>
    (\<forall>keys'. set keys' = set keys \<longrightarrow> parents_and_points keys' levels = (Ok (im, sm) :: (_, 'e) res))"
proof -
  have bridge: "bridge_ok (key_bucket_id k) (level_of levels (key_bucket_id k))" if "k \<in> set keys" for k
    using assms that level_okD key_bucket_small by (auto simp: bridge_ok_def)
  obtain im sm where ims: "parents_and_points keys levels = (Ok (im, sm) :: (_, 'e) res)" "pts_ok im"
      "pts_ok sm" "edges im = (\<Union>k \<in> set keys. key_internal levels k)"
      "edges sm = key_leaf levels ` set keys"
    using parents_and_points_spec [OF assms, where 'e='e] by auto
  have "parents_and_points keys' levels = (Ok (im, sm) :: (_, 'e) res)" if "set keys' = set keys" for keys'
  proof -
    have "\<forall>k \<in> set keys'. level_ok levels (key_bucket_id k)"
      using assms that by simp
    from parents_and_points_spec [OF this, where 'e='e, unfolded that, folded ims(4,5)]
    obtain im' sm' where ims': "parents_and_points keys' levels = (Ok (im', sm') :: (_, 'e) res)"
        "pts_ok im'" "pts_ok sm'" "edges im' = edges im" "edges sm' = edges sm"
      by blast
    then show ?thesis
      using pts_unique ims by metis
  qed
  then show ?thesis
    using ims auth_path_edges [OF bridge]
    by (intro exI [of _ im] exI [of _ sm]) (simp add: key_internal_def key_leaf_def cong: image_cong)
qed

theorem shape_exact_witness:
  "\<exists>im sm. parents_and_points [salt_key_from 65540 258, salt_key_from 3 7]
      [(3, 1), (65540, 2)] = (Ok (im, sm) :: (_, unit) res) \<and>
    parents_and_points [salt_key_from 3 7, salt_key_from 65540 258, salt_key_from 3 7]
      [(3, 1), (65540, 2)] = (Ok (im, sm) :: (_, unit) res)"
proof -
  have "key_fits 65540 258" "key_fits 3 7"
    by (simp_all add: key_fits_def)
  then have "\<forall>k \<in> set [salt_key_from 65540 258, salt_key_from 3 7].
      level_ok [(3, 1), (65540, 2)] (key_bucket_id k)"
    by (simp add: key_bucket_id_from level_ok_def bt_get_def word_le_nat_alt)
  from shape_exact [OF this, where 'e=unit] show ?thesis
    by force
qed

text \<open>The path of a slot that fits its subtree is connected: every step's child, computed as the
  prover and the verifier do through \<open>logic_parent_id\<close> and \<open>get_child_node\<close>, is the physical node
  of the next step, from the root of the main trie down to the segment that holds the slot.\<close>
theorem path_connected:
  assumes "unat b < 2 ^ 24" "1 \<le> L" "L \<le> 5" "s < 256 ^ unat L"
  shows "fst (hd (auth_path b s L)) = 0 \<and>
    linked (child_node_id :: _ \<Rightarrow> _ \<Rightarrow> (_, 'e) res) (auth_path b s L) \<and>
    last (auth_path b s L) =
      (if L = 1 then bucket_root_node_id b else subtree_leaf_for_key (salt_key_from b (of_nat s)), s mod 256)"
proof -
  have ok: "bridge_ok b L"
    using assms by (simp add: bridge_ok_def)
  have "(256 :: nat) ^ unat L \<le> 256 ^ 5"
    by (rule power_increasing) (use bridge_okD [OF ok] in simp_all)
  then have s: "unat (of_nat s :: u64) = s" "s < 2 ^ 40"
    using assms(4) by (auto simp: unat_of_nat)
  then have "key_fits b (of_nat s)"
    using assms(1) by (simp add: key_fits_def)
  then have leaf: "subtree_leaf_for_key (salt_key_from b (of_nat s)) = node_at b 4 (s div 256)"
    using s(1) by (simp only: subtree_leaf_node_at key_bucket_id_from key_slot_id_from)
  show ?thesis
    unfolding leaf
    using auth_path_linked [OF ok assms(4)] auth_path_edges [OF ok, of s]
    by (simp add: leaf_edge_def) (simp add: auth_path_def node_at_def)
qed

theorem path_connected_witness:
  "linked (child_node_id :: _ \<Rightarrow> _ \<Rightarrow> (_, unit) res) (auth_path 65540 258 2)"
  using path_connected [of 65540 2 258, where 'e=unit] by (simp add: word_le_nat_alt)

text \<open>The bridge encoding of a bucket root with its number of levels is told apart from every plain
  node, and gives back the bucket root and the root of the bucket's subtree.\<close>
theorem bridge_roundtrip:
  assumes "unat b < 2 ^ 24" "1 \<le> L" "L \<le> 5"
  shows "is_encoded_node (encode_parent (bucket_root_node_id b) L) \<and>
    connect_parent_id (encode_parent (bucket_root_node_id b) L) = bucket_root_node_id b \<and>
    logic_parent_id (encode_parent (bucket_root_node_id b) L) = (Ok (node_at b (5 - unat L) 0) :: (_, 'e) res) \<and>
    (\<forall>b' l p. node_fits b' l p \<longrightarrow> connect_parent_id (node_at b' l p) = node_at b' l p \<and>
       logic_parent_id (node_at b' l p) = (Ok (node_at b' l p) :: (_, 'e) res))"
proof -
  have "bridge_ok b L"
    using assms by (simp add: bridge_ok_def)
  then show ?thesis
    using encode_is_encoded encode_connect encode_logic [where 'a='e] node_at_not_encoded
    by (simp add: connect_parent_id_def [of "node_at _ _ _"] logic_parent_id_def [of "node_at _ _ _"])
qed

theorem bridge_roundtrip_witness:
  "connect_parent_id (encode_parent (bucket_root_node_id 70000) 3) = bucket_root_node_id 70000"
  using bridge_roundtrip [of 70000 3, where 'e=unit] by (simp add: word_le_nat_alt)

end
