(* ===== verification/State_Updates.thy ===== *)
theory State_Updates
  imports Salt_Types
begin

text \<open>
  \<open>StateUpdates\<close> of \<open>salt/src/state/updates.rs\<close>: a map from keys to (old, new) pairs with
  transition chaining. The abstract reading of a set of updates is a function on states
  (\<open>apply_updates\<close>) together with the states it applies to (\<open>chains_from\<close>).
\<close>

type_synonym state_updates = "(salt_key, salt_value option \<times> salt_value option) btree"

section \<open>Operations\<close>

definition try_add ::
  "salt_key \<Rightarrow> salt_value option \<Rightarrow> salt_value option \<Rightarrow> (state_updates, unit, salt_error) comp"
where
  "try_add k old_value new_value = (\<lambda>u.
     case bt_get u k of
       Some (old, new) \<Rightarrow>
         if old_value \<noteq> new then (Err (UnchainedTransition k new old_value), u)
         else if old = new_value then (Ok (), bt_remove k u)
         else (Ok (), bt_insert k (old, new_value) u)
     | None \<Rightarrow>
         if old_value \<noteq> new_value then (Ok (), bt_insert k (old_value, new_value) u)
         else (Ok (), u))"

definition add ::
  "salt_key \<Rightarrow> salt_value option \<Rightarrow> salt_value option \<Rightarrow> (state_updates, unit, 'e) comp"
where
  "add k old_value new_value = (\<lambda>u.
     case try_add k old_value new_value u of (r, u') \<Rightarrow> (expect r, u'))"

fun try_merge :: "state_updates \<Rightarrow> (state_updates, unit, salt_error) comp" where
  "try_merge [] = ret ()"
| "try_merge ((key, (old_val, new_val)) # other) =
     bind (try_add key old_val new_val) (\<lambda>_. try_merge other)"

definition merge :: "state_updates \<Rightarrow> (state_updates, unit, 'e) comp" where
  "merge other = (\<lambda>u. case try_merge other u of (r, u') \<Rightarrow> (expect r, u'))"

definition inverse_updates :: "state_updates \<Rightarrow> state_updates" where
  "inverse_updates u = map (\<lambda>(k, (old, new)). (k, (new, old))) u"

section \<open>Meaning\<close>

type_synonym salt_state = "salt_key \<Rightarrow> salt_value option"

definition apply_updates :: "state_updates \<Rightarrow> salt_state \<Rightarrow> salt_state" where
  "apply_updates u M = (\<lambda>k. case bt_get u k of None \<Rightarrow> M k | Some (old, new) \<Rightarrow> new)"

definition chains_from :: "state_updates \<Rightarrow> salt_state \<Rightarrow> bool" where
  "chains_from u M \<longleftrightarrow> (\<forall>k old new. bt_get u k = Some (old, new) \<longrightarrow> M k = old)"

text \<open>Sorted keys and no entry whose old and new values agree.\<close>

definition su_ok :: "state_updates \<Rightarrow> bool" where
  "su_ok u \<longleftrightarrow> bt_ok u \<and> (\<forall>k x. bt_get u k \<noteq> Some (x, x))"

lemma su_ok_Nil [simp]: "su_ok []"
  by (simp add: su_ok_def)

lemma chains_Nil [simp]: "chains_from [] M"
  by (simp add: chains_from_def)

lemma apply_Nil [simp]: "apply_updates [] M = M"
  by (simp add: apply_updates_def)

lemma su_ok_bt: "su_ok u \<Longrightarrow> bt_ok u"
  by (simp add: su_ok_def)

section \<open>Adding\<close>

lemma try_add_su_ok:
  "try_add k old_value new_value u = (r, u') \<Longrightarrow> su_ok u \<Longrightarrow> su_ok u'"
  by (auto simp: try_add_def su_ok_def split: option.splits if_splits)

lemma try_add_chains:
  assumes "chains_from u M" "apply_updates u M k = old_value"
  shows "\<exists>u'. try_add k old_value new_value u = (Ok (), u') \<and> chains_from u' M \<and>
    apply_updates u' M = (apply_updates u M)(k := new_value)"
proof (cases "bt_get u k")
  case None
  then show ?thesis
    using assms
    by (cases "old_value = new_value")
       (auto simp: try_add_def chains_from_def apply_updates_def fun_eq_iff)
next
  case (Some p)
  obtain old new where p: "p = (old, new)" by (cases p)
  have "new = old_value" "M k = old"
    using assms Some p by (auto simp: chains_from_def apply_updates_def)
  then show ?thesis
    using assms(1) Some p
    by (cases "old = new_value")
       (auto simp: try_add_def chains_from_def apply_updates_def fun_eq_iff)
qed

lemma try_add_Err:
  "try_add k old_value new_value u = (Err e, u') \<longleftrightarrow>
     (\<exists>old new. bt_get u k = Some (old, new) \<and> new \<noteq> old_value \<and>
        e = UnchainedTransition k new old_value \<and> u' = u)"
  by (auto simp: try_add_def split: option.splits)

lemma try_add_cases: "\<exists>u'. try_add k old new u = (Ok (), u') \<or> (\<exists>e. try_add k old new u = (Err e, u'))"
  by (auto simp: try_add_def split: option.splits)

lemma add_eq:
  "try_add k old new u = (Ok (), u') \<Longrightarrow> add k old new u = (Ok (), u')"
  by (simp add: add_def)

lemma add_chains:
  assumes "chains_from u M" "apply_updates u M k = old_value"
  obtains u' where "add k old_value new_value u = (Ok (), u')" "chains_from u' M"
    "apply_updates u' M = (apply_updates u M)(k := new_value)" "su_ok u \<Longrightarrow> su_ok u'"
  using try_add_chains [OF assms, of new_value] try_add_su_ok add_eq by metis

section \<open>Merging\<close>

lemma apply_Cons:
  "bt_ok ((k, (old, new)) # v) \<Longrightarrow>
     apply_updates ((k, (old, new)) # v) M = apply_updates v (M(k := new))"
  by (force simp: apply_updates_def bt_get_def bt_ok_Cons fun_eq_iff split: option.splits
      dest: map_of_SomeD)

lemma chains_Cons:
  assumes "bt_ok ((k, (old, new)) # v)"
  shows "chains_from ((k, (old, new)) # v) M \<longleftrightarrow> M k = old \<and> chains_from v (M(k := new))"
proof -
  have "bt_get v k = None"
    using assms by (force simp: bt_ok_Cons bt_get_def dest: map_of_SomeD intro: ccontr)
  then show ?thesis
    by (auto simp: chains_from_def bt_get_def split: if_splits)
qed

lemma try_merge_chains:
  assumes "chains_from u M" "chains_from v (apply_updates u M)" "bt_ok v" "su_ok u"
  shows "\<exists>w. try_merge v u = (Ok (), w) \<and> chains_from w M \<and> su_ok w \<and>
    apply_updates w M = apply_updates v (apply_updates u M)"
  using assms
proof (induction v arbitrary: u)
  case Nil
  then show ?case by simp
next
  case (Cons x v)
  obtain k old new where x: "x = (k, (old, new))" by (metis surj_pair)
  have ch: "apply_updates u M k = old" "chains_from v ((apply_updates u M)(k := new))"
    using Cons.prems(2,3) by (simp_all add: x chains_Cons)
  obtain u' where u': "try_add k old new u = (Ok (), u')" "chains_from u' M"
      "apply_updates u' M = (apply_updates u M)(k := new)"
    using try_add_chains [OF Cons.prems(1) ch(1)] by blast
  obtain w where "try_merge v u' = (Ok (), w)" "chains_from w M" "su_ok w"
      "apply_updates w M = apply_updates v (apply_updates u' M)"
    using Cons.IH [OF u'(2)] ch(2) u'(3) Cons.prems(3) try_add_su_ok [OF u'(1) Cons.prems(4)]
    by (auto simp: x bt_ok_Cons simp del: fun_upd_apply)
  then show ?case
    using Cons.prems(3) u'(1,3) by (auto simp: x apply_Cons bind_def)
qed

lemma merge_eq: "try_merge v u = (Ok (), w) \<Longrightarrow> merge v u = (Ok (), w)"
  by (simp add: merge_def)

text \<open>A set of updates is determined by the states it maps from and to.\<close>

lemma bt_get_updates:
  assumes "su_ok u" "chains_from u M"
  shows "bt_get u k = (if M k = apply_updates u M k then None else Some (M k, apply_updates u M k))"
  using assms by (auto simp: su_ok_def chains_from_def apply_updates_def split: option.splits)

lemma updates_ext:
  assumes "su_ok u" "chains_from u M" "su_ok v" "chains_from v M" "apply_updates u M = apply_updates v M"
  shows "u = v"
  by (rule bt_ext) (use assms in \<open>simp_all add: su_ok_bt bt_get_updates fun_eq_iff\<close>)

section \<open>Inverting\<close>

lemma bt_get_inverse:
  "bt_get (inverse_updates u) k = map_option prod.swap (bt_get u k)"
  by (induction u) (auto simp: inverse_updates_def bt_get_def)

lemma bt_ok_inverse [simp]: "bt_ok (inverse_updates u) \<longleftrightarrow> bt_ok u"
  by (simp add: bt_ok_def inverse_updates_def sorted_wrt_map case_prod_beta)

lemma su_ok_inverse [simp]: "su_ok u \<Longrightarrow> su_ok (inverse_updates u)"
  by (auto simp: su_ok_def bt_get_inverse prod.swap_def)

lemma inverse_inverse [simp]: "inverse_updates (inverse_updates u) = u"
  by (induction u) (auto simp: inverse_updates_def)

lemma chains_inverse: "chains_from (inverse_updates u) (apply_updates u M)"
  by (auto simp: chains_from_def bt_get_inverse apply_updates_def)

lemma apply_inverse: "chains_from u M \<Longrightarrow> apply_updates (inverse_updates u) (apply_updates u M) = M"
  by (auto simp: chains_from_def bt_get_inverse apply_updates_def fun_eq_iff split: option.splits)

text \<open>Merging a set of updates with its inverse leaves nothing to apply.\<close>

lemma merge_inverse:
  assumes "su_ok u"
  shows "merge (inverse_updates u) u = (Ok (), [])"
proof -
  define M :: salt_state where "M k = (case bt_get u k of None \<Rightarrow> None | Some (old, new) \<Rightarrow> old)" for k
  have ch: "chains_from u M"
    by (auto simp: chains_from_def M_def)
  obtain w where w: "try_merge (inverse_updates u) u = (Ok (), w)" "chains_from w M" "su_ok w"
      "apply_updates w M = apply_updates (inverse_updates u) (apply_updates u M)"
    using try_merge_chains [OF ch chains_inverse] assms by (auto simp: su_ok_bt)
  have "w = []"
    by (rule updates_ext [OF w(3,2)]) (simp_all add: w(4) apply_inverse [OF ch])
  then show ?thesis
    using merge_eq [OF w(1)] by simp
qed

section \<open>Properties\<close>

text \<open>C36: Adding a transition that starts from the current value of its key extends the recorded
  updates by exactly that write, and keeps them sorted, chained and free of no-ops.\<close>
theorem try_add_chains_on:
  assumes "su_ok u" "chains_from u M" "apply_updates u M k = old_value"
  shows "\<exists>u'. try_add k old_value new_value u = (Ok (), u') \<and> su_ok u' \<and> chains_from u' M \<and>
    apply_updates u' M = (apply_updates u M)(k := new_value)"
  using try_add_chains [OF assms(2,3), of new_value] try_add_su_ok [OF _ assms(1)] by blast

theorem try_add_chains_on_witness:
  "\<exists>u'. try_add 5 None (Some (sv_enc [1] [2])) [] = (Ok (), u') \<and> apply_updates u' (\<lambda>_. None) = [5 \<mapsto> sv_enc [1] [2]]"
  using try_add_chains_on [of "[]" "\<lambda>_. None" 5 None "Some (sv_enc [1] [2])"] by auto

text \<open>\<open>try_add\<close> fails exactly for a transition whose old value differs from the recorded new
  one, reports both values, and leaves the updates as they were.\<close>
theorem try_add_unchained:
  "try_add k old_value new_value u = (Err e, u') \<longleftrightarrow>
     (\<exists>old new. bt_get u k = Some (old, new) \<and> new \<noteq> old_value \<and>
        e = UnchainedTransition k new old_value \<and> u' = u)"
  by (rule try_add_Err)

text \<open>C37: Merging two chained sets of updates succeeds and has the effect of applying one after
  the other.\<close>
theorem merge_composes:
  assumes "su_ok u" "bt_ok v" "chains_from u M" "chains_from v (apply_updates u M)"
  shows "\<exists>w. merge v u = (Ok (), w) \<and> su_ok w \<and> chains_from w M \<and>
    apply_updates w M = apply_updates v (apply_updates u M)"
  using try_merge_chains [OF assms(3,4,2,1)] merge_eq by blast

theorem merge_composes_witness:
  "\<exists>w. merge [(7, (Some (sv_enc [1] [2]), None))] [(7, (None, Some (sv_enc [1] [2])))] = (Ok (), w) \<and>
    apply_updates w (\<lambda>_. None) = (\<lambda>_. None)"
proof -
  have "apply_updates [(7, (Some (sv_enc [1] [2]), None))] (apply_updates [(7, (None, Some (sv_enc [1] [2])))] (\<lambda>_. None)) = (\<lambda>_. None)"
    by (auto simp: bt_get_def apply_updates_def fun_eq_iff)
  moreover have "su_ok [(7, (None, Some (sv_enc [1] [2])))]" "bt_ok [(7 :: u64, (Some (sv_enc [1] [2]), None :: salt_value option))]"
      "chains_from [(7, (None, Some (sv_enc [1] [2])))] (\<lambda>_. None)"
      "chains_from [(7, (Some (sv_enc [1] [2]), None))] (apply_updates [(7, (None, Some (sv_enc [1] [2])))] (\<lambda>_. None))"
    by (auto simp: su_ok_def bt_ok_def bt_get_def chains_from_def apply_updates_def split: if_splits)
  ultimately show ?thesis
    using merge_composes [of "[(7, (None, Some (sv_enc [1] [2])))]" "[(7, (Some (sv_enc [1] [2]), None))]" "\<lambda>_. None"] by auto
qed

text \<open>C38: The inverse undoes: merging updates with their inverse leaves nothing, and applying the
  inverse after them restores the state.\<close>
theorem inverse_undoes:
  "(su_ok u \<longrightarrow> merge (inverse_updates u) u = (Ok () :: (_, 'e) res, [])) \<and>
   (chains_from u M \<longrightarrow> chains_from (inverse_updates u) (apply_updates u M) \<and>
     apply_updates (inverse_updates u) (apply_updates u M) = M)"
  by (simp add: merge_inverse apply_inverse chains_inverse)

theorem inverse_undoes_witness:
  "merge (inverse_updates [(7, (None, Some (sv_enc [1] [2])))]) [(7, (None, Some (sv_enc [1] [2])))] = (Ok () :: (_, unit) res, [])"
  using inverse_undoes [of "[(7, (None, Some (sv_enc [1] [2])))]" "\<lambda>_. None", where 'e=unit]
  by (auto simp: su_ok_def bt_ok_def bt_get_def split: if_splits)

end
