(* ===== verification/Store.thy ===== *)
theory Store
  imports State_Updates Node_Utils
begin

text \<open>
  The storage interface and its two implementations under \<open>salt/src\<close>. \<open>StateReader\<close> of
  traits.rs is the record \<open>reader\<close>, one field per method; its default methods are functions of
  the other ones. \<open>MemStore\<close> (mem_store.rs) and \<open>EmptySalt\<close> (empty_salt.rs) are values of that
  record. The locale \<open>full_reader\<close> states what the hash-table code relies on in a full node's
  store; both implementations are interpretations of it.
\<close>

section \<open>Readers\<close>

record 'e reader =
  rd_value :: "salt_key \<Rightarrow> (salt_value option, 'e) res"
  rd_entries :: "salt_key \<Rightarrow> salt_key \<Rightarrow> ((salt_key \<times> salt_value) list, 'e) res"
  rd_metadata :: "bucket_id \<Rightarrow> (bucket_meta, 'e) res"
  rd_bucket_used_slots :: "bucket_id \<Rightarrow> (u64, 'e) res"
  rd_plain_value_fast :: "bytes \<Rightarrow> (salt_key, 'e) res"

text \<open>The default method bodies of the trait.\<close>

definition default_bucket_used_slots ::
  "(salt_key \<Rightarrow> salt_key \<Rightarrow> ((salt_key \<times> salt_value) list, 'e) res) \<Rightarrow> bucket_id \<Rightarrow> (u64, 'e) res"
where
  "default_bucket_used_slots entries b =
     (if \<not> is_valid_data_bucket b then Ok 0
      else let start_key = salt_key_from b 0; end_key = salt_key_from b BUCKET_SLOT_ID_MASK
           in map_res (\<lambda>es. of_nat (length es)) (entries start_key end_key))"

definition get_subtree_levels :: "'e reader \<Rightarrow> bucket_id \<Rightarrow> (usize, 'e) res" where
  "get_subtree_levels rd b =
     (if b < of_nat NUM_META_BUCKETS then Ok 1
      else map_res (\<lambda>meta. of_nat MAX_SUBTREE_LEVELS - subtree_root_level (capacity meta))
             (rd_metadata rd b))"

section \<open>Default commitments\<close>

type_synonym commitment_bytes = bytes

definition hex_char_to_u8 :: "char \<Rightarrow> (u8, 'e) res" where
  "hex_char_to_u8 ch =
     (let c = (of_char ch :: nat)
      in if 48 \<le> c \<and> c \<le> 57 then Ok (of_nat (c - 48))
         else if 97 \<le> c \<and> c \<le> 102 then Ok (of_nat (c - 97) + 10)
         else if 65 \<le> c \<and> c \<le> 70 then Ok (of_nat (c - 65) + 10)
         else Panic)"

fun hex_pairs :: "string \<Rightarrow> (bytes, 'e) res" where
  "hex_pairs (hi # lo # s) =
     bind_res (hex_char_to_u8 hi) (\<lambda>hi_val. bind_res (hex_char_to_u8 lo) (\<lambda>lo_val.
     map_res (\<lambda>bs. (push_bit 4 hi_val OR lo_val) # bs) (hex_pairs s)))"
| "hex_pairs [] = Ok []"
| "hex_pairs [c] = Panic"

definition b512 :: "string \<Rightarrow> (bytes, 'e) res" where
  "b512 s = (if length s = 128 then hex_pairs s else Panic)"

text \<open>Per level of the main trie: the boundary, the commitments left and right of it.\<close>

definition DEFAULT_COMMITMENT_AT_LEVEL :: "(u64 \<times> string \<times> string) list" where
  "DEFAULT_COMMITMENT_AT_LEVEL =
     [
      (STARTING_NODE_ID ! 0 + 1,
       ''a2f11cbb573b3beba869c4417fd616e550f66feea3edcf6b8979bee66dd18767d744099c52a92477cb2e005ca3665892ce7860ccaf476aa224528837e5732270'',
       ''a2f11cbb573b3beba869c4417fd616e550f66feea3edcf6b8979bee66dd18767d744099c52a92477cb2e005ca3665892ce7860ccaf476aa224528837e5732270''),
      (STARTING_NODE_ID ! 1 + 1,
       ''b744bfb480faaaaecfb534e10ce111489c89cc43ab90a380ef5eb0f8668b731049cd9f4222b06ca3e41d624b573b83e67a9f251ae7f4e26cd496fd4005fc8c72'',
       ''866b0fd149ea8e233d295dff7b91af9ac54e82e3083a979e068fe9f5a8747832f59ed53dfd1e939bdcbf9e1bbc87752c8fe8537c662f537ebfde227ce7845659''),
      (STARTING_NODE_ID ! 2 + of_nat MIN_BUCKET_SIZE,
       ''9ed527e0e507e93c05d5a77184211e6bbf6e1820fdc7cd36387c4d52f8b931182f47ece1ebb6dad09b8b96062bc5241b143e03f36e69ffb83b0ef8d99f818772'',
       ''1d8d81bcb60ff180ff99c497a8298af38d71d2fbf3c0ffda09b659839e3732612771a485191ab8fe740dc20d1a33c53f8cfbb1c07676d74050de914c0efc7f54''),
      (STARTING_NODE_ID ! 3 + of_nat NUM_META_BUCKETS,
       ''e07db25c34ee2ddb23992be6e8c3a9fc0c3b3c23effd4089cb262524ce64671abc3da78e1f67a926db11faa1385ca8d35aee7905cff1251536c75b73f60ed16b'',
       ''da260863cc36b265d34f9912c3b98ae7e046ced37bf5eebe1be164695093714efc9e5b23b9ab87c9f7b51e4fec4ea377e4fe44672d70752f7c3522e0f0269555'')]"

definition SUBTREE_DEFAULT_COMMITMENT :: "string list" where
  "SUBTREE_DEFAULT_COMMITMENT =
     [
      ''a7bba7dcf3ad2fbb9fd792f875adad094bb67119f2e83fd751299d9195d7301cfece2bfd0cbc9ce1150cd3a653377c9a038af061a0d8ebe4de54143ffe3cb172'',
      ''db1c8437754289cd759fa15c051b03950c135a8b67176946020087cdd86f0c2f660ba555b18020f3941854a87060bcf92b39312a63dcd21fc9b629ee6b0ca570'',
      ''866b0fd149ea8e233d295dff7b91af9ac54e82e3083a979e068fe9f5a8747832f59ed53dfd1e939bdcbf9e1bbc87752c8fe8537c662f537ebfde227ce7845659'',
      ''1d8d81bcb60ff180ff99c497a8298af38d71d2fbf3c0ffda09b659839e3732612771a485191ab8fe740dc20d1a33c53f8cfbb1c07676d74050de914c0efc7f54'',
      ''da260863cc36b265d34f9912c3b98ae7e046ced37bf5eebe1be164695093714efc9e5b23b9ab87c9f7b51e4fec4ea377e4fe44672d70752f7c3522e0f0269555'']"

definition default_commitment :: "node_id \<Rightarrow> (commitment_bytes, 'e) res" where
  "default_commitment n =
     bind_res (get_bfs_level (n AND BUCKET_SLOT_ID_MASK)) (\<lambda>level.
     bind_res (is_subtree_node n) (\<lambda>sub.
       if sub then
         (if level < length SUBTREE_DEFAULT_COMMITMENT
          then b512 (SUBTREE_DEFAULT_COMMITMENT ! level) else Panic)
       else if level < length DEFAULT_COMMITMENT_AT_LEVEL then
         (case DEFAULT_COMMITMENT_AT_LEVEL ! level of (boundary, left, right) \<Rightarrow>
            if n < boundary then b512 left else b512 right)
       else Panic))"

section \<open>MemStore\<close>

record state_store =
  kvs :: "(salt_key, salt_value) btree"
  used_slots :: "(bucket_id, u64) btree"

record mem_store =
  ms_state :: state_store
  ms_trie :: "(node_id, commitment_bytes) btree"

type_synonym trie_updates = "(node_id \<times> (commitment_bytes \<times> commitment_bytes)) list"

definition mem_store_new :: mem_store where
  "mem_store_new = \<lparr>ms_state = \<lparr>kvs = [], used_slots = []\<rparr>, ms_trie = []\<rparr>"

definition saturating_sub :: "u64 \<Rightarrow> u64 \<Rightarrow> u64" where
  "saturating_sub x y = (if y \<le> x then x - y else 0)"

definition count_slot ::
  "bucket_id \<Rightarrow> salt_value option \<Rightarrow> salt_value option \<Rightarrow> (bucket_id, u64) btree \<Rightarrow> (bucket_id, u64) btree"
where
  "count_slot b old_value new_value counts =
     (case (old_value, new_value) of
        (None, Some _) \<Rightarrow>
          bt_insert b ((case bt_get counts b of None \<Rightarrow> 0 | Some n \<Rightarrow> n) + 1) counts
      | (Some _, None) \<Rightarrow>
          (case bt_get counts b of
             Some count \<Rightarrow> bt_insert b (saturating_sub count 1) counts
           | None \<Rightarrow> counts)
      | _ \<Rightarrow> counts)"

fun update_state_store :: "state_updates \<Rightarrow> state_store \<Rightarrow> state_store" where
  "update_state_store [] st = st"
| "update_state_store ((key, (old_value, new_value)) # updates) st =
     (let counts = (if \<not> is_in_meta_bucket key
                  then count_slot (key_bucket_id key) old_value new_value (used_slots st)
                  else used_slots st);
          kv = (case new_value of
                  Some new_val \<Rightarrow> bt_insert key new_val (kvs st)
                | None \<Rightarrow> bt_remove key (kvs st))
      in update_state_store updates \<lparr>kvs = kv, used_slots = counts\<rparr>)"

definition update_state :: "state_updates \<Rightarrow> mem_store \<Rightarrow> mem_store" where
  "update_state updates ms = ms\<lparr>ms_state := update_state_store updates (ms_state ms)\<rparr>"

definition update_trie :: "trie_updates \<Rightarrow> mem_store \<Rightarrow> mem_store" where
  "update_trie updates ms =
     ms\<lparr>ms_trie := fold (\<lambda>(node, (_, new_val)). bt_insert node new_val) updates (ms_trie ms)\<rparr>"

definition mem_value :: "mem_store \<Rightarrow> salt_key \<Rightarrow> (salt_value option, salt_error) res" where
  "mem_value ms key = Ok (bt_get (kvs (ms_state ms)) key)"

definition mem_entries ::
  "mem_store \<Rightarrow> salt_key \<Rightarrow> salt_key \<Rightarrow> ((salt_key \<times> salt_value) list, salt_error) res"
where
  "mem_entries ms lo hi = (if lo \<le> hi then Ok (bt_range lo hi (kvs (ms_state ms))) else Panic)"

definition mem_metadata :: "mem_store \<Rightarrow> bucket_id \<Rightarrow> (bucket_meta, salt_error) res" where
  "mem_metadata ms b =
     bind_res (bucket_metadata_key b) (\<lambda>key.
     bind_res (case bt_get (kvs (ms_state ms)) key of
                 Some v \<Rightarrow> meta_of_salt_value v
               | None \<Rightarrow> Ok default_meta) (\<lambda>meta.
     Ok (meta\<lparr>used := Some (case bt_get (used_slots (ms_state ms)) b of None \<Rightarrow> 0 | Some n \<Rightarrow> n)\<rparr>)))"

definition mem_bucket_used_slots :: "mem_store \<Rightarrow> bucket_id \<Rightarrow> (u64, salt_error) res" where
  "mem_bucket_used_slots ms b =
     (if \<not> is_valid_data_bucket b then Ok 0
      else Ok (case bt_get (used_slots (ms_state ms)) b of None \<Rightarrow> 0 | Some n \<Rightarrow> n))"

definition mem_plain_value_fast :: "mem_store \<Rightarrow> bytes \<Rightarrow> (salt_key, salt_error) res" where
  "mem_plain_value_fast ms p = Err (UnsupportedOperation ''MemStore::plain_value_fast'')"

definition mem_reader :: "mem_store \<Rightarrow> salt_error reader" where
  "mem_reader ms = \<lparr>rd_value = mem_value ms, rd_entries = mem_entries ms,
     rd_metadata = mem_metadata ms, rd_bucket_used_slots = mem_bucket_used_slots ms,
     rd_plain_value_fast = mem_plain_value_fast ms\<rparr>"

definition mem_commitment :: "mem_store \<Rightarrow> node_id \<Rightarrow> (commitment_bytes, salt_error) res" where
  "mem_commitment ms n =
     (case bt_get (ms_trie ms) n of Some c \<Rightarrow> Ok c | None \<Rightarrow> default_commitment n)"

text \<open>The range is half open; \<open>BTreeMap::range\<close> panics when it starts after its end.\<close>

definition mem_node_entries ::
  "mem_store \<Rightarrow> node_id \<Rightarrow> node_id \<Rightarrow> ((node_id \<times> commitment_bytes) list, salt_error) res"
where
  "mem_node_entries ms lo hi =
     (if hi < lo then Panic else Ok (filter (\<lambda>(n, c). lo \<le> n \<and> n < hi) (ms_trie ms)))"

section \<open>EmptySalt\<close>

definition empty_metadata :: "bucket_id \<Rightarrow> (bucket_meta, salt_error) res" where
  "empty_metadata b = Ok (default_meta\<lparr>used := Some 0\<rparr>)"

definition empty_reader :: "salt_error reader" where
  "empty_reader = \<lparr>rd_value = (\<lambda>_. Ok None), rd_entries = (\<lambda>_ _. Ok []),
     rd_metadata = empty_metadata,
     rd_bucket_used_slots = default_bucket_used_slots (\<lambda>_ _. Ok []),
     rd_plain_value_fast = (\<lambda>_. Err (UnsupportedOperation ''EmptySalt::plain_value_fast''))\<rparr>"

definition empty_commitment :: "node_id \<Rightarrow> (commitment_bytes, salt_error) res" where
  "empty_commitment n = default_commitment n"

definition empty_node_entries ::
  "node_id \<Rightarrow> node_id \<Rightarrow> ((node_id \<times> commitment_bytes) list, salt_error) res"
where
  "empty_node_entries lo hi = Ok []"

section \<open>Trie readers\<close>

text \<open>The two methods of \<open>TrieReader\<close>, and its implementations.\<close>

record 'e trie_reader =
  tr_commitment :: "node_id \<Rightarrow> (commitment_bytes, 'e) res"
  tr_node_entries :: "node_id \<Rightarrow> node_id \<Rightarrow> ((node_id \<times> commitment_bytes) list, 'e) res"

definition mem_trie :: "mem_store \<Rightarrow> salt_error trie_reader" where
  "mem_trie ms = \<lparr>tr_commitment = mem_commitment ms, tr_node_entries = mem_node_entries ms\<rparr>"

definition empty_trie :: "salt_error trie_reader" where
  "empty_trie = \<lparr>tr_commitment = empty_commitment, tr_node_entries = empty_node_entries\<rparr>"

section \<open>States: metadata and occupied slots\<close>

definition is_metadata_key :: "salt_key \<Rightarrow> bool" where
  "is_metadata_key k \<longleftrightarrow> (\<exists>b. is_valid_data_bucket b \<and> k = meta_key b)"

text \<open>A missing metadata entry means the default metadata.\<close>

definition norm :: "salt_state \<Rightarrow> salt_state" where
  "norm V = (\<lambda>k. case V k of
       Some v \<Rightarrow> Some v
     | None \<Rightarrow> if is_metadata_key k then Some (meta_sv default_meta) else None)"

definition metas_ok :: "salt_state \<Rightarrow> bool" where
  "metas_ok V \<longleftrightarrow> (\<forall>k v. is_metadata_key k \<longrightarrow> V k = Some v \<longrightarrow> (\<exists>m. v = meta_sv m))"

definition meta_at :: "salt_state \<Rightarrow> bucket_id \<Rightarrow> bucket_meta" where
  "meta_at V b = (case V (meta_key b) of
       None \<Rightarrow> default_meta
     | Some v \<Rightarrow> (case meta_of_salt_value v of Ok m \<Rightarrow> m | _ \<Rightarrow> default_meta))"

definition bucket_keys :: "salt_state \<Rightarrow> bucket_id \<Rightarrow> salt_key set" where
  "bucket_keys V b = {k. key_bucket_id k = b \<and> V k \<noteq> None}"

definition occ :: "salt_state \<Rightarrow> bucket_id \<Rightarrow> nat" where
  "occ V b = card (bucket_keys V b)"

lemma finite_bucket_keys [simp]: "finite (bucket_keys V b)"
  by (rule finite_subset [OF subset_UNIV]) simp

lemma is_metadata_key_meta [simp]: "is_valid_data_bucket b \<Longrightarrow> is_metadata_key (meta_key b)"
  by (auto simp: is_metadata_key_def)

lemma metadata_key_in_meta: "is_metadata_key k \<Longrightarrow> is_in_meta_bucket k"
  by (auto simp: is_metadata_key_def meta_key_in_meta)

lemma in_meta_not_valid: "is_in_meta_bucket k \<Longrightarrow> \<not> is_valid_data_bucket (key_bucket_id k)"
  by (simp add: is_in_meta_bucket_def is_valid_data_bucket_unat word_less_nat_alt)

lemma data_bucket_not_meta [simp]:
  "is_valid_data_bucket (key_bucket_id k) \<Longrightarrow> \<not> is_metadata_key k"
  using in_meta_not_valid metadata_key_in_meta by blast

lemma norm_data [simp]: "\<not> is_metadata_key k \<Longrightarrow> norm V k = V k"
  by (simp add: norm_def split: option.splits)

lemma norm_norm [simp]: "norm (norm V) = norm V"
  by (auto simp: norm_def fun_eq_iff split: option.splits)

lemma norm_upd_Some: "norm (V(k \<mapsto> v)) = (norm V)(k \<mapsto> v)"
  by (auto simp: norm_def fun_eq_iff)

lemma norm_upd_data: "\<not> is_metadata_key k \<Longrightarrow> norm (V(k := x)) = (norm V)(k := x)"
  by (cases x) (auto simp: norm_def fun_eq_iff)

lemma meta_at_used [simp]: "used (meta_at V b) = None"
  by (auto simp: meta_at_def default_meta_def meta_of_salt_value_def meta_of_bytes_def
      bind_res_Ok_iff split: option.splits res.splits if_splits)

lemma meta_at_norm [simp]: "is_valid_data_bucket b \<Longrightarrow> meta_at (norm V) b = meta_at V b"
  by (simp add: meta_at_def norm_def default_meta_def split: option.splits)

lemma metas_okD:
  "metas_ok V \<Longrightarrow> is_valid_data_bucket b \<Longrightarrow> V (meta_key b) = Some v \<Longrightarrow> \<exists>m. v = meta_sv m"
  using is_metadata_key_meta [of b] unfolding metas_ok_def by blast

lemma norm_meta:
  assumes "metas_ok V" "is_valid_data_bucket b"
  shows "norm V (meta_key b) = Some (meta_sv (meta_at V b))"
proof (cases "V (meta_key b)")
  case None
  then show ?thesis
    using assms(2) by (simp add: norm_def meta_at_def)
next
  case (Some v)
  then obtain m where "v = meta_sv m"
    using metas_okD [OF assms] by blast
  then show ?thesis
    using Some by (simp add: norm_def meta_at_def)
qed

lemma metas_ok_norm [simp]: "metas_ok (norm V) = metas_ok V"
  by (auto simp: metas_ok_def norm_def split: option.splits)

lemma metas_ok_upd: "metas_ok V \<Longrightarrow> (is_metadata_key k \<Longrightarrow> \<exists>m. x = Some (meta_sv m)) \<Longrightarrow>
    metas_ok (V(k := x))"
  by (auto simp: metas_ok_def)

lemma metas_ok_empty [simp]: "metas_ok (\<lambda>_. None)"
  by (simp add: metas_ok_def)

lemma bucket_keys_norm: "is_valid_data_bucket b \<Longrightarrow> bucket_keys (norm V) b = bucket_keys V b"
  by (auto simp: bucket_keys_def)

lemma occ_norm [simp]: "is_valid_data_bucket b \<Longrightarrow> occ (norm V) b = occ V b"
  by (simp add: occ_def bucket_keys_norm)

lemma occ_le: "occ V b \<le> 2 ^ 40"
proof -
  have "inj_on (\<lambda>k. unat (key_slot_id k)) (bucket_keys V b)"
  proof (rule inj_onI)
    fix k k'
    assume *: "k \<in> bucket_keys V b" "k' \<in> bucket_keys V b"
      and "unat (key_slot_id k) = unat (key_slot_id k')"
    then have "key_slot_id k = key_slot_id k'" "key_bucket_id k = key_bucket_id k'"
      by (simp_all only: word_eq_unat [of "key_slot_id k"] bucket_keys_def mem_Collect_eq)
    then show "k = k'"
      by (metis salt_key_from_parts)
  qed
  moreover have "(\<lambda>k. unat (key_slot_id k)) ` bucket_keys V b \<subseteq> {..<2 ^ 40}"
    unfolding unat_key_slot_id by (intro image_subsetI) simp
  ultimately have "card (bucket_keys V b) \<le> card {..<2 ^ 40 :: nat}"
    by (rule card_inj_on_le) simp
  then show ?thesis
    by (simp add: occ_def)
qed

lemma occ_upd_other [simp]: "key_bucket_id k \<noteq> b \<Longrightarrow> occ (V(k := x)) b = occ V b"
proof -
  assume "key_bucket_id k \<noteq> b"
  then have "bucket_keys (V(k := x)) b = bucket_keys V b"
    by (auto simp: bucket_keys_def)
  then show ?thesis
    by (simp add: occ_def)
qed

lemma occ_upd_new: "V k = None \<Longrightarrow> occ (V(k \<mapsto> x)) (key_bucket_id k) = occ V (key_bucket_id k) + 1"
proof -
  assume "V k = None"
  then have "bucket_keys (V(k \<mapsto> x)) (key_bucket_id k) = insert k (bucket_keys V (key_bucket_id k))"
      "k \<notin> bucket_keys V (key_bucket_id k)"
    by (auto simp: bucket_keys_def)
  then show ?thesis
    by (simp add: occ_def)
qed

lemma occ_upd_old: "V k = Some v \<Longrightarrow> occ (V(k \<mapsto> x)) b = occ V b"
proof -
  assume "V k = Some v"
  then have "bucket_keys (V(k \<mapsto> x)) b = bucket_keys V b"
    by (auto simp: bucket_keys_def)
  then show ?thesis
    by (simp add: occ_def)
qed

lemma occ_upd_del:
  "V k = Some v \<Longrightarrow> occ (V(k := None)) (key_bucket_id k) + 1 = occ V (key_bucket_id k)"
  using occ_upd_new [of "V(k := None)" k v] by (simp add: fun_upd_idem)

lemma occ_upd_same: "occ (V(k := V k)) b = occ V b"
  by simp

section \<open>The interface of a full node's store\<close>

locale full_reader =
  fixes reader_of :: "'s \<Rightarrow> 'e reader"
    and contents :: "'s \<Rightarrow> salt_state"
    and ok :: "'s \<Rightarrow> bool"
  assumes reads: "ok x \<Longrightarrow> rd_value (reader_of x) k = Ok (contents x k)"
    and metadata: "ok x \<Longrightarrow> is_valid_data_bucket b \<Longrightarrow>
      \<exists>u. rd_metadata (reader_of x) b = Ok ((meta_at (contents x) b)\<lparr>used := u\<rparr>)"
    and used_slots: "ok x \<Longrightarrow> is_valid_data_bucket b \<Longrightarrow>
      rd_bucket_used_slots (reader_of x) b = Ok (of_nat (occ (contents x) b))"
    and fast: "ok x \<Longrightarrow> \<exists>e. rd_plain_value_fast (reader_of x) p = Err e"
    and entries: "ok x \<Longrightarrow> lo \<le> hi \<Longrightarrow> \<exists>es. rd_entries (reader_of x) lo hi = Ok es \<and> bt_ok es \<and>
      (\<forall>k. bt_get es k = (if lo \<le> k \<and> k \<le> hi then contents x k else None))"
    and metas: "ok x \<Longrightarrow> metas_ok (contents x)"
begin

text \<open>The default counting method agrees with the store's own counter.\<close>

lemma default_used_slots:
  assumes "ok x" "is_valid_data_bucket b"
  shows "default_bucket_used_slots (rd_entries (reader_of x)) b = rd_bucket_used_slots (reader_of x) b"
proof -
  let ?lo = "salt_key_from b 0" and ?hi = "salt_key_from b BUCKET_SLOT_ID_MASK"
  have fits: "key_fits b 0" "key_fits b BUCKET_SLOT_ID_MASK"
    using assms(2) by (auto simp: key_fits_def is_valid_data_bucket_unat)
  have in_bucket: "?lo \<le> k \<and> k \<le> ?hi \<longleftrightarrow> key_bucket_id k = b" for k
  proof -
    have "unat k = unat k div 2 ^ 40 * 2 ^ 40 + unat k mod 2 ^ 40"
      by simp
    moreover have "unat k mod 2 ^ 40 < 2 ^ 40"
      by simp
    ultimately show ?thesis
      by (simp add: word_le_nat_alt unat_salt_key_from [OF fits(1)] unat_salt_key_from [OF fits(2)]
          word_eq_unat [of "key_bucket_id k"] unat_key_bucket_id) linarith
  qed
  have "?lo \<le> ?hi"
    by (simp add: word_le_nat_alt unat_salt_key_from [OF fits(1)] unat_salt_key_from [OF fits(2)])
  then obtain es where es: "rd_entries (reader_of x) ?lo ?hi = Ok es" "bt_ok es"
      "\<forall>k. bt_get es k = (if key_bucket_id k = b then contents x k else None)"
    using entries [OF assms(1)] in_bucket by metis
  have "k \<in> set (map fst es) \<longleftrightarrow> k \<in> bucket_keys (contents x) b" for k
  proof -
    have "k \<in> set (map fst es) \<longleftrightarrow> (\<exists>v. bt_get es k = Some v)"
      using bt_get_iff_in [OF es(2)] by force
    then show ?thesis
      using es(3) by (simp add: bucket_keys_def)
  qed
  then have "set (map fst es) = bucket_keys (contents x) b"
    by blast
  moreover have "distinct (map fst es)"
    by (rule bt_ok_distinct [OF es(2)])
  ultimately have "length es = occ (contents x) b"
    by (metis distinct_card length_map occ_def)
  then show ?thesis
    using es(1) assms by (simp add: default_bucket_used_slots_def used_slots)
qed

end

subsection \<open>MemStore provides it\<close>

definition mem_contents :: "mem_store \<Rightarrow> salt_state" where
  "mem_contents ms = bt_get (kvs (ms_state ms))"

definition count_of :: "(bucket_id, u64) btree \<Rightarrow> bucket_id \<Rightarrow> u64" where
  "count_of counts b = (case bt_get counts b of None \<Rightarrow> 0 | Some n \<Rightarrow> n)"

definition state_store_ok :: "state_store \<Rightarrow> bool" where
  "state_store_ok st \<longleftrightarrow> bt_ok (kvs st) \<and> bt_ok (used_slots st) \<and>
     (\<forall>b. is_valid_data_bucket b \<longrightarrow> count_of (used_slots st) b = of_nat (occ (bt_get (kvs st)) b))"

definition mem_ok :: "mem_store \<Rightarrow> bool" where
  "mem_ok ms \<longleftrightarrow> state_store_ok (ms_state ms) \<and> metas_ok (mem_contents ms)"

interpretation mem: full_reader mem_reader mem_contents mem_ok
proof
  fix ms b
  assume ms: "mem_ok ms" and b: "is_valid_data_bucket b"
  have "\<And>v. mem_contents ms (meta_key b) = Some v \<Longrightarrow> \<exists>m. v = meta_sv m"
    using ms b metas_okD by (auto simp: mem_ok_def)
  then show "\<exists>u. rd_metadata (mem_reader ms) b = Ok ((meta_at (mem_contents ms) b)\<lparr>used := u\<rparr>)"
    using b by (fastforce simp: mem_reader_def mem_metadata_def meta_at_def mem_contents_def
        split: option.splits)
qed (auto simp: mem_reader_def mem_value_def mem_contents_def mem_bucket_used_slots_def mem_ok_def
    state_store_ok_def count_of_def mem_plain_value_fast_def mem_entries_def bt_get_range)

subsection \<open>EmptySalt provides it\<close>

interpretation empty: full_reader "\<lambda>_ :: unit. empty_reader" "\<lambda>_ _. None" "\<lambda>_. True"
  by unfold_locales
     (auto simp: empty_reader_def empty_metadata_def meta_at_def default_bucket_used_slots_def
       occ_def bucket_keys_def)

subsection \<open>Committing updates\<close>

lemma count_of_slot:
  assumes ok: "count_of counts b = of_nat (occ V b)" and old: "V k = old" and b: "key_bucket_id k = b"
  shows "count_of (count_slot b old new counts) b = of_nat (occ (V(k := new)) b)"
proof (cases "old = None \<longleftrightarrow> new = None")
  case True
  have "occ (V(k := new)) b = occ V b"
    using True old by (cases new) (auto simp: fun_upd_idem occ_upd_old)
  then show ?thesis
    using True ok by (auto simp: count_slot_def split: option.splits)
next
  case False
  then consider x where "old = None" "new = Some x" | x where "old = Some x" "new = None"
    by auto
  then show ?thesis
  proof cases
    case 1
    then show ?thesis
      using ok occ_upd_new [of V k x] old b
      by (auto simp: count_slot_def count_of_def split: option.splits)
  next
    case 2
    have "occ (V(k := None)) b + 1 = occ V b"
      using occ_upd_del [of V k x] 2 old b by simp
    moreover from this have "0 < occ V b" "occ V b < 2 ^ 64"
      using occ_le [of V b] by auto
    then have "(1 :: u64) \<le> of_nat (occ V b)"
      by (simp add: word_le_nat_alt unat_of_nat)
    moreover have "count_of (count_slot b old new counts) b = of_nat (occ V b) - 1"
      using ok 2 calculation(2)
      by (auto simp: count_slot_def count_of_def saturating_sub_def split: option.splits)
    ultimately show ?thesis
      using 2 by (metis of_nat_1 of_nat_add add_diff_cancel_right')
  qed
qed

lemma count_of_slot_other:
  "b \<noteq> b' \<Longrightarrow> count_of (count_slot b old new counts) b' = count_of counts b'"
  by (auto simp: count_slot_def count_of_def split: option.splits)

lemma bt_ok_count_slot [simp]: "bt_ok counts \<Longrightarrow> bt_ok (count_slot b old new counts)"
  by (auto simp: count_slot_def split: option.splits)

lemma update_state_store_kvs:
  "bt_ok u \<Longrightarrow> bt_get (kvs (update_state_store u st)) = apply_updates u (bt_get (kvs st))"
proof (induction u st rule: update_state_store.induct)
  case (2 key old_value new_value u st)
  then show ?case
    by (cases new_value) (auto simp: Let_def apply_Cons bt_ok_Cons simp del: fun_upd_apply)
qed simp

lemma update_state_store_ok:
  assumes "state_store_ok st" "bt_ok u" "chains_from u (norm (bt_get (kvs st)))"
  shows "state_store_ok (update_state_store u st)"
  using assms
proof (induction u st rule: update_state_store.induct)
  case (2 key old new u st)
  let ?V = "bt_get (kvs st)"
  define counts where "counts = (if \<not> is_in_meta_bucket key
      then count_slot (key_bucket_id key) old new (used_slots st) else used_slots st)"
  define kv where "kv = (case new of Some v \<Rightarrow> bt_insert key v (kvs st) | None \<Rightarrow> bt_remove key (kvs st))"
  have kv: "bt_get kv = ?V(key := new)" "bt_ok kv"
    using "2.prems"(1) by (auto simp: kv_def state_store_ok_def split: option.splits)
  have ch: "norm ?V key = old" "chains_from u ((norm ?V)(key := new))"
    using "2.prems"(2,3) chains_Cons by blast+
  have "state_store_ok \<lparr>kvs = kv, used_slots = counts\<rparr>"
    unfolding state_store_ok_def
  proof (intro conjI allI impI)
    fix b assume b: "is_valid_data_bucket b"
    have cnt: "count_of (used_slots st) b = of_nat (occ ?V b)"
      using "2.prems"(1) b by (simp add: state_store_ok_def)
    show "count_of (used_slots \<lparr>kvs = kv, used_slots = counts\<rparr>) b
        = of_nat (occ (bt_get (kvs \<lparr>kvs = kv, used_slots = counts\<rparr>)) b)"
    proof (cases "key_bucket_id key = b")
      case True
      then have "\<not> is_in_meta_bucket key" "\<not> is_metadata_key key"
        using b in_meta_not_valid by auto
      then show ?thesis
        using count_of_slot [OF cnt _ True, of old new] ch(1) True by (simp add: counts_def kv(1))
    next
      case False
      then show ?thesis
        using cnt by (simp add: counts_def kv(1) count_of_slot_other)
    qed
  qed (use "2.prems"(1) kv(2) in \<open>auto simp: counts_def state_store_ok_def\<close>)
  moreover have "chains_from u (norm (bt_get kv))"
    unfolding chains_from_def
  proof (intro allI impI)
    fix k o' n assume k: "bt_get u k = Some (o', n)"
    then have "k \<noteq> key"
      using "2.prems"(2) by (force simp: bt_ok_Cons bt_get_def dest: map_of_SomeD)
    then have "norm (bt_get kv) k = norm ?V k"
      by (simp add: kv(1) norm_def)
    also have "\<dots> = o'"
      using ch(2) k \<open>k \<noteq> key\<close> unfolding chains_from_def by fastforce
    finally show "norm (bt_get kv) k = o'" .
  qed
  ultimately show ?case
    using "2.IH" [OF counts_def kv_def] "2.prems"(2)
    by (simp add: bt_ok_Cons counts_def kv_def Let_def)
qed simp

lemma mem_update_state:
  assumes "mem_ok ms" "bt_ok u" "chains_from u (norm (mem_contents ms))"
    and "metas_ok (apply_updates u (mem_contents ms))"
  shows "mem_ok (update_state u ms) \<and>
    mem_contents (update_state u ms) = apply_updates u (mem_contents ms)"
  using assms update_state_store_ok [of "ms_state ms" u] update_state_store_kvs [of u "ms_state ms"]
  by (simp add: mem_ok_def mem_contents_def update_state_def)

lemma mem_ok_new: "mem_ok mem_store_new" "mem_contents mem_store_new = (\<lambda>_. None)"
  by (auto simp: mem_ok_def mem_contents_def mem_store_new_def state_store_ok_def count_of_def
      occ_def bucket_keys_def fun_eq_iff metas_ok_def)

section \<open>Properties\<close>

definition is_hex64 :: "string \<Rightarrow> bool" where
  "is_hex64 s \<longleftrightarrow> (case (b512 s :: (bytes, unit) res) of Ok c \<Rightarrow> length c = 64 | _ \<Rightarrow> False)"

lemma b512_subtree: "list_all is_hex64 SUBTREE_DEFAULT_COMMITMENT" by code_simp

lemma b512_main: "list_all (\<lambda>(_, l, r). is_hex64 l \<and> is_hex64 r) DEFAULT_COMMITMENT_AT_LEVEL"
  unfolding DEFAULT_COMMITMENT_AT_LEVEL_def list.pred_inject prod.case
  by (intro conjI TrueI; code_simp)

lemma hex_char_any: "(hex_char_to_u8 ch :: (_, 'e) res) = expect (hex_char_to_u8 ch :: (_, unit) res)"
  by (simp add: hex_char_to_u8_def Let_def)

lemma expect_bind: "expect (bind_res r f) = bind_res (expect r) (\<lambda>x. expect (f x))"
  by (cases r) simp_all

lemma expect_map: "expect (map_res f r) = map_res f (expect r)"
  by (cases r) simp_all

lemma hex_pairs_any: "(hex_pairs s :: (_, 'e) res) = expect (hex_pairs s :: (_, unit) res)"
proof (induction s rule: hex_pairs.induct)
  case (1 hi lo s)
  then show ?case
    by (simp add: expect_bind expect_map hex_char_any [where 'e='e])
qed simp_all

lemma is_hex64_ok: "is_hex64 s \<Longrightarrow> \<exists>c. b512 s = (Ok c :: (_, 'e) res) \<and> length c = 64"
  by (auto simp: is_hex64_def b512_def hex_pairs_any [where 'e='e] split: res.splits if_splits)

text \<open>Committing chained updates to a \<open>MemStore\<close> keeps its invariant: values read back as
  updated and the cached slot count of every data bucket is the number of its occupied slots.\<close>
theorem mem_commit:
  assumes "mem_ok ms" "bt_ok u" "chains_from u (norm (mem_contents ms))"
    and "metas_ok (apply_updates u (mem_contents ms))"
  shows "mem_ok (update_state u ms) \<and>
    (\<forall>k. rd_value (mem_reader (update_state u ms)) k = Ok (apply_updates u (mem_contents ms) k)) \<and>
    (\<forall>b. is_valid_data_bucket b \<longrightarrow> rd_bucket_used_slots (mem_reader (update_state u ms)) b =
       Ok (of_nat (occ (apply_updates u (mem_contents ms)) b)))"
proof -
  have ms: "mem_ok (update_state u ms)" "mem_contents (update_state u ms) = apply_updates u (mem_contents ms)"
    using mem_update_state [OF assms] by blast+
  then show ?thesis
    using mem.reads [OF ms(1)] mem.used_slots [OF ms(1)] by simp
qed

theorem mem_commit_witness:
  "rd_value (mem_reader (update_state [(salt_key_from 70000 3, (None, Some (sv_enc [1] [2])))] mem_store_new))
     (salt_key_from 70000 3) = Ok (Some (sv_enc [1] [2]))"
proof -
  have k: "\<not> is_metadata_key (salt_key_from 70000 3)"
    by (rule data_bucket_not_meta) (simp add: key_fits_def is_valid_data_bucket_unat)
  define u :: state_updates where "u = [(salt_key_from 70000 3, (None, Some (sv_enc [1] [2])))]"
  have "bt_ok u" "chains_from u (norm (\<lambda>_. None))" "metas_ok (apply_updates u (\<lambda>_. None))"
    using k by (auto simp: u_def bt_ok_def chains_from_def bt_get_def metas_ok_def apply_updates_def)
  then have "\<forall>k. rd_value (mem_reader (update_state u mem_store_new)) k = Ok (apply_updates u (\<lambda>_. None) k)"
    using mem_commit [of mem_store_new u] mem_ok_new by simp
  then show ?thesis
    by (simp add: u_def apply_updates_def bt_get_def)
qed

text \<open>The trait's default slot count, a scan over the bucket's entries, agrees with the counter
  \<open>MemStore\<close> maintains.\<close>
theorem mem_default_count_agrees:
  assumes "mem_ok ms" "is_valid_data_bucket b"
  shows "default_bucket_used_slots (mem_entries ms) b = mem_bucket_used_slots ms b"
  using mem.default_used_slots [OF assms] by (simp add: mem_reader_def)

theorem mem_default_count_agrees_witness:
  "default_bucket_used_slots (mem_entries mem_store_new) 70000 = mem_bucket_used_slots mem_store_new 70000"
  using mem_default_count_agrees [OF mem_ok_new(1)] by (simp add: is_valid_data_bucket_unat)

text \<open>Every node of the main trie and of every data bucket's subtree has a 64-byte default
  commitment: the lookup never panics on a well-formed node.\<close>
theorem default_commitment_total:
  assumes "node_fits b l p" "b = 0 \<and> l < 4 \<or> is_valid_data_bucket b"
  shows "\<exists>c. default_commitment (node_at b l p) = (Ok c :: (_, 'e) res) \<and> length c = 64"
proof -
  have lv: "get_bfs_level (node_at b l p AND BUCKET_SLOT_ID_MASK) = (Ok l :: (_, 'e) res)"
    using level_node_at [OF assms(1)] by (simp add: get_local_number_def)
  have "unat (drop_bit 40 (node_at b l p)) = unat b"
    using local_bound [OF assms(1)] by (simp add: unat_drop_bit unat_node_at [OF assms(1)])
  then have top: "drop_bit 40 (node_at b l p) = ucast b"
    by (simp add: word_eq_unat unat_ucast_u32_u64)
  show ?thesis
  proof (cases "is_valid_data_bucket b")
    case True
    have sub: "is_subtree_node (node_at b l p) = (Ok True :: (_, 'e) res)"
      using True by (simp add: is_subtree_node_def Let_def top is_valid_data_bucket_unat word_eq_unat [of "ucast b"] word_less_nat_alt unat_ucast_u32_u64)
    have l: "l < length SUBTREE_DEFAULT_COMMITMENT"
      using assms(1) by (simp add: SUBTREE_DEFAULT_COMMITMENT_def node_fits_def)
    then have "is_hex64 (SUBTREE_DEFAULT_COMMITMENT ! l)"
      using b512_subtree by (simp add: list_all_length)
    then show ?thesis
      using is_hex64_ok [where 'e='e] lv sub l by (simp add: default_commitment_def)
  next
    case False
    then have b: "b = 0" "l < 4"
      using assms(2) by auto
    have sub: "is_subtree_node (node_at b l p) = (Ok False :: (_, 'e) res)"
      by (simp add: is_subtree_node_def Let_def top) (simp add: b(1))
    have l: "l < length DEFAULT_COMMITMENT_AT_LEVEL"
      using b(2) by (simp add: DEFAULT_COMMITMENT_AT_LEVEL_def)
    obtain x y z where xyz: "DEFAULT_COMMITMENT_AT_LEVEL ! l = (x, y, z)" by (metis prod_cases3)
    then have "is_hex64 y" "is_hex64 z"
      using b512_main l by (auto simp: list_all_length)
    then have "\<exists>c. b512 (if node_at b l p < x then y else z) = (Ok c :: (_, 'e) res) \<and> length c = 64"
      using is_hex64_ok [where 'e='e] by simp
    then show ?thesis
      using lv sub l xyz by (cases "node_at b l p < x") (auto simp: default_commitment_def)
  qed
qed

theorem default_commitment_total_witness:
  "\<exists>c. default_commitment (node_at 70000 4 1234) = (Ok c :: (_, unit) res) \<and> length c = 64"
  using default_commitment_total [of 70000 4 1234, where 'e=unit]
  by (simp add: node_fits_def is_valid_data_bucket_unat)

text \<open>\<open>get_subtree_levels\<close> is the least number of levels, between 1 and 5, whose \<open>256^L\<close>
  slots hold the bucket's capacity.\<close>
theorem subtree_levels_least:
  assumes "is_valid_data_bucket b" "rd_metadata rd b = Ok meta" "unat (capacity meta) \<le> 2 ^ 40"
  shows "\<exists>L. 1 \<le> L \<and> L \<le> 5 \<and> get_subtree_levels rd b = Ok (of_nat L) \<and>
    unat (capacity meta) \<le> 256 ^ L \<and> (1 < L \<longrightarrow> 256 ^ (L - 1) < unat (capacity meta))"
proof -
  obtain l where l: "l \<le> 4" "subtree_root_level (capacity meta) = of_nat l"
      "unat (capacity meta) \<le> 256 ^ (5 - l)" "l < 4 \<longrightarrow> 256 ^ (4 - l) < unat (capacity meta)"
    using subtree_root_level_spec [OF assms(3)] by blast
  have "\<not> b < of_nat NUM_META_BUCKETS"
    using assms(1) by (simp add: is_valid_data_bucket_def not_less)
  then have "get_subtree_levels rd b = Ok (of_nat 5 - of_nat l)"
    using assms(2) l(2) by (simp add: get_subtree_levels_def)
  then have "get_subtree_levels rd b = Ok (of_nat (5 - l))"
    using l(1) by (simp add: of_nat_diff)
  moreover have "5 - l - 1 = 4 - l"
    by simp
  ultimately show ?thesis
    using l by (intro exI [of _ "5 - l"]) auto
qed

theorem subtree_levels_least_witness:
  "\<exists>L. L \<le> 5 \<and> get_subtree_levels empty_reader 70000 = Ok (of_nat L) \<and> 256 \<le> (256 :: nat) ^ L"
  using subtree_levels_least [of 70000 empty_reader "default_meta\<lparr>used := Some 0\<rparr>"]
  by (auto simp: is_valid_data_bucket_unat empty_reader_def empty_metadata_def default_meta_def)

end
