(* ===== verification/Verifier.thy ===== *)
theory Verifier
  imports Shape Store
begin

text \<open>
  Proof verification: the errors of \<open>salt/src/proof/mod.rs\<close>, \<open>SaltProof\<close> and the verifier half of
  \<open>salt/src/proof/prover.rs\<close>, \<open>kv_hash\<close> of trie.rs and \<open>hash_commitment\<close> of types.rs. What the
  queries are and which proofs are rejected before any cryptography. The curve group, the scalar field,
  blake3 and the multipoint argument are the record \<open>crypto\<close> of functions: their arithmetic rests on
  crates outside the repository.
\<close>

section \<open>Cryptographic primitives\<close>

text \<open>A \<open>VerifierQuery\<close>: the commitment opens at the point to the result.\<close>

record ('el, 'fr) verifier_query =
  vq_commitment :: 'el
  vq_point :: 'fr
  vq_result :: 'fr

text \<open>A \<open>ProverQuery\<close>; a \<open>LagrangeBasis\<close> is the list of its evaluations.\<close>

record ('el, 'fr) prover_query =
  pq_commitment :: 'el
  pq_poly :: "'fr list"
  pq_point :: nat
  pq_result :: 'fr

text \<open>
  \<open>to_bytes_uncompressed\<close>, \<open>from_bytes_unchecked_uncompressed\<close>, \<open>map_to_scalar_field\<close> (the batch
  version maps it over a slice), \<open>Fr::from\<close>, \<open>from_le_bytes_mod_order\<close>, \<open>serialize_compressed\<close>,
  blake3 of the concatenated updates, \<open>MultiPoint::open\<close> and \<open>MultiPointProof::check\<close> with the
  fixed CRS, weights and transcript label.
\<close>

record ('el, 'fr, 'pf) crypto =
  el_bytes :: "'el \<Rightarrow> bytes"
  el_of_bytes :: "bytes \<Rightarrow> 'el"
  el_to_fr :: "'el \<Rightarrow> 'fr"
  fr_of_u64 :: "u64 \<Rightarrow> 'fr"
  fr_of_le_bytes :: "bytes \<Rightarrow> 'fr"
  fr_bytes :: "'fr \<Rightarrow> bytes"
  blake3 :: "bytes \<Rightarrow> bytes"
  mp_open :: "('el, 'fr) prover_query list \<Rightarrow> 'pf"
  mp_check :: "'pf \<Rightarrow> ('el, 'fr) verifier_query list \<Rightarrow> bool"

definition hash_commitment :: "('el, 'fr, 'pf) crypto \<Rightarrow> commitment_bytes \<Rightarrow> bytes" where
  "hash_commitment cr c = fr_bytes cr (el_to_fr cr (el_of_bytes cr c))"

definition kv_hash :: "('el, 'fr, 'pf) crypto \<Rightarrow> salt_value option \<Rightarrow> ('fr, 'e) res" where
  "kv_hash cr entry = (case entry of
       None \<Rightarrow> Ok (fr_of_le_bytes cr EMPTY_SLOT_HASH)
     | Some v \<Rightarrow> bind_res (sv_key v) (\<lambda>key. bind_res (sv_value v) (\<lambda>val.
         Ok (fr_of_le_bytes cr (blake3 cr (key @ val))))))"

definition slot_to_field :: "('el, 'fr, 'pf) crypto \<Rightarrow> salt_value option \<Rightarrow> ('fr, 'e) res" where
  "slot_to_field cr entry = kv_hash cr entry"

section \<open>Errors and proofs\<close>

text \<open>The \<open>reason\<close> strings of \<open>StateReadError\<close>, one constructor per message, with what they print.\<close>

datatype 'e reason =
    KvsEmpty
  | UnknownBucketLevel
  | UnknownNodeCommitment
  | MissingCommitment node_id
  | MissingKv salt_key
  | EmptyKeySet
  | MetadataUnreadable bucket_id 'e
  | ChildrenUnreadable node_id 'e
  | CommitmentUnreadable node_id 'e
  | LeafCommitmentUnreadable node_id 'e
  | EntriesUnreadable bucket_id u64 'e
  | KeyUnreadable 'e
  | StateUnreadable 'e
  | WrongLocation bytes
  | ClaimedButNotFound bytes

datatype 'e proof_error =
    StateReadError "'e reason"
  | MissingRootCommitment
  | RootMismatch bytes bytes
  | MultiPointProofFailed
  | InvalidLookupTable "'e reason"
  | InvalidSaltKey salt_key u64

record ('el, 'pf) salt_proof =
  parents_commitments :: "(node_id, 'el) btree"
  sp_proof :: 'pf
  sp_levels :: bucket_levels

section \<open>Verifier queries\<close>

definition get_commitment_safe :: "(node_id, 'el) btree \<Rightarrow> node_id \<Rightarrow> ('el, 'e proof_error) res" where
  "get_commitment_safe comms n =
     (case bt_get comms n of Some c \<Rightarrow> Ok c | None \<Rightarrow> Err (StateReadError (MissingCommitment n)))"

definition par_chunks :: "nat \<Rightarrow> 'a list \<Rightarrow> ('a list list, 'e) res" where
  "par_chunks threads xs =
     (if threads = 0 then Panic
      else let chunk_size = (length xs + threads - 1) div threads
           in if chunk_size = 0 then Panic else Ok (chunks_of chunk_size xs))"

definition children_commitments_to_scalars ::
  "(node_id \<times> nat set) list \<Rightarrow> (node_id, 'el) btree \<Rightarrow> (node_id list \<times> 'el list, 'e proof_error) res"
where
  "children_commitments_to_scalars nodes comms =
     map_res (\<lambda>css. (map fst (concat css), map snd (concat css)))
       (map_collect (\<lambda>(encode_node, points).
          map_collect (\<lambda>point.
            bind_res (child_node_id encode_node point) (\<lambda>child_id.
            case bt_get comms child_id of
              Some c \<Rightarrow> Ok (child_id, c)
            | None \<Rightarrow> Err (StateReadError (MissingCommitment child_id))))
            (sorted_list_of_set points)) nodes)"

text \<open>The queries of one parent, given the scalars of the children of the chunk.\<close>

definition internal_queries_of ::
  "('el, 'fr, 'pf) crypto \<Rightarrow> (node_id, 'el) btree \<Rightarrow> (node_id, 'fr) btree \<Rightarrow> node_id \<times> nat set \<Rightarrow>
   (('el, 'fr) verifier_query list, 'e proof_error) res"
where
  "internal_queries_of cr comms child_map = (\<lambda>(encode_node, points).
     bind_res (get_commitment_safe comms (connect_parent_id encode_node)) (\<lambda>commitment.
     map_collect (\<lambda>point.
       bind_res (child_node_id encode_node point) (\<lambda>child_id.
       case bt_get child_map child_id of
         Some fr \<Rightarrow> Ok \<lparr>vq_commitment = commitment, vq_point = fr_of_u64 cr (of_nat point), vq_result = fr\<rparr>
       | None \<Rightarrow> Err (StateReadError (MissingCommitment child_id))))
       (sorted_list_of_set points)))"

definition create_internal_node_queries ::
  "('el, 'fr, 'pf) crypto \<Rightarrow> nat \<Rightarrow> points \<Rightarrow> (node_id, 'el) btree \<Rightarrow>
   (('el, 'fr) verifier_query list, 'e proof_error) res"
where
  "create_internal_node_queries cr threads internal_nodes comms =
     bind_res (par_chunks threads internal_nodes) (\<lambda>chunks.
     map_res concat (map_collect (\<lambda>nodes.
       bind_res (children_commitments_to_scalars nodes comms) (\<lambda>(children_ids, children_commitments).
       let child_map = bt_collect (zip children_ids (map (el_to_fr cr) children_commitments))
       in map_res concat (map_collect (internal_queries_of cr comms child_map) nodes))) chunks))"

definition leaf_start_key :: "node_id \<Rightarrow> salt_key" where
  "leaf_start_key parent =
     (if parent < BUCKET_SLOT_ID_MASK
      then salt_key_from (ucast (parent - STARTING_NODE_ID ! 3)) 0
      else subtree_leaf_start_key parent)"

definition create_leaf_node_queries ::
  "('el, 'fr, 'pf) crypto \<Rightarrow> points \<Rightarrow> (node_id, 'el) btree \<Rightarrow> (salt_key, salt_value option) btree \<Rightarrow>
   (('el, 'fr) verifier_query list, 'e proof_error) res"
where
  "create_leaf_node_queries cr leaf_nodes comms data =
     map_res concat (map_collect (\<lambda>(parent, points).
       bind_res (get_commitment_safe comms (connect_parent_id parent)) (\<lambda>commitment.
       let salt_key_start = leaf_start_key parent
       in map_collect (\<lambda>point.
            let salt_key = salt_key_start + of_nat point
            in case bt_get data salt_key of
                 None \<Rightarrow> Err (StateReadError (MissingKv salt_key))
               | Some salt_val \<Rightarrow> bind_res (slot_to_field cr salt_val) (\<lambda>fr.
                   Ok \<lparr>vq_commitment = commitment, vq_point = fr_of_u64 cr (of_nat point), vq_result = fr\<rparr>))
            (sorted_list_of_set points))) leaf_nodes)"

definition create_verifier_queries ::
  "('el, 'fr, 'pf) crypto \<Rightarrow> nat \<Rightarrow> ('el, 'pf) salt_proof \<Rightarrow> (salt_key, salt_value option) btree \<Rightarrow>
   (('el, 'fr) verifier_query list, 'e proof_error) res"
where
  "create_verifier_queries cr threads proof data =
     (if data = [] then Err (StateReadError KvsEmpty)
      else let bucket_ids_from_keys = set (map (key_bucket_id \<circ> fst) data);
               bucket_ids_from_proof = set (map fst (sp_levels proof))
           in if bucket_ids_from_proof \<noteq> bucket_ids_from_keys then Err (StateReadError UnknownBucketLevel)
              else bind_res (parents_and_points (map fst data) (sp_levels proof)) (\<lambda>(internal_nodes, leaf_nodes).
                let required_node_ids = set (map (connect_parent_id \<circ> fst) (internal_nodes @ leaf_nodes));
                    proof_node_ids = set (map fst (parents_commitments proof))
                in if proof_node_ids \<noteq> required_node_ids then Err (StateReadError UnknownNodeCommitment)
                   else bind_res (create_internal_node_queries cr threads internal_nodes
                                    (parents_commitments proof)) (\<lambda>internal_queries.
                        bind_res (create_leaf_node_queries cr leaf_nodes (parents_commitments proof) data) (\<lambda>leaf_queries.
                        Ok (internal_queries @ leaf_queries)))))"

text \<open>\<open>SaltProof::check\<close>; the number of threads only splits the work.\<close>

definition proof_check ::
  "('el, 'fr, 'pf) crypto \<Rightarrow> nat \<Rightarrow> ('el, 'pf) salt_proof \<Rightarrow> (salt_key, salt_value option) btree \<Rightarrow> bytes \<Rightarrow>
   (unit, 'e proof_error) res"
where
  "proof_check cr threads proof data state_root =
     bind_res (create_verifier_queries cr threads proof data) (\<lambda>queries.
     case bt_get (parents_commitments proof) 0 of
       None \<Rightarrow> Err MissingRootCommitment
     | Some root \<Rightarrow>
         let trie_root = hash_commitment cr (el_bytes cr root)
         in if state_root \<noteq> trie_root then Err (RootMismatch trie_root state_root)
            else if mp_check cr (sp_proof proof) queries then Ok () else Err MultiPointProofFailed)"

section \<open>What the queries are\<close>

lemma par_chunks_ok: "0 < threads \<Longrightarrow> xs \<noteq> [] \<Longrightarrow> \<exists>cs. par_chunks threads xs = Ok cs \<and> concat cs = xs"
proof -
  assume t: "0 < threads" and xs: "xs \<noteq> []"
  have "threads \<le> length xs + threads - 1"
    using xs by (cases xs) auto
  then have "0 < (length xs + threads - 1) div threads"
    using t by (simp add: div_greater_zero_iff)
  then show ?thesis
    using t by (simp add: par_chunks_def Let_def concat_chunks_of)
qed

lemma map_collect_concat:
  "(\<And>x. x \<in> set xs \<Longrightarrow> f x = Ok (g x)) \<Longrightarrow> map_res concat (map_collect f xs) = Ok (concat (map g xs))"
  by (simp add: map_collect_Ok)

lemma bt_get_collect_zip:
  "c \<in> set cs \<Longrightarrow> bt_get (bt_collect (zip cs (map f cs))) c = Some (f c)"
  by (simp add: bt_get_collect zip_map2 zip_same_conv_map rev_map o_def map_of_map_restrict
      restrict_map_def)

section \<open>The expected queries\<close>

definition kv_scalar :: "('el, 'fr, 'pf) crypto \<Rightarrow> salt_value option \<Rightarrow> 'fr" where
  "kv_scalar cr entry = fr_of_le_bytes cr (case entry of
       None \<Rightarrow> EMPTY_SLOT_HASH
     | Some v \<Rightarrow> blake3 cr (plain_key v @ plain_val v))"

lemma slot_to_field_ok:
  "(\<And>v. entry = Some v \<Longrightarrow> sv_valid v) \<Longrightarrow> slot_to_field cr entry = (Ok (kv_scalar cr entry) :: (_, 'e) res)"
  by (auto simp: slot_to_field_def kv_hash_def kv_scalar_def sv_key_valid sv_value_valid
      split: option.splits)

text \<open>
  One query per step of a path: every node opens at the position of the next one to that
  node's scalar, the last one opens at the slot to the entry's scalar.
\<close>

fun path_queries ::
  "('el, 'fr, 'pf) crypto \<Rightarrow> (node_id \<Rightarrow> 'el) \<Rightarrow> 'fr \<Rightarrow> (node_id \<times> nat) list \<Rightarrow>
   ('el, 'fr) verifier_query list"
where
  "path_queries cr C r ((n, i) # (n', i') # ps) =
     \<lparr>vq_commitment = C (connect_parent_id n), vq_point = fr_of_u64 cr (of_nat i),
      vq_result = el_to_fr cr (C (connect_parent_id n'))\<rparr> # path_queries cr C r ((n', i') # ps)"
| "path_queries cr C r [(n, i)] =
     [\<lparr>vq_commitment = C (connect_parent_id n), vq_point = fr_of_u64 cr (of_nat i), vq_result = r\<rparr>]"
| "path_queries cr C r [] = []"

definition path_of :: "bucket_levels \<Rightarrow> salt_key \<Rightarrow> (node_id \<times> nat) list" where
  "path_of levels k =
     auth_path (key_bucket_id k) (unat (key_slot_id k)) (level_of levels (key_bucket_id k))"

definition request_ok :: "bucket_levels \<Rightarrow> (salt_key, salt_value option) btree \<Rightarrow> bool" where
  "request_ok levels data \<longleftrightarrow> data \<noteq> [] \<and> bt_ok data \<and>
     (\<forall>(k, v) \<in> set data. level_ok levels (key_bucket_id k) \<and>
        unat (key_slot_id k) < 256 ^ unat (level_of levels (key_bucket_id k)) \<and>
        (key_bucket_id k = 0 \<longrightarrow> level_of levels (key_bucket_id k) = 1) \<and>
        (\<forall>x. v = Some x \<longrightarrow> sv_valid x))"

definition required_nodes :: "bucket_levels \<Rightarrow> salt_key set \<Rightarrow> node_id set" where
  "required_nodes levels ks = (\<Union>k \<in> ks. (connect_parent_id \<circ> fst) ` set (path_of levels k))"

definition commitment_of :: "(node_id, 'el) btree \<Rightarrow> node_id \<Rightarrow> 'el" where
  "commitment_of comms n = the (bt_get comms n)"

definition child_of :: "node_id \<Rightarrow> nat \<Rightarrow> node_id" where
  "child_of n i = (case child_node_id n i :: (_, unit) res of Ok c \<Rightarrow> c | _ \<Rightarrow> 0)"

definition step_query ::
  "('el, 'fr, 'pf) crypto \<Rightarrow> (node_id \<Rightarrow> 'el) \<Rightarrow> node_id \<times> nat \<Rightarrow> ('el, 'fr) verifier_query"
where
  "step_query cr C = (\<lambda>(n, i). \<lparr>vq_commitment = C (connect_parent_id n),
     vq_point = fr_of_u64 cr (of_nat i), vq_result = el_to_fr cr (C (child_of n i))\<rparr>)"

lemma path_queries_linked:
  assumes "linked (child_node_id :: _ \<Rightarrow> _ \<Rightarrow> (_, unit) res) ps" "ps \<noteq> []"
  shows "set (path_queries cr C r ps) = insert \<lparr>vq_commitment = C (connect_parent_id (fst (last ps))),
      vq_point = fr_of_u64 cr (of_nat (snd (last ps))), vq_result = r\<rparr> (step_query cr C ` set (butlast ps))"
  using assms
  by (induction cr C r ps rule: path_queries.induct)
     (auto simp: step_query_def child_of_def insert_commute)

lemma linked_child:
  assumes "linked (child_node_id :: _ \<Rightarrow> _ \<Rightarrow> (_, 'e) res) ps"
    and "linked (child_node_id :: _ \<Rightarrow> _ \<Rightarrow> (_, unit) res) ps" "(n, i) \<in> set (butlast ps)"
  shows "child_node_id n i = (Ok (child_of n i) :: (_, 'e) res) \<and>
    child_of n i \<in> (connect_parent_id \<circ> fst) ` set ps"
  using assms by (induction ps rule: induct_list012) (auto simp: child_of_def)

lemma request_okD:
  assumes "request_ok levels data" "(k, v) \<in> set data"
  shows "level_ok levels (key_bucket_id k)"
    and "bridge_ok (key_bucket_id k) (level_of levels (key_bucket_id k))"
    and "unat (key_slot_id k) < 256 ^ unat (level_of levels (key_bucket_id k))"
    and "key_bucket_id k = 0 \<Longrightarrow> level_of levels (key_bucket_id k) = 1"
    and "v = Some x \<Longrightarrow> sv_valid x"
  using assms level_okD key_bucket_small [of k] by (auto simp: request_ok_def bridge_ok_def)

lemma path_of_linked:
  "request_ok levels data \<Longrightarrow> (k, v) \<in> set data \<Longrightarrow> linked child_node_id (path_of levels k)"
  unfolding path_of_def by (rule auth_path_linked) (simp_all add: request_okD)

lemma path_of_not_Nil [simp]: "path_of levels k \<noteq> []"
  by (simp add: path_of_def auth_path_def)

lemma path_of_edges:
  "request_ok levels data \<Longrightarrow> (k, v) \<in> set data \<Longrightarrow>
    set (butlast (path_of levels k)) = key_internal levels k \<and> last (path_of levels k) = key_leaf levels k"
  unfolding path_of_def key_internal_def key_leaf_def by (rule auth_path_edges) (rule request_okD)

text \<open>The leaf query's address computation finds the key again.\<close>

lemma leaf_start_key_leaf:
  assumes "bridge_ok (key_bucket_id k) (level_of levels (key_bucket_id k))"
    and "unat (key_slot_id k) < 256 ^ unat (level_of levels (key_bucket_id k))"
    and "key_bucket_id k = 0 \<Longrightarrow> level_of levels (key_bucket_id k) = 1"
  shows "leaf_start_key (fst (key_leaf levels k)) + of_nat (snd (key_leaf levels k)) = k"
proof -
  let ?b = "key_bucket_id k" and ?s = "unat (key_slot_id k)"
  have fits: "key_fits ?b (key_slot_id k)"
    using key_bucket_small [of k] key_slot_small [of k] by (simp add: key_fits_def)
  have k: "salt_key_from ?b (key_slot_id k) = k"
    by (rule salt_key_from_parts)
  show ?thesis
  proof (cases "level_of levels ?b = 1")
    case True
    have "bucket_root_node_id ?b < BUCKET_SLOT_ID_MASK"
      using key_bucket_small [of k]
      by (simp add: word_less_nat_alt unat_bucket_root unat_BUCKET_SLOT_ID_MASK)
    moreover have "(ucast (bucket_root_node_id ?b - STARTING_NODE_ID ! 3) :: u32) = ?b"
      by (simp add: bucket_root_node_id_def salt_consts word_eq_unat unsigned_ucast_eq
          unat_ucast_u32_u64 take_bit_nat_eq_self [OF unat_u32_less] take_bit_word_eq_self)
    moreover have "of_nat (?s mod 256) = key_slot_id k"
      using True assms(2) by simp
    ultimately show ?thesis
      using True k by (simp add: key_leaf_def leaf_edge_def leaf_start_key_def salt_key_from_def)
  next
    case False
    then have b: "?b \<noteq> 0"
      using assms(3) by blast
    then have "2 ^ 40 \<le> unat (node_at ?b 4 (?s div 256))"
      by (simp add: unat_node_at [OF key_leaf_fits] word_eq_unat)
    then have "\<not> node_at ?b 4 (?s div 256) < BUCKET_SLOT_ID_MASK"
      by (simp add: word_less_nat_alt unat_BUCKET_SLOT_ID_MASK)
    moreover have "salt_key_from ?b (of_nat (256 * (?s div 256))) + of_nat (?s mod 256) = k"
    proof -
      have "of_nat (256 * (?s div 256)) + of_nat (?s mod 256) = (of_nat ?s :: u64)"
        by (simp only: of_nat_add [symmetric]) simp
      then show ?thesis
        using k by (simp add: salt_key_from_def add.assoc)
    qed
    ultimately show ?thesis
      using False leaf_start_node_at [OF key_leaf_fits [of k]]
      by (simp add: key_leaf_def leaf_edge_def leaf_start_key_def)
  qed
qed

lemma set_concat_sorted:
  "(\<And>n s. (n, s) \<in> set xs \<Longrightarrow> finite s) \<Longrightarrow>
    set (concat (map (\<lambda>(n, s). map (\<lambda>i. f (n, i)) (sorted_list_of_set (s :: nat set))) xs)) =
      f ` {(n, i). \<exists>s. (n, s) \<in> set xs \<and> i \<in> s}"
proof (induction xs)
  case (Cons x xs)
  obtain n s where x: "x = (n, s)" by (cases x)
  have "{(m, i). \<exists>t. (m, t) \<in> set (x # xs) \<and> i \<in> t} =
      {n} \<times> s \<union> {(m, i). \<exists>t. (m, t) \<in> set xs \<and> i \<in> t}"
    by (auto simp: x)
  moreover have "finite s" "\<And>m t. (m, t) \<in> set xs \<Longrightarrow> finite t"
    using Cons.prems [of n s] Cons.prems x by auto
  ultimately show ?case
    using Cons.IH by (simp add: x image_Un image_image Times_insert_left [symmetric]) (auto simp: image_iff)
qed simp

lemma children_commitments_ok:
  assumes "\<And>n s i. (n, s) \<in> set nodes \<Longrightarrow> finite s \<and> (i \<in> s \<longrightarrow>
      child_node_id n i = (Ok (child_of n i) :: (_, 'e proof_error) res) \<and> child_of n i \<in> dom (bt_get comms))"
  shows "\<exists>ids. children_commitments_to_scalars nodes comms =
      (Ok (ids, map (commitment_of comms) ids) :: (_, 'e proof_error) res) \<and>
    set ids = {child_of n i | n i s. (n, s) \<in> set nodes \<and> i \<in> s}"
proof -
  define g where "g = (\<lambda>(n, s). map (\<lambda>i. (child_of n i, commitment_of comms (child_of n i))) (sorted_list_of_set s))"
  have "children_commitments_to_scalars nodes comms =
      (Ok (map fst (concat (map g nodes)), map snd (concat (map g nodes))) :: (_, 'e proof_error) res)"
  proof -
    have one: "map_collect (\<lambda>point. bind_res (child_node_id n point) (\<lambda>child_id.
        case bt_get comms child_id of Some c \<Rightarrow> Ok (child_id, c)
          | None \<Rightarrow> Err (StateReadError (MissingCommitment child_id)))) (sorted_list_of_set s) =
        (Ok (g (n, s)) :: (_, 'e proof_error) res)" if "(n, s) \<in> set nodes" for n s
    proof -
      have "finite s" "\<And>i. i \<in> s \<Longrightarrow> child_node_id n i = (Ok (child_of n i) :: (_, 'e proof_error) res) \<and>
          (\<exists>c. bt_get comms (child_of n i) = Some c)"
        using assms [OF that] by blast+
      then show ?thesis
        unfolding g_def prod.case by (intro map_collect_Ok) (fastforce simp: commitment_of_def)
    qed
    show ?thesis
      unfolding children_commitments_to_scalars_def
      by (subst map_collect_Ok [where g = g]) (auto simp: one)
  qed
  moreover have "map snd (concat (map g nodes)) = map (commitment_of comms) (map fst (concat (map g nodes)))"
    by (auto simp: g_def)
  moreover have "set (map fst (concat (map g nodes))) = {child_of n i | n i s. (n, s) \<in> set nodes \<and> i \<in> s}"
    using assms by (force simp: g_def)
  ultimately show ?thesis
    by metis
qed

lemma internal_queries_ok:
  assumes "finite s" "\<And>i. i \<in> s \<Longrightarrow> child_node_id n i = (Ok (child_of n i) :: (_, 'e proof_error) res) \<and>
      bt_get child_map (child_of n i) = Some (el_to_fr cr (commitment_of comms (child_of n i)))"
    and "connect_parent_id n \<in> dom (bt_get comms)"
  shows "internal_queries_of cr comms child_map (n, s) =
    (Ok (map (\<lambda>i. step_query cr (commitment_of comms) (n, i)) (sorted_list_of_set s)) :: (_, 'e proof_error) res)"
proof -
  obtain c where c: "bt_get comms (connect_parent_id n) = Some c"
    using assms(3) by auto
  then show ?thesis
    unfolding internal_queries_of_def prod.case get_commitment_safe_def
    by (simp, intro map_collect_Ok) (use assms in \<open>simp add: step_query_def commitment_of_def\<close>)
qed

lemma create_internal_ok:
  assumes "0 < threads" "im \<noteq> []"
    and "\<And>n s i. (n, s) \<in> set im \<Longrightarrow> connect_parent_id n \<in> dom (bt_get comms) \<and> finite s \<and> (i \<in> s \<longrightarrow>
      child_node_id n i = (Ok (child_of n i) :: (_, 'e proof_error) res) \<and> child_of n i \<in> dom (bt_get comms))"
  shows "\<exists>qs. create_internal_node_queries cr threads im comms = (Ok qs :: (_, 'e proof_error) res) \<and>
    set qs = step_query cr (commitment_of comms) ` {(n, i). \<exists>s. (n, s) \<in> set im \<and> i \<in> s}"
proof -
  define q where "q = (\<lambda>(n, s). map (\<lambda>i. step_query cr (commitment_of comms) (n, i)) (sorted_list_of_set (s :: nat set)))"
  obtain cs where cs: "par_chunks threads im = (Ok cs :: (_, 'e proof_error) res)" "concat cs = im"
    using par_chunks_ok [OF assms(1,2), where 'b = "'e proof_error"] by blast
  have chunk: "bind_res (children_commitments_to_scalars nodes comms) (\<lambda>(ids, cms).
      let child_map = bt_collect (zip ids (map (el_to_fr cr) cms))
      in map_res concat (map_collect (internal_queries_of cr comms child_map) nodes)) =
      (Ok (concat (map q nodes)) :: (_, 'e proof_error) res)" if "nodes \<in> set cs" for nodes
  proof -
    have sub: "set nodes \<subseteq> set im"
      using that cs(2) by auto
    obtain ids where ids: "children_commitments_to_scalars nodes comms =
          (Ok (ids, map (commitment_of comms) ids) :: (_, 'e proof_error) res)"
        "set ids = {child_of n i | n i s. (n, s) \<in> set nodes \<and> i \<in> s}"
      using children_commitments_ok [of nodes comms, where 'e = 'e] assms(3) sub by blast
    let ?m = "bt_collect (zip ids (map (el_to_fr cr) (map (commitment_of comms) ids)))"
    have m: "bt_get ?m c = Some (el_to_fr cr (commitment_of comms c))" if "c \<in> set ids" for c
      using bt_get_collect_zip [OF that, of "el_to_fr cr \<circ> commitment_of comms"] by simp
    have "internal_queries_of cr comms ?m x = (Ok (q x) :: (_, 'e proof_error) res)" if "x \<in> set nodes" for x
    proof -
      obtain n s where x: "x = (n, s)" by (cases x)
      show ?thesis
        unfolding x q_def prod.case
        by (rule internal_queries_ok) (use assms(3) sub that m ids(2) x in blast)+
    qed
    then show ?thesis
      by (simp add: ids(1) map_collect_concat del: map_map)
  qed
  have "create_internal_node_queries cr threads im comms =
      (Ok (concat (map (\<lambda>nodes. concat (map q nodes)) cs)) :: (_, 'e proof_error) res)"
    unfolding create_internal_node_queries_def cs(1) bind_res.simps
    by (rule map_collect_concat) (rule chunk)
  moreover have "concat (map (\<lambda>nodes. concat (map q nodes)) cs) = concat (map q im)"
    unfolding cs(2) [symmetric] by (induction cs) simp_all
  moreover have "set (concat (map q im)) =
      step_query cr (commitment_of comms) ` {(n, i). \<exists>s. (n, s) \<in> set im \<and> i \<in> s}"
    unfolding q_def by (rule set_concat_sorted) (use assms(3) in blast)
  ultimately show ?thesis
    by simp
qed

definition leaf_query ::
  "('el, 'fr, 'pf) crypto \<Rightarrow> (node_id \<Rightarrow> 'el) \<Rightarrow> (salt_key, salt_value option) btree \<Rightarrow> node_id \<times> nat \<Rightarrow>
   ('el, 'fr) verifier_query"
where
  "leaf_query cr C data = (\<lambda>(n, i). \<lparr>vq_commitment = C (connect_parent_id n),
     vq_point = fr_of_u64 cr (of_nat i),
     vq_result = kv_scalar cr (the (bt_get data (leaf_start_key n + of_nat i)))\<rparr>)"

lemma create_leaf_ok:
  assumes "\<And>n s i. (n, s) \<in> set sm \<Longrightarrow> connect_parent_id n \<in> dom (bt_get comms) \<and> finite s \<and>
      (i \<in> s \<longrightarrow> (\<exists>v. bt_get data (leaf_start_key n + of_nat i) = Some v \<and> (\<forall>x. v = Some x \<longrightarrow> sv_valid x)))"
  shows "\<exists>qs. create_leaf_node_queries cr sm comms data = (Ok qs :: (_, 'e proof_error) res) \<and>
    set qs = leaf_query cr (commitment_of comms) data ` {(n, i). \<exists>s. (n, s) \<in> set sm \<and> i \<in> s}"
proof -
  define q where "q = (\<lambda>(n, s). map (\<lambda>i. leaf_query cr (commitment_of comms) data (n, i)) (sorted_list_of_set (s :: nat set)))"
  have one: "bind_res (get_commitment_safe comms (connect_parent_id n)) (\<lambda>commitment.
       let salt_key_start = leaf_start_key n
       in map_collect (\<lambda>point.
            let salt_key = salt_key_start + of_nat point
            in case bt_get data salt_key of
                 None \<Rightarrow> Err (StateReadError (MissingKv salt_key))
               | Some salt_val \<Rightarrow> bind_res (slot_to_field cr salt_val) (\<lambda>fr.
                   Ok \<lparr>vq_commitment = commitment, vq_point = fr_of_u64 cr (of_nat point), vq_result = fr\<rparr>))
            (sorted_list_of_set s)) = (Ok (q (n, s)) :: (_, 'e proof_error) res)"
    if mem: "(n, s) \<in> set sm" for n s
  proof -
    obtain c where c: "bt_get comms (connect_parent_id n) = Some c" and s: "finite s"
      using assms [OF mem] by blast
    have "(case bt_get data (leaf_start_key n + of_nat i) of
          None \<Rightarrow> Err (StateReadError (MissingKv (leaf_start_key n + of_nat i)))
        | Some salt_val \<Rightarrow> bind_res (slot_to_field cr salt_val) (\<lambda>fr.
            Ok \<lparr>vq_commitment = c, vq_point = fr_of_u64 cr (of_nat i), vq_result = fr\<rparr>)) =
        (Ok (leaf_query cr (commitment_of comms) data (n, i)) :: (_, 'e proof_error) res)" if i: "i \<in> s" for i
    proof -
      obtain v where "bt_get data (leaf_start_key n + of_nat i) = Some v" "\<forall>x. v = Some x \<longrightarrow> sv_valid x"
        using assms [OF mem, of i] i by blast
      then show ?thesis
        using slot_to_field_ok [of v cr, where 'e = "'e proof_error"] c by (simp add: leaf_query_def commitment_of_def)
    qed
    then show ?thesis
      using s by (simp add: get_commitment_safe_def c q_def Let_def) (intro map_collect_Ok, simp)
  qed
  have "create_leaf_node_queries cr sm comms data = (Ok (concat (map q sm)) :: (_, 'e proof_error) res)"
    unfolding create_leaf_node_queries_def
    by (rule map_collect_concat) (simp only: split_paired_all prod.case one)
  moreover have "set (concat (map q sm)) =
      leaf_query cr (commitment_of comms) data ` {(n, i). \<exists>s. (n, s) \<in> set sm \<and> i \<in> s}"
    unfolding q_def by (rule set_concat_sorted) (use assms in blast)
  ultimately show ?thesis
    by simp
qed

lemma path_of_0: "(connect_parent_id \<circ> fst) (hd (path_of levels k)) = 0"
proof -
  have "node_fits 0 0 0"
    by (simp add: node_fits_def)
  then show ?thesis
    using connect_node_at [of 0 0 0] by (simp add: path_of_def auth_path_def node_at_def)
qed

lemma key_leaf_query:
  assumes "request_ok levels data" "(k, v) \<in> set data"
  shows "leaf_query cr C data (key_leaf levels k) =
    \<lparr>vq_commitment = C (connect_parent_id (fst (key_leaf levels k))),
     vq_point = fr_of_u64 cr (of_nat (snd (key_leaf levels k))), vq_result = kv_scalar cr v\<rparr>"
proof -
  have "bt_get data k = Some v"
    using assms by (simp add: request_ok_def bt_get_in)
  then show ?thesis
    using leaf_start_key_leaf [of k levels] request_okD [OF assms]
    by (cases "key_leaf levels k") (simp add: leaf_query_def)
qed

lemma path_of_queries:
  assumes "request_ok levels data" "(k, v) \<in> set data"
  shows "set (path_queries cr C (kv_scalar cr v) (path_of levels k)) =
    insert (leaf_query cr C data (key_leaf levels k)) (step_query cr C ` key_internal levels k)"
  using path_queries_linked [OF path_of_linked [OF assms]] path_of_edges [OF assms]
  by (simp add: key_leaf_query [OF assms])


lemma required_points:
  assumes "request_ok levels data" "parents_and_points (map fst data) levels = (Ok (im, sm) :: (_, 'e) res)"
  shows "pts_ok im" "pts_ok sm" "edges im = (\<Union>k \<in> fst ` set data. key_internal levels k)"
    and "edges sm = key_leaf levels ` fst ` set data"
    and "(connect_parent_id \<circ> fst) ` set (im @ sm) = required_nodes levels (fst ` set data)"
proof -
  have "\<forall>k \<in> set (map fst data). level_ok levels (key_bucket_id k)"
    using request_okD(1) [OF assms(1)] by auto
  from parents_and_points_spec [OF this, where 'e = 'e]
  show p: "pts_ok im" "pts_ok sm" "edges im = (\<Union>k \<in> fst ` set data. key_internal levels k)"
      "edges sm = key_leaf levels ` fst ` set data"
    using assms(2) by auto
  have "fst ` set (im @ sm) = fst ` (edges im \<union> edges sm)"
    using pts_ok_keys [OF p(1)] pts_ok_keys [OF p(2)] by (simp add: image_Un)
  moreover have "edges im \<union> edges sm = (\<Union>k \<in> fst ` set data. set (path_of levels k))"
  proof -
    have "set (path_of levels k) = insert (key_leaf levels k) (key_internal levels k)" if mem: "k \<in> fst ` set data" for k
    proof -
      obtain v where kv: "(k, v) \<in> set data"
        using mem by auto
      have "path_of levels k = butlast (path_of levels k) @ [last (path_of levels k)]"
        by simp
      then have "set (path_of levels k) = insert (last (path_of levels k)) (set (butlast (path_of levels k)))"
        by (metis Un_commute insert_is_Un list.simps(15) set_append empty_set)
      then show ?thesis
        using path_of_edges [OF assms(1) kv] by simp
    qed
    then show ?thesis
      unfolding p(3,4) by auto
  qed
  ultimately show "(connect_parent_id \<circ> fst) ` set (im @ sm) = required_nodes levels (fst ` set data)"
    unfolding required_nodes_def image_comp [symmetric] by (simp add: image_UN)
qed

text \<open>With the right buckets and nodes in the proof, the queries are those of the keys' paths.\<close>

lemma verifier_queries_ok:
  assumes "0 < threads" "request_ok (sp_levels proof) data"
    and "fst ` set (sp_levels proof) = key_bucket_id ` fst ` set data"
    and "fst ` set (parents_commitments proof) = required_nodes (sp_levels proof) (fst ` set data)"
  shows "\<exists>qs. create_verifier_queries cr threads proof data = (Ok qs :: (_, 'e proof_error) res) \<and>
    set qs = (\<Union>(k, v) \<in> set data. set (path_queries cr (commitment_of (parents_commitments proof))
      (kv_scalar cr v) (path_of (sp_levels proof) k)))"
proof -
  let ?L = "sp_levels proof" and ?cs = "parents_commitments proof"
  let ?C = "commitment_of ?cs"
  have "\<forall>k \<in> set (map fst data). level_ok ?L (key_bucket_id k)"
    using request_okD(1) [OF assms(2)] by auto
  then obtain im sm where ims: "parents_and_points (map fst data) ?L = (Ok (im, sm) :: (_, 'e proof_error) res)"
    using parents_and_points_spec [where 'e = "'e proof_error"] by blast
  note rp = required_points [OF assms(2) ims]
  have dom: "dom (bt_get ?cs) = (connect_parent_id \<circ> fst) ` set (im @ sm)"
    using assms(4) rp(5) set_keys_dom [of ?cs] by simp
  have data: "data \<noteq> []"
    using assms(2) by (simp add: request_ok_def)
  have edge: "child_node_id n i = (Ok (child_of n i) :: (_, 'e proof_error) res) \<and> child_of n i \<in> dom (bt_get ?cs)"
    if "(n, s) \<in> set im" "i \<in> s" for n s i
  proof -
    have "(n, i) \<in> edges im"
      using that in_edges_iff [OF rp(1)] by blast
    then obtain k v where kv: "(k, v) \<in> set data" "(n, i) \<in> key_internal ?L k"
      using rp(3) by auto
    have "child_node_id n i = (Ok (child_of n i) :: (_, 'e proof_error) res) \<and>
        child_of n i \<in> (connect_parent_id \<circ> fst) ` set (path_of ?L k)"
      by (rule linked_child) (use path_of_linked [OF assms(2) kv(1)] path_of_edges [OF assms(2) kv(1)] kv(2) in simp_all)
    then show ?thesis
      using kv(1) unfolding dom rp(5) required_nodes_def by force
  qed
  have fin: "finite s" if "(n, s) \<in> set im \<or> (n, s) \<in> set sm" for n s
    using that rp(1,2) by (auto simp: pts_ok_def)
  have conn: "connect_parent_id n \<in> dom (bt_get ?cs)" if "(n, s) \<in> set im \<or> (n, s) \<in> set sm" for n s
    using that unfolding dom by force
  have im: "im \<noteq> []"
  proof
    assume "im = []"
    moreover obtain kv where "kv \<in> set data"
      using data by (cases data) auto
    ultimately have "key_internal ?L (fst kv) = {}"
      using rp(3) by auto
    then show False
      by (simp add: key_internal_def internal_edges_def climb_def lessThan_empty_iff split: if_splits)
  qed
  have leaf: "\<exists>v. bt_get data (leaf_start_key n + of_nat i) = Some v \<and> (\<forall>x. v = Some x \<longrightarrow> sv_valid x)"
    if "(n, s) \<in> set sm" "i \<in> s" for n s i
  proof -
    have "(n, i) \<in> edges sm"
      using that in_edges_iff [OF rp(2)] by blast
    then obtain k v where kv: "(k, v) \<in> set data" "(n, i) = key_leaf ?L k"
      using rp(4) by auto
    have "leaf_start_key n + of_nat i = k"
      using leaf_start_key_leaf [of k ?L] request_okD [OF assms(2) kv(1)] kv(2) by (metis fst_conv snd_conv)
    then show ?thesis
      using assms(2) kv(1) request_okD(5) [OF assms(2) kv(1)] by (auto simp: request_ok_def bt_get_in)
  qed
  obtain qi where qi: "create_internal_node_queries cr threads im ?cs = (Ok qi :: (_, 'e proof_error) res)"
      "set qi = step_query cr ?C ` {(n, i). \<exists>s. (n, s) \<in> set im \<and> i \<in> s}"
    using create_internal_ok [OF assms(1) im, of ?cs cr, where 'e = 'e] edge fin conn by blast
  obtain ql where ql: "create_leaf_node_queries cr sm ?cs data = (Ok ql :: (_, 'e proof_error) res)"
      "set ql = leaf_query cr ?C data ` {(n, i). \<exists>s. (n, s) \<in> set sm \<and> i \<in> s}"
    using create_leaf_ok [of sm ?cs data cr, where 'e = 'e] leaf fin conn by blast
  have "create_verifier_queries cr threads proof data = (Ok (qi @ ql) :: (_, 'e proof_error) res)"
    using data assms(3,4) rp(5) qi(1) ql(1) ims
    by (simp add: create_verifier_queries_def Let_def image_comp image_Un)
  moreover have "set (qi @ ql) = step_query cr ?C ` edges im \<union> leaf_query cr ?C data ` edges sm"
  proof -
    have "{(n, i). \<exists>s. (n, s) \<in> set im \<and> i \<in> s} = edges im" "{(n, i). \<exists>s. (n, s) \<in> set sm \<and> i \<in> s} = edges sm"
      using in_edges_iff [OF rp(1)] in_edges_iff [OF rp(2)] by auto
    then show ?thesis
      using qi(2) ql(2) by simp
  qed
  moreover have "step_query cr ?C ` edges im \<union> leaf_query cr ?C data ` edges sm =
      (\<Union>(k, v) \<in> set data. set (path_queries cr ?C (kv_scalar cr v) (path_of ?L k)))"
  proof -
    have "(\<Union>(k, v) \<in> set data. set (path_queries cr ?C (kv_scalar cr v) (path_of ?L k))) =
        (\<Union>(k, v) \<in> set data. insert (leaf_query cr ?C data (key_leaf ?L k)) (step_query cr ?C ` key_internal ?L k))"
      by (rule SUP_cong [OF refl]) (simp only: split_paired_all prod.case path_of_queries [OF assms(2)])
    then show ?thesis
      unfolding rp(3,4) by (simp add: image_UN case_prod_beta) blast
  qed
  ultimately show ?thesis
    by metis
qed

section \<open>What a check decides\<close>

lemma root_commitment:
  assumes "request_ok levels data" "fst ` set comms = required_nodes levels (fst ` set data)"
  shows "\<exists>c. bt_get comms 0 = Some c"
proof -
  obtain kv where "kv \<in> set data"
    using assms(1) by (cases data) (auto simp: request_ok_def)
  moreover have "hd (path_of levels (fst kv)) \<in> set (path_of levels (fst kv))"
    by simp
  ultimately have "0 \<in> required_nodes levels (fst ` set data)"
    using path_of_0 [of levels "fst kv"] unfolding required_nodes_def by (metis UN_I image_eqI)
  then show ?thesis
    using assms(2) set_keys_dom [of comms] by auto
qed

text \<open>
  What is assumed of the cryptography, as facts about the ideal primitives: an accepted
  multipoint proof means that every queried commitment opens as claimed; a commitment, read through
  its scalar, opens to one value per point; serialisation of scalars and of elements loses nothing.
\<close>

definition opening_sound :: "('el, 'fr, 'pf) crypto \<Rightarrow> ('el \<Rightarrow> 'fr \<Rightarrow> 'fr \<Rightarrow> bool) \<Rightarrow> bool" where
  "opening_sound cr opens \<longleftrightarrow> (\<forall>pf qs. mp_check cr pf qs \<longrightarrow>
     (\<forall>q \<in> set qs. opens (vq_commitment q) (vq_point q) (vq_result q)))"

definition opening_binding :: "('el, 'fr, 'pf) crypto \<Rightarrow> ('el \<Rightarrow> 'fr \<Rightarrow> 'fr \<Rightarrow> bool) \<Rightarrow> bool" where
  "opening_binding cr opens \<longleftrightarrow> (\<forall>c c' i r r'. el_to_fr cr c = el_to_fr cr c' \<longrightarrow> opens c i r \<longrightarrow>
     opens c' i r' \<longrightarrow> r = r')"

definition faithful_bytes :: "('el, 'fr, 'pf) crypto \<Rightarrow> bool" where
  "faithful_bytes cr \<longleftrightarrow> (\<forall>r r'. fr_bytes cr r = fr_bytes cr r' \<longrightarrow> r = r') \<and>
     (\<forall>e. el_to_fr cr (el_of_bytes cr (el_bytes cr e)) = el_to_fr cr e)"

lemma path_binding:
  assumes "opening_binding cr opens" "ps \<noteq> []"
    and "el_to_fr cr (C (connect_parent_id (fst (hd ps)))) = el_to_fr cr (C' (connect_parent_id (fst (hd ps))))"
    and "\<forall>q \<in> set (path_queries cr C r ps). opens (vq_commitment q) (vq_point q) (vq_result q)"
    and "\<forall>q \<in> set (path_queries cr C' r' ps). opens (vq_commitment q) (vq_point q) (vq_result q)"
  shows "r = r'"
  using assms(2-)
proof (induction ps rule: induct_list012)
  case (2 x)
  then show ?case
    using assms(1) by (cases x) (auto simp: opening_binding_def)
next
  case (3 x y zs)
  obtain n i n' i' where xy: "x = (n, i)" "y = (n', i')"
    by (cases x, cases y)
  have "el_to_fr cr (C (connect_parent_id n')) = el_to_fr cr (C' (connect_parent_id n'))"
    using 3(4-) assms(1) by (auto simp: opening_binding_def xy)
  then show ?case
    using 3(2) 3(4-) by (simp add: xy)
qed simp

section \<open>Properties\<close>

text \<open>A concrete instance for the witnesses: scalars and elements are numbers, a commitment opens to itself.\<close>

definition ex_crypto :: "(nat, nat, unit) crypto" where
  "ex_crypto = \<lparr>el_bytes = (\<lambda>n. replicate n 0), el_of_bytes = length, el_to_fr = (\<lambda>n. n),
     fr_of_u64 = unat, fr_of_le_bytes = (\<lambda>_. 5), fr_bytes = (\<lambda>n. replicate n 0), blake3 = (\<lambda>b. b),
     mp_open = (\<lambda>_. ()), mp_check = (\<lambda>_ qs. \<forall>q \<in> set qs. vq_result q = vq_commitment q)\<rparr>"

definition ex_proof :: "(nat, unit) salt_proof" where
  "ex_proof = \<lparr>parents_commitments = [(0, 5), (1, 5), (257, 5), (65796, 5)], sp_proof = (), sp_levels = [(3, 1)]\<rparr>"

definition ex_data :: "(salt_key, salt_value option) btree" where
  "ex_data = [(salt_key_from 3 7, Some (sv_enc [1] [2]))]"

lemma ex_request: "request_ok [(3, 1)] ex_data"
proof -
  have "key_fits 3 7"
    by (simp add: key_fits_def)
  then show ?thesis
    by (simp add: ex_data_def request_ok_def bt_ok_def level_ok_def level_of_def bt_get_def
        key_bucket_id_from key_slot_id_from kv_fits_def word_le_nat_alt)
qed

lemma ex_required: "required_nodes [(3, 1)] (fst ` set ex_data) = {0, 1, 257, 65796}"
proof -
  have k: "key_fits 3 7"
    by (simp add: key_fits_def)
  have "path_of [(3, 1)] (salt_key_from 3 7) = auth_path 3 7 1"
    by (simp add: path_of_def level_of_def bt_get_def key_bucket_id_from [OF k] key_slot_id_from [OF k])
  moreover have "node_fits 0 0 0" "node_fits 0 (Suc 0) 0" "node_fits 0 2 0" "node_fits 0 3 3"
    by (simp_all add: node_fits_def)
  ultimately show ?thesis
    by (simp add: required_nodes_def ex_data_def auth_path_def bucket_root_node_at connect_node_at)
       (simp add: node_at_def)
qed

lemma check_decides_aux:
  assumes "0 < threads" "request_ok (sp_levels proof) data"
    and "fst ` set (sp_levels proof) = key_bucket_id ` fst ` set data"
    and "fst ` set (parents_commitments proof) = required_nodes (sp_levels proof) (fst ` set data)"
  shows "\<exists>qs. set qs = (\<Union>(k, v) \<in> set data. set (path_queries cr (commitment_of (parents_commitments proof))
        (kv_scalar cr v) (path_of (sp_levels proof) k))) \<and>
    create_verifier_queries cr threads proof data = (Ok qs :: (_, 'e proof_error) res) \<and>
    (\<forall>root. proof_check cr threads proof data root =
      (let trie_root = hash_commitment cr (el_bytes cr (commitment_of (parents_commitments proof) 0))
       in if root \<noteq> trie_root then Err (RootMismatch trie_root root)
          else if mp_check cr (sp_proof proof) qs then Ok () else Err (MultiPointProofFailed :: 'e proof_error)))"
proof -
  obtain qs where qs: "create_verifier_queries cr threads proof data = (Ok qs :: (_, 'e proof_error) res)"
      "set qs = (\<Union>(k, v) \<in> set data. set (path_queries cr (commitment_of (parents_commitments proof))
        (kv_scalar cr v) (path_of (sp_levels proof) k)))"
    using verifier_queries_ok [OF assms, of cr, where 'e = 'e] by blast
  obtain c where "bt_get (parents_commitments proof) 0 = Some c"
    using root_commitment [OF assms(2,4)] by blast
  then show ?thesis
    using qs by (intro exI [of _ qs]) (simp add: proof_check_def commitment_of_def)
qed

text \<open>C29: A well-formed request (at least one key, from one to five levels claimed for every bucket and one for the bucket
  0, slots that fit these levels, values whose lengths fit their 94 bytes) with a proof that carries exactly the levels of
  the requested buckets and the commitments of the nodes on the requested paths is judged by \<open>check\<close> on the state root
  and on the multipoint argument alone, whose queries are one per path step: every node opens to its child's scalar and
  the last one to the entry's \<open>kv_hash\<close>. No such request makes the verifier panic.\<close>
theorem check_decides:
  assumes "0 < threads" "request_ok (sp_levels proof) data"
    and "fst ` set (sp_levels proof) = key_bucket_id ` fst ` set data"
    and "fst ` set (parents_commitments proof) = required_nodes (sp_levels proof) (fst ` set data)"
  shows "\<exists>qs. set qs = (\<Union>(k, v) \<in> set data. set (path_queries cr (commitment_of (parents_commitments proof))
        (kv_scalar cr v) (path_of (sp_levels proof) k))) \<and>
    create_verifier_queries cr threads proof data = (Ok qs :: (_, 'e proof_error) res) \<and>
    (\<forall>root. proof_check cr threads proof data root =
      (let trie_root = hash_commitment cr (el_bytes cr (commitment_of (parents_commitments proof) 0))
       in if root \<noteq> trie_root then Err (RootMismatch trie_root root)
          else if mp_check cr (sp_proof proof) qs then Ok () else Err (MultiPointProofFailed :: 'e proof_error)))"
  by (rule check_decides_aux [OF assms])

theorem check_decides_witness:
  "\<exists>qs. create_verifier_queries ex_crypto 2 ex_proof ex_data = (Ok qs :: (_, unit proof_error) res) \<and>
    \<lparr>vq_commitment = 5, vq_point = 7, vq_result = 5\<rparr> \<in> set qs"
proof -
  have k: "key_fits 3 7"
    by (simp add: key_fits_def)
  have "fst ` set (sp_levels ex_proof) = key_bucket_id ` fst ` set ex_data"
    by (simp add: ex_proof_def ex_data_def key_bucket_id_from [OF k])
  then obtain qs where qs: "create_verifier_queries ex_crypto 2 ex_proof ex_data = (Ok qs :: (_, unit proof_error) res)"
      "set qs = (\<Union>(k, v) \<in> set ex_data. set (path_queries ex_crypto (commitment_of (parents_commitments ex_proof))
        (kv_scalar ex_crypto v) (path_of (sp_levels ex_proof) k)))"
    using check_decides [of 2 ex_proof ex_data ex_crypto, where 'e=unit] ex_request ex_required
    by (auto simp: ex_proof_def)
  have "path_of [(3, 1)] (salt_key_from 3 7) = auth_path 3 7 1"
    by (simp add: path_of_def level_of_def bt_get_def key_bucket_id_from [OF k] key_slot_id_from [OF k])
  moreover have "connect_parent_id (bucket_root_node_id 3) = 65796"
    using connect_node_at [of 0 3 3] by (simp add: bucket_root_node_at node_fits_def) (simp add: node_at_def)
  ultimately have "\<lparr>vq_commitment = 5, vq_point = 7, vq_result = 5\<rparr> \<in> set qs"
    unfolding qs(2) by (simp add: ex_data_def ex_proof_def auth_path_def commitment_of_def bt_get_def
        ex_crypto_def kv_scalar_def)
  then show ?thesis
    using qs(1) by blast
qed

lemma same_root:
  assumes "faithful_bytes cr" "hash_commitment cr (el_bytes cr c) = hash_commitment cr (el_bytes cr c')"
  shows "el_to_fr cr c = el_to_fr cr c'"
  using assms by (metis faithful_bytes_def hash_commitment_def)

lemma ex_buckets: "fst ` set (sp_levels ex_proof) = key_bucket_id ` fst ` set ex_data"
proof -
  have k: "key_fits 3 7"
    by (simp add: key_fits_def)
  show ?thesis
    by (simp add: ex_proof_def ex_data_def key_bucket_id_from [OF k])
qed

text \<open>C30: Malformed proofs are rejected before any cryptography: an empty request, a proof whose bucket
  levels are not those of the requested buckets, and, for a request with well-formed levels, slots and values, a proof that
  lacks a commitment of a requested path or carries one that is on none, each with its own error.\<close>
theorem check_rejects:
  "proof_check cr threads proof [] root = (Err (StateReadError KvsEmpty) :: (_, 'e proof_error) res) \<and>
   (data \<noteq> [] \<longrightarrow> fst ` set (sp_levels proof) \<noteq> key_bucket_id ` fst ` set data \<longrightarrow>
     proof_check cr threads proof data root = (Err (StateReadError UnknownBucketLevel) :: (_, 'e proof_error) res)) \<and>
   (request_ok (sp_levels proof) data \<longrightarrow> fst ` set (sp_levels proof) = key_bucket_id ` fst ` set data \<longrightarrow>
     fst ` set (parents_commitments proof) \<noteq> required_nodes (sp_levels proof) (fst ` set data) \<longrightarrow>
     proof_check cr threads proof data root = (Err (StateReadError UnknownNodeCommitment) :: (_, 'e proof_error) res))"
proof (intro conjI impI)
  show "proof_check cr threads proof [] root = (Err (StateReadError KvsEmpty) :: (_, 'e proof_error) res)"
    by (simp add: proof_check_def create_verifier_queries_def)
next
  assume "data \<noteq> []" "fst ` set (sp_levels proof) \<noteq> key_bucket_id ` fst ` set data"
  then show "proof_check cr threads proof data root = (Err (StateReadError UnknownBucketLevel) :: (_, 'e proof_error) res)"
    by (simp add: proof_check_def create_verifier_queries_def image_comp)
next
  assume h: "request_ok (sp_levels proof) data" "fst ` set (sp_levels proof) = key_bucket_id ` fst ` set data"
    "fst ` set (parents_commitments proof) \<noteq> required_nodes (sp_levels proof) (fst ` set data)"
  have "\<forall>k \<in> set (map fst data). level_ok (sp_levels proof) (key_bucket_id k)"
    using request_okD(1) [OF h(1)] by auto
  then obtain im sm where ims: "parents_and_points (map fst data) (sp_levels proof) = (Ok (im, sm) :: (_, 'e proof_error) res)"
    using parents_and_points_spec [where 'e = "'e proof_error"] by blast
  have "data \<noteq> []"
    using h(1) by (simp add: request_ok_def)
  then show "proof_check cr threads proof data root = (Err (StateReadError UnknownNodeCommitment) :: (_, 'e proof_error) res)"
    using h(2,3) required_points(5) [OF h(1) ims]
    by (simp add: proof_check_def create_verifier_queries_def ims image_comp image_Un)
qed

theorem check_rejects_witness:
  "proof_check ex_crypto 1 (ex_proof\<lparr>parents_commitments := [(0, 5)]\<rparr>) ex_data [] =
    (Err (StateReadError UnknownNodeCommitment) :: (_, unit proof_error) res) \<and>
   proof_check ex_crypto 1 (ex_proof\<lparr>sp_levels := []\<rparr>) ex_data [] =
    (Err (StateReadError UnknownBucketLevel) :: (_, unit proof_error) res)"
proof
  have "request_ok (sp_levels ex_proof) ex_data" "{0} \<noteq> {0, 1, 257, 65796 :: node_id}"
    using ex_request by (auto simp: ex_proof_def)
  then show "proof_check ex_crypto 1 (ex_proof\<lparr>parents_commitments := [(0, 5)]\<rparr>) ex_data [] =
      (Err (StateReadError UnknownNodeCommitment) :: (_, unit proof_error) res)"
    using check_rejects [of ex_crypto 1 "ex_proof\<lparr>parents_commitments := [(0, 5)]\<rparr>" "[]" ex_data, where 'e = unit]
      ex_buckets ex_required by (simp add: ex_proof_def)
  show "proof_check ex_crypto 1 (ex_proof\<lparr>sp_levels := []\<rparr>) ex_data [] =
      (Err (StateReadError UnknownBucketLevel) :: (_, unit proof_error) res)"
    using check_rejects [of ex_crypto 1 "ex_proof\<lparr>sp_levels := []\<rparr>" "[]" ex_data, where 'e = unit]
    by (simp add: ex_data_def)
qed

text \<open>A climb longer than the subtree is deep asks for the parent of a root.\<close>

lemma bucket_path_panics:
  assumes "node_fits b l p" "l + 2 < unat count"
  shows "bucket_path (node_at b l p) count m = (Panic :: (_, 'e) res)"
  using assms
proof (induction l arbitrary: p m count)
  case 0
  have "2 < count"
    using 0(2) by (simp add: word_less_nat_alt)
  moreover have "get_bfs_level (get_local_number (node_at b 0 p)) = (Ok 0 :: (_, 'e) res)"
    by (rule level_node_at) (rule 0(1))
  ultimately show ?case
    by (simp add: bucket_path.simps [of "node_at b 0 p"] get_parent_node_def Let_def)
next
  case (Suc l)
  have count: "2 < count" "l + 2 < unat (count - 1)"
    using Suc.prems(2) by (simp_all add: word_less_nat_alt unat_sub_le)
  have "bucket_path (node_at b l (p div 256)) (count - 1) m' = (Panic :: (_, 'e) res)" for m'
    using Suc.IH [of "p div 256" "count - 1" m'] parent_fits [OF Suc.prems(1)] count by simp
  then show ?case
    using count Suc.prems(1)
    by (simp add: bucket_path.simps [of "node_at b (Suc l) p"] parent_node_at vc_position_node_at)
qed

text \<open>C40: The verifier is not total on malformed proofs: if the proof has levels for exactly the requested buckets and
  claims seven or more for the bucket of the first requested key, \<open>check\<close> panics (it asks for the parent of a root
  node) instead of returning an error.\<close>
theorem deep_level_panics:
  assumes "fst ` set (sp_levels proof) = key_bucket_id ` fst ` set ((k, v) # data)"
    and "bt_get (sp_levels proof) (key_bucket_id k) = Some L" "7 \<le> L"
  shows "proof_check cr threads proof ((k, v) # data) root = (Panic :: (_, 'e proof_error) res)"
proof -
  have L: "4 + 2 < unat L"
    using assms(3) by (simp add: word_le_nat_alt)
  have "key_points (sp_levels proof) k = (Panic :: (_, 'e proof_error) res)"
  proof -
    obtain m1 where "main_path (bucket_root_node_id (key_bucket_id k)) [] = (Ok m1 :: (_, 'e proof_error) res)"
      using main_path_climb [OF bucket_root_fits [OF key_bucket_small], of "[]", where 'a = "'e proof_error"]
      by (auto simp: bucket_root_node_at)
    then show ?thesis
      using bucket_path_panics [OF key_leaf_fits L, where 'e = "'e proof_error"] assms(2)
      by (simp add: key_points_def subtree_leaf_node_at)
  qed
  then have "create_verifier_queries cr threads proof ((k, v) # data) = (Panic :: (_, 'e proof_error) res)"
    using assms(1) by (simp add: create_verifier_queries_def Let_def parents_and_points_def image_comp)
  then show ?thesis
    by (simp add: proof_check_def)
qed

theorem deep_level_panics_witness:
  "proof_check ex_crypto 1 (ex_proof\<lparr>sp_levels := [(3, 200)]\<rparr>) ex_data [] = (Panic :: (_, unit proof_error) res)"
proof -
  have k: "key_fits 3 7"
    by (simp add: key_fits_def)
  show ?thesis
    using deep_level_panics [of "ex_proof\<lparr>sp_levels := [(3, 200)]\<rparr>" "salt_key_from 3 7"
        "Some (sv_enc [1] [2])" "[]" 200, where 'e = unit]
    by (simp add: ex_data_def key_bucket_id_from [OF k] bt_get_def word_le_nat_alt)
qed

end
