(* ===== verification/Subtrie.thy ===== *)
theory Subtrie
  imports Verifier
begin

text \<open>
  Proof creation: \<open>salt/src/proof/subtrie.rs\<close> and \<open>SaltProof::create\<close> of prover.rs. The keys are
  validated against their buckets' capacities, the paths are collected by \<open>parents_and_points\<close>,
  and every node on them contributes its commitment and its 256 children as a polynomial.
\<close>

section \<open>Polynomials of nodes\<close>

text \<open>\<open>child_commitments[relative_index] = ...\<close> for the stored children of a node.\<close>

fun fill_children ::
  "('el, 'fr, 'pf) crypto \<Rightarrow> node_id \<Rightarrow> (node_id \<times> commitment_bytes) list \<Rightarrow> 'el list \<Rightarrow> ('el list, 'e) res"
where
  "fill_children cr child_idx [] child_commitments = Ok child_commitments"
| "fill_children cr child_idx ((absolute_node_id, commitment_bytes) # children) child_commitments =
     (let relative_index = unat (absolute_node_id - child_idx)
      in if relative_index < length child_commitments
         then fill_children cr child_idx children
                (child_commitments[relative_index := el_of_bytes cr commitment_bytes])
         else Panic)"

definition children_of_node ::
  "('el, 'fr, 'pf) crypto \<Rightarrow> 'e trie_reader \<Rightarrow> node_id \<Rightarrow> ('el list, 'e proof_error) res"
where
  "children_of_node cr tr node_id =
     bind_res (child_node_id node_id 0) (\<lambda>child_idx.
     bind_res (map_err (\<lambda>e. StateReadError (ChildrenUnreadable node_id e))
       (tr_node_entries tr child_idx (child_idx + of_nat DOMAIN_SIZE))) (\<lambda>children.
     bind_res (default_commitment (if child_idx = 1 then child_idx + 1 else child_idx)) (\<lambda>dflt.
     let child_commitments = replicate DOMAIN_SIZE (el_of_bytes cr dflt)
     in bind_res (if child_idx = 1
                  then bind_res (default_commitment child_idx) (\<lambda>d. Ok (child_commitments[0 := el_of_bytes cr d]))
                  else Ok child_commitments) (\<lambda>child_commitments.
        fill_children cr child_idx children child_commitments))))"

definition multi_commitments_to_scalars ::
  "('el, 'fr, 'pf) crypto \<Rightarrow> 'e trie_reader \<Rightarrow> (node_id \<times> nat set) list \<Rightarrow> ('fr list, 'e proof_error) res"
where
  "multi_commitments_to_scalars cr tr nodes =
     map_res (\<lambda>css. map (el_to_fr cr) (concat css))
       (map_collect (\<lambda>(node_id, _). children_of_node cr tr node_id) nodes)"

text \<open>\<open>evaluate_in_domain\<close> indexes the evaluations.\<close>

definition create_prover_queries ::
  "'el \<Rightarrow> 'fr list \<Rightarrow> nat set \<Rightarrow> (('el, 'fr) prover_query list, 'e) res"
where
  "create_prover_queries commitment poly points =
     map_collect (\<lambda>i. if i < length poly
         then Ok \<lparr>pq_commitment = commitment, pq_poly = poly, pq_point = i, pq_result = poly ! i\<rparr>
         else Panic) (sorted_list_of_set points)"

fun fill_slots ::
  "('el, 'fr, 'pf) crypto \<Rightarrow> (salt_key \<times> salt_value) list \<Rightarrow> 'fr list \<Rightarrow> ('fr list, 'e) res"
where
  "fill_slots cr [] coefficients = Ok coefficients"
| "fill_slots cr ((key, val) # entries) coefficients =
     (let index = unat (key_slot_id key AND 0xff)
      in bind_res (slot_to_field cr (Some val)) (\<lambda>fr.
         if index < length coefficients then fill_slots cr entries (coefficients[index := fr]) else Panic))"

definition leaf_location :: "node_id \<Rightarrow> slot_id \<times> bucket_id" where
  "leaf_location parent =
     (if parent < BUCKET_SLOT_ID_MASK then (0, ucast (parent - STARTING_NODE_ID ! 3))
      else (key_slot_id (subtree_leaf_start_key parent), ucast (drop_bit BUCKET_SLOT_BITS parent)))"

definition process_leaf_node ::
  "('el, 'fr, 'pf) crypto \<Rightarrow> 'e reader \<Rightarrow> node_id \<Rightarrow> 'el \<Rightarrow> nat set \<Rightarrow>
   (('el, 'fr) prover_query list, 'e proof_error) res"
where
  "process_leaf_node cr rd parent parent_commitment points =
     (let (slot_start, b) = leaf_location parent;
          start_key = salt_key_from b slot_start;
          end_key = salt_key_from b (slot_start + of_nat DOMAIN_SIZE - 1)
      in bind_res (map_err (\<lambda>e. StateReadError (EntriesUnreadable b slot_start e))
           (rd_entries rd start_key end_key)) (\<lambda>entries.
         bind_res (if b < of_nat NUM_META_BUCKETS
                   then bind_res (salt_value_of_meta default_meta) (\<lambda>v. slot_to_field cr (Some v))
                   else slot_to_field cr None) (\<lambda>dflt.
         bind_res (fill_slots cr entries (replicate DOMAIN_SIZE dflt)) (\<lambda>coefficients.
         create_prover_queries parent_commitment coefficients points))))"

section \<open>The sub-trie\<close>

definition METADATA_BUCKET_LEVEL :: u8 where "METADATA_BUCKET_LEVEL = 1"

fun validate_keys :: "'e reader \<Rightarrow> salt_key list \<Rightarrow> (unit, 'e proof_error) res" where
  "validate_keys rd [] = Ok ()"
| "validate_keys rd (key # keys) =
     bind_res (if is_in_meta_bucket key then Ok (of_nat META_BUCKET_SIZE)
               else map_res capacity (map_err (\<lambda>e. StateReadError (MetadataUnreadable (key_bucket_id key) e))
                      (rd_metadata rd (key_bucket_id key)))) (\<lambda>cap.
     if key_slot_id key < cap then validate_keys rd keys else Err (InvalidSaltKey key cap))"

text \<open>\<open>MAX_SUBTREE_LEVELS - subtree_root_level(capacity)\<close> on \<open>usize\<close>, cut to \<open>u8\<close>.\<close>

definition bucket_level :: "'e reader \<Rightarrow> bucket_id \<Rightarrow> (bucket_id \<times> u8, 'e proof_error) res" where
  "bucket_level rd b =
     (if b < of_nat NUM_META_BUCKETS then Ok (b, METADATA_BUCKET_LEVEL)
      else bind_res (map_err (\<lambda>e. StateReadError (MetadataUnreadable b e)) (rd_metadata rd b)) (\<lambda>meta.
           Ok (b, ucast (of_nat MAX_SUBTREE_LEVELS - subtree_root_level (capacity meta)))))"

definition load_commitment ::
  "('el, 'fr, 'pf) crypto \<Rightarrow> 'e trie_reader \<Rightarrow> ('e \<Rightarrow> 'e reason) \<Rightarrow> node_id \<Rightarrow> ('el, 'e proof_error) res"
where
  "load_commitment cr tr reason physical =
     map_res (el_of_bytes cr) (map_err (\<lambda>e. StateReadError (reason e)) (tr_commitment tr physical))"

text \<open>Step 5 for one chunk of internal nodes.\<close>

definition chunk_queries ::
  "('el, 'fr, 'pf) crypto \<Rightarrow> 'e trie_reader \<Rightarrow> (node_id \<times> nat set) list \<Rightarrow>
   (('el, 'fr) prover_query list, 'e proof_error) res"
where
  "chunk_queries cr tr nodes =
     bind_res (multi_commitments_to_scalars cr tr nodes) (\<lambda>children_scalars.
     map_res concat (map_collect (\<lambda>((parent, points), scalars).
       bind_res (load_commitment cr tr (CommitmentUnreadable parent) (connect_parent_id parent)) (\<lambda>commitment.
       create_prover_queries commitment scalars points))
       (zip nodes (chunks_of DOMAIN_SIZE children_scalars))))"

definition create_sub_trie ::
  "('el, 'fr, 'pf) crypto \<Rightarrow> nat \<Rightarrow> 'e reader \<Rightarrow> 'e trie_reader \<Rightarrow> salt_key list \<Rightarrow>
   (('el, 'fr) prover_query list \<times> (node_id, 'el) btree \<times> bucket_levels, 'e proof_error) res"
where
  "create_sub_trie cr threads rd tr salt_keys =
     (if salt_keys = [] then Err (StateReadError EmptyKeySet)
      else
        bind_res (validate_keys rd salt_keys) (\<lambda>_.
        let bucket_ids = remdups_adj (map key_bucket_id salt_keys) in
        bind_res (map_res bt_collect (map_collect (bucket_level rd) bucket_ids)) (\<lambda>buckets_level.
        bind_res (parents_and_points salt_keys buckets_level) (\<lambda>(internal_nodes, leaf_nodes).
        bind_res (map_res bt_collect (map_collect (\<lambda>(parent, _).
            let physical_parent = connect_parent_id parent
            in map_res (\<lambda>c. (physical_parent, c)) (load_commitment cr tr (CommitmentUnreadable physical_parent) physical_parent))
          (internal_nodes @ leaf_nodes))) (\<lambda>parents_commitments.
        bind_res (par_chunks threads internal_nodes) (\<lambda>chunks.
        bind_res (map_res concat (map_collect (chunk_queries cr tr) chunks)) (\<lambda>queries.
        bind_res (map_res concat (map_collect (\<lambda>(parent, points).
            bind_res (load_commitment cr tr (LeafCommitmentUnreadable (connect_parent_id parent)) (connect_parent_id parent))
              (\<lambda>parent_commitment.
            process_leaf_node cr rd parent parent_commitment points)) leaf_nodes)) (\<lambda>leaf_queries.
        Ok (queries @ leaf_queries, parents_commitments, buckets_level)))))))))"

section \<open>SaltProof::create\<close>

definition needs_sorting :: "salt_key list \<Rightarrow> bool" where
  "needs_sorting keys \<longleftrightarrow> list_ex (\<lambda>(x, y). x > y) (zip keys (tl keys))"

definition proof_create ::
  "('el, 'fr, 'pf) crypto \<Rightarrow> nat \<Rightarrow> 'e reader \<Rightarrow> 'e trie_reader \<Rightarrow> salt_key list \<Rightarrow>
   (('el, 'pf) salt_proof, 'e proof_error) res"
where
  "proof_create cr threads rd tr keys =
     (let keys = remdups_adj (if needs_sorting keys then sort keys else keys)
      in bind_res (create_sub_trie cr threads rd tr keys) (\<lambda>(prover_queries, commitments, levels).
         Ok \<lparr>parents_commitments = commitments, sp_proof = mp_open cr prover_queries, sp_levels = levels\<rparr>))"

end
