(* ===== verification/Salt_Witness.thy ===== *)
theory Salt_Witness
  imports Subtrie
begin

text \<open>
  \<open>SaltWitness\<close>, \<open>salt/src/proof/salt_witness.rs\<close>: a partial key map with the proof that
  authenticates it, its creation from a full store, and its implementation of \<open>StateReader\<close> and
  \<open>TrieReader\<close>, which tells a slot witnessed as empty from one that is not witnessed.
\<close>

record ('el, 'pf) salt_witness =
  sw_kvs :: "(salt_key, salt_value option) btree"
  sw_proof :: "('el, 'pf) salt_proof"

section \<open>Reading a witness\<close>

definition sw_value :: "('el, 'pf) salt_witness \<Rightarrow> salt_key \<Rightarrow> (salt_value option, salt_error) res" where
  "sw_value w key = (case bt_get (sw_kvs w) key of
       Some (Some val) \<Rightarrow> Ok (Some val)
     | Some None \<Rightarrow> Ok None
     | None \<Rightarrow> Err (NotInWitness ''Key''))"

definition sw_entries ::
  "('el, 'pf) salt_witness \<Rightarrow> salt_key \<Rightarrow> salt_key \<Rightarrow> ((salt_key \<times> salt_value) list, salt_error) res"
where
  "sw_entries w lo hi = Err (UnsupportedOperation ''SaltWitness::Range queries'')"

definition sw_metadata :: "('el, 'pf) salt_witness \<Rightarrow> bucket_id \<Rightarrow> (bucket_meta, salt_error) res" where
  "sw_metadata w b =
     bind_res (bucket_metadata_key b) (\<lambda>metadata_key.
     case bt_get (sw_kvs w) metadata_key of
       Some (Some salt_val) \<Rightarrow>
         map_err (\<lambda>_. InvalidFormat ''Failed to decode metadata from SaltValue'') (meta_of_salt_value salt_val)
     | Some None \<Rightarrow> Panic
     | None \<Rightarrow> Err (NotInWitness ''Metadata''))"

text \<open>The loop \<open>for slot in 0..capacity\<close>: \<open>n\<close> slots are left.\<close>

fun sw_count_slots ::
  "('el, 'pf) salt_witness \<Rightarrow> bucket_id \<Rightarrow> nat \<Rightarrow> slot_id \<Rightarrow> u64 \<Rightarrow> (u64, salt_error) res"
where
  "sw_count_slots w b 0 slot used_count = Ok used_count"
| "sw_count_slots w b (Suc n) slot used_count =
     bind_res (sw_value w (salt_key_from b slot)) (\<lambda>v.
     sw_count_slots w b n (slot + 1) (if v \<noteq> None then used_count + 1 else used_count))"

definition sw_bucket_used_slots :: "('el, 'pf) salt_witness \<Rightarrow> bucket_id \<Rightarrow> (u64, salt_error) res" where
  "sw_bucket_used_slots w b =
     (if \<not> is_valid_data_bucket b then Ok 0
      else bind_res (sw_metadata w b) (\<lambda>meta. sw_count_slots w b (unat (capacity meta)) 0 0))"

definition sw_plain_value_fast :: "('el, 'pf) salt_witness \<Rightarrow> bytes \<Rightarrow> (salt_key, salt_error) res" where
  "sw_plain_value_fast w plain = Err (UnsupportedOperation ''SaltWitness::plain_value_fast'')"

definition sw_reader :: "('el, 'pf) salt_witness \<Rightarrow> salt_error reader" where
  "sw_reader w = \<lparr>rd_value = sw_value w, rd_entries = sw_entries w, rd_metadata = sw_metadata w,
     rd_bucket_used_slots = sw_bucket_used_slots w, rd_plain_value_fast = sw_plain_value_fast w\<rparr>"

text \<open>The override of the trait's \<open>get_subtree_levels\<close>: the level the proof states.\<close>

definition sw_subtree_levels :: "('el, 'pf) salt_witness \<Rightarrow> bucket_id \<Rightarrow> (usize, salt_error) res" where
  "sw_subtree_levels w b = (case bt_get (sp_levels (sw_proof w)) b of
       Some num_levels \<Rightarrow> Ok (ucast num_levels)
     | None \<Rightarrow> Err (NotInWitness ''Bucket root''))"

definition sw_commitment ::
  "('el, 'fr, 'pf) crypto \<Rightarrow> ('el, 'pf) salt_witness \<Rightarrow> node_id \<Rightarrow> (commitment_bytes, salt_error) res"
where
  "sw_commitment cr w n = (case bt_get (parents_commitments (sw_proof w)) n of
       Some c \<Rightarrow> Ok (el_bytes cr c)
     | None \<Rightarrow> Err (NotInWitness ''Trie node''))"

definition sw_node_entries ::
  "('el, 'pf) salt_witness \<Rightarrow> node_id \<Rightarrow> node_id \<Rightarrow> ((node_id \<times> commitment_bytes) list, salt_error) res"
where
  "sw_node_entries w lo hi = Err (UnsupportedOperation ''SaltWitness::Range queries'')"

definition sw_trie :: "('el, 'fr, 'pf) crypto \<Rightarrow> ('el, 'pf) salt_witness \<Rightarrow> salt_error trie_reader" where
  "sw_trie cr w = \<lparr>tr_commitment = sw_commitment cr w, tr_node_entries = sw_node_entries w\<rparr>"

section \<open>Creating and checking a witness\<close>

definition sw_read :: "'e reader \<Rightarrow> salt_key \<Rightarrow> (salt_key \<times> salt_value option, 'e proof_error) res" where
  "sw_read rd k =
     map_res (\<lambda>v. (k, v)) (map_err (\<lambda>e. StateReadError (KeyUnreadable e))
       (if is_in_meta_bucket k
        then bind_res (bucket_id_from_metadata_key k) (\<lambda>b.
             bind_res (rd_metadata rd b) (\<lambda>meta. map_res Some (salt_value_of_meta meta)))
        else rd_value rd k))"

definition sw_create ::
  "('el, 'fr, 'pf) crypto \<Rightarrow> nat \<Rightarrow> salt_key list \<Rightarrow> 'e reader \<Rightarrow> 'e trie_reader \<Rightarrow>
   (('el, 'pf) salt_witness, 'e proof_error) res"
where
  "sw_create cr threads keys rd tr =
     bind_res (map_res bt_collect (map_collect (sw_read rd) keys)) (\<lambda>data.
     bind_res (proof_create cr threads rd tr (map fst data)) (\<lambda>proof.
     Ok \<lparr>sw_kvs = data, sw_proof = proof\<rparr>))"

definition sw_state_root ::
  "('el, 'fr, 'pf) crypto \<Rightarrow> ('el, 'pf) salt_witness \<Rightarrow> (bytes, 'e proof_error) res"
where
  "sw_state_root cr w =
     bind_res (map_err (\<lambda>_. MissingRootCommitment) (sw_commitment cr w ROOT_NODE_ID)) (\<lambda>root_commitment.
     Ok (hash_commitment cr root_commitment))"

definition sw_verify_proof ::
  "('el, 'fr, 'pf) crypto \<Rightarrow> nat \<Rightarrow> ('el, 'pf) salt_witness \<Rightarrow> (unit, 'e proof_error) res"
where
  "sw_verify_proof cr threads w =
     bind_res (sw_state_root cr w) (\<lambda>root. proof_check cr threads (sw_proof w) (sw_kvs w) root)"

end
