(* ===== verification/Hasher.thy ===== *)
theory Hasher
  imports Salt_Types
begin

text \<open>
  The deterministic AHash fallback (\<open>salt/src/state/ahash/convert.rs\<close>, \<open>fallback.rs\<close>) and the
  key hashing built on it (\<open>salt/src/state/hasher.rs\<close>). Reads past the end of a slice panic in
  the model as in the code; \<open>hasher_write_total\<close> shows that \<open>write\<close> never makes one.
\<close>

section \<open>Reading little-endian integers\<close>

definition split_at :: "nat \<Rightarrow> 'a list \<Rightarrow> ('a list \<times> 'a list, 'e) res" where
  "split_at n xs = (if n \<le> length xs then Ok (take n xs, drop n xs) else Panic)"

definition read_u16 :: "bytes \<Rightarrow> (16 word \<times> bytes, 'e) res" where
  "read_u16 xs = map_res (\<lambda>(v, rest). (from_le_bytes v, rest)) (split_at 2 xs)"

definition read_u32 :: "bytes \<Rightarrow> (u32 \<times> bytes, 'e) res" where
  "read_u32 xs = map_res (\<lambda>(v, rest). (from_le_bytes v, rest)) (split_at 4 xs)"

definition read_u64 :: "bytes \<Rightarrow> (u64 \<times> bytes, 'e) res" where
  "read_u64 xs = map_res (\<lambda>(v, rest). (from_le_bytes v, rest)) (split_at 8 xs)"

definition read_u128 :: "bytes \<Rightarrow> (u128 \<times> bytes, 'e) res" where
  "read_u128 xs = map_res (\<lambda>(v, rest). (from_le_bytes v, rest)) (split_at 16 xs)"

text \<open>\<open>self.len() - n\<close> wraps when the slice is too short, and \<open>split_at\<close> then panics.\<close>

definition split_last :: "nat \<Rightarrow> 'a list \<Rightarrow> ('a list, 'e) res" where
  "split_last n xs = (if n \<le> length xs then Ok (drop (length xs - n) xs) else Panic)"

definition read_last_u32 :: "bytes \<Rightarrow> (u32, 'e) res" where
  "read_last_u32 xs = map_res from_le_bytes (split_last 4 xs)"

definition read_last_u64 :: "bytes \<Rightarrow> (u64, 'e) res" where
  "read_last_u64 xs = map_res from_le_bytes (split_last 8 xs)"

definition read_last_u128 :: "bytes \<Rightarrow> (u128, 'e) res" where
  "read_last_u128 xs = map_res from_le_bytes (split_last 16 xs)"

definition read_small :: "bytes \<Rightarrow> (u64 \<times> u64, 'e) res" where
  "read_small xs =
     (if 2 \<le> length xs then
        if 4 \<le> length xs then
          bind_res (read_u32 xs) (\<lambda>(v, _).
          bind_res (read_last_u32 xs) (\<lambda>w. Ok (ucast v, ucast w)))
        else
          bind_res (read_u16 xs) (\<lambda>(v, _). Ok (ucast v, ucast (xs ! (length xs - 1))))
      else if xs \<noteq> [] then Ok (ucast (xs ! 0), ucast (xs ! 0))
      else Ok (0, 0))"

section \<open>The hasher\<close>

definition PI2 :: "u64 list" where
  "PI2 = [0x452821e638d01377, 0xbe5466cf34e90c6c, 0xc0ac29b7c97c50dd, 0x3f84d5b5b5470917]"

definition MULTIPLE :: u64 where "MULTIPLE = 6364136223846793005"
definition ROT :: nat where "ROT = 23"

definition folded_multiply :: "u64 \<Rightarrow> u64 \<Rightarrow> u64" where
  "folded_multiply s by =
     (let r = (ucast s :: u128) * ucast by
      in ucast (r AND 0xffffffffffffffff) XOR ucast (drop_bit 64 r))"

record random_state =
  k0 :: u64
  k1 :: u64
  k2 :: u64
  k3 :: u64

definition with_seeds :: "u64 \<Rightarrow> u64 \<Rightarrow> u64 \<Rightarrow> u64 \<Rightarrow> random_state" where
  "with_seeds a b c d =
     \<lparr>k0 = a XOR PI2 ! 0, k1 = b XOR PI2 ! 1, k2 = c XOR PI2 ! 2, k3 = d XOR PI2 ! 3\<rparr>"

record hasher =
  buffer :: u64
  pad :: u64
  extra_keys :: "u64 \<times> u64"

definition build_hasher :: "random_state \<Rightarrow> hasher" where
  "build_hasher rs = \<lparr>buffer = k1 rs, pad = k0 rs, extra_keys = (k2 rs, k3 rs)\<rparr>"

definition hasher_update :: "u64 \<Rightarrow> hasher \<Rightarrow> hasher" where
  "hasher_update new h = h\<lparr>buffer := folded_multiply (new XOR buffer h) MULTIPLE\<rparr>"

definition large_update :: "u128 \<Rightarrow> hasher \<Rightarrow> hasher" where
  "large_update new h =
     (let b0 = ucast new; b1 = ucast (drop_bit 64 new);
          combined = folded_multiply (b0 XOR fst (extra_keys h)) (b1 XOR snd (extra_keys h))
      in h\<lparr>buffer := word_rotl ROT ((buffer h + pad h) XOR combined)\<rparr>)"

text \<open>The loop \<open>while data.len() > 16\<close> of \<open>write\<close>.\<close>

function write_blocks :: "bytes \<Rightarrow> hasher \<Rightarrow> (hasher, 'e) res" where
  "write_blocks xs h =
     (if 16 < length xs
      then case read_u128 xs of
             Ok (block, rest) \<Rightarrow> write_blocks rest (large_update block h)
           | Err e \<Rightarrow> Err e | Panic \<Rightarrow> Panic | Diverge \<Rightarrow> Diverge
      else Ok h)"
  by pat_completeness auto
termination
  by (relation "measure (\<lambda>(xs, h). length xs)")
     (auto simp: read_u128_def split_at_def split: if_splits)

declare write_blocks.simps [simp del]

definition hasher_write :: "bytes \<Rightarrow> hasher \<Rightarrow> (hasher, 'e) res" where
  "hasher_write input h =
     (let h = h\<lparr>buffer := (buffer h + of_nat (length input)) * MULTIPLE\<rparr>
      in if 8 < length input then
           if 16 < length input then
             bind_res (read_last_u128 input) (\<lambda>tail. write_blocks input (large_update tail h))
           else
             bind_res (read_u64 input) (\<lambda>(front, _).
             bind_res (read_last_u64 input) (\<lambda>back.
             Ok (large_update (ucast front OR push_bit 64 (ucast back)) h)))
         else
           bind_res (read_small input) (\<lambda>(v0, v1).
           Ok (large_update (ucast v0 OR push_bit 64 (ucast v1)) h)))"

definition hasher_finish :: "hasher \<Rightarrow> u64" where
  "hasher_finish h =
     (let rot = unat (buffer h AND 63) in word_rotl rot (folded_multiply (buffer h) (pad h)))"

section \<open>Key hashing\<close>

definition HASHER_SEEDS :: "u64 list" where
  "HASHER_SEEDS = [0x921321f4, 0x2ccb667e, 0x60d68842, 0x077ada9d]"

definition HASH_BUILDER :: random_state where
  "HASH_BUILDER = with_seeds (HASHER_SEEDS ! 0) (HASHER_SEEDS ! 1) (HASHER_SEEDS ! 2)
     (HASHER_SEEDS ! 3)"

fun the_ok :: "('a, unit) res \<Rightarrow> 'a" where
  "the_ok (Ok a) = a"

definition hash :: "bytes \<Rightarrow> u64" where
  "hash bs = hasher_finish (the_ok (hasher_write bs (build_hasher HASH_BUILDER)))"

definition bucket_id :: "bytes \<Rightarrow> bucket_id" where
  "bucket_id key = ucast (hash key mod of_nat NUM_KV_BUCKETS + of_nat NUM_META_BUCKETS)"

text \<open>
  \<open>hash_with_nonce\<close>: a 64-byte stack buffer for keys of at most 60 bytes, a heap vector for
  longer ones.
\<close>

definition hash_with_nonce :: "bytes \<Rightarrow> u32 \<Rightarrow> u64" where
  "hash_with_nonce key n =
     (let key_len = length key
      in if key_len + 4 \<le> 64
         then let buf0 = replicate 64 0;
                  buf1 = key @ drop key_len buf0;
                  buf2 = take key_len buf1 @ to_le_bytes 4 n @ drop (key_len + 4) buf1
              in hash (take (key_len + 4) buf2)
         else hash (key @ to_le_bytes 4 n))"

section \<open>Facts\<close>

lemma split_at_ok: "n \<le> length xs \<Longrightarrow> split_at n xs = Ok (take n xs, drop n xs)"
  by (simp add: split_at_def)

lemma write_blocks_total: "\<exists>h'. write_blocks xs h = Ok h'"
proof (induction "length xs" arbitrary: xs h rule: less_induct)
  case less
  show ?case
    by (subst write_blocks.simps) (auto simp: read_u128_def split_at_ok intro: less)
qed

lemma hasher_write_total: "\<exists>h'. hasher_write xs h = Ok h'"
  using write_blocks_total
  by (auto simp: hasher_write_def Let_def read_last_u128_def split_last_def read_u64_def
      split_at_ok read_last_u64_def read_small_def read_u32_def read_last_u32_def read_u16_def)

lemma bucket_id_unat: "unat (bucket_id key) = unat (hash key) mod 16711680 + 65536"
proof -
  have "unat (hash key mod 16711680) = unat (hash key) mod 16711680"
    by (simp add: unat_mod)
  moreover have "unat (hash key) mod 16711680 < 16711680"
    by simp
  ultimately have "unat (hash key mod 16711680 + 65536) = unat (hash key) mod 16711680 + 65536"
    by (subst unat_add_small) simp_all
  moreover have "unat (hash key) mod 16711680 + 65536 < 2 ^ 32"
    by (rule order_less_trans [of _ "16711680 + 65536"]) simp_all
  ultimately show ?thesis
    by (simp add: bucket_id_def unsigned_ucast_eq take_bit_nat_eq_self)
qed

lemma bucket_id_valid [simp]: "is_valid_data_bucket (bucket_id key)"
  by (simp add: is_valid_data_bucket_unat bucket_id_unat)

lemma hash_with_nonce_eq: "hash_with_nonce key n = hash (key @ to_le_bytes 4 n)"
  by (simp add: hash_with_nonce_def Let_def)

section \<open>Properties\<close>

lemma hash_vectors:
  "hash [] = 4972614686478438145" "hash [0, 1, 2] = 16219421332863341888"
  "hash [0, 1, 2, 3] = 5134559730993604666" "hash [0, 1, 2, 3, 4, 5, 6, 7, 8] = 4536020801879879229"
  "hash [0, 1, 2, 3, 4, 5, 6, 7, 8, 9, 10, 11, 12, 13, 14, 15, 16] = 2278129512817388598"
  "hash (map of_char ''hello'') = 1027176506268606463"
  by code_simp+

text \<open>Every plain key is assigned a data bucket: never one of the 65536 metadata buckets, never
  past the \<open>2^24\<close> buckets of the trie.\<close>
theorem bucket_id_range: "65536 \<le> unat (bucket_id key) \<and> unat (bucket_id key) < 16777216"
  using bucket_id_valid [of key] unfolding is_valid_data_bucket_unat .

text \<open>The stack buffer and the heap vector of \<open>hash_with_nonce\<close> hash the same bytes: the key
  followed by the little-endian nonce.\<close>
theorem hash_with_nonce_heap_stack: "hash_with_nonce key n = hash (key @ to_le_bytes 4 n)"
  by (rule hash_with_nonce_eq)

text \<open>The hash function agrees with the consensus vectors pinned in the repository's tests, for
  each length class of \<open>write\<close>.\<close>
theorem hash_pinned:
  "hash [] = 4972614686478438145 \<and> hash [0, 1, 2] = 16219421332863341888 \<and>
   hash [0, 1, 2, 3] = 5134559730993604666 \<and>
   hash [0, 1, 2, 3, 4, 5, 6, 7, 8] = 4536020801879879229 \<and>
   hash [0, 1, 2, 3, 4, 5, 6, 7, 8, 9, 10, 11, 12, 13, 14, 15, 16] = 2278129512817388598 \<and>
   bucket_id (map of_char ''hello'') = 614399"
  by (simp only: bucket_id_def hash_vectors) simp

text \<open>\<open>DeterministicHasher::write\<close> never reads past its input, for any length.\<close>
theorem hasher_write_never_panics: "\<exists>h'. hasher_write xs h = (Ok h' :: (_, 'e) res)"
  by (rule hasher_write_total)

end
