(* ===== verification/Ephemeral_State.thy ===== *)
theory Ephemeral_State
  imports Store Hasher
begin

text \<open>
  \<open>EphemeralSaltState\<close> of \<open>salt/src/state/state.rs\<close>: the write cache over a store and the SHI
  hash table operations on it, statement by statement. A method \<open>&mut self\<close> is a computation on
  the record \<open>eph\<close>; one that also records into \<open>out_updates\<close> runs on the pair of the record and
  the updates. A \<open>for step in 0..capacity\<close> loop recurses on the number of rounds left. The
  recursion of \<open>shi_upsert\<close> and the loops of \<open>shi_delete\<close> and \<open>compute_resize_capacity\<close> have no
  static bound: they are partial functions, and \<open>None\<close> becomes \<open>Diverge\<close>.
\<close>

section \<open>State\<close>

record 'e eph =
  store :: "'e reader"
  cache :: "(salt_key, salt_value option) btree"
  usage_count_delta :: "(bucket_id, 64 word) btree"
  rehashed_buckets :: "bucket_id set"
  cache_reads :: bool

type_synonym ('e, 'a) eph_comp = "('e eph, 'a, 'e) comp"
type_synonym ('e, 'a) upd_comp = "('e eph \<times> state_updates, 'a, 'e) comp"

definition eph_new :: "'e reader \<Rightarrow> 'e eph" where
  "eph_new rd = \<lparr>store = rd, cache = [], usage_count_delta = [], rehashed_buckets = {},
     cache_reads = False\<rparr>"

definition eph_cache_read :: "'e eph \<Rightarrow> 'e eph" where
  "eph_cache_read s = s\<lparr>cache_reads := True\<rparr>"

definition cache_insert :: "salt_key \<Rightarrow> salt_value option \<Rightarrow> 'e eph \<Rightarrow> 'e eph" where
  "cache_insert k v s = s\<lparr>cache := bt_insert k v (cache s)\<rparr>"

section \<open>Probing\<close>

text \<open>Both are only called with a positive capacity (Rust's \<open>%\<close> panics on zero).\<close>

definition probe :: "u64 \<Rightarrow> u64 \<Rightarrow> u64 \<Rightarrow> slot_id" where
  "probe hashed_key i cap = ((hashed_key mod cap) + i) mod cap"

definition rank :: "u64 \<Rightarrow> slot_id \<Rightarrow> u64 \<Rightarrow> u64" where
  "rank hashed_key slot cap =
     (let first = probe hashed_key 0 cap
      in if slot \<ge> first then slot - first else slot + cap - first)"

definition get_bucket_resize_threshold :: u64 where
  "get_bucket_resize_threshold = BUCKET_RESIZE_LOAD_FACTOR_PCT"

partial_function (option) resize_loop :: "u64 \<Rightarrow> u64 \<Rightarrow> u64 option" where
  "resize_loop new_capacity occupied_slots =
     (if occupied_slots * 100 > new_capacity * get_bucket_resize_threshold
      then resize_loop (new_capacity * BUCKET_RESIZE_MULTIPLIER) occupied_slots
      else Some new_capacity)"

definition compute_resize_capacity :: "u64 \<Rightarrow> u64 \<Rightarrow> (u64, 'e) res" where
  "compute_resize_capacity cap occupied_slots =
     (case resize_loop cap occupied_slots of Some c \<Rightarrow> Ok c | None \<Rightarrow> Diverge)"

section \<open>Reading\<close>

definition eph_value :: "salt_key \<Rightarrow> ('e, salt_value option) eph_comp" where
  "eph_value key = (\<lambda>s.
     case bt_get (cache s) key of
       Some v \<Rightarrow> (Ok v, s)
     | None \<Rightarrow>
         bind (lift_res (rd_value (store s) key))
           (\<lambda>v s. (Ok v, if cache_reads s then cache_insert key v s else s)) s)"

definition usage_count :: "bucket_id \<Rightarrow> 'e eph \<Rightarrow> (u64, 'e) res" where
  "usage_count b s =
     bind_res (rd_bucket_used_slots (store s) b) (\<lambda>base_count.
       let result = base_count + (case bt_get (usage_count_delta s) b of None \<Rightarrow> 0 | Some d \<Rightarrow> d)
       in if sint result < 0 then Panic else Ok result)"

definition cached_metadata :: "bucket_id \<Rightarrow> salt_key \<Rightarrow> ('e, bucket_meta) eph_comp" where
  "cached_metadata b metadata_key = (\<lambda>s.
     case bt_get (cache s) metadata_key of
       Some (Some v) \<Rightarrow> (expect (meta_of_salt_value v), s)
     | Some None \<Rightarrow> (Ok default_meta, s)
     | None \<Rightarrow>
         bind (lift_res (rd_metadata (store s) b)) (\<lambda>meta.
         bind (lift_res (salt_value_of_meta meta)) (\<lambda>encoded s.
           (Ok meta,
            if cache_reads s
            then cache_insert metadata_key (if meta_is_default meta then None else Some encoded) s
            else s))) s)"

definition metadata :: "bucket_id \<Rightarrow> bool \<Rightarrow> ('e, bucket_meta) eph_comp" where
  "metadata b need_used =
     bind (lift_res (bucket_metadata_key b)) (\<lambda>metadata_key.
     bind (cached_metadata b metadata_key) (\<lambda>meta.
     bind (if need_used then (\<lambda>s. (map_res Some (usage_count b s), s)) else ret None) (\<lambda>u.
     ret (meta\<lparr>used := u\<rparr>))))"

text \<open>\<open>shi_search\<close>: \<open>get_value\<close> is the closure that reads a slot.\<close>

fun search_loop ::
  "(salt_key \<Rightarrow> ('s, salt_value option, 'e) comp) \<Rightarrow> bucket_id \<Rightarrow> u64 \<Rightarrow> u64 \<Rightarrow> bytes \<Rightarrow>
     nat \<Rightarrow> u64 \<Rightarrow> ('s, (slot_id \<times> salt_value) option, 'e) comp"
where
  "search_loop get_value b hashed_key cap plain 0 step = ret None"
| "search_loop get_value b hashed_key cap plain (Suc n) step =
     (let slot = probe hashed_key step cap in
      bind (get_value (salt_key_from b slot)) (\<lambda>v.
        case v of
          None \<Rightarrow> ret None
        | Some salt_val \<Rightarrow>
            bind (lift_res (sv_key salt_val)) (\<lambda>key.
              if key < plain then ret None
              else if key = plain then ret (Some (slot, salt_val))
              else search_loop get_value b hashed_key cap plain n (step + 1))))"

definition shi_search ::
  "(salt_key \<Rightarrow> ('s, salt_value option, 'e) comp) \<Rightarrow> bucket_id \<Rightarrow> u32 \<Rightarrow> u64 \<Rightarrow> bytes \<Rightarrow>
     ('s, (slot_id \<times> salt_value) option, 'e) comp"
where
  "shi_search get_value b bnonce cap plain =
     search_loop get_value b (hash_with_nonce plain bnonce) cap plain (unat cap) 0"

definition shi_find ::
  "bucket_id \<Rightarrow> u32 \<Rightarrow> u64 \<Rightarrow> bytes \<Rightarrow> ('e, (slot_id \<times> salt_value) option) eph_comp"
where
  "shi_find b bnonce cap plain = shi_search eph_value b bnonce cap plain"

definition direct_find :: "bytes \<Rightarrow> ('e, (salt_key \<times> salt_value) option) eph_comp" where
  "direct_find plain = (\<lambda>s.
     case rd_plain_value_fast (store s) plain of
       Ok salt_key \<Rightarrow>
         bind (eph_value salt_key) (\<lambda>v.
           case v of
             Some salt_val \<Rightarrow>
               bind (lift_res (sv_key salt_val)) (\<lambda>key.
                 ret (if key = plain then Some (salt_key, salt_val) else None))
           | None \<Rightarrow> ret None) s
     | Err _ \<Rightarrow> (Ok None, s)
     | Panic \<Rightarrow> (Panic, s)
     | Diverge \<Rightarrow> (Diverge, s))"

definition find_kv :: "bytes \<Rightarrow> ('e, (salt_key \<times> salt_value) option) eph_comp" where
  "find_kv plain =
     if_ok_some (direct_find plain) (\<lambda>salt_kv. ret (Some salt_kv))
       (let b = bucket_id plain in
        bind (metadata b False) (\<lambda>meta.
        bind (shi_find b (nonce meta) (capacity meta) plain) (\<lambda>r.
        case r of
          Some (slot, salt_val) \<Rightarrow> ret (Some (salt_key_from b slot, salt_val))
        | None \<Rightarrow> ret None)))"

definition plain_value :: "bytes \<Rightarrow> ('e, bytes option) eph_comp" where
  "plain_value plain =
     bind (find_kv plain) (\<lambda>r.
     case r of
       Some (_, salt_val) \<Rightarrow> bind (lift_res (sv_value salt_val)) (\<lambda>v. ret (Some v))
     | None \<Rightarrow> ret None)"

section \<open>Writing\<close>

definition bump_usage :: "bucket_id \<Rightarrow> 64 word \<Rightarrow> 'e eph \<Rightarrow> 'e eph" where
  "bump_usage b delta s = s\<lparr>usage_count_delta :=
     bt_insert b ((case bt_get (usage_count_delta s) b of None \<Rightarrow> 0 | Some d \<Rightarrow> d) + delta)
       (usage_count_delta s)\<rparr>"

definition update_value ::
  "salt_key \<Rightarrow> salt_value option \<Rightarrow> salt_value option \<Rightarrow> ('e, unit) upd_comp"
where
  "update_value key old_value new_value = (\<lambda>(s, u).
     if old_value \<noteq> new_value then
       let delta = of_bool (new_value \<noteq> None) - of_bool (old_value \<noteq> None);
           s1 = (if delta \<noteq> 0 then bump_usage (key_bucket_id key) delta s else s)
       in case add key old_value new_value u of (r, u') \<Rightarrow> (r, (cache_insert key new_value s1, u'))
     else (Ok (), (s, u)))"

text \<open>\<open>shi_next\<close>: \<open>n\<close> rounds left of \<open>for i in 1..capacity\<close>.\<close>

fun next_loop ::
  "bucket_id \<Rightarrow> slot_id \<Rightarrow> u32 \<Rightarrow> u64 \<Rightarrow> nat \<Rightarrow> u64 \<Rightarrow> ('e, (slot_id \<times> salt_value) option) eph_comp"
where
  "next_loop b del_slot bnonce cap 0 i = ret None"
| "next_loop b del_slot bnonce cap (Suc n) i =
     (let next_slot = probe del_slot i cap in
      bind (eph_value (salt_key_from b next_slot)) (\<lambda>v.
        case v of
          Some salt_val \<Rightarrow>
            bind (lift_res (sv_key salt_val)) (\<lambda>key.
              let ideal_slot = hash_with_nonce key bnonce
              in if rank ideal_slot next_slot cap > rank ideal_slot del_slot cap
                 then ret (Some (next_slot, salt_val))
                 else next_loop b del_slot bnonce cap n (i + 1))
        | None \<Rightarrow> ret None))"

definition shi_next ::
  "bucket_id \<Rightarrow> slot_id \<Rightarrow> u32 \<Rightarrow> u64 \<Rightarrow> ('e, (slot_id \<times> salt_value) option) eph_comp"
where
  "shi_next b del_slot bnonce cap = next_loop b del_slot bnonce cap (unat cap - 1) 1"

partial_function (option) delete_loop ::
  "bucket_id \<Rightarrow> u32 \<Rightarrow> u64 \<Rightarrow> slot_id \<Rightarrow> salt_value \<Rightarrow> 'e eph \<times> state_updates \<Rightarrow>
     ((unit, 'e) res \<times> ('e eph \<times> state_updates)) option"
where
  "delete_loop b bnonce cap del_slot del_value st =
     (case on_fst (shi_next b del_slot bnonce cap) st of
        (Ok (Some (slot, salt_val)), st1) \<Rightarrow>
          (case update_value (salt_key_from b del_slot) (Some del_value) (Some salt_val) st1 of
             (Ok _, st2) \<Rightarrow> delete_loop b bnonce cap slot salt_val st2
           | (Err e, st2) \<Rightarrow> Some (Err e, st2)
           | (Panic, st2) \<Rightarrow> Some (Panic, st2)
           | (Diverge, st2) \<Rightarrow> Some (Diverge, st2))
      | (Ok None, st1) \<Rightarrow>
          Some (update_value (salt_key_from b del_slot) (Some del_value) None st1)
      | (Err e, st1) \<Rightarrow> Some (Err e, st1)
      | (Panic, st1) \<Rightarrow> Some (Panic, st1)
      | (Diverge, st1) \<Rightarrow> Some (Diverge, st1))"

definition shi_delete :: "bucket_id \<Rightarrow> bytes \<Rightarrow> ('e, unit) upd_comp" where
  "shi_delete b key =
     bind (on_fst (metadata b False)) (\<lambda>meta.
     bind (on_fst (shi_find b (nonce meta) (capacity meta) key)) (\<lambda>r.
     case r of
       Some (slot, salt_val) \<Rightarrow>
         (\<lambda>st. case delete_loop b (nonce meta) (capacity meta) slot salt_val st of
                 Some res \<Rightarrow> res
               | None \<Rightarrow> (Diverge, st))
     | None \<Rightarrow> ret ()))"

section \<open>Rehashing\<close>

fun collect_loop ::
  "bucket_id \<Rightarrow> nat \<Rightarrow> slot_id \<Rightarrow> (salt_key, salt_value) btree \<Rightarrow>
     ('e, (salt_key, salt_value) btree) eph_comp"
where
  "collect_loop b 0 slot old_bucket = ret old_bucket"
| "collect_loop b (Suc n) slot old_bucket =
     (let salt_key = salt_key_from b slot in
      bind (eph_value salt_key) (\<lambda>v.
      collect_loop b n (slot + 1)
        (case v of Some salt_val \<Rightarrow> bt_insert salt_key salt_val old_bucket | None \<Rightarrow> old_bucket)))"

definition plain_kv :: "salt_value \<Rightarrow> (bytes \<times> bytes, 'e) res" where
  "plain_kv salt_val =
     bind_res (sv_key salt_val) (\<lambda>k. bind_res (sv_value salt_val) (\<lambda>v. Ok (k, v)))"

text \<open>The first empty slot of the probe sequence takes the value.\<close>

fun place_loop ::
  "bucket_id \<Rightarrow> u64 \<Rightarrow> u64 \<Rightarrow> salt_value \<Rightarrow> nat \<Rightarrow> u64 \<Rightarrow> (salt_key, salt_value) btree \<Rightarrow>
     (salt_key, salt_value) btree"
where
  "place_loop b hashed_key cap salt_val 0 step new_bucket = new_bucket"
| "place_loop b hashed_key cap salt_val (Suc n) step new_bucket =
     (let salt_key = salt_key_from b (probe hashed_key step cap)
      in case bt_get new_bucket salt_key of
           None \<Rightarrow> bt_insert salt_key salt_val new_bucket
         | Some _ \<Rightarrow> place_loop b hashed_key cap salt_val n (step + 1) new_bucket)"

fun rebuild_loop ::
  "bucket_id \<Rightarrow> u32 \<Rightarrow> u64 \<Rightarrow> (bytes \<times> bytes) list \<Rightarrow> (salt_key, salt_value) btree \<Rightarrow>
     ((salt_key, salt_value) btree, 'e) res"
where
  "rebuild_loop b bnonce cap [] new_bucket = Ok new_bucket"
| "rebuild_loop b bnonce cap ((key, val) # kv_pairs) new_bucket =
     bind_res (salt_value_new key val) (\<lambda>salt_val.
     rebuild_loop b bnonce cap kv_pairs
       (place_loop b (hash_with_nonce key bnonce) cap salt_val (unat cap) 0 new_bucket))"

fun record_loop ::
  "bucket_id \<Rightarrow> u64 \<Rightarrow> u64 \<Rightarrow> (salt_key, salt_value) btree \<Rightarrow> (salt_key, salt_value) btree \<Rightarrow>
     nat \<Rightarrow> slot_id \<Rightarrow> ('e, unit) upd_comp"
where
  "record_loop b old_capacity new_capacity old_bucket new_bucket 0 slot = ret ()"
| "record_loop b old_capacity new_capacity old_bucket new_bucket (Suc n) slot = (\<lambda>(s, u).
     let salt_key = salt_key_from b slot;
         old_value = (if slot < old_capacity then bt_get old_bucket salt_key else None);
         new_value = (if slot < new_capacity then bt_get new_bucket salt_key else None);
         s1 = (if old_value \<noteq> new_value \<or> slot \<ge> old_capacity
               then cache_insert salt_key new_value s else s)
     in bind (\<lambda>(s, u).
           if old_value \<noteq> new_value \<and> (old_value \<noteq> None \<or> new_value \<noteq> None)
           then (case add salt_key old_value new_value u of (r, u') \<Rightarrow> (r, (s, u')))
           else (Ok (), (s, u)))
          (\<lambda>_. record_loop b old_capacity new_capacity old_bucket new_bucket n (slot + 1))
          (s1, u))"

definition mark_rehashed :: "bucket_id \<Rightarrow> ('e, unit) upd_comp" where
  "mark_rehashed b =
     (\<lambda>(s, u). (Ok (), (s\<lparr>rehashed_buckets := insert b (rehashed_buckets s)\<rparr>, u)))"

definition shi_rehash :: "bucket_id \<Rightarrow> u32 \<Rightarrow> u64 \<Rightarrow> ('e, unit) upd_comp" where
  "shi_rehash b new_nonce new_capacity =
     (if \<not> new_capacity \<le> BUCKET_SLOT_ID_MASK then lift_res Panic
      else
        bind (on_fst (metadata b True)) (\<lambda>old_metadata.
        bind (on_fst (collect_loop b (unat (capacity old_metadata)) 0 [])) (\<lambda>old_bucket.
        if new_capacity < of_nat (length old_bucket) then ret ()
        else
          bind (lift_res (map_collect plain_kv (map snd old_bucket))) (\<lambda>pairs.
          bind (lift_res (rebuild_loop b new_nonce new_capacity (rev (bt_collect pairs)) []))
            (\<lambda>new_bucket.
          bind (record_loop b (capacity old_metadata) new_capacity old_bucket new_bucket
                  (unat (max (capacity old_metadata) new_capacity)) 0) (\<lambda>_.
          let new_metadata = old_metadata\<lparr>nonce := new_nonce, capacity := new_capacity\<rparr> in
          bind (lift_res (bucket_metadata_key b)) (\<lambda>metadata_key.
          bind (lift_res (salt_value_of_meta old_metadata)) (\<lambda>old_encoded.
          bind (lift_res (salt_value_of_meta new_metadata)) (\<lambda>new_encoded.
          bind (update_value metadata_key (Some old_encoded) (Some new_encoded)) (\<lambda>_.
          mark_rehashed b))))))))))"

text \<open>\<open>let mut state_updates = StateUpdates::default(); ...; Ok(state_updates)\<close>\<close>

definition with_updates :: "('e, unit) upd_comp \<Rightarrow> ('e, state_updates) eph_comp" where
  "with_updates m = (\<lambda>s. case m (s, []) of
      (Ok _, (s', u)) \<Rightarrow> (Ok u, s')
    | (Err e, (s', u)) \<Rightarrow> (Err e, s')
    | (Panic, (s', u)) \<Rightarrow> (Panic, s')
    | (Diverge, (s', u)) \<Rightarrow> (Diverge, s'))"

definition set_nonce :: "bucket_id \<Rightarrow> u32 \<Rightarrow> ('e, state_updates) eph_comp" where
  "set_nonce b new_nonce =
     bind (metadata b False) (\<lambda>meta. with_updates (shi_rehash b new_nonce (capacity meta)))"

section \<open>Inserting\<close>

text \<open>
  One pass of the probe loop: \<open>None\<close> when the call returns from inside the loop, \<open>Some v\<close> when
  the loop runs out with \<open>v\<close> still to be inserted.
\<close>

definition after_insert :: "bucket_id \<Rightarrow> u32 \<Rightarrow> u64 \<Rightarrow> ('e, salt_value option) upd_comp" where
  "after_insert b bnonce cap = (\<lambda>st.
     case usage_count b (fst st) of
       Ok used_now \<Rightarrow>
         if used_now > cap * get_bucket_resize_threshold div 100 then
           bind (lift_res (compute_resize_capacity cap used_now)) (\<lambda>new_capacity.
           bind (shi_rehash b bnonce new_capacity) (\<lambda>_. ret None)) st
         else (Ok None, st)
     | Err _ \<Rightarrow> (Ok None, st)
     | Panic \<Rightarrow> (Panic, st)
     | Diverge \<Rightarrow> (Diverge, st))"

fun upsert_loop ::
  "bucket_id \<Rightarrow> u32 \<Rightarrow> u64 \<Rightarrow> u64 \<Rightarrow> nat \<Rightarrow> u64 \<Rightarrow> salt_value \<Rightarrow> ('e, salt_value option) upd_comp"
where
  "upsert_loop b bnonce cap hashed_key 0 step new_salt_val = ret (Some new_salt_val)"
| "upsert_loop b bnonce cap hashed_key (Suc n) step new_salt_val =
     (let salt_key = salt_key_from b (probe hashed_key step cap) in
      bind (on_fst (eph_value salt_key)) (\<lambda>v.
        case v of
          Some old_salt_val \<Rightarrow>
            bind (lift_res (sv_key old_salt_val)) (\<lambda>old_key.
            bind (lift_res (sv_key new_salt_val)) (\<lambda>new_key.
              if old_key = new_key then
                bind (update_value salt_key (Some old_salt_val) (Some new_salt_val)) (\<lambda>_. ret None)
              else if old_key < new_key then
                bind (update_value salt_key (Some old_salt_val) (Some new_salt_val)) (\<lambda>_.
                upsert_loop b bnonce cap hashed_key n (step + 1) old_salt_val)
              else upsert_loop b bnonce cap hashed_key n (step + 1) new_salt_val))
        | None \<Rightarrow>
            bind (update_value salt_key None (Some new_salt_val)) (\<lambda>_. after_insert b bnonce cap)))"

text \<open>The body of \<open>shi_upsert\<close> up to the recursive call, with its arguments.\<close>

definition upsert_once :: "bucket_id \<Rightarrow> bytes \<Rightarrow> bytes \<Rightarrow> ('e, (bytes \<times> bytes) option) upd_comp" where
  "upsert_once b pkey pval =
     bind (lift_res (salt_value_new pkey pval)) (\<lambda>new_salt_val.
     if_ok_some (on_fst (direct_find pkey))
       (\<lambda>(salt_key, old_salt_val).
          bind (update_value salt_key (Some old_salt_val) (Some new_salt_val)) (\<lambda>_. ret None))
       (bind (on_fst (metadata b False)) (\<lambda>meta.
        bind (upsert_loop b (nonce meta) (capacity meta) (hash_with_nonce pkey (nonce meta))
                (unat (capacity meta)) 0 new_salt_val) (\<lambda>r.
        case r of
          None \<Rightarrow> ret None
        | Some new_salt_val \<Rightarrow>
            bind (lift_res (compute_resize_capacity (capacity meta) (capacity meta)))
              (\<lambda>new_capacity.
            bind (shi_rehash b (nonce meta) new_capacity) (\<lambda>_.
            bind (lift_res (plain_kv new_salt_val)) (\<lambda>kv. ret (Some kv))))))))"

partial_function (option) upsert_rec ::
  "bucket_id \<Rightarrow> bytes \<Rightarrow> bytes \<Rightarrow> 'e eph \<times> state_updates \<Rightarrow>
     ((unit, 'e) res \<times> ('e eph \<times> state_updates)) option"
where
  "upsert_rec b pkey pval st =
     (case upsert_once b pkey pval st of
        (Ok None, st1) \<Rightarrow> Some (Ok (), st1)
      | (Ok (Some (key, val)), st1) \<Rightarrow> upsert_rec b key val st1
      | (Err e, st1) \<Rightarrow> Some (Err e, st1)
      | (Panic, st1) \<Rightarrow> Some (Panic, st1)
      | (Diverge, st1) \<Rightarrow> Some (Diverge, st1))"

definition shi_upsert :: "bucket_id \<Rightarrow> bytes \<Rightarrow> bytes \<Rightarrow> ('e, unit) upd_comp" where
  "shi_upsert b pkey pval = (\<lambda>st.
     case upsert_rec b pkey pval st of Some r \<Rightarrow> r | None \<Rightarrow> (Diverge, st))"

section \<open>Batches and canonicalization\<close>

fun update_loop :: "(bytes \<times> bytes option) list \<Rightarrow> ('e, unit) upd_comp" where
  "update_loop [] = ret ()"
| "update_loop ((pkey, pval) # batch) =
     bind (case pval of
             Some v \<Rightarrow> shi_upsert (bucket_id pkey) pkey v
           | None \<Rightarrow> shi_delete (bucket_id pkey) pkey)
       (\<lambda>_. update_loop batch)"

definition update :: "(bytes \<times> bytes option) list \<Rightarrow> ('e, state_updates) eph_comp" where
  "update batch = with_updates (update_loop batch)"

fun clear_loop :: "bucket_id \<Rightarrow> nat \<Rightarrow> slot_id \<Rightarrow> ('e, salt_value list) upd_comp" where
  "clear_loop b 0 slot = ret []"
| "clear_loop b (Suc n) slot =
     (let salt_key = salt_key_from b slot in
      bind (on_fst (eph_value salt_key)) (\<lambda>v.
        case v of
          Some x \<Rightarrow>
            bind (\<lambda>(s, u). case add salt_key (Some x) None u of
                    (r, u') \<Rightarrow> (r, (cache_insert salt_key None s, u'))) (\<lambda>_.
            bind (clear_loop b n (slot + 1)) (\<lambda>kv_pairs. ret (x # kv_pairs)))
        | None \<Rightarrow> clear_loop b n (slot + 1)))"

fun reinsert_loop :: "bucket_id \<Rightarrow> salt_value list \<Rightarrow> ('e, unit) upd_comp" where
  "reinsert_loop b [] = ret ()"
| "reinsert_loop b (x # kv_pairs) =
     bind (lift_res (plain_kv x)) (\<lambda>(key, val).
     bind (shi_upsert b key val) (\<lambda>_. reinsert_loop b kv_pairs))"

definition canonicalize_bucket :: "bucket_id \<Rightarrow> ('e, unit) upd_comp" where
  "canonicalize_bucket b =
     bind (on_fst (metadata b False)) (\<lambda>old_metadata.
     bind (clear_loop b (unat (capacity old_metadata)) 0) (\<lambda>kv_pairs.
     bind (lift_res (bucket_metadata_key b)) (\<lambda>metadata_key.
     bind (\<lambda>(s, u). (Ok (), (s\<lparr>cache := bt_remove metadata_key (cache s)\<rparr>, u))) (\<lambda>_.
     bind (on_fst (metadata b False)) (\<lambda>new_metadata.
     bind (lift_res (salt_value_of_meta old_metadata)) (\<lambda>old_encoded.
     bind (lift_res (salt_value_of_meta new_metadata)) (\<lambda>new_encoded.
     bind (\<lambda>(s, u). case add metadata_key (Some old_encoded) (Some new_encoded) u of
             (r, u') \<Rightarrow> (r, (s, u'))) (\<lambda>_.
     bind (\<lambda>(s, u). (Ok (), (bump_usage b (- of_nat (length kv_pairs)) s, u))) (\<lambda>_.
     reinsert_loop b kv_pairs)))))))))"

fun canonicalize_loop :: "bucket_id list \<Rightarrow> ('e, unit) upd_comp" where
  "canonicalize_loop [] = ret ()"
| "canonicalize_loop (b # bs) = bind (canonicalize_bucket b) (\<lambda>_. canonicalize_loop bs)"

text \<open>\<open>order\<close> enumerates a hash set the way its iterator does.\<close>

definition canonicalize :: "(bucket_id set \<Rightarrow> bucket_id list) \<Rightarrow> ('e, state_updates) eph_comp" where
  "canonicalize order = (\<lambda>s.
     bind (with_updates (canonicalize_loop (order (rehashed_buckets s))))
       (\<lambda>u s. (Ok u, s\<lparr>rehashed_buckets := {}\<rparr>))
       (s\<lparr>rehashed_buckets := {}\<rparr>))"

definition update_fin ::
  "(bucket_id set \<Rightarrow> bucket_id list) \<Rightarrow> (bytes \<times> bytes option) list \<Rightarrow> ('e, state_updates) eph_comp"
where
  "update_fin order batch =
     bind (update batch) (\<lambda>updates.
     bind (canonicalize order) (\<lambda>more s.
       case merge more updates of (r, u) \<Rightarrow> (map_res (\<lambda>_. u) r, s)))"

section \<open>PlainStateProvider\<close>

definition provider_plain_value_and_slot ::
  "'e reader \<Rightarrow> bytes \<Rightarrow> bucket_id option \<Rightarrow> ((slot_id \<times> salt_value) option, 'e) res"
where
  "provider_plain_value_and_slot rd plain hint =
     (let b = (case hint of Some b \<Rightarrow> b | None \<Rightarrow> bucket_id plain) in
      bind_res (rd_metadata rd b) (\<lambda>meta.
        fst (shi_search (\<lambda>key. lift_res (rd_value rd key)) b (nonce meta) (capacity meta) plain ())))"

definition provider_plain_value ::
  "'e reader \<Rightarrow> bytes \<Rightarrow> bucket_id option \<Rightarrow> (bytes option, 'e) res"
where
  "provider_plain_value rd plain hint =
     bind_res (provider_plain_value_and_slot rd plain hint) (\<lambda>r.
       case r of
         None \<Rightarrow> Ok None
       | Some (_, salt_val) \<Rightarrow> bind_res (sv_value salt_val) (\<lambda>v. Ok (Some v)))"

text \<open>The partial functions compute by their equations.\<close>

declare resize_loop.simps [code] delete_loop.simps [code] upsert_rec.simps [code]

end
