(* ===== verification/Shi_Table.thy ===== *)
theory Shi_Table
  imports Salt_Prelude
begin

text \<open>
  The abstract specification of a SALT bucket: a strongly history-independent hash table with
  linear probing, as a function from slot numbers to optional entries. \<open>key\<close> reads an entry's
  key, \<open>home\<close> is the hash of a key, \<open>c\<close> the capacity. \<open>shi_ok\<close> is the table's invariant: along
  the probe sequence of an entry, every slot before its own holds a greater key. \<open>represents\<close>
  relates a table to the finite map it stands for.

  The operations follow the loops of \<open>salt/src/state/state.rs\<close> on the table alone (no cache, no
  errors); Ephemeral_State and Shi_Refine connect the code to them.
\<close>

type_synonym 'v tab = "nat \<Rightarrow> 'v option"

section \<open>Probe sequences\<close>

definition slot_at :: "nat \<Rightarrow> nat \<Rightarrow> nat \<Rightarrow> nat" where
  "slot_at c h i = (h + i) mod c"

definition dist :: "nat \<Rightarrow> nat \<Rightarrow> nat \<Rightarrow> nat" where
  "dist c h s = (s + (c - h mod c)) mod c"

lemma slot_at_less [simp]: "0 < c \<Longrightarrow> slot_at c h i < c"
  by (simp add: slot_at_def)

lemma dist_less [simp]: "0 < c \<Longrightarrow> dist c h s < c"
  by (simp add: dist_def)

lemma slot_at_dist [simp]: "s < c \<Longrightarrow> slot_at c h (dist c h s) = s"
proof -
  assume s: "s < c"
  have "slot_at c h (dist c h s) = (h mod c + (s + (c - h mod c))) mod c"
    by (simp add: slot_at_def dist_def mod_simps)
  also have "h mod c + (s + (c - h mod c)) = s + c"
    using mod_less_divisor [of c h] s by linarith
  finally show ?thesis
    using s by simp
qed

lemma mod_add_inj_aux: "i \<le> j \<Longrightarrow> j < c \<Longrightarrow> (h + i) mod c = (h + j) mod c \<Longrightarrow> i = (j :: nat)"
proof -
  assume *: "i \<le> j" "j < c" "(h + i) mod c = (h + j) mod c"
  then have "c dvd (h + j) - (h + i)"
    using mod_eq_dvd_iff_nat [of "h + i" "h + j" c] by simp
  then show "i = j"
    using * by (auto dest: dvd_imp_le)
qed

lemma slot_at_inj: "i < c \<Longrightarrow> j < c \<Longrightarrow> slot_at c h i = slot_at c h j \<Longrightarrow> i = j"
  unfolding slot_at_def by (metis mod_add_inj_aux nle_le)

lemma dist_slot_at [simp]: "i < c \<Longrightarrow> dist c h (slot_at c h i) = i"
  by (rule slot_at_inj [of _ c _ h]) auto

lemma slot_at_mod [simp]: "slot_at c h (i mod c) = slot_at c h i"
  by (simp add: slot_at_def mod_simps)

lemma slot_at_Suc: "slot_at c h i = slot_at c h' j \<Longrightarrow> slot_at c h (Suc i) = slot_at c h' (Suc j)"
  by (simp add: slot_at_def) (metis mod_Suc_eq)

lemma slot_at_add: "slot_at c h i = slot_at c h' j \<Longrightarrow> slot_at c h (i + n) = slot_at c h' (j + n)"
  by (induction n) (auto intro: slot_at_Suc)

lemma slot_at_home_mod [simp]: "slot_at c (h mod c) i = slot_at c h i"
  by (simp add: slot_at_def mod_simps)

lemma dist_home_mod [simp]: "dist c (h mod c) s = dist c h s"
  by (simp add: dist_def)

lemma obtain_slot:
  assumes "s < c"
  obtains i where "i < c" "s = slot_at c h i"
  using assms by (metis dist_less slot_at_dist gr_implies_not0 neq0_conv)

section \<open>The invariant and the abstraction\<close>

definition tab_set :: "nat \<Rightarrow> 'v tab \<Rightarrow> 'v set" where
  "tab_set c T = {e. \<exists>s < c. T s = Some e}"

definition occupied :: "nat \<Rightarrow> 'v tab \<Rightarrow> nat set" where
  "occupied c T = {s. s < c \<and> T s \<noteq> None}"

text \<open>The first \<open>n\<close> slots of the probe sequence from \<open>h\<close> hold keys greater than \<open>k\<close>.\<close>

definition above :: "('v \<Rightarrow> 'k::linorder) \<Rightarrow> nat \<Rightarrow> 'v tab \<Rightarrow> nat \<Rightarrow> 'k \<Rightarrow> nat \<Rightarrow> bool" where
  "above key c T h k n \<longleftrightarrow> (\<forall>i < n. \<exists>e. T (slot_at c h i) = Some e \<and> k < key e)"

definition shi_ok :: "('v \<Rightarrow> 'k::linorder) \<Rightarrow> ('k \<Rightarrow> nat) \<Rightarrow> nat \<Rightarrow> 'v tab \<Rightarrow> bool" where
  "shi_ok key home c T \<longleftrightarrow>
     (\<forall>e r. r < c \<longrightarrow> T (slot_at c (home (key e)) r) = Some e \<longrightarrow>
        above key c T (home (key e)) (key e) r)"

definition represents :: "('v \<Rightarrow> 'k) \<Rightarrow> nat \<Rightarrow> 'v tab \<Rightarrow> ('k \<Rightarrow> 'v option) \<Rightarrow> bool" where
  "represents key c T M \<longleftrightarrow> (\<forall>k e. M k = Some e \<longleftrightarrow> key e = k \<and> (\<exists>s < c. T s = Some e))"

lemma finite_occupied [simp]: "finite (occupied c T)"
  by (simp add: occupied_def)

lemma card_occupied_le: "card (occupied c T) \<le> c"
proof -
  have "occupied c T \<subseteq> {..<c}"
    by (auto simp: occupied_def)
  then have "card (occupied c T) \<le> card {..<c}"
    by (intro card_mono) auto
  then show ?thesis by simp
qed

lemma above_0 [simp]: "above key c T h k 0"
  by (simp add: above_def)

lemma above_Suc:
  "above key c T h k (Suc n) \<longleftrightarrow>
     above key c T h k n \<and> (\<exists>e. T (slot_at c h n) = Some e \<and> k < key e)"
  by (auto simp: above_def less_Suc_eq)

lemma aboveD: "above key c T h k n \<Longrightarrow> i < n \<Longrightarrow> \<exists>e. T (slot_at c h i) = Some e \<and> k < key e"
  by (simp add: above_def)

text \<open>A sequence of \<open>c\<close> or more slots covers the whole table.\<close>

lemma above_full:
  assumes "above key c T h k n" "c \<le> n" "s < c"
  shows "\<exists>e. T s = Some e \<and> k < key e"
proof -
  obtain i where "i < c" "s = slot_at c h i"
    using assms(3) by (rule obtain_slot)
  then show ?thesis
    using aboveD [OF assms(1), of i] assms(2) by simp
qed

lemma shi_okD:
  "shi_ok key home c T \<Longrightarrow> T (slot_at c (home (key e)) r) = Some e \<Longrightarrow> r < c \<Longrightarrow>
     above key c T (home (key e)) (key e) r"
  by (simp add: shi_ok_def)

lemma shi_ok_slot:
  assumes "shi_ok key home c T" "T s = Some e" "s < c"
  obtains r where "r < c" "s = slot_at c (home (key e)) r" "above key c T (home (key e)) (key e) r"
  using assms by (metis obtain_slot shi_okD)

text \<open>A key occurs in at most one slot.\<close>

lemma shi_ok_inj:
  assumes ok: "shi_ok key home c T" and T: "T s = Some e" "T s' = Some e'" "s < c" "s' < c"
    and k: "key e = key e'"
  shows "s = s' \<and> e = e'"
proof -
  obtain r where r: "r < c" "s = slot_at c (home (key e)) r" "above key c T (home (key e)) (key e) r"
    using ok T(1,3) by (rule shi_ok_slot)
  obtain r' where r': "r' < c" "s' = slot_at c (home (key e)) r'"
      "above key c T (home (key e)) (key e) r'"
    using ok T(2,4) k by (metis shi_ok_slot)
  have "r = r'"
    using aboveD [OF r(3), of r'] aboveD [OF r'(3), of r] T r(2) r'(2) k
    by (cases r r' rule: linorder_cases) auto
  then show ?thesis
    using r(2) r'(2) T by simp
qed

lemma representsI:
  assumes "shi_ok key home c T"
  shows "\<exists>M. represents key c T M"
proof -
  let ?P = "\<lambda>k e. key e = k \<and> (\<exists>s < c. T s = Some e)"
  let ?M = "\<lambda>k. if \<exists>e. ?P k e then Some (SOME e. ?P k e) else None"
  have "?M k = Some e \<longleftrightarrow> ?P k e" for k e
  proof
    assume "?M k = Some e"
    then show "?P k e"
      using someI_ex [of "?P k"] by (auto split: if_splits)
  next
    assume e: "?P k e"
    then have "?P k (SOME e. ?P k e)" by (rule someI)
    then have "(SOME e. ?P k e) = e"
      using e shi_ok_inj [OF assms] by metis
    then show "?M k = Some e"
      using e by auto
  qed
  then have "represents key c T ?M"
    unfolding represents_def by blast
  then show ?thesis by blast
qed

lemma represents_unique: "represents key c T M \<Longrightarrow> represents key c T M' \<Longrightarrow> M = M'"
proof
  fix k
  assume "represents key c T M" "represents key c T M'"
  then have "M k = Some e \<longleftrightarrow> M' k = Some e" for e
    by (simp add: represents_def)
  then show "M k = M' k"
    by (metis not_None_eq)
qed

lemma represents_key: "represents key c T M \<Longrightarrow> M k = Some e \<Longrightarrow> key e = k"
  by (simp add: represents_def)

lemma represents_slot: "represents key c T M \<Longrightarrow> T s = Some e \<Longrightarrow> s < c \<Longrightarrow> M (key e) = Some e"
  by (auto simp: represents_def)

lemma represents_finite_dom: "represents key c T M \<Longrightarrow> finite (dom M)"
proof -
  assume rep: "represents key c T M"
  have "dom M \<subseteq> (\<lambda>s. key (the (T s))) ` {..<c}"
    using rep by (force simp: represents_def)
  then show ?thesis
    by (rule finite_subset) simp
qed

text \<open>The number of entries is the number of occupied slots.\<close>

lemma card_dom_occupied:
  assumes ok: "shi_ok key home c T" and rep: "represents key c T M"
  shows "card (dom M) = card (occupied c T)"
proof -
  let ?f = "\<lambda>s. key (the (T s))"
  have "inj_on ?f (occupied c T)"
    using shi_ok_inj [OF ok] by (fastforce simp: inj_on_def occupied_def)
  moreover have "?f ` occupied c T = dom M"
  proof
    show "?f ` occupied c T \<subseteq> dom M"
      using rep by (auto simp: occupied_def dest: represents_slot)
    show "dom M \<subseteq> ?f ` occupied c T"
      using rep by (force simp: represents_def occupied_def)
  qed
  ultimately show ?thesis
    by (metis card_image)
qed

section \<open>History independence\<close>

text \<open>
  Two tables that satisfy the invariant and hold the same entries are the same, slot by slot:
  the layout is a function of the contents, not of the order of the operations.
\<close>

lemma shi_layout_step:
  assumes ok: "shi_ok key home c T" "shi_ok key home c T'"
    and rep: "represents key c T M" "represents key c T' M"
    and IH: "\<And>e s. s < c \<Longrightarrow> k < key e \<Longrightarrow> T s = Some e \<longleftrightarrow> T' s = Some e"
    and s: "s < c" "T s = Some e" "key e = k"
  shows "T' s = Some e"
proof -
  have "M k = Some e"
    using represents_slot [OF rep(1) s(2,1)] s(3) by simp
  then obtain s' where s': "s' < c" "T' s' = Some e"
    using rep(2) by (auto simp: represents_def)
  obtain r where r: "r < c" "s = slot_at c (home k) r" "above key c T (home k) k r"
    using shi_ok_slot [OF ok(1) s(2,1)] s(3) by metis
  obtain r' where r': "r' < c" "s' = slot_at c (home k) r'" "above key c T' (home k) k r'"
    using shi_ok_slot [OF ok(2) s'(2,1)] s(3) by metis
  have "r = r'"
  proof (cases r r' rule: linorder_cases)
    case less
    then obtain d where "T' s = Some d" "k < key d"
      using aboveD [OF r'(3)] r(2) by blast
    then show ?thesis
      using IH s by fastforce
  next
    case greater
    then obtain d where "T s' = Some d" "k < key d"
      using aboveD [OF r(3)] r'(2) by blast
    then show ?thesis
      using IH s' s(3) by fastforce
  qed simp
  then show ?thesis
    using r(2) r'(2) s'(2) by simp
qed

lemma shi_layout_unique:
  assumes ok: "shi_ok key home c T" "shi_ok key home c T'"
    and rep: "represents key c T M" "represents key c T' M" and s: "s < c"
  shows "T s = T' s"
proof -
  have iff: "s < c \<Longrightarrow> key e = k \<Longrightarrow> T s = Some e \<longleftrightarrow> T' s = Some e" for k e s
  proof (induction "card {k' \<in> dom M. k < k'}" arbitrary: k e s rule: less_induct)
    case less
    have IH: "T s' = Some e' \<longleftrightarrow> T' s' = Some e'" if "s' < c" "k < key e'" for e' s'
    proof (cases "M (key e') = Some e'")
      case True
      have "{k' \<in> dom M. key e' < k'} \<subset> {k' \<in> dom M. k < k'}"
        using that True by auto
      then have "card {k' \<in> dom M. key e' < k'} < card {k' \<in> dom M. k < k'}"
        using represents_finite_dom [OF rep(1)] by (intro psubset_card_mono) auto
      then show ?thesis
        using less.hyps that by blast
    next
      case False
      then show ?thesis
        using represents_slot [OF rep(1)] represents_slot [OF rep(2)] that by blast
    qed
    show ?case
      using shi_layout_step [OF ok rep, of k s e] shi_layout_step [OF ok(2,1) rep(2,1), of k s e]
        IH less.prems by blast
  qed
  show ?thesis
  proof (cases "T s")
    case None
    then show ?thesis
      using iff [OF s refl] by (cases "T' s") auto
  next
    case (Some e)
    then show ?thesis
      using iff [OF s refl] by simp
  qed
qed

end
