(* ===== verification/Shi_Ops.thy ===== *)
theory Shi_Ops
  imports Shi_Table
begin

text \<open>
  The probe loops of the SHI hash table on an abstract bucket (Shi_Table) and their
  correctness: \<open>tab_find\<close> is map lookup, \<open>tab_upsert\<close> map update, \<open>tab_delete\<close> map removal,
  \<open>tab_rebuild\<close> (the reinsertion of \<open>shi_rehash\<close>) builds a table for a given map; each keeps
  the invariant \<open>shi_ok\<close>. The counter \<open>n\<close> of a loop is the number of rounds left in the code's
  \<open>for\<close> range.
\<close>

section \<open>Lookup\<close>

fun tab_find :: "('v \<Rightarrow> 'k::linorder) \<Rightarrow> nat \<Rightarrow> nat \<Rightarrow> 'v tab \<Rightarrow> 'k \<Rightarrow> nat \<Rightarrow> nat \<Rightarrow> (nat \<times> 'v) option"
where
  "tab_find key c h T k 0 i = None"
| "tab_find key c h T k (Suc n) i =
     (case T (slot_at c h i) of
        None \<Rightarrow> None
      | Some e \<Rightarrow>
          if key e < k then None
          else if key e = k then Some (slot_at c h i, e)
          else tab_find key c h T k n (Suc i))"

lemma tab_find_Some:
  assumes "tab_find key c h T k n i = Some (s, e)" "0 < c"
  shows "s < c \<and> T s = Some e \<and> key e = k"
  using assms
  by (induction key c h T k n i rule: tab_find.induct) (auto split: option.splits if_splits)

lemma tab_find_present:
  assumes "above key c T h k r" "T (slot_at c h r) = Some e" "key e = k" "i \<le> r" "r < i + n"
  shows "tab_find key c h T k n i = Some (slot_at c h r, e)"
  using assms(4,5)
proof (induction n arbitrary: i)
  case 0
  then show ?case by simp
next
  case (Suc n)
  show ?case
  proof (cases "i = r")
    case True
    then show ?thesis
      using assms(2,3) by simp
  next
    case False
    then have i: "i < r" using Suc.prems by simp
    then obtain d where "T (slot_at c h i) = Some d" "k < key d"
      using aboveD [OF assms(1)] by blast
    then show ?thesis
      using Suc.IH [of "Suc i"] Suc.prems i by auto
  qed
qed

lemma tab_find_iff:
  assumes ok: "shi_ok key home c T" and "0 < c"
  shows "tab_find key c (home k) T k c 0 = Some (s, e) \<longleftrightarrow> s < c \<and> T s = Some e \<and> key e = k"
proof
  assume "tab_find key c (home k) T k c 0 = Some (s, e)"
  then show "s < c \<and> T s = Some e \<and> key e = k"
    using tab_find_Some assms(2) by metis
next
  assume *: "s < c \<and> T s = Some e \<and> key e = k"
  then obtain r where "r < c" "s = slot_at c (home (key e)) r"
      "above key c T (home (key e)) (key e) r"
    using ok by (metis shi_ok_slot)
  then show "tab_find key c (home k) T k c 0 = Some (s, e)"
    using * tab_find_present [of key c T "home k" k r e 0 c] by simp
qed

lemma tab_find_lookup:
  assumes "shi_ok key home c T" "represents key c T M" "0 < c"
  shows "map_option snd (tab_find key c (home k) T k c 0) = M k"
proof (cases "M k")
  case None
  then have "tab_find key c (home k) T k c 0 \<noteq> Some (s, e)" for s e
    using tab_find_iff [OF assms(1,3)] represents_slot [OF assms(2)] by fastforce
  then show ?thesis
    using None by (cases "tab_find key c (home k) T k c 0") auto
next
  case (Some e)
  then obtain s where "s < c" "T s = Some e" "key e = k"
    using assms(2) by (auto simp: represents_def)
  then have "tab_find key c (home k) T k c 0 = Some (s, e)"
    by (simp add: tab_find_iff [OF assms(1,3)])
  then show ?thesis
    using Some by simp
qed

section \<open>Insertion with displacement\<close>

datatype 'v ins = Fresh "'v tab" | Replaced "'v tab" | Full "'v tab" 'v

fun tab_upsert :: "('v \<Rightarrow> 'k::linorder) \<Rightarrow> nat \<Rightarrow> nat \<Rightarrow> nat \<Rightarrow> nat \<Rightarrow> 'v \<Rightarrow> 'v tab \<Rightarrow> 'v ins" where
  "tab_upsert key c h 0 i e T = Full T e"
| "tab_upsert key c h (Suc n) i e T =
     (let p = slot_at c h i
      in case T p of
           None \<Rightarrow> Fresh (T(p \<mapsto> e))
         | Some d \<Rightarrow>
             if key d = key e then Replaced (T(p \<mapsto> e))
             else if key d < key e then tab_upsert key c h n (Suc i) d (T(p \<mapsto> e))
             else tab_upsert key c h n (Suc i) e T)"

text \<open>
  What the loop keeps: the table satisfies the invariant without the entry in hand, the first
  \<open>m\<close> slots of that entry's own probe sequence hold greater keys and lead to the current slot.
\<close>

definition carrying ::
  "('v \<Rightarrow> 'k::linorder) \<Rightarrow> ('k \<Rightarrow> nat) \<Rightarrow> nat \<Rightarrow> nat \<Rightarrow> nat \<Rightarrow> 'v \<Rightarrow> 'v tab \<Rightarrow> nat \<Rightarrow> bool"
where
  "carrying key home c h i e T m \<longleftrightarrow>
     shi_ok key home c T \<and> above key c T (home (key e)) (key e) m \<and>
     slot_at c (home (key e)) m = slot_at c h i"

lemma carrying_bound:
  assumes "carrying key home c h i e T m" "0 < c"
    and "\<And>d. T (slot_at c h i) = Some d \<Longrightarrow> key d \<le> key e"
  shows "m < c"
proof (rule ccontr)
  assume "\<not> m < c"
  then obtain d where "T (slot_at c h i) = Some d" "key e < key d"
    using above_full [of key c T "home (key e)" "key e" m "slot_at c h i"] assms(1,2)
    by (auto simp: carrying_def)
  then show False
    using assms(3) [of d] by simp
qed

text \<open>An entry with the key in hand can only sit in the current slot.\<close>

lemma carrying_key_here:
  assumes car: "carrying key home c h i e T m" and "0 < c"
    and here: "\<And>d. T (slot_at c h i) = Some d \<Longrightarrow> key d \<le> key e"
    and f: "T s = Some f" "s < c" "key f = key e"
  shows "s = slot_at c h i"
proof -
  have m: "m < c"
    using carrying_bound [OF car] assms(2) here by blast
  obtain r where r: "r < c" "s = slot_at c (home (key e)) r" "above key c T (home (key e)) (key e) r"
    using car f shi_ok_slot unfolding carrying_def by metis
  consider "r < m" | "r = m" | "m < r"
    by linarith
  then show ?thesis
  proof cases
    case 1
    then show ?thesis
      using car f r(2) by (auto simp: carrying_def dest: aboveD)
  next
    case 2
    then show ?thesis
      using car r(2) by (simp add: carrying_def)
  next
    case 3
    then obtain d where "T (slot_at c h i) = Some d" "key e < key d"
      using aboveD [OF r(3) 3] car by (auto simp: carrying_def)
    then show ?thesis
      using here [of d] by simp
  qed
qed

text \<open>Writing the entry in hand over a slot that is empty or holds a smaller or equal key.\<close>

lemma carrying_place:
  assumes car: "carrying key home c h i e T m" and c: "0 < c"
    and here: "\<And>d. T (slot_at c h i) = Some d \<Longrightarrow> key d \<le> key e"
  shows "shi_ok key home c (T(slot_at c h i \<mapsto> e))"
  unfolding shi_ok_def above_def
proof (intro allI impI)
  fix f r j
  let ?p = "slot_at c h i"
  assume r: "r < c" and f: "(T(?p \<mapsto> e)) (slot_at c (home (key f)) r) = Some f" and j: "j < r"
  have m: "m < c"
    using carrying_bound [OF car c] here by blast
  have p: "slot_at c (home (key e)) m = ?p"
    using car by (simp add: carrying_def)
  have ab: "above key c T (home (key f)) (key f) r"
  proof (cases "slot_at c (home (key f)) r = ?p")
    case True
    then have "f = e" using f by simp
    moreover from this have "r = m"
      using True p slot_at_inj [OF r m, of "home (key e)"] by simp
    ultimately show ?thesis
      using car by (simp add: carrying_def)
  next
    case False
    then show ?thesis
      using f r car shi_okD by (fastforce simp: carrying_def)
  qed
  obtain d where d: "T (slot_at c (home (key f)) j) = Some d" "key f < key d"
    using aboveD [OF ab j] by blast
  show "\<exists>d. (T(?p \<mapsto> e)) (slot_at c (home (key f)) j) = Some d \<and> key f < key d"
  proof (cases "slot_at c (home (key f)) j = ?p")
    case True
    then show ?thesis
      using d here [of d] by (auto intro: order.strict_trans2)
  next
    case False
    then show ?thesis
      using d by simp
  qed
qed

lemma carrying_step_greater:
  assumes "carrying key home c h i e T m" "T (slot_at c h i) = Some d" "key e < key d"
  shows "carrying key home c h (Suc i) e T (Suc m)"
  using assms slot_at_Suc [of c "home (key e)" m h i] by (auto simp: carrying_def above_Suc)

lemma carrying_step_displace:
  assumes car: "carrying key home c h i e T m" and c: "0 < c"
    and d: "T (slot_at c h i) = Some d" "key d < key e"
  shows "\<exists>m'. carrying key home c h (Suc i) d (T(slot_at c h i \<mapsto> e)) m'"
proof -
  let ?p = "slot_at c h i" and ?T = "T(slot_at c h i \<mapsto> e)"
  have ok: "shi_ok key home c ?T"
    using carrying_place [OF car c] d by auto
  have ok0: "shi_ok key home c T"
    using car by (simp add: carrying_def)
  obtain r where r: "r < c" "?p = slot_at c (home (key d)) r" "above key c T (home (key d)) (key d) r"
    using shi_ok_slot [OF ok0 d(1) slot_at_less [OF c]] by metis
  have "above key c ?T (home (key d)) (key d) (Suc r)"
    unfolding above_Suc
  proof
    show "above key c ?T (home (key d)) (key d) r"
      unfolding above_def
    proof (intro allI impI)
      fix j assume j: "j < r"
      then have "slot_at c (home (key d)) j \<noteq> ?p"
        using slot_at_inj [of j c r] r(1,2) by auto
      then show "\<exists>f. ?T (slot_at c (home (key d)) j) = Some f \<and> key d < key f"
        using aboveD [OF r(3) j] by simp
    qed
    show "\<exists>f. ?T (slot_at c (home (key d)) r) = Some f \<and> key d < key f"
      using r(2) d(2) by simp
  qed
  then show ?thesis
    using ok slot_at_Suc [of c "home (key d)" r h i] r(2) unfolding carrying_def by metis
qed

subsection \<open>Contents\<close>

lemma represents_iff:
  "represents key c T M \<Longrightarrow> M k = Some e \<longleftrightarrow> key e = k \<and> (\<exists>s < c. T s = Some e)"
  by (simp add: represents_def)

lemma represents_clear:
  assumes "shi_ok key home c T" "represents key c T M" "p < c" "T p = Some d"
  shows "represents key c (T(p := None)) (M(key d := None))"
proof -
  have "(M(key d := None)) k = Some e \<longleftrightarrow> key e = k \<and> (\<exists>s < c. (T(p := None)) s = Some e)" for k e
  proof (cases "k = key d")
    case True
    then show ?thesis
      using shi_ok_inj [OF assms(1), of _ e p d] assms(3,4) by (auto split: if_splits)
  next
    case False
    then have eq: "key e = k \<Longrightarrow> (T(p := None)) s = Some e \<longleftrightarrow> T s = Some e" for s
      using assms(4) by auto
    have "(M(key d := None)) k = Some e \<longleftrightarrow> key e = k \<and> (\<exists>s < c. T s = Some e)"
      using False represents_iff [OF assms(2)] by simp
    then show ?thesis
      by (simp only: eq cong: conj_cong)
  qed
  then show ?thesis
    by (simp add: represents_def)
qed

lemma represents_fill:
  assumes "represents key c T M" "p < c" "T p = None" "key e \<notin> dom M"
  shows "represents key c (T(p \<mapsto> e)) (M(key e \<mapsto> e))"
proof -
  have "(M(key e \<mapsto> e)) k = Some f \<longleftrightarrow> key f = k \<and> (\<exists>s < c. (T(p \<mapsto> e)) s = Some f)" for k f
  proof (cases "k = key e")
    case True
    have "\<not> (s < c \<and> s \<noteq> p \<and> T s = Some f \<and> key f = key e)" for s
      using assms(1,4) by (force dest: represents_slot)
    then show ?thesis
      using True assms(2) by auto
  next
    case False
    then have eq: "key f = k \<Longrightarrow> (T(p \<mapsto> e)) s = Some f \<longleftrightarrow> T s = Some f" for s
      using assms(3) by auto
    have "(M(key e \<mapsto> e)) k = Some f \<longleftrightarrow> key f = k \<and> (\<exists>s < c. T s = Some f)"
      using False represents_iff [OF assms(1)] by simp
    then show ?thesis
      by (simp only: eq cong: conj_cong)
  qed
  then show ?thesis
    by (simp add: represents_def)
qed

lemma represents_overwrite:
  assumes "shi_ok key home c T" "represents key c T M" "p < c" "T p = Some d"
    and "key e = key d \<or> key e \<notin> dom M"
  shows "represents key c (T(p \<mapsto> e)) (M(key d := None, key e \<mapsto> e))"
  using represents_fill [OF represents_clear [OF assms(1-4)], of p e] assms(3,5) by auto

lemma occupied_fill: "p < c \<Longrightarrow> T p = None \<Longrightarrow> card (occupied c (T(p \<mapsto> e))) = Suc (card (occupied c T))"
proof -
  assume "p < c" "T p = None"
  then have "occupied c (T(p \<mapsto> e)) = insert p (occupied c T)" "p \<notin> occupied c T"
    by (auto simp: occupied_def)
  then show ?thesis by simp
qed

lemma occupied_overwrite: "T p = Some d \<Longrightarrow> occupied c (T(p \<mapsto> e)) = occupied c T"
  by (auto simp: occupied_def)

lemma occupied_clear: "p < c \<Longrightarrow> T p = Some d \<Longrightarrow> Suc (card (occupied c (T(p := None)))) = card (occupied c T)"
proof -
  assume "p < c" "T p = Some d"
  then have "occupied c T = insert p (occupied c (T(p := None)))" "p \<notin> occupied c (T(p := None))"
    by (auto simp: occupied_def)
  then show ?thesis by simp
qed

subsection \<open>Correctness of insertion\<close>

definition upsert_post ::
  "('v \<Rightarrow> 'k::linorder) \<Rightarrow> ('k \<Rightarrow> nat) \<Rightarrow> nat \<Rightarrow> 'v \<Rightarrow> 'v tab \<Rightarrow> ('k \<Rightarrow> 'v option) \<Rightarrow> 'v ins \<Rightarrow> bool"
where
  "upsert_post key home c e T M r = (case r of
     Fresh T' \<Rightarrow> key e \<notin> dom M \<and> shi_ok key home c T' \<and> represents key c T' (M(key e \<mapsto> e))
       \<and> card (occupied c T') = Suc (card (occupied c T))
   | Replaced T' \<Rightarrow> key e \<in> dom M \<and> shi_ok key home c T' \<and> represents key c T' (M(key e \<mapsto> e))
       \<and> occupied c T' = occupied c T
   | Full T' e' \<Rightarrow> key e \<notin> dom M \<and> shi_ok key home c T' \<and>
       (\<exists>M'. represents key c T' M' \<and> key e' \<notin> dom M' \<and> M'(key e' \<mapsto> e') = M(key e \<mapsto> e))
       \<and> occupied c T' = {..<c} \<and> occupied c T = {..<c})"

lemma upsert_fresh:
  assumes car: "carrying key home c h i e T m" and c: "0 < c"
    and rep: "represents key c T M" and free: "T (slot_at c h i) = None"
  shows "upsert_post key home c e T M (Fresh (T(slot_at c h i \<mapsto> e)))"
proof -
  have "key e \<notin> dom M"
  proof
    assume "key e \<in> dom M"
    then obtain f s where "T s = Some f" "s < c" "key f = key e"
      using rep by (auto simp: represents_def)
    then show False
      using carrying_key_here [OF car c] free by fastforce
  qed
  then show ?thesis
    using carrying_place [OF car c] represents_fill [OF rep _ free] c free
      occupied_fill [of "slot_at c h i" c T e]
    by (simp add: upsert_post_def)
qed

lemma upsert_replaced:
  assumes car: "carrying key home c h i e T m" and c: "0 < c"
    and rep: "represents key c T M" and d: "T (slot_at c h i) = Some d" "key d = key e"
  shows "upsert_post key home c e T M (Replaced (T(slot_at c h i \<mapsto> e)))"
proof -
  have ok: "shi_ok key home c T"
    using car by (simp add: carrying_def)
  have "M (key e) = Some d"
    using represents_slot [OF rep d(1)] c d(2) by simp
  then show ?thesis
    using represents_overwrite [OF ok rep, of "slot_at c h i" d e] carrying_place [OF car c] d c
      occupied_overwrite [of T "slot_at c h i" d c e, OF d(1)]
    by (auto simp: upsert_post_def)
qed

text \<open>The displacement step changes the table and the map but not what they hold together.\<close>

lemma upsert_displace:
  assumes car: "carrying key home c h i e T m" and c: "0 < c"
    and rep: "represents key c T M" and d: "T (slot_at c h i) = Some d" "key d < key e"
  defines "M1 \<equiv> M(key d := None, key e \<mapsto> e)"
  shows "key e \<notin> dom M" "represents key c (T(slot_at c h i \<mapsto> e)) M1" "key d \<notin> dom M1"
    "M1(key d \<mapsto> d) = M(key e \<mapsto> e)"
proof -
  have ok: "shi_ok key home c T"
    using car by (simp add: carrying_def)
  have Md: "M (key d) = Some d"
    using represents_slot [OF rep d(1)] c by simp
  show ne: "key e \<notin> dom M"
  proof
    assume "key e \<in> dom M"
    then obtain f s where f: "T s = Some f" "s < c" "key f = key e"
      using rep by (auto simp: represents_def)
    then have "s = slot_at c h i"
      using carrying_key_here [OF car c] d by fastforce
    then show False
      using f d by simp
  qed
  show "represents key c (T(slot_at c h i \<mapsto> e)) M1"
    unfolding M1_def using represents_overwrite [OF ok rep _ d(1), of e] c ne by simp
  show "key d \<notin> dom M1" "M1(key d \<mapsto> d) = M(key e \<mapsto> e)"
    using d(2) Md by (auto simp: M1_def fun_eq_iff)
qed

lemma tab_upsert_spec:
  assumes "carrying key home c h i e T m" "0 < c" "represents key c T M"
    and "\<And>j. j < i \<Longrightarrow> T (slot_at c h j) \<noteq> None" "i + n = c"
    and "key e \<notin> dom M \<or> m = i"
  shows "upsert_post key home c e T M (tab_upsert key c h n i e T)"
  using assms
proof (induction n arbitrary: i e T m M)
  case 0
  note car = "0.prems"(1)
  have "key e \<notin> dom M"
  proof
    assume "key e \<in> dom M"
    then have "m = c" using "0.prems" by auto
    moreover obtain f s where "T s = Some f" "s < c" "key f = key e"
      using "0.prems"(3) \<open>key e \<in> dom M\<close> by (auto simp: represents_def)
    ultimately show False
      using above_full [of key c T "home (key e)" "key e" m s] car by (auto simp: carrying_def)
  qed
  moreover have "occupied c T = {..<c}"
  proof -
    have "T s \<noteq> None" if "s < c" for s
      using "0.prems"(4,5) obtain_slot [OF that, of h] by (metis add.right_neutral)
    then show ?thesis by (auto simp: occupied_def)
  qed
  ultimately show ?case
    using car "0.prems"(3) by (auto simp: upsert_post_def carrying_def)
next
  case (Suc n)
  note car = Suc.prems(1) and c = Suc.prems(2) and rep = Suc.prems(3) and vis = Suc.prems(4)
  let ?p = "slot_at c h i"
  show ?case
  proof (cases "T ?p")
    case None
    then show ?thesis
      using upsert_fresh [OF car c rep] by simp
  next
    case (Some d)
    consider "key d = key e" | "key d < key e" | "key e < key d"
      by fastforce
    then show ?thesis
    proof cases
      case 1
      then show ?thesis
        using upsert_replaced [OF car c rep Some] Some by simp
    next
      case 2
      let ?T = "T(?p \<mapsto> e)" and ?M = "M(key d := None, key e \<mapsto> e)"
      note dis = upsert_displace [OF car c rep Some 2]
      obtain m' where car': "carrying key home c h (Suc i) d ?T m'"
        using carrying_step_displace [OF car c Some 2] by blast
      have "upsert_post key home c d ?T ?M (tab_upsert key c h n (Suc i) d ?T)"
      proof (rule Suc.IH [OF car' c dis(2)])
        show "?T (slot_at c h j) \<noteq> None" if "j < Suc i" for j
          using that vis [of j] by (auto simp: less_Suc_eq)
      qed (use Suc.prems(5) dis(3) in auto)
      then show ?thesis
        using Some 2 dis(1,3,4) occupied_overwrite [of T ?p d c e, OF Some]
        by (auto simp: upsert_post_def split: ins.splits)
    next
      case 3
      have "upsert_post key home c e T M (tab_upsert key c h n (Suc i) e T)"
      proof (rule Suc.IH [OF carrying_step_greater [OF car Some 3] c rep])
        show "T (slot_at c h j) \<noteq> None" if "j < Suc i" for j
          using that vis [of j] Some by (auto simp: less_Suc_eq)
      qed (use Suc.prems(5,6) in auto)
      then show ?thesis
        using Some 3 by (auto simp: Let_def)
    qed
  qed
qed

lemma tab_upsert_correct:
  assumes "shi_ok key home c T" "represents key c T M" "0 < c"
  shows "upsert_post key home c e T M (tab_upsert key c (home (key e)) c 0 e T)"
  by (rule tab_upsert_spec [where m = 0]) (use assms in \<open>auto simp: carrying_def\<close>)

end
