(* ===== verification/Shi_Delete.thy ===== *)
theory Shi_Delete
  imports Shi_Ops
begin

text \<open>
  Deletion with slot compaction on an abstract bucket: the loop of \<open>shi_delete\<close> moves a hole
  forward, filling it with the next entry whose probe sequence passes through it
  (\<open>shi_next\<close>). The loop terminates on every table, because each move brings an entry nearer
  to its home slot; on a table with the invariant the result is the table without the key.
  \<open>tab_rebuild\<close> is the reinsertion loop of \<open>shi_rehash\<close>.
\<close>

section \<open>The next entry to move\<close>

fun tab_next ::
  "('v \<Rightarrow> 'k) \<Rightarrow> ('k \<Rightarrow> nat) \<Rightarrow> nat \<Rightarrow> 'v tab \<Rightarrow> nat \<Rightarrow> nat \<Rightarrow> nat \<Rightarrow> (nat \<times> 'v) option"
where
  "tab_next key home c T d 0 i = None"
| "tab_next key home c T d (Suc n) i =
     (let s = slot_at c d i
      in case T s of
           None \<Rightarrow> None
         | Some e \<Rightarrow>
             if dist c (home (key e)) s > dist c (home (key e)) d then Some (s, e)
             else tab_next key home c T d n (Suc i))"

text \<open>The entry at the \<open>j\<close>-th slot after the hole must not move into it.\<close>

definition stays :: "('v \<Rightarrow> 'k) \<Rightarrow> ('k \<Rightarrow> nat) \<Rightarrow> nat \<Rightarrow> 'v tab \<Rightarrow> nat \<Rightarrow> nat \<Rightarrow> bool" where
  "stays key home c T d j \<longleftrightarrow>
     (\<exists>e. T (slot_at c d j) = Some e \<and>
        dist c (home (key e)) (slot_at c d j) \<le> dist c (home (key e)) d)"

lemma stays_from_Suc:
  "stays key home c T d i \<Longrightarrow> \<forall>j' \<ge> Suc i. j' < j \<longrightarrow> stays key home c T d j' \<Longrightarrow>
     i \<le> j' \<Longrightarrow> j' < j \<Longrightarrow> stays key home c T d j'"
  by (cases "j' = i") auto

lemma tab_next_Some:
  assumes "tab_next key home c T d n i = Some (s, e)"
  shows "\<exists>j \<ge> i. j < i + n \<and> s = slot_at c d j \<and> T s = Some e
    \<and> dist c (home (key e)) d < dist c (home (key e)) s
    \<and> (\<forall>j' \<ge> i. j' < j \<longrightarrow> stays key home c T d j')"
  using assms
proof (induction n arbitrary: i)
  case 0
  then show ?case by simp
next
  case (Suc n)
  show ?case
  proof (cases "stays key home c T d i")
    case True
    then have "tab_next key home c T d n (Suc i) = Some (s, e)"
      using Suc.prems by (auto simp: Let_def stays_def split: option.splits)
    then obtain j where "j \<ge> Suc i" "j < Suc i + n" "s = slot_at c d j" "T s = Some e"
        "dist c (home (key e)) d < dist c (home (key e)) s"
        "\<forall>j' \<ge> Suc i. j' < j \<longrightarrow> stays key home c T d j'"
      using Suc.IH by blast
    then show ?thesis
      using stays_from_Suc [OF True] by (intro exI [of _ j]) auto
  next
    case False
    then show ?thesis
      using Suc.prems
      by (intro exI [of _ i]) (auto simp: Let_def stays_def split: option.splits if_splits)
  qed
qed

lemma tab_next_None:
  assumes "tab_next key home c T d n i = None"
  shows "\<exists>j \<le> i + n. (j = i + n \<or> T (slot_at c d j) = None) \<and> i \<le> j
    \<and> (\<forall>j' \<ge> i. j' < j \<longrightarrow> stays key home c T d j')"
  using assms
proof (induction n arbitrary: i)
  case 0
  then show ?case by auto
next
  case (Suc n)
  show ?case
  proof (cases "T (slot_at c d i)")
    case None
    then show ?thesis
      by (intro exI [of _ i]) auto
  next
    case (Some e)
    then have st: "stays key home c T d i" "tab_next key home c T d n (Suc i) = None"
      using Suc.prems by (auto simp: Let_def stays_def split: if_splits)
    then obtain j where "j \<le> Suc i + n" "j = Suc i + n \<or> T (slot_at c d j) = None" "Suc i \<le> j"
        "\<forall>j' \<ge> Suc i. j' < j \<longrightarrow> stays key home c T d j'"
      using Suc.IH by blast
    then show ?thesis
      using stays_from_Suc [OF st(1)] by (intro exI [of _ j]) auto
  qed
qed

section \<open>Termination: entries move towards their homes\<close>

definition potential :: "('v \<Rightarrow> 'k) \<Rightarrow> ('k \<Rightarrow> nat) \<Rightarrow> nat \<Rightarrow> 'v tab \<Rightarrow> nat \<Rightarrow> nat" where
  "potential key home c T d =
     (\<Sum>s \<in> {..<c} - {d}. case T s of None \<Rightarrow> 0 | Some e \<Rightarrow> dist c (home (key e)) s)"

lemma potential_move:
  assumes "T s = Some e" "s < c" "s \<noteq> d" "dist c (home (key e)) d < dist c (home (key e)) s"
  shows "potential key home c (T(d \<mapsto> e)) s < potential key home c T d"
proof -
  let ?w = "\<lambda>T s. case T s of None \<Rightarrow> 0 | Some e \<Rightarrow> dist c (home (key e)) s"
  let ?R = "{..<c} - {d} - {s}"
  have rest: "(\<Sum>x \<in> ?R. ?w (T(d \<mapsto> e)) x) = (\<Sum>x \<in> ?R. ?w T x)"
    by (rule sum.cong) auto
  have "potential key home c T d = ?w T s + (\<Sum>x \<in> ?R. ?w T x)"
    unfolding potential_def using assms(2,3) by (intro sum.remove) auto
  moreover have "potential key home c (T(d \<mapsto> e)) s \<le> ?w (T(d \<mapsto> e)) d + (\<Sum>x \<in> ?R. ?w (T(d \<mapsto> e)) x)"
  proof (cases "d < c")
    case True
    then have "potential key home c (T(d \<mapsto> e)) s
        = ?w (T(d \<mapsto> e)) d + (\<Sum>x \<in> {..<c} - {s} - {d}. ?w (T(d \<mapsto> e)) x)"
      unfolding potential_def using assms(3) by (intro sum.remove) auto
    moreover have "{..<c} - {s} - {d} = ?R" by auto
    ultimately show ?thesis by simp
  next
    case False
    then have "{..<c} - {s} = ?R" by auto
    then show ?thesis
      unfolding potential_def by simp
  qed
  ultimately show ?thesis
    using assms(1,4) rest by simp
qed

lemma slot_at_ne: "0 < j \<Longrightarrow> j < c \<Longrightarrow> slot_at c d j \<noteq> d \<or> \<not> d < c"
  using slot_at_inj [of j c 0 d] by (auto simp: slot_at_def)

lemma tab_next_move:
  assumes "tab_next key home c T d (c - 1) 1 = Some (s, e)"
  shows "s < c \<and> s \<noteq> d \<and> T s = Some e \<and> dist c (home (key e)) d < dist c (home (key e)) s"
proof -
  obtain j where "1 \<le> j" "j < 1 + (c - 1)" "s = slot_at c d j" "T s = Some e"
      "dist c (home (key e)) d < dist c (home (key e)) s"
    using tab_next_Some [OF assms] by blast
  then show ?thesis
    by (auto simp: slot_at_def)
qed

function tab_delete_loop :: "('v \<Rightarrow> 'k) \<Rightarrow> ('k \<Rightarrow> nat) \<Rightarrow> nat \<Rightarrow> 'v tab \<Rightarrow> nat \<Rightarrow> 'v tab" where
  "tab_delete_loop key home c T d =
     (case tab_next key home c T d (c - 1) 1 of
        Some (s, e) \<Rightarrow> tab_delete_loop key home c (T(d \<mapsto> e)) s
      | None \<Rightarrow> T(d := None))"
  by pat_completeness auto

termination
  by (relation "measure (\<lambda>(key, home, c, T, d). potential key home c T d)")
     (auto dest!: tab_next_move [simplified] intro!: potential_move)

declare tab_delete_loop.simps [simp del]

definition tab_delete ::
  "('v \<Rightarrow> 'k::linorder) \<Rightarrow> ('k \<Rightarrow> nat) \<Rightarrow> nat \<Rightarrow> 'v tab \<Rightarrow> 'k \<Rightarrow> 'v tab"
where
  "tab_delete key home c T k =
     (case tab_find key c (home k) T k c 0 of
        None \<Rightarrow> T
      | Some (s, e) \<Rightarrow> tab_delete_loop key home c T s)"

section \<open>Correctness\<close>

text \<open>The invariant with a hole at \<open>d\<close>: what slot \<open>d\<close> holds does not count.\<close>

definition hole_ok :: "('v \<Rightarrow> 'k::linorder) \<Rightarrow> ('k \<Rightarrow> nat) \<Rightarrow> nat \<Rightarrow> 'v tab \<Rightarrow> nat \<Rightarrow> bool" where
  "hole_ok key home c T d \<longleftrightarrow>
     (\<forall>e r i. r < c \<longrightarrow> slot_at c (home (key e)) r \<noteq> d \<longrightarrow> T (slot_at c (home (key e)) r) = Some e \<longrightarrow>
        i < r \<longrightarrow> slot_at c (home (key e)) i \<noteq> d \<longrightarrow>
        (\<exists>f. T (slot_at c (home (key e)) i) = Some f \<and> key e < key f))"

lemma hole_okD:
  assumes "hole_ok key home c T d" "r < c" "slot_at c (home (key e)) r \<noteq> d"
    and "T (slot_at c (home (key e)) r) = Some e" "i < r" "slot_at c (home (key e)) i \<noteq> d"
  shows "\<exists>f. T (slot_at c (home (key e)) i) = Some f \<and> key e < key f"
  using assms unfolding hole_ok_def by blast

lemma hole_ok_start: "shi_ok key home c T \<Longrightarrow> hole_ok key home c T d"
  by (simp add: hole_ok_def shi_ok_def above_def)

text \<open>An entry whose probe sequence passes the hole is one that does not stay.\<close>

lemma passes_not_stays:
  assumes "r < c" "i < r" "slot_at c h i = d"
  shows "slot_at c h r = slot_at c d (r - i)" "0 < r - i" "r - i < c"
    and "dist c h d < dist c h (slot_at c h r)"
proof -
  have "slot_at c h (i + (r - i)) = slot_at c d (0 + (r - i))"
    by (rule slot_at_add) (use assms in \<open>auto simp: slot_at_def\<close>)
  then show "slot_at c h r = slot_at c d (r - i)"
    using assms(2) by simp
  show "0 < r - i" "r - i < c" "dist c h d < dist c h (slot_at c h r)"
    using assms by auto
qed

lemma passes_stays_contra:
  assumes "r < c" "i < r" "slot_at c (home (key e)) i = d"
    and "T (slot_at c (home (key e)) r) = Some e"
  shows "\<not> stays key home c T d (r - i)"
  using passes_not_stays [OF assms(1-3)] assms(4) by (auto simp: stays_def)

lemma slot_between:
  assumes "slot_at c h i = d" "i + j < c" "0 < j"
  shows "slot_at c d j = slot_at c h (i + j)" "slot_at c h (i + j) \<noteq> d"
proof -
  have "slot_at c h (i + j) = slot_at c d (0 + j)"
    by (rule slot_at_add) (use assms in \<open>auto simp: slot_at_def\<close>)
  then show "slot_at c d j = slot_at c h (i + j)"
    by simp
  show "slot_at c h (i + j) \<noteq> d"
    using slot_at_inj [of i c "i + j" h] assms by auto
qed

lemma hole_ok_move:
  assumes ok: "hole_ok key home c T d" and d: "d < c"
    and next': "tab_next key home c T d (c - 1) 1 = Some (s, e)"
  shows "hole_ok key home c (T(d \<mapsto> e)) s"
  unfolding hole_ok_def
proof (intro allI impI)
  fix f r i
  let ?h = "home (key f)" and ?T = "T(d \<mapsto> e)"
  assume r: "r < c" "slot_at c ?h r \<noteq> s" "?T (slot_at c ?h r) = Some f"
    and i: "i < r" "slot_at c ?h i \<noteq> s"
  obtain j where j: "1 \<le> j" "j < c" "s = slot_at c d j" "T s = Some e"
      "dist c (home (key e)) d < dist c (home (key e)) s"
      "\<forall>j' \<ge> 1. j' < j \<longrightarrow> stays key home c T d j'"
    using tab_next_Some [OF next'] d by auto
  have s: "s < c" "s \<noteq> d"
    using tab_next_move [OF next'] by auto
  show "\<exists>g. ?T (slot_at c ?h i) = Some g \<and> key f < key g"
  proof (cases "slot_at c ?h r = d")
    case True
    then have f: "f = e" using r(3) by simp
    have "dist c ?h d = r"
      using True r(1) by auto
    then have lt: "i < dist c ?h s" "dist c ?h s < c"
      using i(1) j(5) f s(1) by auto
    moreover have "slot_at c ?h i \<noteq> d"
      using True slot_at_inj [of i c r ?h] i(1) r(1) by auto
    ultimately show ?thesis
      using hole_okD [OF ok lt(2), of f i] s j(4) f by auto
  next
    case False
    then have Tf: "T (slot_at c ?h r) = Some f" using r(3) by simp
    show ?thesis
    proof (cases "slot_at c ?h i = d")
      case True
      note pass = passes_not_stays [OF r(1) i(1) True]
      have "\<not> stays key home c T d (r - i)"
        by (rule passes_stays_contra) (use r i True Tf in auto)
      then have "j \<le> r - i"
        using j(6) pass(2) by (metis One_nat_def Suc_leI not_le)
      moreover have "j \<noteq> r - i"
        using pass(1) j(3) r(2) by auto
      ultimately have "i + j < r" by simp
      then have "slot_at c ?h (i + j) = s" "slot_at c ?h (i + j) \<noteq> d"
        using slot_between [OF True, of j] r(1) j(1,3) by auto
      then obtain g where "T s = Some g" "key f < key g"
        using hole_okD [OF ok r(1) False Tf \<open>i + j < r\<close>] by auto
      then show ?thesis
        using True j(4) by simp
    next
      case not_d: False
      then show ?thesis
        using hole_okD [OF ok r(1) False Tf i(1)] by simp
    qed
  qed
qed

lemma hole_ok_close:
  assumes ok: "hole_ok key home c T d" and d: "d < c"
    and next': "tab_next key home c T d (c - 1) 1 = None"
  shows "shi_ok key home c (T(d := None))"
  unfolding shi_ok_def above_def
proof (intro allI impI)
  fix f r i
  let ?h = "home (key f)"
  assume r: "r < c" "(T(d := None)) (slot_at c ?h r) = Some f" and i: "i < r"
  then have nd: "slot_at c ?h r \<noteq> d" and Tf: "T (slot_at c ?h r) = Some f"
    by (auto split: if_splits)
  obtain j where j: "j \<le> c" "j = c \<or> T (slot_at c d j) = None" "1 \<le> j"
      "\<forall>j' \<ge> 1. j' < j \<longrightarrow> stays key home c T d j'"
    using tab_next_None [OF next'] d by auto
  have "slot_at c ?h i \<noteq> d"
  proof
    assume d': "slot_at c ?h i = d"
    note pass = passes_not_stays [OF r(1) i d']
    have "\<not> stays key home c T d (r - i)"
      by (rule passes_stays_contra) (use r i d' Tf in auto)
    then have "j \<le> r - i"
      using j(4) pass(2) by (metis One_nat_def Suc_leI not_le)
    then have none: "T (slot_at c d j) = None" "j < c"
      using j(2) pass(3) by auto
    then have "j \<noteq> r - i"
      using pass(1) Tf by auto
    then have "i + j < r"
      using \<open>j \<le> r - i\<close> by simp
    then show False
      using slot_between [OF d', of j] none(1) j(3) r(1) hole_okD [OF ok r(1) nd Tf] by fastforce
  qed
  then show "\<exists>g. (T(d := None)) (slot_at c ?h i) = Some g \<and> key f < key g"
    using hole_okD [OF ok r(1) nd Tf i] by simp
qed

text \<open>Moving an entry into the hole does not change what the table holds besides the hole.\<close>

lemma represents_move:
  assumes "represents key c (T(d := None)) M" "T s = Some e" "s < c" "d < c" "s \<noteq> d"
  shows "represents key c ((T(d \<mapsto> e))(s := None)) M"
proof -
  have "(\<exists>x < c. ((T(d \<mapsto> e))(s := None)) x = Some f) \<longleftrightarrow> (\<exists>x < c. (T(d := None)) x = Some f)" for f
  proof (cases "f = e")
    case True
    then show ?thesis
      using assms(2-5) by auto
  next
    case False
    then have "((T(d \<mapsto> e))(s := None)) x = Some f \<longleftrightarrow> (T(d := None)) x = Some f" for x
      using assms(2,5) by auto
    then show ?thesis by simp
  qed
  then show ?thesis
    using assms(1) by (simp add: represents_def)
qed

lemma tab_delete_loop_correct:
  assumes "hole_ok key home c T d" "represents key c (T(d := None)) M" "d < c"
  shows "shi_ok key home c (tab_delete_loop key home c T d) \<and>
    represents key c (tab_delete_loop key home c T d) M"
  using assms
proof (induction key home c T d rule: tab_delete_loop.induct)
  case (1 key home c T d)
  show ?case
  proof (cases "tab_next key home c T d (c - 1) 1")
    case None
    then have "tab_delete_loop key home c T d = T(d := None)"
      by (subst tab_delete_loop.simps) simp
    then show ?thesis
      using hole_ok_close [OF "1.prems"(1,3) None] "1.prems"(2) by (simp only:)
  next
    case (Some x)
    obtain s e where x: "x = (s, e)" by (cases x)
    note mv = tab_next_move [OF Some [unfolded x]]
    have "shi_ok key home c (tab_delete_loop key home c (T(d \<mapsto> e)) s) \<and>
        represents key c (tab_delete_loop key home c (T(d \<mapsto> e)) s) M"
    proof (rule "1.IH" [OF Some x [symmetric]])
      show "hole_ok key home c (T(d \<mapsto> e)) s"
        by (rule hole_ok_move [OF "1.prems"(1,3) Some [unfolded x]])
      show "represents key c ((T(d \<mapsto> e))(s := None)) M"
        using represents_move [OF "1.prems"(2)] mv "1.prems"(3) by blast
    qed (use mv in blast)
    moreover have "tab_delete_loop key home c T d = tab_delete_loop key home c (T(d \<mapsto> e)) s"
      using Some x by (subst tab_delete_loop.simps) simp
    ultimately show ?thesis
      by (simp only:)
  qed
qed

lemma tab_delete_correct:
  assumes ok: "shi_ok key home c T" and rep: "represents key c T M" and c: "0 < c"
  shows "shi_ok key home c (tab_delete key home c T k) \<and>
    represents key c (tab_delete key home c T k) (M(k := None))"
proof (cases "tab_find key c (home k) T k c 0")
  case None
  then have "M k = None"
    using tab_find_lookup [OF ok rep c, of k] by simp
  then have "M(k := None) = M" by auto
  then show ?thesis
    using None ok rep by (simp add: tab_delete_def)
next
  case (Some x)
  obtain s e where x: "x = (s, e)" by (cases x)
  then have s: "s < c" "T s = Some e" "key e = k"
    using tab_find_Some Some c by metis+
  then show ?thesis
    using tab_delete_loop_correct [OF hole_ok_start [OF ok] represents_clear [OF ok rep s(1,2)] s(1)]
      Some x by (simp add: tab_delete_def)
qed

lemma tab_delete_loop_outside:
  "d < c \<Longrightarrow> c \<le> s \<Longrightarrow> tab_delete_loop key home c T d s = T s"
proof (induction key home c T d rule: tab_delete_loop.induct)
  case (1 key home c T d)
  show ?case
  proof (cases "tab_next key home c T d (c - 1) 1")
    case None
    then have "tab_delete_loop key home c T d = T(d := None)"
      by (subst tab_delete_loop.simps) simp
    then show ?thesis
      using "1.prems" by simp
  next
    case (Some x)
    obtain s' e where x: "x = (s', e)" by (cases x)
    have "s' < c"
      using tab_next_move [OF Some [unfolded x]] by blast
    then have "tab_delete_loop key home c (T(d \<mapsto> e)) s' s = (T(d \<mapsto> e)) s"
      by (rule "1.IH" [OF Some x [symmetric] _ "1.prems"(2)])
    moreover have "tab_delete_loop key home c T d = tab_delete_loop key home c (T(d \<mapsto> e)) s'"
      using Some x by (subst tab_delete_loop.simps) simp
    ultimately show ?thesis
      using "1.prems" by simp
  qed
qed

section \<open>Rebuilding a table in descending key order\<close>

fun tab_place :: "nat \<Rightarrow> nat \<Rightarrow> nat \<Rightarrow> nat \<Rightarrow> 'v \<Rightarrow> 'v tab \<Rightarrow> 'v tab" where
  "tab_place c h 0 i e T = T"
| "tab_place c h (Suc n) i e T =
     (let p = slot_at c h i
      in case T p of
           None \<Rightarrow> T(p \<mapsto> e)
         | Some d \<Rightarrow> tab_place c h n (Suc i) e T)"

definition tab_rebuild :: "('v \<Rightarrow> 'k) \<Rightarrow> ('k \<Rightarrow> nat) \<Rightarrow> nat \<Rightarrow> 'v list \<Rightarrow> 'v tab" where
  "tab_rebuild key home c es =
     fold (\<lambda>e T. tab_place c (home (key e)) c 0 e T) es (\<lambda>_. None)"

text \<open>When every key in the table is greater, \<open>tab_upsert\<close> never displaces.\<close>

lemma tab_upsert_place:
  assumes "\<forall>s d. T s = Some d \<longrightarrow> key e < key d"
  shows "tab_upsert key c h n i e T = Fresh (tab_place c h n i e T) \<or>
    tab_upsert key c h n i e T = Full T e"
  using assms
proof (induction n arbitrary: i)
  case 0
  then show ?case by simp
next
  case (Suc n)
  show ?case
  proof (cases "T (slot_at c h i)")
    case None
    then show ?thesis by (simp add: Let_def del: fun_upd_apply)
  next
    case (Some d)
    then have "key e < key d"
      using Suc.prems by blast
    then have "\<not> key d < key e" "key d \<noteq> key e"
      by auto
    then show ?thesis
      using Suc Some by (simp add: Let_def)
  qed
qed

lemma tab_place_correct:
  assumes ok: "shi_ok key home c T" and rep: "represents key c T M" and c: "0 < c"
    and gt: "\<forall>s d. T s = Some d \<longrightarrow> key e < key d" and free: "card (occupied c T) < c"
  defines "T' \<equiv> tab_place c (home (key e)) c 0 e T"
  shows "shi_ok key home c T' \<and> represents key c T' (M(key e \<mapsto> e)) \<and>
    card (occupied c T') = Suc (card (occupied c T))"
proof -
  have post: "upsert_post key home c e T M (tab_upsert key c (home (key e)) c 0 e T)"
    by (rule tab_upsert_correct [OF ok rep c])
  have "tab_upsert key c (home (key e)) c 0 e T \<noteq> Full T e"
    using post free by (auto simp: upsert_post_def)
  then have "tab_upsert key c (home (key e)) c 0 e T = Fresh T'"
    using tab_upsert_place [OF gt, of c "home (key e)" c 0] by (simp add: T'_def)
  then show ?thesis
    using post by (simp add: upsert_post_def)
qed

lemma tab_place_range: "tab_place c h n i e T s = Some d \<Longrightarrow> T s = Some d \<or> d = e"
  by (induction n arbitrary: i) (auto simp: Let_def split: option.splits if_splits)

lemma tab_place_outside: "0 < c \<Longrightarrow> c \<le> s \<Longrightarrow> tab_place c h n i e T s = T s"
proof (induction n arbitrary: i)
  case (Suc n)
  then have "s \<noteq> slot_at c h i"
    by (metis slot_at_less not_le)
  then show ?case
    using Suc by (auto simp: Let_def split: option.splits)
qed simp

lemma tab_rebuild_outside: "0 < c \<Longrightarrow> c \<le> s \<Longrightarrow> tab_rebuild key home c es s = None"
proof -
  assume "0 < c" "c \<le> s"
  then have "fold (\<lambda>e T. tab_place c (home (key e)) c 0 e T) es T s = T s" for T
    by (induction es arbitrary: T) (auto simp: tab_place_outside)
  then show ?thesis
    by (simp add: tab_rebuild_def)
qed

lemma tab_rebuild_step:
  assumes "shi_ok key home c T" "represents key c T M" "0 < c"
    and "card (occupied c T) + length es \<le> c"
    and "sorted_wrt (\<lambda>d e. key e < key d) es" "\<forall>s d e. T s = Some d \<longrightarrow> e \<in> set es \<longrightarrow> key e < key d"
  defines "T' \<equiv> fold (\<lambda>e T. tab_place c (home (key e)) c 0 e T) es T"
  shows "shi_ok key home c T' \<and> represents key c T' (fold (\<lambda>e M. M(key e \<mapsto> e)) es M)"
  using assms(1-6) unfolding T'_def
proof (induction es arbitrary: T M)
  case Nil
  then show ?case by simp
next
  case (Cons e es)
  let ?T = "tab_place c (home (key e)) c 0 e T"
  have *: "shi_ok key home c ?T \<and> represents key c ?T (M(key e \<mapsto> e)) \<and>
      card (occupied c ?T) = Suc (card (occupied c T))"
    by (rule tab_place_correct) (use Cons.prems in auto)
  have "shi_ok key home c (fold (\<lambda>e T. tab_place c (home (key e)) c 0 e T) es ?T) \<and>
      represents key c (fold (\<lambda>e T. tab_place c (home (key e)) c 0 e T) es ?T)
        (fold (\<lambda>e M. M(key e \<mapsto> e)) es (M(key e \<mapsto> e)))"
  proof (rule Cons.IH)
    show "\<forall>s d f. ?T s = Some d \<longrightarrow> f \<in> set es \<longrightarrow> key f < key d"
      using Cons.prems(5,6) by (auto dest!: tab_place_range)
  qed (use * Cons.prems in \<open>auto simp del: fun_upd_apply\<close>)
  then show ?case by (simp del: fun_upd_apply)
qed

lemma fold_upd_map_of:
  "fold (\<lambda>e M. M(key e \<mapsto> e)) es M = M ++ map_of (map (\<lambda>e. (key e, e)) (rev es))"
  by (induction es arbitrary: M) (auto simp: map_add_def fun_eq_iff split: option.splits)

lemma tab_rebuild_correct:
  assumes "0 < c" "length es \<le> c" "sorted_wrt (\<lambda>d e. key e < key d) es"
  shows "shi_ok key home c (tab_rebuild key home c es) \<and>
    represents key c (tab_rebuild key home c es) (map_of (map (\<lambda>e. (key e, e)) (rev es)))"
proof -
  have "shi_ok key home c (\<lambda>_. None)" "represents key c (\<lambda>_. None) (\<lambda>_. None)"
      "card (occupied c (\<lambda>_. None :: 'a option)) = 0"
    by (auto simp: shi_ok_def represents_def occupied_def)
  then show ?thesis
    using tab_rebuild_step [of key home c "\<lambda>_. None" "\<lambda>_. None" es] assms
    by (simp add: tab_rebuild_def fold_upd_map_of)
qed

end
