(* ===== verification/Shi_Refine.thy ===== *)
theory Shi_Refine
  imports Ephemeral_State Shi_Delete
begin

text \<open>
  The code's hash-table operations (Ephemeral_State) implement the abstract ones (Shi_Ops,
  Shi_Delete). A state is read as a function \<open>view\<close>: what the cache says, else the store, with
  missing metadata read as default metadata. \<open>st_at\<close> ties a running computation to the view and
  to the updates recorded since the view \<open>V0\<close>; each operation is shown to move from one view to
  another. The lemmas hold over any store with the laws of \<open>full_reader\<close>.
\<close>

section \<open>Views and invariants\<close>

definition cur :: "salt_state \<Rightarrow> 'e eph \<Rightarrow> salt_state" where
  "cur B s = (\<lambda>k. case bt_get (cache s) k of Some v \<Rightarrow> v | None \<Rightarrow> B k)"

definition view :: "salt_state \<Rightarrow> 'e eph \<Rightarrow> salt_state" where
  "view B s = norm (cur B s)"

definition delta_of :: "'e eph \<Rightarrow> bucket_id \<Rightarrow> 64 word" where
  "delta_of s b = (case bt_get (usage_count_delta s) b of None \<Rightarrow> 0 | Some d \<Rightarrow> d)"

text \<open>
  The invariant of the ephemeral state over a store with contents \<open>B\<close>: metadata decodes, and
  the recorded deltas turn the store's slot counts into the current ones.
\<close>

definition eph_inv :: "'e reader \<Rightarrow> salt_state \<Rightarrow> 'e eph \<Rightarrow> bool" where
  "eph_inv rd B s \<longleftrightarrow> store s = rd \<and> metas_ok (cur B s) \<and>
     (\<forall>b. is_valid_data_bucket b \<longrightarrow>
        of_nat (occ B b) + delta_of s b = of_nat (occ (cur B s) b))"

definition eph_at :: "'e reader \<Rightarrow> salt_state \<Rightarrow> salt_state \<Rightarrow> bucket_id set \<Rightarrow> 'e eph \<Rightarrow> bool" where
  "eph_at rd B V R s \<longleftrightarrow> eph_inv rd B s \<and> view B s = V \<and> rehashed_buckets s = R"

definition st_at ::
  "'e reader \<Rightarrow> salt_state \<Rightarrow> salt_state \<Rightarrow> salt_state \<Rightarrow> bucket_id set \<Rightarrow>
     'e eph \<times> state_updates \<Rightarrow> bool"
where
  "st_at rd B V0 V R st \<longleftrightarrow> eph_at rd B V R (fst st) \<and>
     su_ok (snd st) \<and> chains_from (snd st) V0 \<and> apply_updates (snd st) V0 = V"

text \<open>The same without the slot counts, with the recorded deltas \<open>D\<close>.\<close>

definition eph_pre ::
  "'e reader \<Rightarrow> salt_state \<Rightarrow> salt_state \<Rightarrow> bucket_id set \<Rightarrow> (bucket_id, 64 word) btree \<Rightarrow>
     'e eph \<Rightarrow> bool"
where
  "eph_pre rd B V R D s \<longleftrightarrow> store s = rd \<and> metas_ok (cur B s) \<and> view B s = V \<and>
     rehashed_buckets s = R \<and> usage_count_delta s = D"

definition counts_ok :: "salt_state \<Rightarrow> salt_state \<Rightarrow> (bucket_id, 64 word) btree \<Rightarrow> bool" where
  "counts_ok B V D \<longleftrightarrow> (\<forall>b. is_valid_data_bucket b \<longrightarrow>
     of_nat (occ B b) + (case bt_get D b of None \<Rightarrow> 0 | Some d \<Rightarrow> d) = of_nat (occ V b))"

lemma eph_at_pre:
  "eph_at rd B V R s \<longleftrightarrow> eph_pre rd B V R (usage_count_delta s) s \<and> counts_ok B V (usage_count_delta s)"
  by (auto simp: eph_pre_def eph_at_def eph_inv_def counts_ok_def delta_of_def view_def)

lemma eph_pre_at: "eph_pre rd B V R D s \<Longrightarrow> counts_ok B V D \<Longrightarrow> eph_at rd B V R s"
  by (simp add: eph_at_pre) (simp add: eph_pre_def)

text \<open>A step that keeps the view and the deltas keeps the counts.\<close>

lemma runs_eph_at:
  assumes "\<And>D. eph_pre rd B V R D s \<Longrightarrow> runs m s a (eph_pre rd B V R D)" "eph_at rd B V R s"
  shows "runs m s a (eph_at rd B V R)"
proof -
  have pre: "eph_pre rd B V R (usage_count_delta s) s" and counts: "counts_ok B V (usage_count_delta s)"
    using assms(2) by (simp_all only: eph_at_pre)
  show ?thesis
    by (rule runs_mono [OF assms(1) [OF pre]]) (rule eph_pre_at [OF _ counts])
qed

lemma cur_insert: "cur B (cache_insert k v s) = (cur B s)(k := v)"
  by (auto simp: cur_def cache_insert_def fun_eq_iff)

lemma cur_fill: "bt_get (cache s) k = None \<Longrightarrow> cur B (cache_insert k (B k) s) = cur B s"
  unfolding cur_insert by (rule fun_upd_idem) (simp add: cur_def)

lemma cache_insert_simps [simp]:
  "store (cache_insert k v s) = store s"
  "usage_count_delta (cache_insert k v s) = usage_count_delta s"
  "rehashed_buckets (cache_insert k v s) = rehashed_buckets s"
  "cache_reads (cache_insert k v s) = cache_reads s"
  "delta_of (cache_insert k v s) b = delta_of s b"
  by (simp_all add: cache_insert_def delta_of_def)

lemma bump_simps [simp]:
  "store (bump_usage b d s) = store s" "cur B (bump_usage b d s) = cur B s"
  "rehashed_buckets (bump_usage b d s) = rehashed_buckets s"
  "cache_reads (bump_usage b d s) = cache_reads s"
  by (simp_all add: bump_usage_def cur_def)

lemma delta_of_bump: "delta_of (bump_usage b d s) b' = delta_of s b' + (if b' = b then d else 0)"
  by (simp add: delta_of_def bump_usage_def)

lemma view_data [simp]: "\<not> is_metadata_key k \<Longrightarrow> view B s k = cur B s k"
  by (simp add: view_def)

lemma eph_at_view: "eph_at rd B V R s \<Longrightarrow> view B s = V"
  by (simp add: eph_at_def)

lemma eph_at_norm: "eph_at rd B V R s \<Longrightarrow> norm V = V"
  by (auto simp: eph_at_def view_def)

lemma eph_at_metas_ok: "eph_at rd B V R s \<Longrightarrow> metas_ok V"
  by (auto simp: eph_at_def view_def eph_inv_def)

lemma eph_at_occ:
  "eph_at rd B V R s \<Longrightarrow> is_valid_data_bucket b \<Longrightarrow> of_nat (occ B b) + delta_of s b = of_nat (occ V b)"
  by (auto simp: eph_at_def view_def eph_inv_def)

lemma st_at_eph: "st_at rd B V0 V R (s, u) \<Longrightarrow> eph_at rd B V R s"
  by (simp add: st_at_def)

lemma st_at_fst: "st_at rd B V0 V R st \<Longrightarrow> eph_at rd B V R (fst st)"
  by (simp add: st_at_def)

lemma eph_at_new: "metas_ok B \<Longrightarrow> eph_at rd B (norm B) {} (eph_new rd)"
  by (simp add: eph_at_def eph_inv_def eph_new_def view_def cur_def delta_of_def)

lemma st_at_start: "eph_at rd B V R s \<Longrightarrow> st_at rd B V V R (s, [])"
  by (simp add: st_at_def)

lemma eph_at_same_cur:
  assumes "eph_at rd B V R s" "store s' = store s" "cur B s' = cur B s"
    and "usage_count_delta s' = usage_count_delta s" "rehashed_buckets s' = rehashed_buckets s"
  shows "eph_at rd B V R s'"
  using assms by (simp add: eph_at_def eph_inv_def view_def delta_of_def)

text \<open>Lifting a read-only step to the pair with the updates.\<close>

lemma runs_fst_st_at:
  assumes "\<And>s. eph_at rd B V R s \<Longrightarrow> runs m s a (eph_at rd B V R)" "st_at rd B V0 V R st"
  shows "runs (on_fst m) st a (st_at rd B V0 V R)"
proof -
  obtain s u where st: "st = (s, u)" by (cases st)
  have "runs (on_fst m) (s, u) a (\<lambda>(s', u'). eph_at rd B V R s' \<and> u' = u)"
    by (rule runs_on_fst, rule assms(1), rule st_at_eph) (use assms(2) st in simp)
  then show ?thesis
    unfolding st by (rule runs_mono) (use assms(2) in \<open>auto simp: st st_at_def\<close>)
qed

lemma is_default_meta_sv: "meta_is_default m \<Longrightarrow> meta_sv m = meta_sv default_meta"
  by (simp add: meta_is_default_def default_meta_def meta_sv_eq)

lemma norm_cache_meta:
  assumes "metas_ok V" "is_valid_data_bucket b"
  defines "m \<equiv> meta_at V b"
  shows "norm (V(meta_key b := if meta_is_default m then None else Some (meta_sv m))) = norm V"
proof (rule ext)
  fix k
  show "norm (V(meta_key b := if meta_is_default m then None else Some (meta_sv m))) k = norm V k"
  proof (cases "k = meta_key b")
    case True
    have "norm V (meta_key b) = Some (meta_sv m)"
      using norm_meta [OF assms(1,2)] by (simp add: m_def)
    then show ?thesis
      using True assms(2) is_default_meta_sv [of m] by (simp add: norm_def)
  next
    case False
    then show ?thesis by (simp add: norm_def)
  qed
qed

section \<open>Reading and updating a slot\<close>

context full_reader
begin

lemma eph_value_pre:
  assumes x: "ok x" and at: "eph_pre (reader_of x) (contents x) V R D s" and k: "\<not> is_metadata_key k"
  shows "runs (eph_value k) s (V k) (eph_pre (reader_of x) (contents x) V R D)"
proof -
  have V: "V k = cur (contents x) s k"
    using at k by (auto simp: eph_pre_def)
  show ?thesis
  proof (cases "bt_get (cache s) k")
    case (Some v)
    then show ?thesis
      using V at by (auto simp: eph_value_def cur_def runs_def)
  next
    case None
    let ?s = "if cache_reads s then cache_insert k (contents x k) s else s"
    have "eph_pre (reader_of x) (contents x) V R D ?s"
      using at cur_fill [OF None, of "contents x"] by (auto simp: eph_pre_def view_def)
    moreover have "eph_value k s = (Ok (contents x k), ?s)"
      using None at reads [OF x] by (simp add: eph_value_def eph_pre_def)
    ultimately show ?thesis
      using V None by (simp add: runs_def cur_def)
  qed
qed

lemma eph_value_at:
  "ok x \<Longrightarrow> eph_at (reader_of x) (contents x) V R s \<Longrightarrow> \<not> is_metadata_key k \<Longrightarrow>
     runs (eph_value k) s (V k) (eph_at (reader_of x) (contents x) V R)"
  by (rule runs_eph_at [OF eph_value_pre])

lemma usage_count_at:
  assumes x: "ok x" and at: "eph_at (reader_of x) (contents x) V R s" and b: "is_valid_data_bucket b"
  shows "usage_count b s = Ok (of_nat (occ V b))"
proof -
  have "occ V b < 2 ^ 63"
    using occ_le [of V b] by simp
  then have "0 \<le> sint (of_nat (occ V b) :: 64 word)"
    by (simp add: signed_of_nat signed_take_bit_int_eq_self)
  moreover have "of_nat (occ (contents x) b) + delta_of s b = of_nat (occ V b)"
    by (rule eph_at_occ [OF at b])
  moreover have "store s = reader_of x"
    using at by (simp add: eph_at_def eph_inv_def)
  ultimately show ?thesis
    using used_slots [OF x b] by (simp add: usage_count_def delta_of_def Let_def)
qed

lemma cached_metadata_pre:
  assumes x: "ok x" and at: "eph_pre (reader_of x) (contents x) V R D s" and b: "is_valid_data_bucket b"
  shows "\<exists>u. runs (cached_metadata b (meta_key b)) s ((meta_at V b)\<lparr>used := u\<rparr>)
    (eph_pre (reader_of x) (contents x) V R D)"
proof -
  let ?B = "contents x"
  have mV: "meta_at V b = meta_at (cur ?B s) b"
    using at b by (auto simp: eph_pre_def view_def)
  have mok: "metas_ok (cur ?B s)"
    using at by (simp add: eph_pre_def)
  show ?thesis
  proof (cases "bt_get (cache s) (meta_key b)")
    case (Some v)
    then have c: "cur ?B s (meta_key b) = v"
      by (simp add: cur_def)
    show ?thesis
    proof (cases v)
      case None
      then show ?thesis
        using Some at mV c
        by (intro exI [of _ None]) (simp add: cached_metadata_def runs_def meta_at_def default_meta_def)
    next
      case (Some w)
      then obtain m where "w = meta_sv m"
        using metas_okD [OF mok b] c by auto
      then show ?thesis
        using Some \<open>bt_get (cache s) (meta_key b) = Some v\<close> at mV c
        by (intro exI [of _ None]) (simp add: cached_metadata_def runs_def meta_at_def)
    qed
  next
    case None
    then have c: "meta_at (cur ?B s) b = meta_at ?B b"
      by (simp add: meta_at_def cur_def)
    obtain u where u: "rd_metadata (reader_of x) b = Ok ((meta_at ?B b)\<lparr>used := u\<rparr>)"
      using metadata [OF x b] by blast
    let ?m = "(meta_at ?B b)\<lparr>used := u\<rparr>"
    let ?v = "if meta_is_default ?m then None else Some (meta_sv ?m)"
    let ?s = "if cache_reads s then cache_insert (meta_key b) ?v s else s"
    have enc: "?v = (if meta_is_default (meta_at (cur ?B s) b) then None
        else Some (meta_sv (meta_at (cur ?B s) b)))"
      by (simp add: c meta_is_default_def)
    have view: "view ?B (cache_insert (meta_key b) ?v s) = view ?B s"
      unfolding view_def cur_insert enc by (rule norm_cache_meta [OF mok b])
    have "metas_ok (cur ?B (cache_insert (meta_key b) ?v s)) = metas_ok (cur ?B s)"
      using view metas_ok_norm unfolding view_def by metis
    then have "eph_pre (reader_of x) ?B V R D (cache_insert (meta_key b) ?v s)"
      using at view mok by (simp add: eph_pre_def)
    moreover have "cached_metadata b (meta_key b) s = (Ok ?m, ?s)"
      using None at u by (simp add: cached_metadata_def eph_pre_def)
    ultimately show ?thesis
      using at mV c by (intro exI [of _ u]) (simp add: runs_def)
  qed
qed

lemma metadata_False_pre:
  assumes x: "ok x" and at: "eph_pre (reader_of x) (contents x) V R D s" and b: "is_valid_data_bucket b"
  shows "runs (Ephemeral_State.metadata b False) s (meta_at V b)
    (eph_pre (reader_of x) (contents x) V R D)"
proof -
  obtain u where u: "runs (cached_metadata b (meta_key b)) s ((meta_at V b)\<lparr>used := u\<rparr>)
      (eph_pre (reader_of x) (contents x) V R D)"
    using cached_metadata_pre [OF assms] by blast
  have eq: "(meta_at V b)\<lparr>used := None\<rparr> = meta_at V b"
    using meta_at_used [of V b] by (cases "meta_at V b") simp
  show ?thesis
    unfolding Ephemeral_State.metadata_def bucket_metadata_key_ok [OF b] bind_lift_Ok
    by (rule runs_bind [OF u]) (simp add: eq)
qed

lemma cached_metadata_at:
  assumes "ok x" and at: "eph_at (reader_of x) (contents x) V R s" and "is_valid_data_bucket b"
  shows "\<exists>u. runs (cached_metadata b (meta_key b)) s ((meta_at V b)\<lparr>used := u\<rparr>)
    (eph_at (reader_of x) (contents x) V R)"
proof -
  have pre: "eph_pre (reader_of x) (contents x) V R (usage_count_delta s) s"
    and counts: "counts_ok (contents x) V (usage_count_delta s)"
    using at by (simp_all add: eph_at_pre)
  obtain u where "runs (cached_metadata b (meta_key b)) s ((meta_at V b)\<lparr>used := u\<rparr>)
      (eph_pre (reader_of x) (contents x) V R (usage_count_delta s))"
    using cached_metadata_pre [OF assms(1) pre assms(3)] by blast
  then have "runs (cached_metadata b (meta_key b)) s ((meta_at V b)\<lparr>used := u\<rparr>)
      (eph_at (reader_of x) (contents x) V R)"
    by (rule runs_mono) (rule eph_pre_at [OF _ counts])
  then show ?thesis ..
qed

lemma metadata_at:
  assumes x: "ok x" and at: "eph_at (reader_of x) (contents x) V R s" and b: "is_valid_data_bucket b"
  shows "runs (Ephemeral_State.metadata b need) s
    ((meta_at V b)\<lparr>used := if need then Some (of_nat (occ V b)) else None\<rparr>)
    (eph_at (reader_of x) (contents x) V R)"
proof -
  obtain u where u: "runs (cached_metadata b (meta_key b)) s ((meta_at V b)\<lparr>used := u\<rparr>)
      (eph_at (reader_of x) (contents x) V R)"
    using cached_metadata_at [OF assms] by blast
  have "runs (if need then (\<lambda>s. (map_res Some (usage_count b s), s)) else ret None) s'
      (if need then Some (of_nat (occ V b)) else None) (eph_at (reader_of x) (contents x) V R)"
    if "eph_at (reader_of x) (contents x) V R s'" for s'
    using usage_count_at [OF x that b] that by (simp add: runs_def)
  note step = this
  show ?thesis
    unfolding Ephemeral_State.metadata_def bucket_metadata_key_ok [OF b] bind_lift_Ok
    by (intro runs_bind [OF u] runs_bind [OF step]) simp_all
qed

lemma metadata_False_at:
  assumes "ok x" "eph_at (reader_of x) (contents x) V R s" "is_valid_data_bucket b"
  shows "runs (Ephemeral_State.metadata b False) s (meta_at V b) (eph_at (reader_of x) (contents x) V R)"
proof -
  have eq: "(meta_at V b)\<lparr>used := None\<rparr> = meta_at V b"
    using meta_at_used [of V b] by (cases "meta_at V b") simp
  show ?thesis
    using metadata_at [OF assms, of False] by (simp only: if_False eq)
qed

end

lemma update_value_at:
  assumes at: "st_at rd B V0 V R st" and old: "V key = old"
    and meta: "is_metadata_key key \<Longrightarrow> \<exists>m. new = Some (meta_sv m)"
  shows "runs (update_value key old new) st () (st_at rd B V0 (V(key := new)) R)"
proof -
  obtain s u where st: "st = (s, u)" by (cases st)
  have s: "eph_at rd B V R s" and u: "su_ok u" "chains_from u V0" "apply_updates u V0 = V"
    using at by (auto simp: st_at_def st)
  show ?thesis
  proof (cases "old = new")
    case True
    then show ?thesis
      using at old by (auto simp: update_value_def st runs_def fun_upd_idem)
  next
    case False
    obtain u' where u': "try_add key old new u = (Ok (), u')" "chains_from u' V0"
        "apply_updates u' V0 = V(key := new)" "su_ok u'"
      using try_add_chains [OF u(2), of key old new] try_add_su_ok [OF _ u(1)] u old by metis
    let ?d = "of_bool (new \<noteq> None) - of_bool (old \<noteq> None) :: 64 word"
    let ?s1 = "if ?d \<noteq> 0 then bump_usage (key_bucket_id key) ?d s else s"
    let ?s2 = "cache_insert key new ?s1"
    have cur: "cur B ?s2 = (cur B s)(key := new)"
      by (simp add: cur_insert)
    have V: "view B ?s2 = V(key := new)"
    proof (cases "is_metadata_key key")
      case True
      then show ?thesis
        using meta s unfolding view_def cur by (auto simp: view_def norm_upd_Some eph_at_def)
    next
      case False
      then show ?thesis
        using s unfolding view_def cur by (simp add: view_def norm_upd_data eph_at_def)
    qed
    have "of_nat (occ B b) + delta_of ?s2 b = of_nat (occ (cur B ?s2) b)"
      if b: "is_valid_data_bucket b" for b
    proof -
      have base: "of_nat (occ B b) + delta_of s b = of_nat (occ (cur B s) b)"
        using s b by (simp add: eph_at_def eph_inv_def)
      show ?thesis
      proof (cases "key_bucket_id key = b")
        case True
        then have key: "cur B s key = old"
          using b s old by (auto simp: eph_at_def)
        have "of_nat (occ ((cur B s)(key := new)) b) = of_nat (occ (cur B s) b) + ?d"
        proof (cases old)
          case None
          then show ?thesis
            using True key occ_upd_new [of "cur B s" key] False by (cases new) auto
        next
          case (Some o')
          then show ?thesis
          proof (cases new)
            case None
            then have "occ ((cur B s)(key := None)) b + 1 = occ (cur B s) b"
              using occ_upd_del [of "cur B s" key o'] True key Some by simp
            then have "of_nat (occ ((cur B s)(key := None)) b) + (1 :: u64) = of_nat (occ (cur B s) b)"
              by (metis of_nat_1 of_nat_add)
            then show ?thesis
              using None Some by (simp add: eq_diff_eq)
          next
            case (Some n')
            then show ?thesis
              using key occ_upd_old [of "cur B s" key o' n' b] \<open>old = Some o'\<close> by simp
          qed
        qed
        then show ?thesis
          using base True cur by (auto simp: delta_of_bump algebra_simps)
      next
        case False
        then show ?thesis
          using base cur by (auto simp: delta_of_bump)
      qed
    qed
    moreover have "metas_ok (cur B ?s2)"
      unfolding cur by (rule metas_ok_upd) (use s meta in \<open>auto simp: eph_at_def eph_inv_def\<close>)
    ultimately have "eph_at rd B (V(key := new)) R ?s2"
      using s V by (auto simp: eph_at_def eph_inv_def)
    moreover have "update_value key old new st = (Ok (), (?s2, u'))"
      by (simp only: update_value_def st prod.case Let_def False not_False_eq_True if_True add_eq [OF u'(1)])
    ultimately show ?thesis
      using u' by (simp add: runs_def st_at_def)
  qed
qed

end
