(* ===== verification/Shi_Loops.thy ===== *)
theory Shi_Loops
  imports Shi_Refine
begin

text \<open>
  The probe loops of the code, on machine words and through the cache, compute the abstract
  loops of Shi_Ops and Shi_Delete on the bucket's table \<open>tab V b\<close>. \<open>put_tab\<close> is the state whose
  bucket \<open>b\<close> holds a given table.
\<close>

section \<open>A bucket as a table\<close>

definition slot_key :: "bucket_id \<Rightarrow> nat \<Rightarrow> salt_key" where
  "slot_key b s = salt_key_from b (of_nat s)"

definition tab :: "salt_state \<Rightarrow> bucket_id \<Rightarrow> salt_value tab" where
  "tab V b = (\<lambda>s. if s < 2 ^ 40 then V (slot_key b s) else None)"

definition put_tab :: "salt_state \<Rightarrow> bucket_id \<Rightarrow> salt_value tab \<Rightarrow> salt_state" where
  "put_tab V b T = (\<lambda>k. if key_bucket_id k = b then T (unat (key_slot_id k)) else V k)"

definition home :: "u32 \<Rightarrow> bytes \<Rightarrow> nat" where
  "home nc p = unat (hash_with_nonce p nc)"

definition entries_valid :: "nat \<Rightarrow> salt_value tab \<Rightarrow> bool" where
  "entries_valid c T \<longleftrightarrow> (\<forall>s < c. \<forall>v. T s = Some v \<longrightarrow> sv_valid v)"

lemma slot_fits: "is_valid_data_bucket b \<Longrightarrow> s < 2 ^ 40 \<Longrightarrow> key_fits b (of_nat s)"
  by (simp add: key_fits_def is_valid_data_bucket_unat unat_local)

lemma slot_key_parts:
  assumes "is_valid_data_bucket b" "s < 2 ^ 40"
  shows "key_bucket_id (slot_key b s) = b" "key_slot_id (slot_key b s) = of_nat s"
    "unat (key_slot_id (slot_key b s)) = s"
  using slot_fits [OF assms] assms(2) by (simp_all add: slot_key_def unat_local)

lemma slot_key_data: "is_valid_data_bucket b \<Longrightarrow> s < 2 ^ 40 \<Longrightarrow> \<not> is_metadata_key (slot_key b s)"
  using slot_key_parts(1) data_bucket_not_meta by metis

lemma slot_key_of_parts: "key_bucket_id k = b \<Longrightarrow> slot_key b (unat (key_slot_id k)) = k"
  using salt_key_from_parts [of k] by (simp add: slot_key_def)

lemma put_tab_slot: "is_valid_data_bucket b \<Longrightarrow> s < 2 ^ 40 \<Longrightarrow> put_tab V b T (slot_key b s) = T s"
  by (simp add: put_tab_def slot_key_parts(1,3))

lemma tab_put_tab:
  "is_valid_data_bucket b \<Longrightarrow> tab (put_tab V b T) b = (\<lambda>s. if s < 2 ^ 40 then T s else None)"
  using put_tab_slot by (auto simp: tab_def fun_eq_iff)

lemma tab_outside: "2 ^ 40 \<le> s \<Longrightarrow> tab V b s = None"
  by (simp add: tab_def)

lemma tab_slot: "s < 2 ^ 40 \<Longrightarrow> tab V b s = V (slot_key b s)"
  by (simp add: tab_def)

lemma put_tab_tab [simp]: "put_tab V b (tab V b) = V"
proof -
  have "tab V b (unat (key_slot_id k)) = V k" if "key_bucket_id k = b" for k
    using slot_key_of_parts [OF that] by (simp add: tab_def unat_key_slot_id)
  then show ?thesis
    by (auto simp: put_tab_def fun_eq_iff)
qed

lemma put_tab_put_tab [simp]: "put_tab (put_tab V b T) b T' = put_tab V b T'"
  by (auto simp: put_tab_def fun_eq_iff)

lemma put_tab_other [simp]: "key_bucket_id k \<noteq> b \<Longrightarrow> put_tab V b T k = V k"
  by (simp add: put_tab_def)

lemma put_tab_cong: "(\<And>s. s < 2 ^ 40 \<Longrightarrow> T s = T' s) \<Longrightarrow> put_tab V b T = put_tab V b T'"
proof -
  assume "\<And>s. s < 2 ^ 40 \<Longrightarrow> T s = T' s"
  then have "T (unat (key_slot_id k)) = T' (unat (key_slot_id k))" for k
    by (simp add: unat_key_slot_id)
  then show ?thesis
    by (auto simp: put_tab_def fun_eq_iff)
qed

lemma put_tab_upd:
  assumes "is_valid_data_bucket b" "s < 2 ^ 40"
  shows "(put_tab V b T)(slot_key b s := x) = put_tab V b (T(s := x))"
proof (rule ext)
  fix k
  show "((put_tab V b T)(slot_key b s := x)) k = put_tab V b (T(s := x)) k"
  proof (cases "key_bucket_id k = b")
    case True
    then have "k = slot_key b s \<longleftrightarrow> unat (key_slot_id k) = s"
      using slot_key_of_parts [OF True] slot_key_parts(3) [OF assms] by metis
    then show ?thesis
      using True by (simp add: put_tab_def)
  next
    case False
    then have "k \<noteq> slot_key b s"
      using slot_key_parts(1) [OF assms] by auto
    then show ?thesis
      using False by (simp add: put_tab_def)
  qed
qed

lemma upd_slot:
  "is_valid_data_bucket b \<Longrightarrow> s < 2 ^ 40 \<Longrightarrow>
     V(slot_key b s := x) = put_tab V b ((tab V b)(s := x))"
  using put_tab_upd [of b s V "tab V b" x] by simp

lemma tab_upd:
  "is_valid_data_bucket b \<Longrightarrow> s < 2 ^ 40 \<Longrightarrow> tab (V(slot_key b s := x)) b = (tab V b)(s := x)"
  by (simp add: upd_slot tab_put_tab del: fun_upd_apply) (auto simp: fun_eq_iff tab_outside)

lemma put_tab_upd_slot:
  "is_valid_data_bucket b \<Longrightarrow> s < 2 ^ 40 \<Longrightarrow> put_tab (V(slot_key b s := x)) b T = put_tab V b T"
  by (simp add: upd_slot del: fun_upd_apply)

lemma put_tab_meta: "is_valid_data_bucket b \<Longrightarrow> is_metadata_key k \<Longrightarrow> put_tab V b T k = V k"
  using data_bucket_not_meta by (metis put_tab_other)

lemma meta_at_put_tab [simp]:
  "is_valid_data_bucket b \<Longrightarrow> is_valid_data_bucket b' \<Longrightarrow> meta_at (put_tab V b T) b' = meta_at V b'"
  by (simp add: meta_at_def put_tab_meta)

lemma occ_put_tab:
  assumes b: "is_valid_data_bucket b" and c: "c \<le> 2 ^ 40"
    and out: "\<And>s. c \<le> s \<Longrightarrow> s < 2 ^ 40 \<Longrightarrow> T s = None"
  shows "occ (put_tab V b T) b = card (occupied c T)"
proof -
  have "bij_betw (slot_key b) (occupied c T) (bucket_keys (put_tab V b T) b)"
  proof (rule bij_betw_byWitness [where f' = "\<lambda>k. unat (key_slot_id k)"])
    show "\<forall>s \<in> occupied c T. unat (key_slot_id (slot_key b s)) = s"
      using c slot_key_parts(3) [OF b] by (auto simp: occupied_def)
    show "\<forall>k \<in> bucket_keys (put_tab V b T) b. slot_key b (unat (key_slot_id k)) = k"
      by (auto simp: bucket_keys_def slot_key_of_parts)
    show "slot_key b ` occupied c T \<subseteq> bucket_keys (put_tab V b T) b"
    proof (rule image_subsetI)
      fix s assume "s \<in> occupied c T"
      then have "s < 2 ^ 40" "T s \<noteq> None"
        using c by (auto simp: occupied_def)
      then show "slot_key b s \<in> bucket_keys (put_tab V b T) b"
        using slot_key_parts(1) [OF b] put_tab_slot [OF b] by (simp add: bucket_keys_def)
    qed
    show "(\<lambda>k. unat (key_slot_id k)) ` bucket_keys (put_tab V b T) b \<subseteq> occupied c T"
    proof (rule image_subsetI)
      fix k assume "k \<in> bucket_keys (put_tab V b T) b"
      then have "T (unat (key_slot_id k)) \<noteq> None"
        by (auto simp: bucket_keys_def put_tab_def)
      moreover have "unat (key_slot_id k) < 2 ^ 40"
        by (simp add: unat_key_slot_id)
      ultimately have "\<not> c \<le> unat (key_slot_id k)"
        using out [of "unat (key_slot_id k)"] by auto
      then show "unat (key_slot_id k) \<in> occupied c T"
        using \<open>T (unat (key_slot_id k)) \<noteq> None\<close> by (simp add: occupied_def)
    qed
  qed
  then show ?thesis
    unfolding occ_def by (metis bij_betw_same_card)
qed

section \<open>Probing on words\<close>

lemma unat_of_nat_cap: "i < unat (cap :: u64) \<Longrightarrow> unat (of_nat i :: u64) = i"
  using unat_u64_less [of cap] by (simp add: unat_of_nat)

lemma probe_slot_at:
  assumes "i < unat cap" "unat cap < 2 ^ 40"
  shows "probe hk (of_nat i) cap = of_nat (slot_at (unat cap) (unat hk) i)"
proof -
  have hk: "unat (hk mod cap) = unat hk mod unat cap"
    by (simp add: unat_mod)
  then have "unat (hk mod cap) < unat cap"
    using assms(1) by simp
  then have "unat hk mod unat cap + i < 2 ^ 64"
    using assms add_strict_mono [of "unat hk mod unat cap" "unat cap" i "unat cap"]
    unfolding hk by simp
  then have "unat ((hk mod cap) + of_nat i) = unat hk mod unat cap + i"
    using assms by (subst unat_add_small) (simp_all add: unat_of_nat_cap hk)
  then have "unat (probe hk (of_nat i) cap) = slot_at (unat cap) (unat hk) i"
    by (simp add: probe_def unat_mod slot_at_def mod_simps)
  then have "of_nat (unat (probe hk (of_nat i) cap)) = (of_nat (slot_at (unat cap) (unat hk) i) :: u64)"
    by (rule arg_cong)
  then show ?thesis
    by simp
qed

lemma rank_dist:
  assumes "s < unat cap" "unat cap < 2 ^ 40"
  shows "unat (rank hk (of_nat s) cap) = dist (unat cap) (unat hk) s"
proof -
  let ?c = "unat cap" and ?f = "unat hk mod unat cap"
  have f: "?f < ?c"
    using assms(1) by simp
  have s: "unat (of_nat s :: u64) = s"
    by (rule unat_of_nat_cap [OF assms(1)])
  have first: "unat (probe hk 0 cap) = ?f"
    by (simp add: probe_def unat_mod)
  show ?thesis
  proof (cases "?f \<le> s")
    case True
    then have "unat (rank hk (of_nat s) cap) = s - ?f"
      by (simp add: rank_def Let_def word_le_nat_alt first s unat_sub_le)
    moreover have "s + (?c - ?f) = s - ?f + ?c" "s - ?f < ?c"
      using True f assms(1) by linarith+
    then have "dist ?c (unat hk) s = s - ?f"
      unfolding dist_def by (metis mod_add_self2 mod_less)
    ultimately show ?thesis
      by simp
  next
    case False
    then have sum: "unat (of_nat s + cap) = s + ?c"
      using assms by (subst unat_add_small) (simp_all add: s)
    have "unat (rank hk (of_nat s) cap) = s + ?c - ?f"
      using False f by (simp add: rank_def Let_def word_le_nat_alt first s unat_sub_le sum)
    moreover have "dist ?c (unat hk) s = (s + (?c - ?f)) mod ?c"
      by (simp add: dist_def)
    ultimately show ?thesis
      using False f by simp
  qed
qed

lemma slot_key_probe:
  "i < unat cap \<Longrightarrow> unat cap < 2 ^ 40 \<Longrightarrow>
     salt_key_from b (probe hk (of_nat i) cap) = slot_key b (slot_at (unat cap) (unat hk) i)"
  by (simp add: probe_slot_at slot_key_def)

lemma entries_validD: "entries_valid c T \<Longrightarrow> s < c \<Longrightarrow> T s = Some v \<Longrightarrow> sv_valid v"
  by (simp add: entries_valid_def)

lemma entries_valid_upd: "entries_valid c T \<Longrightarrow> (\<And>v. x = Some v \<Longrightarrow> sv_valid v) \<Longrightarrow>
    entries_valid c (T(s := x))"
  by (simp add: entries_valid_def)

section \<open>Searching\<close>

lemma search_loop_runs:
  assumes read: "\<And>s k. P s \<Longrightarrow> \<not> is_metadata_key k \<Longrightarrow> runs (get_value k) s (V k) P"
    and b: "is_valid_data_bucket b" and c: "unat cap < 2 ^ 40"
    and val: "entries_valid (unat cap) (tab V b)"
    and "P s" "i + n \<le> unat cap"
  shows "runs (search_loop get_value b hk cap p n (of_nat i)) s
    (map_option (\<lambda>(s, e). (of_nat s, e)) (tab_find plain_key (unat cap) (unat hk) (tab V b) p n i)) P"
  using assms(5,6)
proof (induction n arbitrary: i s)
  case 0
  then show ?case by simp
next
  case (Suc n)
  let ?p = "slot_at (unat cap) (unat hk) i"
  have p: "?p < unat cap" "?p < 2 ^ 40"
    using Suc.prems(2) c slot_at_less [of "unat cap" "unat hk" i] by linarith+
  have slot: "probe hk (of_nat i) cap = of_nat ?p" "salt_key_from b (of_nat ?p) = slot_key b ?p"
    using Suc.prems(2) c by (simp_all add: slot_key_def probe_slot_at)
  have rd: "runs (get_value (slot_key b ?p)) s (tab V b ?p) P"
    using read [OF Suc.prems(1) slot_key_data [OF b p(2)]] p(2) by (simp add: tab_slot)
  have IH: "runs (search_loop get_value b hk cap p n (of_nat i + 1)) s'
      (map_option (\<lambda>(s, e). (of_nat s, e))
        (tab_find plain_key (unat cap) (unat hk) (tab V b) p n (Suc i))) P" if "P s'" for s'
    using Suc.IH [OF that, of "Suc i"] Suc.prems(2) by (simp add: add.commute)
  show ?case
    unfolding search_loop.simps Let_def slot
  proof (rule runs_bind [OF rd])
    fix s' assume s': "P s'"
    show "runs (case tab V b ?p of None \<Rightarrow> ret None
        | Some salt_val \<Rightarrow> bind (lift_res (sv_key salt_val)) (\<lambda>key.
            if key < p then ret None else if key = p then ret (Some (of_nat ?p, salt_val))
            else search_loop get_value b hk cap p n (of_nat i + 1))) s'
        (map_option (\<lambda>(s, e). (of_nat s, e))
          (tab_find plain_key (unat cap) (unat hk) (tab V b) p (Suc n) i)) P"
      using entries_validD [OF val p(1)] s' IH [OF s'] by (simp split: option.splits)
  qed
qed

lemma shi_search_runs:
  assumes "\<And>s k. P s \<Longrightarrow> \<not> is_metadata_key k \<Longrightarrow> runs (get_value k) s (V k) P"
    and "is_valid_data_bucket b" "unat cap < 2 ^ 40" "entries_valid (unat cap) (tab V b)" "P s"
  shows "runs (shi_search get_value b nc cap p) s
    (map_option (\<lambda>(s, e). (of_nat s, e))
      (tab_find plain_key (unat cap) (home nc p) (tab V b) p (unat cap) 0)) P"
  using search_loop_runs [of P get_value V b cap s 0 "unat cap" "hash_with_nonce p nc" p] assms
  by (simp add: shi_search_def home_def)

context full_reader
begin

abbreviation eat :: "'s \<Rightarrow> salt_state \<Rightarrow> bucket_id set \<Rightarrow> 'e eph \<Rightarrow> bool" where
  "eat x \<equiv> eph_at (reader_of x) (contents x)"

abbreviation sat ::
  "'s \<Rightarrow> salt_state \<Rightarrow> salt_state \<Rightarrow> bucket_id set \<Rightarrow> 'e eph \<times> state_updates \<Rightarrow> bool"
where
  "sat x \<equiv> st_at (reader_of x) (contents x)"

lemma shi_find_at:
  assumes "ok x" "is_valid_data_bucket b" "unat cap < 2 ^ 40"
    and "entries_valid (unat cap) (tab V b)" "eat x V R s"
  shows "runs (shi_find b nc cap p) s
    (map_option (\<lambda>(s, e). (of_nat s, e))
      (tab_find plain_key (unat cap) (home nc p) (tab V b) p (unat cap) 0)) (eat x V R)"
  unfolding shi_find_def
  by (rule shi_search_runs) (use assms eph_value_at in blast)+

lemma direct_find_at:
  assumes "ok x" "eat x V R s"
  shows "runs (direct_find p) s None (eat x V R)"
proof -
  obtain e where "rd_plain_value_fast (reader_of x) p = Err e"
    using fast [OF assms(1)] by blast
  moreover have "store s = reader_of x"
    using assms(2) by (simp add: eph_at_def eph_inv_def)
  ultimately show ?thesis
    using assms(2) by (simp add: direct_find_def runs_def)
qed

section \<open>Deleting\<close>

lemma next_loop_at:
  assumes x: "ok x" and b: "is_valid_data_bucket b" and c: "unat cap < 2 ^ 40"
    and val: "entries_valid (unat cap) (tab V b)" and d: "d < unat cap"
    and "eat x V R s" "i + n \<le> unat cap"
  shows "runs (next_loop b (of_nat d) nc cap n (of_nat i)) s
    (map_option (\<lambda>(s, e). (of_nat s, e))
      (tab_next plain_key (home nc) (unat cap) (tab V b) d n i)) (eat x V R)"
  using assms(6,7)
proof (induction n arbitrary: i s)
  case 0
  then show ?case by simp
next
  case (Suc n)
  let ?c = "unat cap"
  let ?p = "slot_at ?c d i"
  have p: "?p < ?c" "?p < 2 ^ 40"
    using Suc.prems(2) c slot_at_less [of ?c d i] by linarith+
  have slot: "probe (of_nat d) (of_nat i) cap = of_nat ?p"
      "salt_key_from b (of_nat ?p) = slot_key b ?p"
    using Suc.prems(2) c d by (simp_all add: slot_key_def probe_slot_at unat_of_nat_cap)
  have rd: "runs (eph_value (slot_key b ?p)) s (tab V b ?p) (eat x V R)"
    using eph_value_at [OF x Suc.prems(1) slot_key_data [OF b p(2)]] p(2) by (simp add: tab_slot)
  have IH: "runs (next_loop b (of_nat d) nc cap n (of_nat i + 1)) s'
      (map_option (\<lambda>(s, e). (of_nat s, e))
        (tab_next plain_key (home nc) ?c (tab V b) d n (Suc i))) (eat x V R)" if "eat x V R s'" for s'
    using Suc.IH [OF that, of "Suc i"] Suc.prems(2) by (simp add: add.commute)
  have ranks: "rank (hash_with_nonce q nc) (of_nat ?p) cap > rank (hash_with_nonce q nc) (of_nat d) cap
      \<longleftrightarrow> dist ?c (home nc q) ?p > dist ?c (home nc q) d" for q
    using rank_dist [OF p(1) c] rank_dist [OF d c] by (simp add: word_less_nat_alt home_def)
  show ?case
    unfolding next_loop.simps Let_def slot
  proof (rule runs_bind [OF rd])
    fix s' assume s': "eat x V R s'"
    show "runs (case tab V b ?p of
          Some salt_val \<Rightarrow> bind (lift_res (sv_key salt_val)) (\<lambda>key.
            if rank (hash_with_nonce key nc) (of_nat ?p) cap
                > rank (hash_with_nonce key nc) (of_nat d) cap
            then ret (Some (of_nat ?p, salt_val))
            else next_loop b (of_nat d) nc cap n (of_nat i + 1))
        | None \<Rightarrow> ret None) s'
        (map_option (\<lambda>(s, e). (of_nat s, e))
          (tab_next plain_key (home nc) ?c (tab V b) d (Suc n) i)) (eat x V R)"
      using entries_validD [OF val p(1)] s' IH [OF s'] by (simp add: ranks Let_def split: option.splits)
  qed
qed

lemma shi_next_at:
  assumes "ok x" "is_valid_data_bucket b" "unat cap < 2 ^ 40"
    and "entries_valid (unat cap) (tab V b)" "d < unat cap" "eat x V R s"
  shows "runs (shi_next b (of_nat d) nc cap) s
    (map_option (\<lambda>(s, e). (of_nat s, e))
      (tab_next plain_key (home nc) (unat cap) (tab V b) d (unat cap - 1) 1)) (eat x V R)"
  using next_loop_at [OF assms, of 1 "unat cap - 1" nc] assms(5) by (simp add: shi_next_def)

lemma delete_loop_at:
  assumes x: "ok x" and b: "is_valid_data_bucket b" and c: "unat cap < 2 ^ 40"
    and "entries_valid (unat cap) (tab V b)" "d < unat cap" "tab V b d = Some del_value"
    and "sat x V0 V R st"
  shows "\<exists>st'. delete_loop b nc cap (of_nat d) del_value st = Some (Ok (), st') \<and>
    sat x V0 (put_tab V b (tab_delete_loop plain_key (home nc) (unat cap) (tab V b) d)) R st'"
  using assms(4-7)
proof (induction "potential plain_key (home nc) (unat cap) (tab V b) d"
    arbitrary: V d del_value st rule: less_induct)
  case less
  let ?c = "unat cap" and ?T = "tab V b"
  note val = less.prems(1) and d = less.prems(2) and old = less.prems(3) and st = less.prems(4)
  have d40: "d < 2 ^ 40" using d c by linarith
  have Vd: "V (slot_key b d) = Some del_value"
    using old d40 by (simp add: tab_slot)
  obtain st1 where st1: "on_fst (shi_next b (of_nat d) nc cap) st
        = (Ok (map_option (\<lambda>(s, e). (of_nat s, e)) (tab_next plain_key (home nc) ?c ?T d (?c - 1) 1)), st1)"
      "sat x V0 V R st1"
    using runs_fst_st_at [OF shi_next_at [OF x b c val d, of R _ nc] st] unfolding runs_def by blast
  have key: "salt_key_from b (of_nat d) = slot_key b d"
    by (simp add: slot_key_def)
  have data: "\<not> is_metadata_key (slot_key b d)"
    by (rule slot_key_data [OF b d40])
  show ?case
  proof (cases "tab_next plain_key (home nc) ?c ?T d (?c - 1) 1")
    case None
    obtain st2 where "update_value (slot_key b d) (Some del_value) None st1 = (Ok (), st2)"
        "sat x V0 (V(slot_key b d := None)) R st2"
      using update_value_at [OF st1(2) Vd, of None] data by (auto simp: runs_def)
    moreover have "tab_delete_loop plain_key (home nc) ?c ?T d = ?T(d := None)"
      using None by (subst tab_delete_loop.simps) simp
    ultimately show ?thesis
      using st1(1) None upd_slot [OF b d40, of V None]
      by (subst delete_loop.simps) (simp add: key del: fun_upd_apply)
  next
    case (Some y)
    obtain s e where y: "y = (s, e)" by (cases y)
    note nx = Some [unfolded y]
    note mv = tab_next_move [OF nx]
    obtain st2 where st2: "update_value (slot_key b d) (Some del_value) (Some e) st1 = (Ok (), st2)"
        "sat x V0 (V(slot_key b d := Some e)) R st2"
      using update_value_at [OF st1(2) Vd, of "Some e"] data by (auto simp: runs_def)
    let ?V = "V(slot_key b d := Some e)"
    have T': "tab ?V b = ?T(d \<mapsto> e)"
      by (rule tab_upd [OF b d40])
    have "\<exists>st'. delete_loop b nc cap (of_nat s) e st2 = Some (Ok (), st') \<and>
        sat x V0 (put_tab ?V b (tab_delete_loop plain_key (home nc) ?c (tab ?V b) s)) R st'"
    proof (rule less.hyps [OF _ _ _ _ st2(2)])
      show "potential plain_key (home nc) ?c (tab ?V b) s < potential plain_key (home nc) ?c ?T d"
        unfolding T' by (rule potential_move) (use mv in auto)
      show "entries_valid ?c (tab ?V b)"
        unfolding T' by (rule entries_valid_upd [OF val]) (use mv val in \<open>auto simp: entries_valid_def\<close>)
      show "tab ?V b s = Some e"
        unfolding T' using mv by simp
    qed (use mv in blast)
    moreover have "tab_delete_loop plain_key (home nc) ?c ?T d
        = tab_delete_loop plain_key (home nc) ?c (?T(d \<mapsto> e)) s"
      using nx by (subst tab_delete_loop.simps) simp
    moreover have "delete_loop b nc cap (of_nat d) del_value st = delete_loop b nc cap (of_nat s) e st2"
      using st1(1) nx st2(1) by (subst delete_loop.simps) (simp add: key)
    ultimately show ?thesis
      unfolding T' put_tab_upd_slot [OF b d40] by (simp only:)
  qed
qed

end

section \<open>Inserting\<close>

fun ins_tab :: "'v ins \<Rightarrow> 'v tab" where
  "ins_tab (Fresh T) = T"
| "ins_tab (Replaced T) = T"
| "ins_tab (Full T e) = T"

context full_reader
begin

lemma upsert_loop_at:
  fixes hk :: u64
  assumes x: "ok x" and b: "is_valid_data_bucket b" and c: "unat cap < 2 ^ 40"
    and "entries_valid (unat cap) (tab V b)" "sv_valid e" "sat x V0 V R st" "i + n \<le> unat cap"
  defines "r \<equiv> \<lambda>V i n e. tab_upsert plain_key (unat cap) (unat hk) n i e (tab V b)"
  shows "\<exists>st'. sat x V0 (put_tab V b (ins_tab (r V i n e))) R st' \<and>
    upsert_loop b nc cap hk n (of_nat i) e st =
      (case r V i n e of Replaced _ \<Rightarrow> (Ok None, st') | Fresh _ \<Rightarrow> after_insert b nc cap st'
       | Full _ e' \<Rightarrow> (Ok (Some e'), st'))"
  using assms(4-7)
proof (induction n arbitrary: i V e st)
  case 0
  then show ?case by (intro exI [of _ st]) (simp add: r_def)
next
  case (Suc n)
  note val = Suc.prems(1) and ve = Suc.prems(2) and st = Suc.prems(3)
  let ?c = "unat cap" and ?T = "tab V b"
  let ?p = "slot_at ?c (unat hk) i"
  have p: "?p < ?c" "?p < 2 ^ 40"
    using Suc.prems(4) c slot_at_less [of ?c "unat hk" i] by linarith+
  have slot: "salt_key_from b (probe hk (of_nat i) cap) = slot_key b ?p"
    using Suc.prems(4) c by (simp add: slot_key_def probe_slot_at)
  have data: "\<not> is_metadata_key (slot_key b ?p)"
    by (rule slot_key_data [OF b p(2)])
  have Tp: "?T ?p = V (slot_key b ?p)"
    using p(2) by (rule tab_slot)
  obtain st1 where st1: "on_fst (eph_value (slot_key b ?p)) st = (Ok (?T ?p), st1)" "sat x V0 V R st1"
    using runs_fst_st_at [OF eph_value_at [OF x _ data, of V R] st] unfolding runs_def Tp by blast
  have upd: "\<exists>st2. update_value (slot_key b ?p) (?T ?p) (Some e) st1 = (Ok (), st2) \<and>
      sat x V0 (put_tab V b (?T(?p \<mapsto> e))) R st2"
    using update_value_at [OF st1(2) Tp [symmetric], of "Some e"] data upd_slot [OF b p(2), of V "Some e"]
    by (auto simp: runs_def)
  have step: "of_nat i + 1 = (of_nat (Suc i) :: u64)"
    by simp
  show ?case
  proof (cases "?T ?p")
    case None
    obtain st2 where "update_value (slot_key b ?p) None (Some e) st1 = (Ok (), st2)"
        "sat x V0 (put_tab V b (?T(?p \<mapsto> e))) R st2"
      using upd None by auto
    then show ?thesis
      using st1(1) None
      by (intro exI [of _ st2]) (simp add: r_def bind_def Let_def slot del: fun_upd_apply)
  next
    case (Some d)
    then have vd: "sv_valid d"
      using entries_validD [OF val p(1)] by blast
    obtain st2 where st2: "update_value (slot_key b ?p) (Some d) (Some e) st1 = (Ok (), st2)"
        "sat x V0 (put_tab V b (?T(?p \<mapsto> e))) R st2"
      using upd Some by auto
    consider "plain_key d = plain_key e" | "plain_key d < plain_key e" | "plain_key e < plain_key d"
      by fastforce
    then show ?thesis
    proof cases
      case 1
      then show ?thesis
        using st2 st1(1) Some vd ve
        by (intro exI [of _ st2]) (simp add: r_def bind_def Let_def slot del: fun_upd_apply)
    next
      case 2
      let ?V = "put_tab V b (?T(?p \<mapsto> e))"
      have T': "tab ?V b = ?T(?p \<mapsto> e)"
        using tab_upd [OF b p(2), of V "Some e"] upd_slot [OF b p(2), of V "Some e"] by simp
      have "entries_valid ?c (tab ?V b)"
        unfolding T' by (rule entries_valid_upd [OF val]) (use ve in auto)
      then obtain st' where "sat x V0 (put_tab ?V b (ins_tab (r ?V (Suc i) n d))) R st'"
          "upsert_loop b nc cap hk n (of_nat (Suc i)) d st2 =
             (case r ?V (Suc i) n d of Replaced _ \<Rightarrow> (Ok None, st') | Fresh _ \<Rightarrow> after_insert b nc cap st'
              | Full _ e' \<Rightarrow> (Ok (Some e'), st'))"
        using Suc.IH [OF _ vd st2(2), of "Suc i"] Suc.prems(4) by auto
      moreover have "r ?V (Suc i) n d = r V i (Suc n) e"
        unfolding r_def T' using Some 2 less_imp_neq [OF 2] by (simp add: Let_def del: fun_upd_apply)
      moreover have "upsert_loop b nc cap hk (Suc n) (of_nat i) e st
          = upsert_loop b nc cap hk n (of_nat (Suc i)) d st2"
        using st1(1) st2(1) Some 2 less_imp_neq [OF 2] vd ve by (simp add: bind_def Let_def slot add.commute)
      ultimately show ?thesis
        by (intro exI [of _ st'] conjI) (simp_all only: put_tab_put_tab)
    next
      case 3
      obtain st' where "sat x V0 (put_tab V b (ins_tab (r V (Suc i) n e))) R st'"
          "upsert_loop b nc cap hk n (of_nat (Suc i)) e st1 =
             (case r V (Suc i) n e of Replaced _ \<Rightarrow> (Ok None, st') | Fresh _ \<Rightarrow> after_insert b nc cap st'
              | Full _ e' \<Rightarrow> (Ok (Some e'), st'))"
        using Suc.IH [OF val ve st1(2), of "Suc i"] Suc.prems(4) by auto
      moreover have "r V (Suc i) n e = r V i (Suc n) e"
        unfolding r_def using Some 3 by (auto simp: Let_def)
      moreover have "upsert_loop b nc cap hk (Suc n) (of_nat i) e st
          = upsert_loop b nc cap hk n (of_nat (Suc i)) e st1"
        using st1(1) Some 3 vd ve by (auto simp: bind_def Let_def slot add.commute)
      ultimately show ?thesis
        by (intro exI [of _ st'] conjI) (simp_all only: put_tab_put_tab)
    qed
  qed
qed

end

section \<open>Properties\<close>

text \<open>\<open>probe\<close> and \<open>rank\<close> are inverse: the rank of a slot is the number of probe steps from
  the key's home slot to it, so a probe sequence visits every slot of the bucket exactly once.\<close>
theorem probe_rank_inverse:
  assumes "unat cap < 2 ^ 40"
  shows "(s < cap \<longrightarrow> probe hk (rank hk s cap) cap = s \<and> rank hk s cap < cap) \<and>
    (i < cap \<longrightarrow> rank hk (probe hk i cap) cap = i \<and> probe hk i cap < cap)"
proof (intro conjI impI)
  assume s: "s < cap"
  let ?r = "dist (unat cap) (unat hk) (unat s)"
  have lt: "unat s < unat cap" "?r < unat cap"
    using s by (auto simp: word_less_nat_alt)
  have r: "unat (rank hk s cap) = ?r"
    using rank_dist [OF lt(1) assms, of hk] by simp
  then have rank: "rank hk s cap = of_nat ?r"
    by (metis unat_of_nat_cap lt(2) word_eq_unat)
  show "rank hk s cap < cap"
    using r lt(2) by (simp add: word_less_nat_alt)
  show "probe hk (rank hk s cap) cap = s"
    unfolding rank probe_slot_at [OF lt(2) assms] using lt(1) by simp
next
  assume i: "i < cap"
  let ?p = "slot_at (unat cap) (unat hk) (unat i)"
  have lt: "unat i < unat cap" "?p < unat cap"
    using i by (auto simp: word_less_nat_alt)
  have p: "probe hk i cap = of_nat ?p"
    using probe_slot_at [OF lt(1) assms, of hk] by simp
  show "probe hk i cap < cap"
    using lt(2) unat_of_nat_cap [OF lt(2)] by (simp add: p word_less_nat_alt)
  show "rank hk (probe hk i cap) cap = i"
    using rank_dist [OF lt(2) assms, of hk] lt(1) by (simp add: p word_eq_unat)
qed

theorem probe_rank_inverse_witness:
  "probe 1000 (rank 1000 5 256) 256 = 5 \<and> rank 1000 (probe 1000 200 256) 256 = 200"
  using probe_rank_inverse [of 256 5 1000 200] by (simp add: word_less_nat_alt)

end
