(* ===== verification/Shi_Rehash.thy ===== *)
theory Shi_Rehash
  imports Shi_Loops
begin

text \<open>
  Resizing and rehashing. \<open>resize_nat\<close> is \<open>compute_resize_capacity\<close> on natural numbers; the word
  loop agrees with it and terminates for the sizes a bucket can have. \<open>shi_rehash\<close> moves a
  bucket's entries to a table of another capacity or nonce and keeps what the bucket holds.
\<close>

section \<open>Resizing\<close>

function resize_nat :: "nat \<Rightarrow> nat \<Rightarrow> nat" where
  "resize_nat c n = (if 0 < c \<and> 80 * c < 100 * n then resize_nat (2 * c) n else c)"
  by pat_completeness auto

termination
  by (relation "measure (\<lambda>(c, n). 100 * n - 80 * c)") auto

declare resize_nat.simps [simp del]

lemma resize_nat_ge: "c \<le> resize_nat c n"
proof (induction c n rule: resize_nat.induct)
  case (1 c n)
  then show ?case
    by (subst resize_nat.simps) auto
qed

lemma resize_nat_load: "0 < c \<Longrightarrow> 100 * n \<le> 80 * resize_nat c n"
proof (induction c n rule: resize_nat.induct)
  case (1 c n)
  then show ?case
    by (subst resize_nat.simps) auto
qed

lemma resize_nat_same: "100 * n \<le> 80 * c \<Longrightarrow> resize_nat c n = c"
  by (subst resize_nat.simps) simp

lemma resize_nat_same_iff: "0 < c \<Longrightarrow> resize_nat c n = c \<longleftrightarrow> 100 * n \<le> 80 * c"
  using resize_nat_same resize_nat_load by metis

text \<open>Resizing for few entries first does not change the result of resizing for more.\<close>

lemma resize_nat_resize: "m \<le> n \<Longrightarrow> resize_nat (resize_nat c m) n = resize_nat c n"
proof (induction c m rule: resize_nat.induct)
  case (1 c m)
  show ?case
  proof (cases "0 < c \<and> 80 * c < 100 * m")
    case True
    then have "resize_nat c m = resize_nat (2 * c) m" "resize_nat c n = resize_nat (2 * c) n"
      using "1.prems" by (subst resize_nat.simps, simp)+
    then show ?thesis
      using "1.IH" [OF True "1.prems"] by simp
  next
    case False
    then have "resize_nat c m = c"
      by (subst resize_nat.simps) (simp only: if_False)
    then show ?thesis by simp
  qed
qed

lemma resize_nat_bound: "0 < c \<Longrightarrow> c < 2 ^ 40 \<Longrightarrow> n \<le> 2 ^ 38 \<Longrightarrow> resize_nat c n < 2 ^ 40"
proof (induction c n rule: resize_nat.induct)
  case (1 c n)
  then show ?case
    by (subst resize_nat.simps) (auto simp del: power_numeral, simp)
qed

lemma unat_mult_100:
  "unat (w :: u64) \<le> 2 ^ 40 \<Longrightarrow> unat (w * 100) = unat w * 100"
  "unat (w :: u64) \<le> 2 ^ 40 \<Longrightarrow> unat (w * 80) = unat w * 80"
  "unat (w :: u64) \<le> 2 ^ 40 \<Longrightarrow> unat (w * 2) = unat w * 2"
  by (subst unat_mult_small; simp)+

lemma resize_loop_nat:
  assumes "0 < unat cap" "unat cap < 2 ^ 40" "unat w \<le> 2 ^ 38"
  shows "resize_loop cap w = Some (of_nat (resize_nat (unat cap) (unat w)))"
  using assms
proof (induction "100 * unat w - 80 * unat cap" arbitrary: cap rule: less_induct)
  case less
  have cmp: "cap * get_bucket_resize_threshold < w * 100 \<longleftrightarrow> 80 * unat cap < 100 * unat w"
    using less.prems by (simp add: word_less_nat_alt get_bucket_resize_threshold_def
        BUCKET_RESIZE_LOAD_FACTOR_PCT_def unat_mult_100 mult.commute)
  show ?case
  proof (cases "80 * unat cap < 100 * unat w")
    case True
    have dbl: "unat (cap * BUCKET_RESIZE_MULTIPLIER) = 2 * unat cap"
      using less.prems by (simp add: BUCKET_RESIZE_MULTIPLIER_def unat_mult_100)
    have "resize_loop (cap * BUCKET_RESIZE_MULTIPLIER) w
        = Some (of_nat (resize_nat (unat (cap * BUCKET_RESIZE_MULTIPLIER)) (unat w)))"
      by (rule less.hyps) (use True less.prems dbl in auto)
    moreover have "resize_nat (unat cap) (unat w) = resize_nat (2 * unat cap) (unat w)"
      using True less.prems(1) by (subst resize_nat.simps) simp
    moreover have "resize_loop cap w = resize_loop (cap * BUCKET_RESIZE_MULTIPLIER) w"
      using True cmp by (subst resize_loop.simps) simp
    ultimately show ?thesis
      using dbl by simp
  next
    case False
    then have "resize_nat (unat cap) (unat w) = unat cap" "resize_loop cap w = Some cap"
      using cmp by (simp add: resize_nat_same, subst resize_loop.simps, simp)
    then show ?thesis by simp
  qed
qed

lemma unat_of_nat_40: "n < 2 ^ 40 \<Longrightarrow> unat (of_nat n :: u64) = n"
  by (simp add: unat_of_nat)

lemma compute_resize_capacity_nat:
  assumes "0 < unat cap" "unat cap < 2 ^ 40" "unat w \<le> 2 ^ 38"
  shows "compute_resize_capacity cap w = Ok (of_nat (resize_nat (unat cap) (unat w)))"
  using resize_loop_nat [OF assms] by (simp add: compute_resize_capacity_def)

text \<open>A bucket of capacity zero makes the loop run forever: doubling zero stays zero.\<close>

lemma resize_loop_zero: "resize_loop c w = Some y \<Longrightarrow> c = 0 \<longrightarrow> w * 100 = 0"
proof (rule resize_loop.raw_induct [rotated], assumption)
  fix f :: "u64 \<Rightarrow> u64 \<Rightarrow> u64 option" and c w y
  assume IH: "\<And>c w y. f c w = Some y \<Longrightarrow> c = 0 \<longrightarrow> w * 100 = 0"
    and eq: "(if c * get_bucket_resize_threshold < w * 100 then f (c * BUCKET_RESIZE_MULTIPLIER) w
        else Some c) = Some y"
  show "c = 0 \<longrightarrow> w * 100 = 0"
  proof
    assume c: "c = 0"
    show "w * 100 = 0"
    proof (rule ccontr)
      assume w: "w * 100 \<noteq> 0"
      then have "c * get_bucket_resize_threshold < w * 100"
        using c by (simp add: word_greater_zero_iff)
      then have "f (c * BUCKET_RESIZE_MULTIPLIER) w = Some y"
        using eq by simp
      then show False
        using IH [of "c * BUCKET_RESIZE_MULTIPLIER" w y] c w by simp
    qed
  qed
qed

lemma resize_from_zero: "w * 100 \<noteq> 0 \<Longrightarrow> resize_loop 0 w = None"
  using resize_loop_zero [of 0 w] by (cases "resize_loop 0 w") auto

section \<open>Buckets\<close>

definition sv_map :: "(bytes \<Rightarrow> salt_value option) \<Rightarrow> bool" where
  "sv_map M \<longleftrightarrow> (\<forall>p v. M p = Some v \<longrightarrow> sv_canon v)"

text \<open>Bucket \<open>b\<close> of the state is a well-formed table for the map \<open>M\<close>.\<close>

definition bucket_ok :: "salt_state \<Rightarrow> bucket_id \<Rightarrow> (bytes \<Rightarrow> salt_value option) \<Rightarrow> bool" where
  "bucket_ok V b M \<longleftrightarrow>
     (let m = meta_at V b; c = unat (capacity m); T = tab V b
      in 0 < c \<and> c < 2 ^ 40 \<and> (\<forall>s \<ge> c. T s = None) \<and>
         shi_ok plain_key (home (nonce m)) c T \<and> represents plain_key c T M \<and> sv_map M)"

lemma bucket_okD:
  assumes "bucket_ok V b M"
  shows "0 < unat (capacity (meta_at V b))" "unat (capacity (meta_at V b)) < 2 ^ 40"
    "unat (capacity (meta_at V b)) \<le> s \<Longrightarrow> tab V b s = None"
    "shi_ok plain_key (home (nonce (meta_at V b))) (unat (capacity (meta_at V b))) (tab V b)"
    "represents plain_key (unat (capacity (meta_at V b))) (tab V b) M" "sv_map M"
  using assms by (simp_all add: bucket_ok_def Let_def)

lemma bucket_ok_entry:
  assumes "bucket_ok V b M" "tab V b s = Some v"
  shows "M (plain_key v) = Some v" "sv_canon v" "sv_valid v" "s < unat (capacity (meta_at V b))"
proof -
  show s: "s < unat (capacity (meta_at V b))"
    using bucket_okD(3) [OF assms(1), of s] assms(2) by (cases "s < unat (capacity (meta_at V b))") auto
  show M: "M (plain_key v) = Some v"
    using represents_slot [OF bucket_okD(5) [OF assms(1)] assms(2) s] by simp
  show "sv_canon v"
    using bucket_okD(6) [OF assms(1)] M by (auto simp: sv_map_def)
  then show "sv_valid v"
    by (rule sv_canon_valid)
qed

lemma bucket_ok_valid:
  "bucket_ok V b M \<Longrightarrow> entries_valid (unat (capacity (meta_at V b))) (tab V b)"
  using bucket_ok_entry(3) by (auto simp: entries_valid_def)

lemma bucket_ok_card:
  assumes "bucket_ok V b M"
  shows "card (occupied (unat (capacity (meta_at V b))) (tab V b)) = card (dom M)"
  using card_dom_occupied [OF bucket_okD(4,5) [OF assms]] by simp

lemma bucket_ok_occ:
  assumes "bucket_ok V b M" "is_valid_data_bucket b"
  shows "occ V b = card (dom M)"
  using occ_put_tab [OF assms(2), of "unat (capacity (meta_at V b))" "tab V b" V]
    bucket_okD [OF assms(1)] bucket_ok_card [OF assms(1)] by simp

lemma bucket_ok_le: "bucket_ok V b M \<Longrightarrow> card (dom M) \<le> unat (capacity (meta_at V b))"
  using bucket_ok_card [of V b M] card_occupied_le by metis

section \<open>Collecting and rebuilding\<close>

definition no_state :: salt_state where
  "no_state = (\<lambda>_. None)"

text \<open>A map of slots that holds exactly the table \<open>T\<close> of bucket \<open>b\<close>.\<close>

definition slots_of :: "bucket_id \<Rightarrow> salt_value tab \<Rightarrow> (salt_key, salt_value) btree \<Rightarrow> bool" where
  "slots_of b T m \<longleftrightarrow> bt_ok m \<and> bt_get m = put_tab no_state b T"

lemma slots_of_get:
  "slots_of b T m \<Longrightarrow> is_valid_data_bucket b \<Longrightarrow> s < 2 ^ 40 \<Longrightarrow> bt_get m (slot_key b s) = T s"
  by (simp add: slots_of_def put_tab_slot)

lemma slots_of_Nil: "slots_of b (\<lambda>_. None) []"
  by (simp add: slots_of_def put_tab_def no_state_def fun_eq_iff)

lemma slots_of_insert:
  "slots_of b T m \<Longrightarrow> is_valid_data_bucket b \<Longrightarrow> s < 2 ^ 40 \<Longrightarrow>
     slots_of b (T(s \<mapsto> v)) (bt_insert (slot_key b s) v m)"
  by (simp add: slots_of_def put_tab_upd del: fun_upd_apply)

lemma slots_of_values:
  assumes "slots_of b T m" "is_valid_data_bucket b" "\<And>s. 2 ^ 40 \<le> s \<Longrightarrow> T s = None"
  shows "v \<in> set (map snd m) \<longleftrightarrow> (\<exists>s. T s = Some v)"
proof
  assume "v \<in> set (map snd m)"
  then obtain k where "(k, v) \<in> set m" by auto
  then have "bt_get m k = Some v"
    using bt_get_in [of m k v] assms(1) by (simp add: slots_of_def)
  then show "\<exists>s. T s = Some v"
    using assms(1) by (auto simp: slots_of_def put_tab_def no_state_def split: if_splits)
next
  assume "\<exists>s. T s = Some v"
  then obtain s where s: "T s = Some v" by blast
  then have "s < 2 ^ 40"
    using assms(3) [of s] by (cases "s < 2 ^ 40") auto
  then have "(slot_key b s, v) \<in> set m"
    using slots_of_get [OF assms(1,2)] s assms(1) by (simp add: slots_of_def bt_get_iff_in [symmetric])
  then show "v \<in> set (map snd m)"
    by force
qed

lemma slots_of_length:
  assumes "slots_of b T m" "is_valid_data_bucket b" "c \<le> 2 ^ 40" "\<And>s. c \<le> s \<Longrightarrow> T s = None"
  shows "length m = card (occupied c T)"
proof -
  have "set (map fst m) = dom (bt_get m)"
    by (rule set_keys_dom)
  also have "\<dots> = bucket_keys (put_tab no_state b T) b"
    using assms(1) by (auto simp: slots_of_def bucket_keys_def put_tab_def no_state_def split: if_splits)
  finally have "card (set (map fst m)) = occ (put_tab no_state b T) b"
    by (simp add: occ_def)
  moreover have "distinct (map fst m)"
    using assms(1) by (simp add: slots_of_def bt_ok_distinct)
  ultimately have "length m = occ (put_tab no_state b T) b"
    by (metis distinct_card length_map)
  then show ?thesis
    using occ_put_tab [OF assms(2,3)] assms(4) by simp
qed

context full_reader
begin

lemma collect_loop_at:
  assumes x: "ok x" and b: "is_valid_data_bucket b"
    and "eat x V R s" "i + n < 2 ^ 40" "slots_of b (\<lambda>s. if s < i then tab V b s else None) acc"
  shows "\<exists>m. runs (collect_loop b n (of_nat i) acc) s m (eat x V R) \<and>
    slots_of b (\<lambda>s. if s < i + n then tab V b s else None) m"
  using assms(3-5)
proof (induction n arbitrary: i s acc)
  case 0
  then show ?case by auto
next
  case (Suc n)
  have i: "i < 2 ^ 40"
    using Suc.prems(2) by linarith
  have rd: "runs (eph_value (slot_key b i)) s (tab V b i) (eat x V R)"
    using eph_value_at [OF x Suc.prems(1) slot_key_data [OF b i]] by (simp add: tab_slot [OF i])
  let ?acc = "case tab V b i of Some v \<Rightarrow> bt_insert (slot_key b i) v acc | None \<Rightarrow> acc"
  let ?T = "\<lambda>i s. if s < i then tab V b s else None"
  have "?T (Suc i) = (case tab V b i of Some v \<Rightarrow> (?T i)(i \<mapsto> v) | None \<Rightarrow> ?T i)"
    by (auto simp: fun_eq_iff less_Suc_eq split: option.splits)
  then have acc: "slots_of b (?T (Suc i)) ?acc"
    using slots_of_insert [OF Suc.prems(3) b i] Suc.prems(3) by (simp split: option.splits del: fun_upd_apply)
  have "\<exists>m. runs (collect_loop b n (of_nat (Suc i)) ?acc) s' m (eat x V R) \<and>
      slots_of b (?T (Suc i + n)) m" if "eat x V R s'" for s'
    by (rule Suc.IH [OF that _ acc]) (use Suc.prems(2) in simp)
  moreover obtain s1 where s1: "eph_value (slot_key b i) s = (Ok (tab V b i), s1)" "eat x V R s1"
    using rd by (auto simp: runs_def)
  ultimately obtain m where "runs (collect_loop b n (of_nat (Suc i)) ?acc) s1 m (eat x V R)"
      "slots_of b (?T (i + Suc n)) m"
    by auto
  moreover have "collect_loop b (Suc n) (of_nat i) acc s = collect_loop b n (of_nat (Suc i)) ?acc s1"
    using s1(1) by (simp add: slot_key_def [symmetric] bind_def Let_def add.commute)
  ultimately show ?case
    by (metis runs_def)
qed

end

lemma place_loop_slots:
  assumes "is_valid_data_bucket b" "unat cap < 2 ^ 40" "slots_of b T m" "i + n \<le> unat cap"
  shows "slots_of b (tab_place (unat cap) (unat hk) n i v T) (place_loop b hk cap v n (of_nat i) m)"
  using assms(4)
proof (induction n arbitrary: i)
  case 0
  then show ?case using assms(3) by simp
next
  case (Suc n)
  let ?p = "slot_at (unat cap) (unat hk) i"
  have p: "?p < 2 ^ 40"
    using Suc.prems assms(2) slot_at_less [of "unat cap" "unat hk" i] by linarith
  have key: "salt_key_from b (probe hk (of_nat i) cap) = slot_key b ?p"
    using Suc.prems assms(2) by (simp add: slot_key_def probe_slot_at)
  have get: "bt_get m (slot_key b ?p) = T ?p"
    by (rule slots_of_get [OF assms(3,1) p])
  have IH: "slots_of b (tab_place (unat cap) (unat hk) n (Suc i) v T)
      (place_loop b hk cap v n (of_nat i + 1) m)"
    using Suc.IH [of "Suc i"] Suc.prems by (simp add: add.commute)
  show ?case
    using IH slots_of_insert [OF assms(3,1) p, of v]
    by (simp add: key get Let_def split: option.splits del: fun_upd_apply)
qed

lemma rebuild_loop_slots:
  assumes b: "is_valid_data_bucket b" and c: "unat cap < 2 ^ 40"
    and "\<forall>(k, v) \<in> set pairs. kv_fits k v" "slots_of b T m"
  shows "\<exists>m'. rebuild_loop b nc cap pairs m = Ok m' \<and>
    slots_of b (fold (\<lambda>e T. tab_place (unat cap) (home nc (plain_key e)) (unat cap) 0 e T)
      (map (\<lambda>(k, v). sv_enc k v) pairs) T) m'"
  using assms(3,4)
proof (induction pairs arbitrary: T m)
  case Nil
  then show ?case by simp
next
  case (Cons y pairs)
  obtain k v where y: "y = (k, v)" by (cases y)
  have fit: "kv_fits k v" using Cons.prems(1) by (simp add: y)
  have "slots_of b (tab_place (unat cap) (home nc k) (unat cap) 0 (sv_enc k v) T)
      (place_loop b (hash_with_nonce k nc) cap (sv_enc k v) (unat cap) 0 m)"
    using place_loop_slots [OF b c Cons.prems(2), of 0 "unat cap" "hash_with_nonce k nc"]
    by (simp add: home_def)
  then show ?case
    using Cons.IH Cons.prems(1) fit by (simp add: y salt_value_new_ok)
qed

section \<open>Recording the changes\<close>

text \<open>The invariant without the slot counts, which do not hold while slots are rewritten.\<close>

definition pre_at ::
  "'e reader \<Rightarrow> salt_state \<Rightarrow> salt_state \<Rightarrow> salt_state \<Rightarrow> bucket_id set \<Rightarrow> (bucket_id, 64 word) btree \<Rightarrow>
     'e eph \<times> state_updates \<Rightarrow> bool"
where
  "pre_at rd B V0 V R D st \<longleftrightarrow> eph_pre rd B V R D (fst st) \<and>
     su_ok (snd st) \<and> chains_from (snd st) V0 \<and> apply_updates (snd st) V0 = V"

lemma st_at_pre:
  "st_at rd B V0 V R st \<longleftrightarrow> pre_at rd B V0 V R (usage_count_delta (fst st)) st \<and>
     counts_ok B V (usage_count_delta (fst st))"
  by (auto simp: st_at_def pre_at_def eph_at_pre)

lemma pre_at_D: "pre_at rd B V0 V R D st \<Longrightarrow> counts_ok B V D \<Longrightarrow> st_at rd B V0 V R st"
  unfolding st_at_pre by (simp add: pre_at_def eph_pre_def)

lemma pre_write:
  assumes "pre_at rd B V0 V R D (s, u)" "\<not> is_metadata_key k"
  shows "\<exists>u'. try_add k (V k) new u = (Ok (), u') \<and> pre_at rd B V0 (V(k := new)) R D (cache_insert k new s, u')"
proof -
  have u: "su_ok u" "chains_from u V0" "apply_updates u V0 = V"
    using assms(1) by (auto simp: pre_at_def eph_pre_def)
  obtain u' where u': "try_add k (V k) new u = (Ok (), u')" "chains_from u' V0"
      "apply_updates u' V0 = V(k := new)"
    using try_add_chains [OF u(2), of k "V k" new] u(3) by auto
  have "su_ok u'"
    by (rule try_add_su_ok [OF u'(1) u(1)])
  moreover have "view B (cache_insert k new s) = V(k := new)"
    using assms by (auto simp: view_def cur_insert norm_upd_data pre_at_def eph_pre_def)
  moreover have "metas_ok (cur B (cache_insert k new s))"
    unfolding cur_insert by (rule metas_ok_upd) (use assms in \<open>auto simp: pre_at_def eph_pre_def\<close>)
  ultimately show ?thesis
    using assms(1) u' by (auto simp: pre_at_def eph_pre_def)
qed

lemma pre_rewrite:
  assumes "pre_at rd B V0 V R D (s, u)" "\<not> is_metadata_key k"
  shows "pre_at rd B V0 V R D (cache_insert k (V k) s, u)"
proof -
  have "view B (cache_insert k (V k) s) = V"
    using assms by (auto simp: view_def cur_insert norm_upd_data pre_at_def eph_pre_def)
  moreover have "metas_ok (cur B (cache_insert k (V k) s))"
    unfolding cur_insert by (rule metas_ok_upd) (use assms in \<open>auto simp: pre_at_def eph_pre_def\<close>)
  ultimately show ?thesis
    using assms(1) by (auto simp: pre_at_def eph_pre_def)
qed

lemma record_loop_at:
  assumes b: "is_valid_data_bucket b"
    and old: "slots_of b T old" "\<And>s. unat c \<le> s \<Longrightarrow> T s = None"
    and new: "slots_of b T' new" "\<And>s. unat c' \<le> s \<Longrightarrow> T' s = None"
    and "pre_at rd B V0 (put_tab V b (\<lambda>s. if s < i then T' s else T s)) R D st" "i + n < 2 ^ 40"
  shows "runs (record_loop b c c' old new n (of_nat i)) st ()
    (pre_at rd B V0 (put_tab V b (\<lambda>s. if s < i + n then T' s else T s)) R D)"
  using assms(6,7)
proof (induction n arbitrary: i st)
  case 0
  then show ?case by simp
next
  case (Suc n)
  obtain s u where st: "st = (s, u)" by (cases st)
  let ?U = "\<lambda>i. put_tab V b (\<lambda>s. if s < i then T' s else T s)"
  let ?k = "slot_key b i"
  have i: "i < 2 ^ 40" "unat (of_nat i :: u64) = i"
    using Suc.prems(2) by (linarith, simp add: unat_of_nat_40)
  have key: "salt_key_from b (of_nat i) = ?k"
    by (simp add: slot_key_def)
  have data: "\<not> is_metadata_key ?k"
    by (rule slot_key_data [OF b i(1)])
  have Uk: "?U i ?k = T i"
    by (simp add: put_tab_slot [OF b i(1)])
  have vals: "(if of_nat i < c then bt_get old ?k else None) = T i"
      "(if of_nat i < c' then bt_get new ?k else None) = T' i"
    using slots_of_get [OF old(1) b i(1)] slots_of_get [OF new(1) b i(1)] old(2) new(2) i(2)
    by (auto simp: word_less_nat_alt)
  have next_U: "(?U i)(?k := T' i) = ?U (Suc i)"
    unfolding put_tab_upd [OF b i(1)] by (rule put_tab_cong) (auto simp: less_Suc_eq)
  have pre: "pre_at rd B V0 (?U i) R D (s, u)"
    using Suc.prems(1) by (simp add: st)
  have IH: "runs (record_loop b c c' old new n (of_nat i + 1)) st' () (pre_at rd B V0 (?U (i + Suc n)) R D)"
    if "pre_at rd B V0 (?U (Suc i)) R D st'" for st'
    using Suc.IH [OF that] Suc.prems(2) by (simp add: add.commute)
  have body: "record_loop b c c' old new (Suc n) (of_nat i) st =
      bind (\<lambda>(s, u). if T i \<noteq> T' i \<and> (T i \<noteq> None \<or> T' i \<noteq> None)
           then (case add ?k (T i) (T' i) u of (r, u') \<Rightarrow> (r, (s, u'))) else (Ok (), (s, u)))
         (\<lambda>_. record_loop b c c' old new n (of_nat i + 1))
         (if T i \<noteq> T' i \<or> of_nat i \<ge> c then cache_insert ?k (T' i) s else s, u)"
    by (simp only: st record_loop.simps prod.case Let_def key vals)
  show ?case
  proof (cases "T i = T' i")
    case True
    then have Uk': "?U i ?k = T' i"
      using Uk by (simp only:)
    have same: "?U (Suc i) = ?U i"
      using next_U unfolding Uk' [symmetric] fun_upd_triv by (rule sym)
    have "pre_at rd B V0 (?U i) R D (cache_insert ?k (T' i) s, u)"
      using pre_rewrite [OF pre data] by (simp only: Uk')
    then have "pre_at rd B V0 (?U (Suc i)) R D
        (if of_nat i \<ge> c then cache_insert ?k (T' i) s else s, u)"
      unfolding same using pre by (cases "of_nat i \<ge> c") (simp_all only: if_True if_False)
    moreover have "record_loop b c c' old new (Suc n) (of_nat i) st
        = record_loop b c c' old new n (of_nat i + 1)
            (if of_nat i \<ge> c then cache_insert ?k (T' i) s else s, u)"
      unfolding body bind_def using True by (simp split del: if_split)
    ultimately show ?thesis
      using IH by (simp only: runs_def)
  next
    case False
    obtain u' where u': "try_add ?k (T i) (T' i) u = (Ok (), u')"
        "pre_at rd B V0 (?U (Suc i)) R D (cache_insert ?k (T' i) s, u')"
      using pre_write [OF pre data, of "T' i"] unfolding Uk next_U by auto
    have "T i \<noteq> None \<or> T' i \<noteq> None"
      using False by auto
    with False have "record_loop b c c' old new (Suc n) (of_nat i) st
        = record_loop b c c' old new n (of_nat i + 1) (cache_insert ?k (T' i) s, u')"
      unfolding body bind_def by (simp add: add_eq [OF u'(1)])
    then show ?thesis
      using IH [OF u'(2)] by (simp only: runs_def)
  qed
qed

section \<open>Properties\<close>

text \<open>The resize rule: for a bucket of positive capacity \<open>compute_resize_capacity\<close> returns,
  and the result is the least doubling of the capacity that respects the load factor.\<close>
theorem resize_capacity_least:
  assumes "0 < unat cap" "unat cap < 2 ^ 40" "unat n \<le> 2 ^ 38"
  shows "\<exists>c k. compute_resize_capacity cap n = (Ok c :: (_, 'e) res) \<and> unat c = unat cap * 2 ^ k \<and>
    unat c < 2 ^ 40 \<and> 100 * unat n \<le> 80 * unat c \<and> (0 < k \<longrightarrow> 80 * (unat cap * 2 ^ (k - 1)) < 100 * unat n)"
proof -
  have least: "\<exists>k. resize_nat c n = c * 2 ^ k \<and> (0 < k \<longrightarrow> 80 * (c * 2 ^ (k - 1)) < 100 * n)" for c n :: nat
  proof (induction c n rule: resize_nat.induct)
    case (1 c n)
    show ?case
    proof (cases "0 < c \<and> 80 * c < 100 * n")
      case True
      then obtain k where k: "resize_nat (2 * c) n = 2 * c * 2 ^ k" "0 < k \<longrightarrow> 80 * (2 * c * 2 ^ (k - 1)) < 100 * n"
        using "1.IH" by blast
      have "resize_nat c n = c * 2 ^ Suc k"
        using True k(1) by (subst resize_nat.simps) simp
      moreover have "80 * (c * 2 ^ (Suc k - 1)) < 100 * n"
        using True k(2) by (cases k) auto
      ultimately show ?thesis by blast
    next
      case False
      then show ?thesis
        by (intro exI [of _ 0]) (subst resize_nat.simps, simp only: if_False, simp)
    qed
  qed
  let ?r = "resize_nat (unat cap) (unat n)"
  have r: "unat (of_nat ?r :: u64) = ?r" "?r < 2 ^ 40"
    using resize_nat_bound [OF assms] unat_of_nat_40 by blast+
  obtain k where k: "?r = unat cap * 2 ^ k" "0 < k \<longrightarrow> 80 * (unat cap * 2 ^ (k - 1)) < 100 * unat n"
    using least by blast
  show ?thesis
    using compute_resize_capacity_nat [OF assms, where 'a='e] resize_nat_load [OF assms(1), of "unat n"] r k
    by (intro exI [of _ "of_nat ?r :: u64"] exI [of _ k]) (simp only: simp_thms)
qed

theorem resize_capacity_least_witness:
  "\<exists>c k. compute_resize_capacity 256 206 = (Ok c :: (_, unit) res) \<and> unat c = 256 * 2 ^ k \<and> 100 * 206 \<le> 80 * unat c"
  using resize_capacity_least [of 256 206, where 'e=unit] by fastforce

text \<open>From capacity zero \<open>compute_resize_capacity\<close> returns only when the count, times 100 in 64 bits, is zero, as
  for an empty bucket; for every other count it does not return, because doubling zero stays zero.\<close>
theorem resize_from_zero_diverges:
  "compute_resize_capacity 0 n = (if n * 100 = 0 then Ok 0 else Diverge :: (_, 'e) res)"
  using resize_from_zero [of n] resize_loop.simps [of 0 n] by (simp add: compute_resize_capacity_def)

end
