(* ===== verification/Shi_Bucket.thy ===== *)
theory Shi_Bucket
  imports Shi_Rehash
begin

text \<open>
  The public bucket operations of the code as operations on the map a bucket stands for:
  \<open>shi_rehash\<close> keeps it, \<open>shi_upsert\<close> updates it (growing the bucket by the load factor),
  \<open>shi_delete\<close> removes a key, \<open>find_kv\<close> looks one up. Everything outside the bucket and its
  metadata entry stays as it was (\<open>frame\<close>).
\<close>

section \<open>The entries of a bucket, sorted\<close>

lemma map_of_unique:
  assumes "\<And>k w. (k, w) \<in> set xs \<longleftrightarrow> N k = Some w"
  shows "map_of xs k = N k"
proof (cases "map_of xs k")
  case None
  then have "\<not> (\<exists>w. (k, w) \<in> set xs)"
    by (force simp: map_of_eq_None_iff)
  then show ?thesis
    using None assms by (cases "N k") auto
next
  case (Some w)
  then show ?thesis
    using map_of_SomeD assms by metis
qed

definition canon_entries :: "salt_value list \<Rightarrow> (bytes \<Rightarrow> salt_value option) \<Rightarrow> bool" where
  "canon_entries es M \<longleftrightarrow> sorted_wrt (\<lambda>d e. plain_key e < plain_key d) es \<and>
     (\<forall>v. v \<in> set es \<longleftrightarrow> M (plain_key v) = Some v)"

lemma canon_entries_map:
  assumes "canon_entries es M" "\<And>p v. M p = Some v \<Longrightarrow> plain_key v = p"
  shows "map_of (map (\<lambda>e. (plain_key e, e)) (rev es)) = M"
proof (rule ext, rule map_of_unique)
  fix k w
  have "(k, w) \<in> set (map (\<lambda>e. (plain_key e, e)) (rev es)) \<longleftrightarrow> w \<in> set es \<and> k = plain_key w"
    by auto
  also have "\<dots> \<longleftrightarrow> M (plain_key w) = Some w \<and> k = plain_key w"
    using assms(1) by (simp only: canon_entries_def)
  also have "\<dots> \<longleftrightarrow> M k = Some w"
    using assms(2) by blast
  finally show "(k, w) \<in> set (map (\<lambda>e. (plain_key e, e)) (rev es)) \<longleftrightarrow> M k = Some w" .
qed

lemma canon_entries_length:
  assumes "canon_entries es M" "\<And>p v. M p = Some v \<Longrightarrow> plain_key v = p"
  shows "length es = card (dom M)"
proof -
  have "sorted_wrt (\<lambda>a b. b < a) (map plain_key es)"
    using assms(1) by (simp add: canon_entries_def sorted_wrt_map)
  then have "distinct (map plain_key es)"
    by (induction es) auto
  moreover have "set (map plain_key es) = dom M"
  proof (rule set_eqI)
    fix p
    have "p \<in> set (map plain_key es) \<longleftrightarrow> (\<exists>v. v \<in> set es \<and> p = plain_key v)"
      by auto
    also have "\<dots> \<longleftrightarrow> (\<exists>v. M (plain_key v) = Some v \<and> p = plain_key v)"
      using assms(1) by (simp only: canon_entries_def)
    also have "\<dots> \<longleftrightarrow> p \<in> dom M"
      using assms(2) by blast
    finally show "p \<in> set (map plain_key es) \<longleftrightarrow> p \<in> dom M" .
  qed
  ultimately show ?thesis
    by (metis distinct_card length_map)
qed

lemma sorted_pairs:
  assumes vals: "\<And>v. v \<in> set vs \<longleftrightarrow> M (plain_key v) = Some v"
    and M: "\<And>p v. M p = Some v \<Longrightarrow> plain_key v = p" "sv_map M"
  defines "P \<equiv> bt_collect (map (\<lambda>v. (plain_key v, plain_val v)) vs)"
  shows "\<forall>(k, w) \<in> set P. kv_fits k w"
    and "canon_entries (map (\<lambda>(k, w). sv_enc k w) (rev P)) M"
proof -
  have canon: "sv_canon v" if "M p = Some v" for p v
    using M(2) that by (auto simp: sv_map_def)
  let ?N = "\<lambda>k. map_option plain_val (M k)"
  have "bt_get P k = ?N k" for k
    unfolding P_def bt_get_collect
  proof (rule map_of_unique)
    fix k w
    have "(k, w) \<in> set (rev (map (\<lambda>v. (plain_key v, plain_val v)) vs))
        \<longleftrightarrow> (\<exists>v. v \<in> set vs \<and> k = plain_key v \<and> w = plain_val v)"
      by auto
    also have "\<dots> \<longleftrightarrow> (\<exists>v. M k = Some v \<and> w = plain_val v)"
      unfolding vals using M(1) by blast
    also have "\<dots> \<longleftrightarrow> ?N k = Some w"
      by auto
    finally show "(k, w) \<in> set (rev (map (\<lambda>v. (plain_key v, plain_val v)) vs)) \<longleftrightarrow> ?N k = Some w" .
  qed
  moreover have P: "bt_ok P"
    by (simp add: P_def)
  ultimately have inP: "(k, w) \<in> set P \<longleftrightarrow> (\<exists>v. M k = Some v \<and> w = plain_val v)" for k w
    using bt_get_iff_in [OF P, of k w] by auto
  then have enc: "sv_enc k w = v \<and> kv_fits k w" if "(k, w) \<in> set P" "M k = Some v" for k w v
    using that M(1) [of k v] canon [of k v] by (auto simp: sv_canon_def)
  show fits: "\<forall>(k, w) \<in> set P. kv_fits k w"
    using inP enc by blast
  have "sorted_wrt (\<lambda>x y. fst x < fst y) P"
    using P by (simp add: bt_ok_def sorted_wrt_map)
  then have "sorted_wrt (\<lambda>x y. fst y < fst x) (rev P)"
    by (simp add: sorted_wrt_rev)
  then have "sorted_wrt (\<lambda>x y. plain_key (sv_enc (fst y) (snd y)) < plain_key (sv_enc (fst x) (snd x))) (rev P)"
  proof (rule sorted_wrt_mono_rel [rotated])
    fix x y
    assume "x \<in> set (rev P)" "y \<in> set (rev P)" "fst y < fst x"
    moreover from this have "kv_fits (fst x) (snd x)" "kv_fits (fst y) (snd y)"
      using fits by auto
    ultimately show "plain_key (sv_enc (fst y) (snd y)) < plain_key (sv_enc (fst x) (snd x))"
      by simp
  qed
  then have srt: "sorted_wrt (\<lambda>d e. plain_key e < plain_key d) (map (\<lambda>(k, w). sv_enc k w) (rev P))"
    by (simp add: sorted_wrt_map case_prod_beta)
  have "v \<in> (\<lambda>(k, w). sv_enc k w) ` set P \<longleftrightarrow> M (plain_key v) = Some v" for v
  proof
    assume "v \<in> (\<lambda>(k, w). sv_enc k w) ` set P"
    then obtain k w where kw: "(k, w) \<in> set P" "v = sv_enc k w" by auto
    then obtain u where "M k = Some u" using inP by blast
    then show "M (plain_key v) = Some v"
      using enc [OF kw(1)] kw(2) M(1) by metis
  next
    assume v: "M (plain_key v) = Some v"
    then have "(plain_key v, plain_val v) \<in> set P"
      using inP by blast
    then show "v \<in> (\<lambda>(k, w). sv_enc k w) ` set P"
      using enc [OF _ v] by (force intro!: image_eqI)
  qed
  then show "canon_entries (map (\<lambda>(k, w). sv_enc k w) (rev P)) M"
    using srt by (simp add: canon_entries_def)
qed

section \<open>Framing\<close>

definition frame :: "bucket_id \<Rightarrow> salt_state \<Rightarrow> salt_state \<Rightarrow> bool" where
  "frame b V V' \<longleftrightarrow> (\<forall>k. key_bucket_id k \<noteq> b \<longrightarrow> k \<noteq> meta_key b \<longrightarrow> V' k = V k)"

lemma frame_refl [simp]: "frame b V V"
  by (simp add: frame_def)

lemma frame_trans: "frame b V V' \<Longrightarrow> frame b V' V'' \<Longrightarrow> frame b V V''"
  by (simp add: frame_def)

lemma frame_put_tab [simp]: "frame b V (put_tab V b T)"
  by (simp add: frame_def)

lemma frame_meta [simp]: "frame b V (V(meta_key b := x))"
  by (simp add: frame_def)

lemma frame_other:
  assumes "frame b V V'" "is_valid_data_bucket b" "is_valid_data_bucket b'" "b' \<noteq> b"
  shows "tab V' b' = tab V b'" "meta_at V' b' = meta_at V b'"
proof -
  have "V' (slot_key b' s) = V (slot_key b' s)" if "s < 2 ^ 40" for s
  proof -
    have "key_bucket_id (slot_key b' s) = b'" "\<not> is_metadata_key (slot_key b' s)"
      using slot_key_parts(1) [OF assms(3) that] slot_key_data [OF assms(3) that] by auto
    then have "key_bucket_id (slot_key b' s) \<noteq> b" "slot_key b' s \<noteq> meta_key b"
      using assms(4) is_metadata_key_meta [OF assms(2)] by auto
    then show ?thesis
      using assms(1) unfolding frame_def by blast
  qed
  then show "tab V' b' = tab V b'"
    by (auto simp: tab_def)
  have "key_bucket_id (meta_key b') \<noteq> b"
    using assms(2,3) data_bucket_not_meta is_metadata_key_meta by metis
  moreover have "meta_key b' \<noteq> meta_key b"
    using assms(2-4) meta_key_inj by blast
  ultimately show "meta_at V' b' = meta_at V b'"
    using assms(1) by (simp add: frame_def meta_at_def)
qed

lemma frame_bucket_ok:
  "frame b V V' \<Longrightarrow> is_valid_data_bucket b \<Longrightarrow> is_valid_data_bucket b' \<Longrightarrow> b' \<noteq> b \<Longrightarrow>
     bucket_ok V' b' M \<longleftrightarrow> bucket_ok V b' M"
  by (simp add: bucket_ok_def frame_other)

lemma tab_meta_upd:
  assumes "is_valid_data_bucket b" "is_valid_data_bucket b'"
  shows "tab (V(meta_key b := x)) b' = tab V b'"
proof -
  have "slot_key b' s \<noteq> meta_key b" if "s < 2 ^ 40" for s
    using slot_key_data [OF assms(2) that] is_metadata_key_meta [OF assms(1)] by auto
  then show ?thesis
    by (auto simp: tab_def fun_eq_iff)
qed

lemma meta_at_upd: "meta_at (V(meta_key b := Some (meta_sv m))) b = m\<lparr>used := None\<rparr>"
  by (simp add: meta_at_def)

text \<open>Two well-formed layouts of the same map under the same metadata are the same state.\<close>

lemma bucket_layout_unique:
  assumes "bucket_ok V b M" "bucket_ok V' b M" "meta_at V b = meta_at V' b"
  shows "tab V b = tab V' b"
proof
  fix s
  show "tab V b s = tab V' b s"
  proof (cases "s < unat (capacity (meta_at V b))")
    case True
    then show ?thesis
      using shi_layout_unique [OF bucket_okD(4) [OF assms(1)] _ bucket_okD(5) [OF assms(1)]]
        bucket_okD(4,5) [OF assms(2)] assms(3) by simp
  next
    case False
    then show ?thesis
      using bucket_okD(3) [OF assms(1)] bucket_okD(3) [OF assms(2)] assms(3) by simp
  qed
qed

section \<open>Rehashing\<close>

lemma record_all_at:
  assumes "is_valid_data_bucket b" "slots_of b T old" "\<And>s. unat c \<le> s \<Longrightarrow> T s = None"
    and "slots_of b T' new" "\<And>s. unat c' \<le> s \<Longrightarrow> T' s = None"
    and "pre_at rd B V0 (put_tab V b T) R D st" "n < 2 ^ 40"
  shows "runs (record_loop b c c' old new n 0) st ()
    (pre_at rd B V0 (put_tab V b (\<lambda>s. if s < n then T' s else T s)) R D)"
  using record_loop_at [of b T old c T' new c' rd B V0 V 0 R D st n] assms by simp

lemma bucket_ok_rebuilt:
  assumes b: "is_valid_data_bucket b" and es: "canon_entries es M"
    and M: "\<And>p v. M p = Some v \<Longrightarrow> plain_key v = p" "sv_map M"
    and c: "0 < unat c" "unat c < 2 ^ 40" "card (dom M) \<le> unat c"
  shows "bucket_ok ((put_tab V b (tab_rebuild plain_key (home nc) (unat c) es))
           (meta_key b := Some (meta_sv \<lparr>nonce = nc, capacity = c, used = u\<rparr>))) b M"
proof -
  let ?T = "tab_rebuild plain_key (home nc) (unat c) es"
  have out: "\<forall>s \<ge> unat c. ?T s = None"
    using tab_rebuild_outside [OF c(1)] by blast
  have tab: "tab ((put_tab V b ?T)(meta_key b := Some m)) b = ?T" for m
    using out c(2) by (auto simp: tab_meta_upd [OF b b] tab_put_tab [OF b] fun_eq_iff)
  have len: "length es \<le> unat c"
    using canon_entries_length [OF es M(1)] c(3) by simp
  have "sorted_wrt (\<lambda>d e. plain_key e < plain_key d) es"
    using es by (simp add: canon_entries_def)
  then have "shi_ok plain_key (home nc) (unat c) ?T" "represents plain_key (unat c) ?T M"
    using tab_rebuild_correct [OF c(1) len, of plain_key "home nc"] canon_entries_map [OF es M(1)]
    by auto
  then show ?thesis
    using c M(2) out by (simp add: bucket_ok_def Let_def tab meta_at_upd)
qed

lemma bucket_meta_eq: "meta_at V b = \<lparr>nonce = nonce (meta_at V b), capacity = capacity (meta_at V b), used = None\<rparr>"
  using meta_at_used [of V b] by (cases "meta_at V b") simp

context full_reader
begin

lemma rehash_collect:
  assumes x: "ok x" and b: "is_valid_data_bucket b" and V: "bucket_ok V b M" and st: "sat x V0 V R st"
  obtains m st1 where
    "on_fst (collect_loop b (unat (capacity (meta_at V b))) 0 []) st = (Ok m, st1)"
    "sat x V0 V R st1" "slots_of b (tab V b) m" "length m = card (dom M)"
    "(map_collect plain_kv (map snd m) :: (_, 'e) res) =
       Ok (map (\<lambda>v. (plain_key v, plain_val v)) (map snd m))"
    "\<And>v. v \<in> set (map snd m) \<longleftrightarrow> M (plain_key v) = Some v"
proof -
  let ?c = "unat (capacity (meta_at V b))"
  note ok = bucket_okD [OF V]
  have "(\<lambda>s. if s < (0 :: nat) then tab V b s else None) = (\<lambda>_. None)"
    by simp
  then have Nil: "slots_of b (\<lambda>s. if s < 0 then tab V b s else None) []"
    using slots_of_Nil by simp
  have T: "(\<lambda>s. if s < ?c then tab V b s else None) = tab V b"
    using ok(3) by (auto simp: fun_eq_iff)
  obtain s u where "st = (s, u)" by (cases st)
  then have "eat x V R s"
    using st by (simp add: st_at_def)
  then obtain m where m: "runs (collect_loop b ?c 0 []) s m (eat x V R)" "slots_of b (tab V b) m"
    using collect_loop_at [OF x b _ _ Nil, where n = ?c and R = R and s = s] ok(2) T by auto
  then obtain st1 where st1: "on_fst (collect_loop b ?c 0 []) st = (Ok m, st1)" "sat x V0 V R st1"
    using st \<open>st = (s, u)\<close> by (auto simp: runs_def on_fst_def st_at_def)
  have out: "\<And>s. 2 ^ 40 \<le> s \<Longrightarrow> tab V b s = None"
    by (rule tab_outside)
  have vals: "v \<in> set (map snd m) \<longleftrightarrow> M (plain_key v) = Some v" for v
  proof -
    have "v \<in> set (map snd m) \<longleftrightarrow> (\<exists>s. tab V b s = Some v)"
      by (rule slots_of_values [OF m(2) b out])
    also have "\<dots> \<longleftrightarrow> M (plain_key v) = Some v"
      using bucket_ok_entry(1) [OF V] ok(5) unfolding represents_def by blast
    finally show ?thesis .
  qed
  have len: "length m = card (dom M)"
    using slots_of_length [OF m(2) b, where c = ?c] ok(2,3) bucket_ok_card [OF V] by simp
  have "(map_collect plain_kv (map snd m) :: (_, 'e) res) =
      Ok (map (\<lambda>v. (plain_key v, plain_val v)) (map snd m))"
    by (rule map_collect_Ok) (use vals ok(6) sv_canon_valid in \<open>auto simp: plain_kv_def sv_map_def\<close>)
  then show thesis
    using that [OF st1 m(2) len _ vals] by blast
qed

lemma shi_rehash_at:
  assumes x: "ok x" and b: "is_valid_data_bucket b" and V: "bucket_ok V b M" and st: "sat x V0 V R st"
    and c: "0 < unat c" "unat c < 2 ^ 40" "card (dom M) \<le> unat c"
  shows "\<exists>V'. runs (shi_rehash b nc c) st () (sat x V0 V' (insert b R)) \<and>
    bucket_ok V' b M \<and> meta_at V' b = \<lparr>nonce = nc, capacity = c, used = None\<rparr> \<and> frame b V V'"
proof -
  let ?m = "meta_at V b" and ?T = "tab V b"
  let ?m1 = "?m\<lparr>used := Some (of_nat (occ V b))\<rparr>"
  note ok = bucket_okD [OF V]
  have M: "\<And>p v. M p = Some v \<Longrightarrow> plain_key v = p"
    by (rule represents_key [OF ok(5)])
  obtain st1 where st1: "on_fst (Ephemeral_State.metadata b True) st = (Ok ?m1, st1)" "sat x V0 V R st1"
    using runs_fst_st_at [OF metadata_at [OF x _ b, where need = True and V = V and R = R] st] by (auto simp: runs_def)
  obtain m st2 where m: "on_fst (collect_loop b (unat (capacity ?m)) 0 []) st1 = (Ok m, st2)"
      "sat x V0 V R st2" "slots_of b ?T m" "length m = card (dom M)"
      "(map_collect plain_kv (map snd m) :: (_, 'e) res) = Ok (map (\<lambda>v. (plain_key v, plain_val v)) (map snd m))"
      "\<And>v. v \<in> set (map snd m) \<longleftrightarrow> M (plain_key v) = Some v"
    using rehash_collect [OF x b V st1(2)] by blast
  let ?P = "bt_collect (map (\<lambda>v. (plain_key v, plain_val v)) (map snd m))"
  let ?es = "map (\<lambda>(k, w). sv_enc k w) (rev ?P)"
  have P: "\<forall>(k, w) \<in> set ?P. kv_fits k w" and es: "canon_entries ?es M"
    using sorted_pairs [OF m(6) M ok(6)] by simp_all
  let ?T' = "tab_rebuild plain_key (home nc) (unat c) ?es"
  obtain new where new: "(rebuild_loop b nc c (rev ?P) [] :: (_, 'e) res) = Ok new" "slots_of b ?T' new"
    using rebuild_loop_slots [OF b c(2) _ slots_of_Nil, of "rev ?P" nc] P
    by (auto simp: tab_rebuild_def)
  have out': "\<And>s. unat c \<le> s \<Longrightarrow> ?T' s = None"
    by (rule tab_rebuild_outside [OF c(1)])
  let ?n = "unat (max (capacity ?m) c)"
  have n: "?n < 2 ^ 40" "unat (capacity ?m) \<le> ?n" "unat c \<le> ?n"
    using ok(2) c(2) by (auto simp: max_def word_le_nat_alt)
  let ?D = "usage_count_delta (fst st2)"
  have pre0: "pre_at (reader_of x) (contents x) V0 (put_tab V b ?T) R ?D st2"
    using m(2) by (simp add: st_at_pre)
  have V1: "put_tab V b (\<lambda>s. if s < ?n then ?T' s else ?T s) = put_tab V b ?T'"
    by (rule put_tab_cong) (use n ok(3) out' in auto)
  obtain st3 where st3: "record_loop b (capacity ?m) c m new ?n 0 st2 = (Ok (), st3)"
      "pre_at (reader_of x) (contents x) V0 (put_tab V b ?T') R ?D st3"
    using record_all_at [OF b m(3) ok(3) new(2) out' pre0 n(1)] unfolding V1 runs_def by blast
  let ?V = "put_tab V b ?T'"
  let ?new = "?m1\<lparr>nonce := nc, capacity := c\<rparr>"
  have "bucket_ok (?V(meta_key b := Some (meta_sv \<lparr>nonce = nc, capacity = c, used = None\<rparr>))) b M"
    by (rule bucket_ok_rebuilt [OF b es M ok(6) c])
  moreover have newm: "meta_sv ?new = meta_sv \<lparr>nonce = nc, capacity = c, used = None\<rparr>"
    by (simp add: meta_sv_eq)
  ultimately have V2: "bucket_ok (?V(meta_key b := Some (meta_sv ?new))) b M"
    by simp
  have "occ (?V(meta_key b := Some (meta_sv ?new))) b = occ V b"
    using bucket_ok_occ [OF V2 b] bucket_ok_occ [OF V b] by simp
  moreover have mk: "key_bucket_id (meta_key b) \<noteq> b'" if "is_valid_data_bucket b'" for b'
    using that b data_bucket_not_meta is_metadata_key_meta by metis
  ultimately have "occ ?V b = occ V b"
    using b by simp
  moreover have "occ ?V b' = occ V b'" if "b' \<noteq> b" for b'
  proof -
    have "bucket_keys ?V b' = bucket_keys V b'"
      using that by (auto simp: bucket_keys_def)
    then show ?thesis by (simp add: occ_def)
  qed
  ultimately have "occ ?V b' = occ V b'" for b'
    by (cases "b' = b") simp_all
  moreover have "counts_ok (contents x) V ?D"
    using m(2) unfolding st_at_pre by (rule conjunct2)
  ultimately have "counts_ok (contents x) ?V ?D"
    by (simp only: counts_ok_def)
  then have st3': "sat x V0 ?V R st3"
    using pre_at_D [OF st3(2)] by blast
  have "norm V = V" "metas_ok V"
    using st_at_fst [OF st] eph_at_norm eph_at_metas_ok by metis+
  then have "V (meta_key b) = Some (meta_sv ?m1)"
    using norm_meta [of V b] b by simp
  then have Vm: "?V (meta_key b) = Some (meta_sv ?m1)"
    using put_tab_meta [OF b is_metadata_key_meta [OF b]] by simp
  obtain st4 where st4:
      "update_value (meta_key b) (Some (meta_sv ?m1)) (Some (meta_sv ?new)) st3 = (Ok (), st4)"
      "sat x V0 (?V(meta_key b := Some (meta_sv ?new))) R st4"
    using update_value_at [OF st3' Vm, of "Some (meta_sv ?new)"] unfolding runs_def by blast
  obtain s4 u4 where s4: "st4 = (s4, u4)" by (cases st4)
  have "runs (shi_rehash b nc c) st () (sat x V0 (?V(meta_key b := Some (meta_sv ?new))) (insert b R))"
  proof -
    have le: "c \<le> BUCKET_SLOT_ID_MASK"
      using c(2) by (simp add: word_le_nat_alt)
    have "\<not> c < of_nat (length m)"
      using c(2,3) m(4) by (simp add: word_less_nat_alt unat_of_nat_40)
    then have "shi_rehash b nc c st = mark_rehashed b st4"
      using le b st1(1) m(1,5) new(1) st3(1) st4(1)
      by (simp add: shi_rehash_def bind_def Let_def)
    moreover have "sat x V0 (?V(meta_key b := Some (meta_sv ?new))) (insert b R)
        (snd (mark_rehashed b st4))"
      using st4(2) by (simp add: s4 mark_rehashed_def st_at_def eph_at_def eph_inv_def view_def cur_def
          delta_of_def)
    ultimately show ?thesis
      by (simp add: runs_def mark_rehashed_def s4)
  qed
  moreover have "meta_at (?V(meta_key b := Some (meta_sv ?new))) b
      = \<lparr>nonce = nc, capacity = c, used = None\<rparr>"
    by (simp add: meta_at_upd)
  moreover have "frame b V (?V(meta_key b := Some (meta_sv ?new)))"
    by (rule frame_trans [OF frame_put_tab frame_meta])
  ultimately show ?thesis
    using V2 by blast
qed

end

section \<open>Inserting\<close>

definition upsert_cap :: "nat \<Rightarrow> (bytes \<Rightarrow> salt_value option) \<Rightarrow> bytes \<Rightarrow> nat" where
  "upsert_cap c M p = (if p \<in> dom M then c else resize_nat c (card (dom M) + 1))"

text \<open>\<open>V'\<close> has the map \<open>M'\<close> in bucket \<open>b\<close> at capacity \<open>c'\<close> and is otherwise \<open>V\<close>.\<close>

definition grown ::
  "bucket_id \<Rightarrow> salt_state \<Rightarrow> nat \<Rightarrow> (bytes \<Rightarrow> salt_value option) \<Rightarrow> salt_state \<Rightarrow> bool"
where
  "grown b V c' M' V' \<longleftrightarrow> bucket_ok V' b M' \<and> frame b V V' \<and> c' < 2 ^ 40 \<and>
     meta_at V' b = (meta_at V b)\<lparr>capacity := of_nat c'\<rparr>"

definition mark_if :: "bool \<Rightarrow> bucket_id \<Rightarrow> bucket_id set \<Rightarrow> bucket_id set" where
  "mark_if P b R = (if P then insert b R else R)"

lemma grown_trans:
  "grown b V c M V' \<Longrightarrow> grown b V' c' M' V'' \<Longrightarrow> grown b V c' M' V''"
  using frame_trans by (fastforce simp: grown_def)

lemma grown_bucket_ok: "grown b V c M V' \<Longrightarrow> bucket_ok V' b M"
  by (simp add: grown_def)

lemma grown_cap: "grown b V c M V' \<Longrightarrow> unat (capacity (meta_at V' b)) = c"
  by (simp add: grown_def unat_of_nat)

lemma grown_nonce: "grown b V c M V' \<Longrightarrow> nonce (meta_at V' b) = nonce (meta_at V b)"
  by (simp add: grown_def)

lemma grown_same:
  assumes "bucket_ok V b M" "is_valid_data_bucket b"
    and "shi_ok plain_key (home (nonce (meta_at V b))) (unat (capacity (meta_at V b))) T"
    and "represents plain_key (unat (capacity (meta_at V b))) T M'" "sv_map M'"
    and "\<And>s. unat (capacity (meta_at V b)) \<le> s \<Longrightarrow> T s = None"
  shows "grown b V (unat (capacity (meta_at V b))) M' (put_tab V b T)"
proof -
  note ok = bucket_okD [OF assms(1)]
  have "tab (put_tab V b T) b = T"
    using ok(2) assms(6) by (auto simp: tab_put_tab [OF assms(2)] fun_eq_iff)
  then show ?thesis
    using ok(1,2) assms by (auto simp: grown_def bucket_ok_def Let_def)
qed

lemma tab_upsert_outside: "0 < c \<Longrightarrow> c \<le> s \<Longrightarrow> ins_tab (tab_upsert key c h n i e T) s = T s"
proof (induction n arbitrary: i e T)
  case (Suc n)
  then have "s \<noteq> slot_at c h i"
    by (metis slot_at_less not_le)
  then show ?case
    using Suc by (auto simp: Let_def split: option.splits)
qed simp

lemma sv_map_upd: "sv_map M \<Longrightarrow> sv_canon v \<Longrightarrow> sv_map (M(p \<mapsto> v))"
  by (simp add: sv_map_def)

lemma sv_map_del: "sv_map M \<Longrightarrow> sv_map (M(p := None))"
  by (simp add: sv_map_def)

lemma threshold_nat:
  assumes "unat cap < 2 ^ 40" "n < 2 ^ 40"
  shows "cap * get_bucket_resize_threshold div 100 < of_nat n \<longleftrightarrow> 80 * unat cap < 100 * n"
proof -
  have "unat (cap * get_bucket_resize_threshold div 100) = unat cap * 80 div 100"
    using assms(1) by (simp add: get_bucket_resize_threshold_def BUCKET_RESIZE_LOAD_FACTOR_PCT_def
        unat_div unat_mult_100)
  then show ?thesis
    using assms(2) by (simp add: word_less_nat_alt unat_of_nat_40 div_less_iff_less_mult) linarith
qed

context full_reader
begin

lemma after_insert_at:
  assumes x: "ok x" and b: "is_valid_data_bucket b" and V: "bucket_ok V b M" and st: "sat x V0 V R st"
    and n: "card (dom M) \<le> 2 ^ 38"
  defines "c \<equiv> unat (capacity (meta_at V b))"
  defines "c' \<equiv> resize_nat c (card (dom M))"
  shows "\<exists>V'. runs (after_insert b (nonce (meta_at V b)) (capacity (meta_at V b))) st None
      (sat x V0 V' (mark_if (c' \<noteq> c) b R)) \<and> grown b V c' M V'"
proof -
  let ?m = "meta_at V b" and ?n = "card (dom M)"
  note ok = bucket_okD [OF V, folded c_def]
  have n40: "?n < 2 ^ 40" "unat (of_nat ?n :: u64) = ?n"
    using n by (simp_all add: unat_of_nat)
  have used: "usage_count b (fst st) = Ok (of_nat ?n)"
    using usage_count_at [OF x st_at_fst [OF st] b] bucket_ok_occ [OF V b] by simp
  have thr: "capacity ?m * get_bucket_resize_threshold div 100 < of_nat ?n \<longleftrightarrow> 80 * c < 100 * ?n"
    unfolding c_def by (rule threshold_nat) (use ok(2) c_def n40 in auto)
  show ?thesis
  proof (cases "80 * c < 100 * ?n")
    case True
    have c': "compute_resize_capacity (capacity ?m) (of_nat ?n) = Ok (of_nat c')"
      using compute_resize_capacity_nat [of "capacity ?m" "of_nat ?n"] ok(1,2) n n40(2)
      by (simp add: c_def c'_def)
    have bnd: "c' < 2 ^ 40" "c \<le> c'" "c' \<noteq> c"
      using resize_nat_bound [OF ok(1,2) n] resize_nat_ge [of c ?n] resize_nat_same_iff [OF ok(1), of ?n]
        True by (auto simp: c'_def)
    have "?n \<le> c'"
      using resize_nat_load [OF ok(1), of ?n] by (simp add: c'_def)
    then obtain V' where V': "runs (shi_rehash b (nonce ?m) (of_nat c')) st () (sat x V0 V' (insert b R))"
        "bucket_ok V' b M" "meta_at V' b = \<lparr>nonce = nonce ?m, capacity = of_nat c', used = None\<rparr>"
        "frame b V V'"
      using shi_rehash_at [OF x b V st, of "of_nat c'" "nonce ?m"] bnd ok(1) unat_of_nat_40 [OF bnd(1)]
      by auto
    have "meta_at V' b = ?m\<lparr>capacity := of_nat c'\<rparr>"
      using V'(3) meta_at_used [of V b] by (cases ?m) simp
    then have "grown b V c' M V'"
      using V' bnd by (simp add: grown_def)
    moreover have "runs (after_insert b (nonce ?m) (capacity ?m)) st None (sat x V0 V' (insert b R))"
    proof -
      have "after_insert b (nonce ?m) (capacity ?m) st
          = bind (shi_rehash b (nonce ?m) (of_nat c')) (\<lambda>_. ret None) st"
        using True thr by (simp add: after_insert_def used c')
      moreover have "runs (bind (shi_rehash b (nonce ?m) (of_nat c')) (\<lambda>_. ret None)) st
          (None :: salt_value option) (sat x V0 V' (insert b R))"
        by (rule runs_bind [OF V'(1)]) simp
      ultimately show ?thesis
        by (simp only: runs_def)
    qed
    ultimately show ?thesis
      using bnd(3) by (auto simp: mark_if_def)
  next
    case False
    then have "c' = c"
      by (simp add: c'_def resize_nat_same)
    moreover have "grown b V c M V"
      using V ok(2) by (simp add: grown_def c_def)
    moreover have "runs (after_insert b (nonce ?m) (capacity ?m)) st None (sat x V0 V R)"
      using False thr st by (simp add: after_insert_def used runs_def)
    ultimately show ?thesis
      by (auto simp: mark_if_def)
  qed
qed

text \<open>The case analysis of one pass of \<open>shi_upsert\<close>.\<close>

lemma upsert_once_eq:
  assumes x: "ok x" and b: "is_valid_data_bucket b" and V: "bucket_ok V b M" and st: "sat x V0 V R st"
    and fit: "kv_fits p v"
  defines "m \<equiv> meta_at V b"
  defines "c \<equiv> unat (capacity m)"
  defines "r \<equiv> tab_upsert plain_key c (home (nonce m) p) c 0 (sv_enc p v) (tab V b)"
  shows "\<exists>st'. sat x V0 (put_tab V b (ins_tab r)) R st' \<and>
    upsert_once b p v st =
      (case r of
         Replaced _ \<Rightarrow> (Ok None, st')
       | Fresh _ \<Rightarrow> bind (after_insert b (nonce m) (capacity m)) (\<lambda>_. ret None) st'
       | Full _ e \<Rightarrow>
           bind (lift_res (compute_resize_capacity (capacity m) (capacity m))) (\<lambda>c'.
           bind (shi_rehash b (nonce m) c') (\<lambda>_.
           bind (lift_res (plain_kv e)) (\<lambda>kv. ret (Some kv)))) st')"
proof -
  note ok = bucket_okD [OF V, folded m_def, folded c_def]
  obtain st1 where st1: "on_fst (direct_find p) st = (Ok None, st1)" "sat x V0 V R st1"
    using runs_fst_st_at [OF direct_find_at [OF x, where V = V and R = R and p = p] st]
    unfolding runs_def by blast
  obtain st2 where st2: "on_fst (Ephemeral_State.metadata b False) st1 = (Ok m, st2)" "sat x V0 V R st2"
    using runs_fst_st_at [OF metadata_False_at [OF x _ b, of V R] st1(2)]
    unfolding m_def runs_def by blast
  have val: "entries_valid (unat (capacity m)) (tab V b)"
    using bucket_ok_valid [OF V] by (simp add: m_def)
  have c40: "unat (capacity m) < 2 ^ 40"
    using ok(2) by (simp add: c_def)
  obtain st' where st': "sat x V0 (put_tab V b (ins_tab r)) R st'"
      "upsert_loop b (nonce m) (capacity m) (hash_with_nonce p (nonce m)) c 0 (sv_enc p v) st2 =
        (case r of Replaced _ \<Rightarrow> (Ok None, st') | Fresh _ \<Rightarrow> after_insert b (nonce m) (capacity m) st'
         | Full _ e' \<Rightarrow> (Ok (Some e'), st'))"
    using upsert_loop_at [OF x b c40 val sv_valid_enc [OF fit] st2(2),
        where i = 0 and n = c and hk = "hash_with_nonce p (nonce m)" and nc = "nonce m"]
    by (auto simp: r_def c_def home_def)
  have none: "(case y of None \<Rightarrow> ret None
      | Some z \<Rightarrow> bind (lift_res (compute_resize_capacity (capacity m) (capacity m))) (\<lambda>c'.
         bind (shi_rehash b (nonce m) c') (\<lambda>_. bind (lift_res (plain_kv z)) (\<lambda>kv. ret (Some kv)))))
      = ret None" if "y = (None :: salt_value option)" for y
    using that by simp
  have "upsert_once b p v st = bind (upsert_loop b (nonce m) (capacity m)
      (hash_with_nonce p (nonce m)) c 0 (sv_enc p v)) (\<lambda>r. case r of None \<Rightarrow> ret None
      | Some z \<Rightarrow> bind (lift_res (compute_resize_capacity (capacity m) (capacity m))) (\<lambda>c'.
         bind (shi_rehash b (nonce m) c') (\<lambda>_. bind (lift_res (plain_kv z)) (\<lambda>kv. ret (Some kv))))) st2"
    using st1(1) st2(1) fit
    by (simp add: upsert_once_def salt_value_new_ok if_ok_some_def bind_def c_def)
  also have "\<dots> = (case r of
         Replaced _ \<Rightarrow> (Ok None, st')
       | Fresh _ \<Rightarrow> bind (after_insert b (nonce m) (capacity m)) (\<lambda>_. ret None) st'
       | Full _ e \<Rightarrow>
           bind (lift_res (compute_resize_capacity (capacity m) (capacity m))) (\<lambda>c'.
           bind (shi_rehash b (nonce m) c') (\<lambda>_.
           bind (lift_res (plain_kv e)) (\<lambda>kv. ret (Some kv)))) st')"
  proof (cases r)
    case (Fresh T)
    have "fst (after_insert b (nonce m) (capacity m) st') = Ok y \<Longrightarrow> y = None" for y
      by (auto simp: after_insert_def bind_def split: res.splits if_splits prod.splits)
    then show ?thesis
      using st'(2) Fresh
      by (cases "after_insert b (nonce m) (capacity m) st'")
         (auto simp: bind_def split: res.splits option.splits)
  qed (use st'(2) in \<open>simp_all add: bind_def\<close>)
  finally show ?thesis
    using st'(1) by blast
qed

lemma upsert_once_Some:
  assumes x: "ok x" and b: "is_valid_data_bucket b" and V: "bucket_ok V b M" and st: "sat x V0 V R st"
    and fit: "kv_fits p v" and n: "card (dom M) < 2 ^ 38"
  defines "c \<equiv> unat (capacity (meta_at V b))"
  shows "(\<exists>V'. runs (upsert_once b p v) st None (sat x V0 V' (mark_if (upsert_cap c M p \<noteq> c) b R)) \<and>
      grown b V (upsert_cap c M p) (M(p \<mapsto> sv_enc p v)) V') \<or>
    (card (dom M) = c \<and> p \<notin> dom M \<and>
     (\<exists>V' M' e. runs (upsert_once b p v) st (Some (plain_key e, plain_val e)) (sat x V0 V' (insert b R)) \<and>
        grown b V (resize_nat c c) M' V' \<and> plain_key e \<notin> dom M' \<and> sv_canon e \<and>
        card (dom M') = c \<and> M'(plain_key e \<mapsto> e) = M(p \<mapsto> sv_enc p v)))"
proof -
  let ?m = "meta_at V b" and ?e = "sv_enc p v"
  let ?r = "tab_upsert plain_key c (home (nonce ?m) p) c 0 ?e (tab V b)"
  note ok = bucket_okD [OF V, folded c_def]
  have pk: "plain_key ?e = p" and ce: "sv_canon ?e"
    using fit by simp_all
  have post: "upsert_post plain_key (home (nonce ?m)) c ?e (tab V b) M ?r"
    using tab_upsert_correct [OF ok(4,5,1), of ?e] by (simp add: pk)
  have out: "\<And>s. c \<le> s \<Longrightarrow> ins_tab ?r s = None"
    by (simp only: tab_upsert_outside [OF ok(1)] ok(3))
  obtain st' where st': "sat x V0 (put_tab V b (ins_tab ?r)) R st'"
      "upsert_once b p v st =
      (case ?r of
         Replaced _ \<Rightarrow> (Ok None, st')
       | Fresh _ \<Rightarrow> bind (after_insert b (nonce ?m) (capacity ?m)) (\<lambda>_. ret None) st'
       | Full _ e \<Rightarrow>
           bind (lift_res (compute_resize_capacity (capacity ?m) (capacity ?m))) (\<lambda>c'.
           bind (shi_rehash b (nonce ?m) c') (\<lambda>_.
           bind (lift_res (plain_kv e)) (\<lambda>kv. ret (Some kv)))) st')"
    using upsert_once_eq [OF x b V st fit, folded c_def] by blast
  have same: "grown b V c M' (put_tab V b (ins_tab ?r))"
    if "shi_ok plain_key (home (nonce ?m)) c (ins_tab ?r)" "represents plain_key c (ins_tab ?r) M'"
      "sv_map M'" for M'
    using grown_same [OF V b, folded c_def, OF that out] by simp
  have fin: "finite (dom M)"
    using represents_finite_dom [OF ok(5)] .
  show ?thesis
  proof (cases ?r)
    case (Fresh T)
    then have pM: "p \<notin> dom M" and g: "grown b V c (M(p \<mapsto> ?e)) (put_tab V b T)"
      using post same [of "M(p \<mapsto> ?e)"] sv_map_upd [OF ok(6) ce, of p] by (auto simp: upsert_post_def pk)
    have card: "card (dom (M(p \<mapsto> ?e))) = card (dom M) + 1"
      using pM fin by simp
    let ?V1 = "put_tab V b T" and ?c' = "upsert_cap c M p"
    have m1: "meta_at ?V1 b = ?m" and c1: "unat (capacity (meta_at ?V1 b)) = c"
      using b by (simp_all add: c_def)
    have c': "resize_nat c (card (dom (M(p \<mapsto> ?e)))) = ?c'"
      using pM card by (simp add: upsert_cap_def)
    have st1: "sat x V0 ?V1 R st'"
      using st'(1) Fresh by simp
    obtain V' where V': "runs (after_insert b (nonce ?m) (capacity ?m)) st' None
          (sat x V0 V' (mark_if (?c' \<noteq> c) b R))"
        "grown b ?V1 ?c' (M(p \<mapsto> ?e)) V'"
      using after_insert_at [OF x b grown_bucket_ok [OF g] st1] card n unfolding m1 c_def [symmetric] c'
      by auto
    have "runs (bind (after_insert b (nonce ?m) (capacity ?m)) (\<lambda>_. ret None)) st'
        (None :: (bytes \<times> bytes) option) (sat x V0 V' (mark_if (?c' \<noteq> c) b R))"
      by (rule runs_bind [OF V'(1)]) simp
    then have "runs (upsert_once b p v) st None (sat x V0 V' (mark_if (?c' \<noteq> c) b R))"
      using st'(2) Fresh by (simp add: runs_def)
    then show ?thesis
      using grown_trans [OF g V'(2)] by blast
  next
    case (Replaced T)
    then have pM: "p \<in> dom M" and g: "grown b V c (M(p \<mapsto> ?e)) (put_tab V b T)"
      using post same [of "M(p \<mapsto> ?e)"] sv_map_upd [OF ok(6) ce, of p] by (auto simp: upsert_post_def pk)
    then have "upsert_cap c M p = c"
      by (simp add: upsert_cap_def)
    moreover have "runs (upsert_once b p v) st None (sat x V0 (put_tab V b T) R)"
      using st' Replaced by (simp add: runs_def)
    ultimately show ?thesis
      using g by (auto simp: mark_if_def)
  next
    case (Full T e)
    obtain M' where M': "represents plain_key c T M'" "plain_key e \<notin> dom M'"
        "M'(plain_key e \<mapsto> e) = M(p \<mapsto> ?e)"
      and pM: "p \<notin> dom M" and okT: "shi_ok plain_key (home (nonce ?m)) c T"
      and occ: "occupied c T = {..<c}" "occupied c (tab V b) = {..<c}"
      using post Full by (auto simp: upsert_post_def pk)
    have upd: "sv_map (M'(plain_key e \<mapsto> e))"
      unfolding M'(3) by (rule sv_map_upd [OF ok(6) ce])
    moreover have "(M'(plain_key e \<mapsto> e)) (plain_key e) = Some e"
      by simp
    ultimately have ce': "sv_canon e"
      unfolding sv_map_def by blast
    have svM': "sv_map M'"
      unfolding sv_map_def
    proof (intro allI impI)
      fix q w assume "M' q = Some w"
      then have "(M'(plain_key e \<mapsto> e)) q = Some w"
        using M'(2) by auto
      then show "sv_canon w"
        using upd unfolding sv_map_def by blast
    qed
    have g: "grown b V c M' (put_tab V b T)"
      using same [of M'] okT M'(1) svM' Full by simp
    let ?V1 = "put_tab V b T" and ?c1 = "resize_nat c c"
    have st1: "sat x V0 ?V1 R st'"
      using st'(1) Full by simp
    have card: "card (dom M) = c" "card (dom M') = c"
      using bucket_ok_card [OF V, folded c_def] card_dom_occupied [OF okT M'(1)] occ by auto
    have c1: "?c1 < 2 ^ 40" "c \<le> ?c1"
      using resize_nat_bound [OF ok(1,2), of c] resize_nat_ge n card(1) by auto
    have comp: "(compute_resize_capacity (capacity ?m) (capacity ?m) :: (u64, 'e) res) = Ok (of_nat ?c1)"
      using compute_resize_capacity_nat [of "capacity ?m" "capacity ?m"] ok(1,2) n card(1)
      by (simp add: c_def)
    obtain V' where V': "runs (shi_rehash b (nonce ?m) (of_nat ?c1)) st' () (sat x V0 V' (insert b R))"
        "bucket_ok V' b M'" "meta_at V' b = \<lparr>nonce = nonce ?m, capacity = of_nat ?c1, used = None\<rparr>"
        "frame b ?V1 V'"
      using shi_rehash_at [OF x b grown_bucket_ok [OF g] st1, of "of_nat ?c1" "nonce ?m"] c1 ok(1)
        card(2) unat_of_nat_40 [OF c1(1)] by auto
    have "meta_at V' b = ?m\<lparr>capacity := of_nat ?c1\<rparr>"
      using V'(3) meta_at_used [of V b] by (cases ?m) simp
    then have g': "grown b V ?c1 M' V'"
      using V' c1(1) frame_trans [OF frame_put_tab V'(4)] by (simp add: grown_def)
    have "runs (bind (shi_rehash b (nonce ?m) (of_nat ?c1)) (\<lambda>_.
        bind (lift_res (plain_kv e)) (\<lambda>kv. ret (Some kv)))) st'
        (Some (plain_key e, plain_val e)) (sat x V0 V' (insert b R))"
      by (rule runs_bind [OF V'(1)]) (use sv_canon_valid [OF ce'] in \<open>simp add: plain_kv_def\<close>)
    then have "runs (upsert_once b p v) st (Some (plain_key e, plain_val e)) (sat x V0 V' (insert b R))"
      using st'(2) Full comp by (simp add: runs_def)
    then show ?thesis
      using g' M' pM card ce' by blast
  qed
qed

end

end
