(* ===== verification/State_Spec.thy ===== *)
theory State_Spec
  imports Shi_Bucket
begin

text \<open>
  What the public methods of \<open>EphemeralSaltState\<close> do to the key-value map a state stands for.
  \<open>bucket_*\<close> lemmas are about one bucket; \<open>state_ok V kv\<close> says that a whole state \<open>V\<close> is a
  well-formed layout of the map \<open>kv\<close> from plain keys to plain values.
\<close>

section \<open>One bucket\<close>

context full_reader
begin

lemma shi_upsert_at:
  assumes x: "ok x" and b: "is_valid_data_bucket b" and V: "bucket_ok V b M" and st: "sat x V0 V R st"
    and fit: "kv_fits p v" and n: "card (dom M) < 2 ^ 38"
  defines "c \<equiv> unat (capacity (meta_at V b))"
  shows "\<exists>V'. runs (shi_upsert b p v) st () (sat x V0 V' (mark_if (upsert_cap c M p \<noteq> c) b R)) \<and>
    grown b V (upsert_cap c M p) (M(p \<mapsto> sv_enc p v)) V'"
proof -
  have ret_case: "runs (shi_upsert b p v) st () P"
    if "runs (upsert_once b p v) st None P" for P
    using that by (auto simp: runs_def shi_upsert_def upsert_rec.simps [of b p v st])
  from upsert_once_Some [OF x b V st fit n, folded c_def]
  show ?thesis
  proof (elim disjE exE conjE)
    fix V'
    assume "runs (upsert_once b p v) st None (sat x V0 V' (mark_if (upsert_cap c M p \<noteq> c) b R))"
      and "grown b V (upsert_cap c M p) (M(p \<mapsto> sv_enc p v)) V'"
    then show ?thesis
      using ret_case by blast
  next
    fix V1 M1 e
    assume once: "runs (upsert_once b p v) st (Some (plain_key e, plain_val e)) (sat x V0 V1 (insert b R))"
      and g1: "grown b V (resize_nat c c) M1 V1" and e: "plain_key e \<notin> dom M1" "sv_canon e"
      and c: "card (dom M) = c" "p \<notin> dom M" "card (dom M1) = c"
      and M1: "M1(plain_key e \<mapsto> e) = M(p \<mapsto> sv_enc p v)"
    note ok = bucket_okD [OF V, folded c_def]
    let ?c1 = "resize_nat c c"
    obtain st1 where st1: "upsert_once b p v st = (Ok (Some (plain_key e, plain_val e)), st1)"
        "sat x V0 V1 (insert b R) st1"
      using once unfolding runs_def by blast
    have cap1: "unat (capacity (meta_at V1 b)) = ?c1"
      by (rule grown_cap [OF g1])
    have fit1: "kv_fits (plain_key e) (plain_val e)" and enc1: "sv_enc (plain_key e) (plain_val e) = e"
      using e(2) by (auto simp: sv_canon_def)
    have "100 * c \<le> 80 * ?c1"
      by (rule resize_nat_load [OF ok(1)])
    then have lt: "c < ?c1"
      using ok(1) by linarith
    have cap': "upsert_cap ?c1 M1 (plain_key e) = upsert_cap c M p"
      using e(1) c resize_nat_resize [of c "c + 1" c] by (simp add: upsert_cap_def)
    have n1: "card (dom M1) < 2 ^ 38"
      using n c by simp
    have ne: "card (dom M1) \<noteq> ?c1"
      using lt c(3) by simp
    obtain V2 where V2: "runs (upsert_once b (plain_key e) (plain_val e)) st1 None
          (sat x V0 V2 (mark_if (upsert_cap ?c1 M1 (plain_key e) \<noteq> ?c1) b (insert b R)))"
        "grown b V1 (upsert_cap ?c1 M1 (plain_key e)) (M1(plain_key e \<mapsto> e)) V2"
      using upsert_once_Some [OF x b grown_bucket_ok [OF g1] st1(2) fit1 n1] ne
      unfolding cap1 enc1 by blast
    have "mark_if (upsert_cap ?c1 M1 (plain_key e) \<noteq> ?c1) b (insert b R) = insert b R"
      by (simp add: mark_if_def)
    moreover have "mark_if (upsert_cap c M p \<noteq> c) b R = insert b R"
      using lt resize_nat_ge [of ?c1 "c + 1"] resize_nat_resize [of c "c + 1" c] c
      by (simp add: mark_if_def upsert_cap_def)
    ultimately have "runs (upsert_once b (plain_key e) (plain_val e)) st1 None
        (sat x V0 V2 (mark_if (upsert_cap c M p \<noteq> c) b R))"
      using V2(1) by simp
    then have "runs (shi_upsert b p v) st () (sat x V0 V2 (mark_if (upsert_cap c M p \<noteq> c) b R))"
      using st1(1) by (auto simp: runs_def shi_upsert_def upsert_rec.simps [of b p v st]
          upsert_rec.simps [of b "plain_key e" "plain_val e" st1])
    moreover have "grown b V (upsert_cap c M p) (M(p \<mapsto> sv_enc p v)) V2"
      using grown_trans [OF g1 V2(2)] unfolding cap' M1 .
    ultimately show ?thesis
      by blast
  qed
qed

lemma shi_delete_at:
  assumes x: "ok x" and b: "is_valid_data_bucket b" and V: "bucket_ok V b M" and st: "sat x V0 V R st"
  defines "c \<equiv> unat (capacity (meta_at V b))"
  shows "\<exists>V'. runs (shi_delete b p) st () (sat x V0 V' R) \<and> grown b V c (M(p := None)) V'"
proof -
  let ?m = "meta_at V b" and ?T = "tab V b"
  let ?h = "home (nonce ?m)"
  note ok = bucket_okD [OF V, folded c_def]
  obtain st1 where st1: "on_fst (Ephemeral_State.metadata b False) st = (Ok ?m, st1)" "sat x V0 V R st1"
    using runs_fst_st_at [OF metadata_False_at [OF x _ b, of V R] st] unfolding runs_def by blast
  have c40: "unat (capacity ?m) < 2 ^ 40"
    using ok(2) by (simp add: c_def)
  have val: "entries_valid (unat (capacity ?m)) ?T"
    by (rule bucket_ok_valid [OF V])
  let ?f = "tab_find plain_key c (?h p) ?T p c 0"
  obtain st2 where st2: "on_fst (shi_find b (nonce ?m) (capacity ?m) p) st1
        = (Ok (map_option (\<lambda>(s, e). (of_nat s, e)) ?f), st2)" "sat x V0 V R st2"
    using runs_fst_st_at [OF shi_find_at [OF x b c40 val, of R _ "nonce ?m" p] st1(2)]
    unfolding runs_def c_def by blast
  have del: "shi_ok plain_key ?h c (tab_delete plain_key ?h c ?T p)"
      "represents plain_key c (tab_delete plain_key ?h c ?T p) (M(p := None))"
    using tab_delete_correct [OF ok(4,5,1)] by auto
  show ?thesis
  proof (cases ?f)
    case None
    then have T: "tab_delete plain_key ?h c ?T p = ?T"
      by (simp add: tab_delete_def)
    have "grown b V c (M(p := None)) (put_tab V b ?T)"
      by (rule grown_same [OF V b, folded c_def, OF del [unfolded T] sv_map_del [OF ok(6)] ok(3)])
    moreover have "runs (shi_delete b p) st () (sat x V0 V R)"
      using st1(1) st2 None by (simp add: shi_delete_def bind_def runs_def)
    ultimately show ?thesis
      by auto
  next
    case (Some y)
    obtain s e where y: "y = (s, e)" by (cases y)
    have se: "s < c" "?T s = Some e"
      using tab_find_Some [OF Some [unfolded y] ok(1)] by auto
    obtain st' where st': "delete_loop b (nonce ?m) (capacity ?m) (of_nat s) e st2 = Some (Ok (), st')"
        "sat x V0 (put_tab V b (tab_delete_loop plain_key ?h c ?T s)) R st'"
      using delete_loop_at [OF x b c40 val _ se(2) st2(2), of "nonce ?m"] se(1) unfolding c_def by blast
    have T: "tab_delete plain_key ?h c ?T p = tab_delete_loop plain_key ?h c ?T s"
      using Some y by (simp add: tab_delete_def)
    have out: "tab_delete_loop plain_key ?h c ?T s s' = None" if "c \<le> s'" for s'
      using tab_delete_loop_outside [OF se(1) that] ok(3) [OF that] by metis
    have "grown b V c (M(p := None)) (put_tab V b (tab_delete_loop plain_key ?h c ?T s))"
      by (rule grown_same [OF V b, folded c_def, OF del [unfolded T] sv_map_del [OF ok(6)] out])
    moreover have "runs (shi_delete b p) st () (sat x V0 (put_tab V b (tab_delete_loop plain_key ?h c ?T s)) R)"
      using st1(1) st2(1) st' Some y by (simp add: shi_delete_def bind_def runs_def)
    ultimately show ?thesis
      by blast
  qed
qed

lemma find_kv_at:
  assumes x: "ok x" and V: "bucket_ok V (bucket_id p) M" and at: "eat x V R s"
  shows "\<exists>r. runs (find_kv p) s r (eat x V R) \<and> map_option snd r = M p"
proof -
  let ?b = "bucket_id p"
  let ?m = "meta_at V ?b"
  let ?c = "unat (capacity ?m)"
  note ok = bucket_okD [OF V]
  let ?f = "tab_find plain_key ?c (home (nonce ?m) p) (tab V ?b) p ?c 0"
  let ?r = "map_option (\<lambda>(s, e). (salt_key_from ?b (of_nat s), e)) ?f"
  have look: "runs (shi_find ?b (nonce ?m) (capacity ?m) p) s'
      (map_option (\<lambda>(s, e). (of_nat s, e)) ?f) (eat x V R)" if "eat x V R s'" for s'
    by (rule shi_find_at [OF x _ ok(2) bucket_ok_valid [OF V] that]) simp
  have "runs (find_kv p) s ?r (eat x V R)"
    unfolding find_kv_def Let_def
  proof (rule runs_if_ok_some_None [OF direct_find_at [OF x at]], rule runs_bind [OF metadata_False_at [OF x]])
    fix s' s1
    assume "eat x V R s1"
    show "runs (bind (shi_find ?b (nonce ?m) (capacity ?m) p) (\<lambda>r. case r of
        Some (slot, salt_val) \<Rightarrow> ret (Some (salt_key_from ?b slot, salt_val))
      | None \<Rightarrow> ret None)) s1 ?r (eat x V R)"
      by (rule runs_bind [OF look [OF \<open>eat x V R s1\<close>]]) (auto split: option.splits)
  qed simp_all
  moreover have "map_option snd ?r = M p"
    using tab_find_lookup [OF ok(4,5,1), of p] by (cases ?f) auto
  ultimately show ?thesis
    by blast
qed

lemma plain_value_at:
  assumes x: "ok x" and V: "bucket_ok V (bucket_id p) M" and at: "eat x V R s"
  shows "runs (plain_value p) s (map_option plain_val (M p)) (eat x V R)"
proof -
  obtain r where r: "runs (find_kv p) s r (eat x V R)" "map_option snd r = M p"
    using find_kv_at [OF assms] by blast
  have "\<And>v. M p = Some v \<Longrightarrow> sv_valid v"
    using bucket_okD(6) [OF V] sv_canon_valid by (auto simp: sv_map_def)
  then show ?thesis
    unfolding plain_value_def
    by (intro runs_bind [OF r(1)]) (cases r; use r(2) in \<open>auto simp: eq_commute [of _ "M p"]\<close>)
qed

end

end
