(* ===== verification/State_Map.thy ===== *)
theory State_Map
  imports State_Spec
begin

text \<open>
  Whole states as maps from plain keys to plain values. \<open>state_ok V kv\<close>: every data bucket of
  \<open>V\<close> is a well-formed table of the pairs of \<open>kv\<close> that hash to it. \<open>update\<close> on a state is map
  update on \<open>kv\<close>; \<open>settled\<close> is what canonicalization needs to know about the capacities.
\<close>

type_synonym kv_map = "bytes \<Rightarrow> bytes option"

definition bmap :: "kv_map \<Rightarrow> bucket_id \<Rightarrow> bytes \<Rightarrow> salt_value option" where
  "bmap kv b = (\<lambda>p. if bucket_id p = b then map_option (sv_enc p) (kv p) else None)"

definition state_ok :: "salt_state \<Rightarrow> kv_map \<Rightarrow> bool" where
  "state_ok V kv \<longleftrightarrow> (\<forall>p v. kv p = Some v \<longrightarrow> kv_fits p v) \<and>
     (\<forall>b. is_valid_data_bucket b \<longrightarrow> bucket_ok V b (bmap kv b))"

text \<open>The specification of a batch: later entries win, \<open>None\<close> deletes.\<close>

definition apply_batch :: "(bytes \<times> bytes option) list \<Rightarrow> kv_map \<Rightarrow> kv_map" where
  "apply_batch batch kv = fold (\<lambda>(p, v) kv. kv(p := v)) batch kv"

definition batch_fits :: "(bytes \<times> bytes option) list \<Rightarrow> bool" where
  "batch_fits batch \<longleftrightarrow> (\<forall>p v. (p, Some v) \<in> set batch \<longrightarrow> kv_fits p v)"

text \<open>No bucket ever needs more slots than a 40-bit slot number can address.\<close>

definition roomy :: "(bytes \<times> bytes option) list \<Rightarrow> kv_map \<Rightarrow> bool" where
  "roomy batch kv \<longleftrightarrow> card (dom kv) + length batch < 2 ^ 38"

lemma bmap_upd: "bmap (kv(p \<mapsto> v)) (bucket_id p) = (bmap kv (bucket_id p))(p \<mapsto> sv_enc p v)"
  by (auto simp: bmap_def fun_eq_iff)

lemma bmap_del: "bmap (kv(p := None)) (bucket_id p) = (bmap kv (bucket_id p))(p := None)"
  by (auto simp: bmap_def fun_eq_iff)

lemma bmap_other: "bucket_id p \<noteq> b \<Longrightarrow> bmap (kv(p := v)) b = bmap kv b"
  by (auto simp: bmap_def fun_eq_iff)

lemma dom_bmap: "dom (bmap kv b) = {p \<in> dom kv. bucket_id p = b}"
  by (auto simp: bmap_def split: if_splits)

lemma bmap_lookup: "bmap kv (bucket_id p) p = map_option (sv_enc p) (kv p)"
  by (simp add: bmap_def)

lemma state_ok_bucket: "state_ok V kv \<Longrightarrow> is_valid_data_bucket b \<Longrightarrow> bucket_ok V b (bmap kv b)"
  by (simp add: state_ok_def)

lemma state_ok_finite:
  assumes "state_ok V kv"
  shows "finite (dom kv)"
proof -
  have "dom kv \<subseteq> (\<Union>b \<in> {b. is_valid_data_bucket b}. dom (bmap kv b))"
  proof
    fix p assume "p \<in> dom kv"
    then have "p \<in> dom (bmap kv (bucket_id p))"
      by (simp add: dom_bmap)
    then show "p \<in> (\<Union>b \<in> {b. is_valid_data_bucket b}. dom (bmap kv b))"
      by (intro UN_I [of "bucket_id p"]) simp_all
  qed
  moreover have "finite (dom (bmap kv b))" if "is_valid_data_bucket b" for b
    using represents_finite_dom [OF bucket_okD(5) [OF state_ok_bucket [OF assms that]]] .
  moreover have "finite {b :: bucket_id. is_valid_data_bucket b}"
    by simp
  ultimately show ?thesis
    using finite_subset finite_UN_I [of "{b. is_valid_data_bucket b}" "\<lambda>b. dom (bmap kv b)"]
    by blast
qed

lemma card_bmap_le: "finite (dom kv) \<Longrightarrow> card (dom (bmap kv b)) \<le> card (dom kv)"
  by (rule card_mono) (auto simp: dom_bmap)

section \<open>What a step keeps\<close>

text \<open>Keys that are neither in a data bucket nor the metadata of one.\<close>

definition rest_same :: "salt_state \<Rightarrow> salt_state \<Rightarrow> bool" where
  "rest_same V W \<longleftrightarrow>
     (\<forall>k. \<not> is_valid_data_bucket (key_bucket_id k) \<longrightarrow> \<not> is_metadata_key k \<longrightarrow> V k = W k)"

text \<open>
  The load factor holds everywhere; metadata differs from the base \<open>m0\<close> in the capacity only,
  and only for the buckets marked in \<open>R\<close>.
\<close>

definition settled :: "(bucket_id \<Rightarrow> bucket_meta) \<Rightarrow> salt_state \<Rightarrow> bucket_id set \<Rightarrow> kv_map \<Rightarrow> bool" where
  "settled m0 V R kv \<longleftrightarrow> (\<forall>b \<in> R. is_valid_data_bucket b) \<and> (\<forall>b. is_valid_data_bucket b \<longrightarrow>
     nonce (meta_at V b) = nonce (m0 b) \<and> (b \<notin> R \<longrightarrow> meta_at V b = m0 b) \<and>
     100 * card (dom (bmap kv b)) \<le> 80 * unat (capacity (meta_at V b)))"

lemma frame_rest: "frame b V V' \<Longrightarrow> is_valid_data_bucket b \<Longrightarrow> rest_same V V'"
  by (auto simp: frame_def rest_same_def)

lemma rest_same_trans: "rest_same V W \<Longrightarrow> rest_same W X \<Longrightarrow> rest_same V X"
  by (simp add: rest_same_def)

lemma rest_same_refl [simp]: "rest_same V V"
  by (simp add: rest_same_def)

lemma grown_state_ok:
  assumes "state_ok V kv" "grown (bucket_id p) V c (bmap kv' (bucket_id p)) V'"
    and "kv' = kv(p := v)" "\<And>w. v = Some w \<Longrightarrow> kv_fits p w"
  shows "state_ok V' kv'"
  unfolding state_ok_def
proof (intro conjI allI impI)
  fix q w assume "kv' q = Some w"
  then show "kv_fits q w"
    using assms(1,3,4) by (auto simp: state_ok_def split: if_splits)
next
  fix b assume b: "is_valid_data_bucket b"
  show "bucket_ok V' b (bmap kv' b)"
  proof (cases "b = bucket_id p")
    case True
    then show ?thesis
      using assms(2) by (simp add: grown_def)
  next
    case False
    then have "bmap kv' b = bmap kv b"
      unfolding assms(3) by (intro bmap_other) auto
    moreover have "frame (bucket_id p) V V'"
      using assms(2) by (simp add: grown_def)
    ultimately show ?thesis
      using state_ok_bucket [OF assms(1) b] frame_bucket_ok [OF _ bucket_id_valid b False] by simp
  qed
qed

lemma grown_settled:
  assumes st: "settled m0 V R kv" and g: "grown b V c (bmap kv' b) V'" and b: "is_valid_data_bucket b"
    and other: "\<And>b'. b' \<noteq> b \<Longrightarrow> bmap kv' b' = bmap kv b'"
    and load: "100 * card (dom (bmap kv' b)) \<le> 80 * c"
  shows "settled m0 V' (mark_if (c \<noteq> unat (capacity (meta_at V b))) b R) kv'"
proof -
  let ?R = "mark_if (c \<noteq> unat (capacity (meta_at V b))) b R"
  have R: "\<forall>b' \<in> ?R. is_valid_data_bucket b'"
    using st b by (auto simp: settled_def mark_if_def)
  have "nonce (meta_at V' b') = nonce (m0 b') \<and> (b' \<notin> ?R \<longrightarrow> meta_at V' b' = m0 b') \<and>
      100 * card (dom (bmap kv' b')) \<le> 80 * unat (capacity (meta_at V' b'))"
    if b': "is_valid_data_bucket b'" for b'
  proof (cases "b' = b")
    case True
    have "meta_at V' b = m0 b" if "b \<notin> ?R"
    proof -
      have "c = unat (capacity (meta_at V b))" "b \<notin> R"
        using that by (auto simp: mark_if_def split: if_splits)
      then have "meta_at V' b = meta_at V b"
        using g by (simp add: grown_def)
      then show ?thesis
        using st b \<open>b \<notin> R\<close> by (simp add: settled_def)
    qed
    then show ?thesis
      using True st b grown_cap [OF g] grown_nonce [OF g] load by (simp add: settled_def)
  next
    case False
    have "frame b V V'"
      using g by (simp add: grown_def)
    then have "meta_at V' b' = meta_at V b'"
      using frame_other [OF _ b b' False] by blast
    then show ?thesis
      using st b' False other [OF False] by (auto simp: settled_def mark_if_def)
  qed
  with R show ?thesis
    unfolding settled_def by blast
qed

section \<open>Batches of updates\<close>

context full_reader
begin

lemma update_step_at:
  assumes x: "ok x" and V: "state_ok V kv" and st: "sat x V0 V R st"
    and fit: "\<And>w. v = Some w \<Longrightarrow> kv_fits p w" and n: "card (dom kv) < 2 ^ 38"
  shows "\<exists>V' R'. runs (case v of Some v \<Rightarrow> shi_upsert (bucket_id p) p v | None \<Rightarrow> shi_delete (bucket_id p) p)
      st () (sat x V0 V' R') \<and>
    state_ok V' (kv(p := v)) \<and> rest_same V V' \<and> (settled m0 V R kv \<longrightarrow> settled m0 V' R' (kv(p := v)))"
proof -
  let ?b = "bucket_id p" and ?M = "bmap kv (bucket_id p)"
  let ?c = "unat (capacity (meta_at V ?b))"
  have b: "is_valid_data_bucket ?b" by simp
  note Vb = state_ok_bucket [OF V b]
  have fin: "finite (dom ?M)"
    using represents_finite_dom [OF bucket_okD(5) [OF Vb]] .
  have nM: "card (dom ?M) < 2 ^ 38"
    using card_bmap_le [OF state_ok_finite [OF V], of ?b] n by simp
  have other: "\<And>b'. b' \<noteq> ?b \<Longrightarrow> bmap (kv(p := v)) b' = bmap kv b'"
    by (intro bmap_other) auto
  have load: "100 * card (dom ?M) \<le> 80 * ?c" if "settled m0 V R kv"
    using that b by (simp add: settled_def)
  show ?thesis
  proof (cases v)
    case None
    obtain V' where V': "runs (shi_delete ?b p) st () (sat x V0 V' R)" "grown ?b V ?c (?M(p := None)) V'"
      using shi_delete_at [OF x b Vb st] by blast
    then have g: "grown ?b V ?c (bmap (kv(p := v)) ?b) V'"
      using None bmap_del by simp
    have "card (dom (?M(p := None))) \<le> card (dom ?M)"
      using fin by (intro card_mono) auto
    then have "settled m0 V' R (kv(p := v))" if "settled m0 V R kv"
      using grown_settled [OF that g b other] load [OF that] None bmap_del [of kv p]
      by (simp add: mark_if_def)
    moreover have "rest_same V V'"
      using g frame_rest b by (auto simp: grown_def)
    ultimately show ?thesis
      using V'(1) grown_state_ok [OF V g refl fit] None by auto
  next
    case (Some w)
    let ?c' = "upsert_cap ?c ?M p"
    have fw: "kv_fits p w" using fit Some by blast
    obtain V' where V': "runs (shi_upsert ?b p w) st () (sat x V0 V' (mark_if (?c' \<noteq> ?c) ?b R))"
        "grown ?b V ?c' (?M(p \<mapsto> sv_enc p w)) V'"
      using shi_upsert_at [OF x b Vb st fw nM] by blast
    then have g: "grown ?b V ?c' (bmap (kv(p := v)) ?b) V'"
      using Some bmap_upd by simp
    have "100 * card (dom (bmap (kv(p := v)) ?b)) \<le> 80 * ?c'" if "100 * card (dom ?M) \<le> 80 * ?c"
    proof (cases "p \<in> dom ?M")
      case True
      then have "dom (bmap (kv(p := v)) ?b) = dom ?M"
        using Some by (auto simp: bmap_upd)
      then show ?thesis
        using True that by (simp add: upsert_cap_def)
    next
      case False
      then have "card (dom (bmap (kv(p := v)) ?b)) = card (dom ?M) + 1"
        using Some fin by (simp add: bmap_upd)
      then show ?thesis
        using False resize_nat_load [OF bucket_okD(1) [OF Vb], of "card (dom ?M) + 1"]
        by (simp add: upsert_cap_def)
    qed
    then have "settled m0 V' (mark_if (?c' \<noteq> ?c) ?b R) (kv(p := v))" if "settled m0 V R kv"
      using grown_settled [OF that g b other] load [OF that] by blast
    moreover have "rest_same V V'"
      using g frame_rest b by (auto simp: grown_def)
    ultimately show ?thesis
      using V'(1) grown_state_ok [OF V g refl fit] Some by auto
  qed
qed

lemma update_loop_at:
  assumes x: "ok x" and "state_ok V kv" "sat x V0 V R st" "batch_fits batch" "roomy batch kv"
  shows "\<exists>V' R'. runs (update_loop batch) st () (sat x V0 V' R') \<and>
    state_ok V' (apply_batch batch kv) \<and> rest_same V V' \<and>
    (settled m0 V R kv \<longrightarrow> settled m0 V' R' (apply_batch batch kv))"
  using assms(2-5)
proof (induction batch arbitrary: V R kv st)
  case Nil
  then show ?case
    by (intro exI [of _ V] exI [of _ R]) (simp add: apply_batch_def)
next
  case (Cons y batch)
  obtain p v where y: "y = (p, v)" by (cases y)
  have n: "card (dom kv) < 2 ^ 38"
    using Cons.prems(4) by (simp add: roomy_def)
  have fin: "finite (dom kv)"
    by (rule state_ok_finite [OF Cons.prems(1)])
  have "dom (kv(p := v)) \<subseteq> insert p (dom kv)"
    by auto
  then have "card (dom (kv(p := v))) \<le> card (insert p (dom kv))"
    by (rule card_mono [OF finite.insertI [OF fin]])
  also have "\<dots> \<le> Suc (card (dom kv))"
    by (simp add: card_insert_if fin)
  finally have "card (dom (kv(p := v))) \<le> Suc (card (dom kv))" .
  then have roomy: "roomy batch (kv(p := v))"
    using Cons.prems(4) by (simp add: roomy_def y)
  have fit: "\<And>w. v = Some w \<Longrightarrow> kv_fits p w"
    using Cons.prems(3) by (auto simp: batch_fits_def y)
  obtain V1 R1 where V1: "runs (case v of Some v \<Rightarrow> shi_upsert (bucket_id p) p v
        | None \<Rightarrow> shi_delete (bucket_id p) p) st () (sat x V0 V1 R1)"
      "state_ok V1 (kv(p := v))" "rest_same V V1" "settled m0 V R kv \<longrightarrow> settled m0 V1 R1 (kv(p := v))"
    using update_step_at [OF x Cons.prems(1,2) fit n] by blast
  obtain st1 where st1: "(case v of Some v \<Rightarrow> shi_upsert (bucket_id p) p v
        | None \<Rightarrow> shi_delete (bucket_id p) p) st = (Ok (), st1)" "sat x V0 V1 R1 st1"
    using V1(1) unfolding runs_def by blast
  have "batch_fits batch"
    using Cons.prems(3) by (simp add: batch_fits_def)
  then obtain V' R' where V': "runs (update_loop batch) st1 () (sat x V0 V' R')"
      "state_ok V' (apply_batch batch (kv(p := v)))" "rest_same V1 V'"
      "settled m0 V1 R1 (kv(p := v)) \<longrightarrow> settled m0 V' R' (apply_batch batch (kv(p := v)))"
    using Cons.IH [OF V1(2) st1(2) _ roomy] by blast
  have "runs (update_loop (y # batch)) st () (sat x V0 V' R')"
    using V'(1) st1(1) by (simp add: y bind_def runs_def)
  moreover have "apply_batch (y # batch) kv = apply_batch batch (kv(p := v))"
    by (simp add: apply_batch_def y)
  moreover have "rest_same V V'"
    by (rule rest_same_trans [OF V1(3) V'(3)])
  ultimately show ?case
    using V'(2,4) V1(4) by (intro exI [of _ V'] exI [of _ R']) simp
qed

lemma update_at:
  assumes x: "ok x" and V: "state_ok V kv" and at: "eat x V R s"
    and batch: "batch_fits batch" "roomy batch kv"
  shows "\<exists>u V' R' s'. update batch s = (Ok u, s') \<and> eat x V' R' s' \<and>
    state_ok V' (apply_batch batch kv) \<and> rest_same V V' \<and>
    (settled m0 V R kv \<longrightarrow> settled m0 V' R' (apply_batch batch kv)) \<and>
    su_ok u \<and> chains_from u V \<and> apply_updates u V = V'"
proof -
  obtain V' R' where V': "runs (update_loop batch) (s, []) () (sat x V V' R')"
      "state_ok V' (apply_batch batch kv)" "rest_same V V'"
      "settled m0 V R kv \<longrightarrow> settled m0 V' R' (apply_batch batch kv)"
    using update_loop_at [OF x V st_at_start [OF at] batch] by blast
  then obtain s' u where "update_loop batch (s, []) = (Ok (), (s', u))" "sat x V V' R' (s', u)"
    by (auto simp: runs_def)
  then have "update batch s = (Ok u, s')" "eat x V' R' s'" "su_ok u" "chains_from u V"
      "apply_updates u V = V'"
    by (simp_all add: update_def with_updates_def st_at_def)
  then show ?thesis
    using V' by blast
qed

lemma plain_value_state:
  assumes "ok x" "state_ok V kv" "eat x V R s"
  shows "runs (plain_value p) s (kv p) (eat x V R)"
proof -
  have e: "map_option plain_val (bmap kv (bucket_id p) p) = kv p"
    using assms(2) by (cases "kv p") (auto simp: bmap_lookup state_ok_def)
  have "runs (plain_value p) s (map_option plain_val (bmap kv (bucket_id p) p)) (eat x V R)"
    by (rule plain_value_at [OF assms(1) state_ok_bucket [OF assms(2) bucket_id_valid] assms(3)])
  then show ?thesis
    by (simp only: e)
qed

end

section \<open>The empty state\<close>

lemma tab_empty: "is_valid_data_bucket b \<Longrightarrow> tab (norm (\<lambda>_. None)) b = (\<lambda>_. None)"
  by (auto simp: tab_def fun_eq_iff slot_key_data)

lemma meta_at_empty [simp]: "meta_at (\<lambda>_. None) b = default_meta"
  by (simp add: meta_at_def)

lemma bmap_empty: "bmap (\<lambda>_. None) b = (\<lambda>_. None)"
  by (simp add: bmap_def fun_eq_iff)

lemma state_ok_empty: "state_ok (norm (\<lambda>_. None)) (\<lambda>_. None)"
  unfolding state_ok_def
proof (intro conjI allI impI)
  fix b assume "is_valid_data_bucket b"
  then show "bucket_ok (norm (\<lambda>_. None)) b (bmap (\<lambda>_. None) b)"
    by (simp add: bucket_ok_def Let_def tab_empty bmap_empty default_meta_def shi_ok_def represents_def
        sv_map_def)
qed simp

section \<open>Committing\<close>

lemma norm_apply_updates: "norm (apply_updates u (norm B)) = norm (apply_updates u B)"
  by (auto simp: norm_def apply_updates_def fun_eq_iff split: option.splits)

lemma chains_metas_ok: "metas_ok (apply_updates u (norm B)) \<Longrightarrow> metas_ok (apply_updates u B)"
  using metas_ok_norm norm_apply_updates by metis

end
