(* ===== verification/Canonical.thy ===== *)
theory Canonical
  imports State_Map
begin

text \<open>
  \<open>canonicalize\<close> and \<open>update_fin\<close>. Canonicalizing a bucket empties it, drops its cached metadata
  and reinserts the entries from the store's metadata, so that its final capacity depends on
  the store and the number of entries only. With the uniqueness of layouts this gives history
  independence: the returned updates are a function of the store and the final map.
\<close>

section \<open>Clearing a bucket\<close>

context full_reader
begin

lemma clear_loop_at:
  assumes x: "ok x" and b: "is_valid_data_bucket b"
    and "pre_at (reader_of x) (contents x) V0 (put_tab V b (\<lambda>s. if s < i then None else T s)) R D st"
    and "i + n < 2 ^ 40"
  shows "runs (clear_loop b n (of_nat i)) st (List.map_filter T [i..<i + n])
    (pre_at (reader_of x) (contents x) V0 (put_tab V b (\<lambda>s. if s < i + n then None else T s)) R D)"
  using assms(3,4)
proof (induction n arbitrary: i st)
  case 0
  then show ?case by (simp add: List.map_filter_def)
next
  case (Suc n)
  obtain s u where st: "st = (s, u)" by (cases st)
  let ?U = "\<lambda>i. put_tab V b (\<lambda>s. if s < i then None else T s)"
  let ?pre = "pre_at (reader_of x) (contents x) V0"
  let ?k = "slot_key b i"
  have i: "i < 2 ^ 40"
    using Suc.prems(2) by linarith
  have key: "salt_key_from b (of_nat i) = ?k"
    by (simp add: slot_key_def)
  have data: "\<not> is_metadata_key ?k"
    by (rule slot_key_data [OF b i])
  have Uk: "?U i ?k = T i"
    by (simp add: put_tab_slot [OF b i])
  have next_U: "(?U i)(?k := None) = ?U (Suc i)"
    unfolding put_tab_upd [OF b i] by (rule put_tab_cong) (auto simp: less_Suc_eq)
  obtain s1 where s1: "eph_value ?k s = (Ok (T i), s1)" "?pre (?U i) R D (s1, u)"
    using eph_value_pre [OF x _ data, of "?U i" R D s] Suc.prems(1)
    by (auto simp: st pre_at_def runs_def Uk)
  have IH: "runs (clear_loop b n (of_nat i + 1)) st' (List.map_filter T [Suc i..<i + Suc n])
      (?pre (?U (i + Suc n)) R D)" if "?pre (?U (Suc i)) R D st'" for st'
    using Suc.IH [OF that] Suc.prems(2) by (simp add: add.commute)
  have rest: "List.map_filter T [i..<i + Suc n] = (case T i of
      None \<Rightarrow> List.map_filter T [Suc i..<i + Suc n] | Some e \<Rightarrow> e # List.map_filter T [Suc i..<i + Suc n])"
    by (subst upt_conv_Cons) (simp_all add: map_filter_simps split: option.splits del: upt_Suc)
  show ?case
  proof (cases "T i")
    case None
    have "(?U i)(?k := None) = ?U i"
      using Uk None by (simp add: fun_upd_idem)
    then have "?pre (?U (Suc i)) R D (s1, u)"
      using s1(2) next_U by simp
    moreover have "clear_loop b (Suc n) (of_nat i) st = clear_loop b n (of_nat i + 1) (s1, u)"
      using s1(1) None by (simp add: st key Let_def bind_def on_fst_def)
    ultimately show ?thesis
      using IH unfolding rest None option.case by (simp only: runs_def)
  next
    case (Some e)
    obtain u' where u': "try_add ?k (Some e) None u = (Ok (), u')"
        "?pre (?U (Suc i)) R D (cache_insert ?k None s1, u')"
      using pre_write [OF s1(2) data, of None] unfolding Uk next_U Some by auto
    obtain st2 where st2: "clear_loop b n (of_nat i + 1) (cache_insert ?k None s1, u')
          = (Ok (List.map_filter T [Suc i..<i + Suc n]), st2)" "?pre (?U (i + Suc n)) R D st2"
      using IH [OF u'(2)] unfolding runs_def by blast
    have "clear_loop b (Suc n) (of_nat i) st = (Ok (e # List.map_filter T [Suc i..<i + Suc n]), st2)"
      using s1(1) Some st2(1)
      by (simp add: st key Let_def bind_def on_fst_def add_eq [OF u'(1)] del: upt_Suc)
    then show ?thesis
      using st2(2) unfolding rest Some option.case by (simp only: runs_def) blast
  qed
qed

end

section \<open>Reinserting the entries\<close>

definition entries_of :: "nat \<Rightarrow> salt_value tab \<Rightarrow> salt_value list" where
  "entries_of c T = List.map_filter T [0..<c]"

lemma set_entries_of: "v \<in> set (entries_of c T) \<longleftrightarrow> (\<exists>s < c. T s = Some v)"
  by (force simp: entries_of_def List.map_filter_def)

lemma length_entries_of: "length (entries_of c T) = card (occupied c T)"
proof -
  have "set (filter (\<lambda>s. T s \<noteq> None) [0..<c]) = occupied c T"
    by (auto simp: occupied_def)
  then show ?thesis
    using distinct_card [of "filter (\<lambda>s. T s \<noteq> None) [0..<c]"]
    by (simp add: entries_of_def List.map_filter_def)
qed

lemma distinct_entries_of:
  assumes "shi_ok plain_key h c T"
  shows "distinct (map plain_key (entries_of c T))"
proof -
  have "inj_on (\<lambda>s. plain_key (the (T s))) {s. s < c \<and> T s \<noteq> None}"
    using shi_ok_inj [OF assms] by (fastforce simp: inj_on_def)
  then show ?thesis
    by (simp add: entries_of_def List.map_filter_def distinct_map comp_def)
qed

lemma entries_of_map:
  assumes "bucket_ok V b M"
  defines "es \<equiv> entries_of (unat (capacity (meta_at V b))) (tab V b)"
  shows "fold (\<lambda>e N. N(plain_key e \<mapsto> e)) es (\<lambda>_. None) = M"
proof -
  have "(k, w) \<in> set (map (\<lambda>e. (plain_key e, e)) (rev es)) \<longleftrightarrow> M k = Some w" for k w
    using represents_iff [OF bucket_okD(5) [OF assms(1)], of k w]
    by (auto simp: es_def set_entries_of image_iff)
  then have "map_of (map (\<lambda>e. (plain_key e, e)) (rev es)) = M"
    by (intro ext map_of_unique)
  then show ?thesis
    by (simp add: fold_upd_map_of)
qed

context full_reader
begin

lemma reinsert_loop_at:
  assumes x: "ok x" and b: "is_valid_data_bucket b" and c0: "0 < c0"
    and "bucket_ok V b N" "sat x V0 V R st" "unat (capacity (meta_at V b)) = resize_nat c0 (card (dom N))"
    and "distinct (map plain_key es)" "\<forall>e \<in> set es. sv_canon e \<and> plain_key e \<notin> dom N"
    and "card (dom N) + length es < 2 ^ 38"
  shows "\<exists>V' R'. runs (reinsert_loop b es) st () (sat x V0 V' R') \<and>
    grown b V (resize_nat c0 (card (dom N) + length es)) (fold (\<lambda>e N. N(plain_key e \<mapsto> e)) es N) V'"
  using assms(4-)
proof (induction es arbitrary: V N R st)
  case Nil
  have "meta_at V b = (meta_at V b)\<lparr>capacity := of_nat (resize_nat c0 (card (dom N)))\<rparr>"
    using Nil.prems(3) [symmetric] by simp
  then have "grown b V (resize_nat c0 (card (dom N))) N V"
    using Nil.prems(1) bucket_okD(2) [OF Nil.prems(1)] Nil.prems(3) by (simp add: grown_def)
  then show ?case
    using Nil.prems(2) by (intro exI [of _ V] exI [of _ R]) simp
next
  case (Cons e es)
  let ?p = "plain_key e" and ?c = "unat (capacity (meta_at V b))"
  let ?N = "N(plain_key e \<mapsto> e)"
  have e: "sv_canon e" "?p \<notin> dom N"
    using Cons.prems(5) by auto
  have fit: "kv_fits ?p (plain_val e)" and enc: "sv_enc ?p (plain_val e) = e"
    using e(1) by (auto simp: sv_canon_def)
  have kv: "(plain_kv e :: (_, 'e) res) = Ok (?p, plain_val e)"
    using sv_canon_valid [OF e(1)] by (simp add: plain_kv_def)
  have n: "card (dom N) < 2 ^ 38"
    using Cons.prems(6) by simp
  obtain V1 where V1: "runs (shi_upsert b ?p (plain_val e)) st () (sat x V0 V1 (mark_if (upsert_cap ?c N ?p \<noteq> ?c) b R))"
      "grown b V (upsert_cap ?c N ?p) ?N V1"
    using shi_upsert_at [OF x b Cons.prems(1,2) fit n] unfolding enc by blast
  have fin: "finite (dom N)"
    by (rule represents_finite_dom [OF bucket_okD(5) [OF Cons.prems(1)]])
  have card: "card (dom ?N) = card (dom N) + 1"
    using e(2) fin by simp
  have cap: "upsert_cap ?c N ?p = resize_nat c0 (card (dom ?N))"
    using e(2) unfolding card by (simp add: upsert_cap_def Cons.prems(3) resize_nat_resize)
  obtain st1 where st1: "shi_upsert b ?p (plain_val e) st = (Ok (), st1)"
      "sat x V0 V1 (mark_if (upsert_cap ?c N ?p \<noteq> ?c) b R) st1"
    using V1(1) unfolding runs_def by blast
  have keys: "\<forall>e' \<in> set es. sv_canon e' \<and> plain_key e' \<notin> dom ?N"
  proof
    fix e' assume "e' \<in> set es"
    moreover from this have "plain_key e' \<noteq> plain_key e"
      using Cons.prems(4) by (metis distinct.simps(2) imageI list.set_map list.simps(9))
    ultimately show "sv_canon e' \<and> plain_key e' \<notin> dom ?N"
      using Cons.prems(5) by auto
  qed
  have dist: "distinct (map plain_key es)" and n': "card (dom ?N) + length es < 2 ^ 38"
    using Cons.prems(4,6) unfolding card by simp_all
  obtain V' R' where V': "runs (reinsert_loop b es) st1 () (sat x V0 V' R')"
      "grown b V1 (resize_nat c0 (card (dom ?N) + length es)) (fold (\<lambda>e N. N(plain_key e \<mapsto> e)) es ?N) V'"
    using Cons.IH [OF grown_bucket_ok [OF V1(2)] st1(2) grown_cap [OF V1(2), unfolded cap] _ keys] dist n'
    by blast
  have "reinsert_loop b (e # es) st = reinsert_loop b es st1"
    using st1(1) by (simp add: bind_def kv)
  moreover have "card (dom ?N) + length es = card (dom N) + length (e # es)"
    by (simp only: card) simp
  ultimately show ?case
    using V'(1) grown_trans [OF V1(2) V'(2)] unfolding fold_simps runs_def
    by (intro exI [of _ V'] exI [of _ R']) simp
qed

end

section \<open>Canonicalizing a bucket\<close>

text \<open>The bucket emptied, with the store's metadata.\<close>

definition reset :: "salt_state \<Rightarrow> salt_state \<Rightarrow> bucket_id \<Rightarrow> salt_state" where
  "reset B V b = (put_tab V b (\<lambda>_. None))(meta_key b := norm B (meta_key b))"

definition canon_meta :: "bucket_meta \<Rightarrow> nat \<Rightarrow> bucket_meta" where
  "canon_meta m n = m\<lparr>capacity := of_nat (resize_nat (unat (capacity m)) n)\<rparr>"

lemma meta_at_reset: "is_valid_data_bucket b \<Longrightarrow> meta_at (reset B V b) b = meta_at B b"
  using meta_at_norm [of b B] by (simp add: meta_at_def reset_def)

lemma frame_reset: "frame b V (reset B V b)"
  by (simp add: frame_def reset_def)

lemma tab_reset: "is_valid_data_bucket b \<Longrightarrow> tab (reset B V b) b = (\<lambda>_. None)"
  unfolding reset_def by (simp add: tab_meta_upd tab_put_tab)

lemma bucket_ok_reset:
  assumes "is_valid_data_bucket b" "0 < unat (capacity (meta_at B b))" "unat (capacity (meta_at B b)) < 2 ^ 40"
  shows "bucket_ok (reset B V b) b (\<lambda>_. None)"
  using assms by (simp add: bucket_ok_def Let_def tab_reset meta_at_reset shi_ok_def represents_def sv_map_def)

lemma eph_pre_remove:
  assumes "eph_pre rd B V R D s" "metas_ok B" "is_metadata_key k"
  shows "eph_pre rd B (V(k := norm B k)) R D (s\<lparr>cache := bt_remove k (cache s)\<rparr>)"
proof -
  have cur: "cur B (s\<lparr>cache := bt_remove k (cache s)\<rparr>) = (cur B s)(k := B k)"
    by (auto simp: cur_def fun_eq_iff)
  have "metas_ok ((cur B s)(k := B k))"
    using assms unfolding eph_pre_def metas_ok_def by auto
  moreover have "norm ((cur B s)(k := B k)) = (norm (cur B s))(k := norm B k)"
    by (auto simp: norm_def fun_eq_iff)
  ultimately show ?thesis
    using assms(1) by (simp add: eph_pre_def view_def cur)
qed

lemma counts_ok_reset:
  assumes "counts_ok B V D" "is_valid_data_bucket b" "occ V b = n"
  shows "counts_ok B (reset B V b)
    (bt_insert b ((case bt_get D b of None \<Rightarrow> 0 | Some d \<Rightarrow> d) + (- of_nat n)) D)"
  unfolding counts_ok_def
proof (intro allI impI)
  fix b' assume b': "is_valid_data_bucket b'"
  have meta: "meta_key b \<notin> bucket_keys W b'" "key_bucket_id (meta_key b) \<noteq> b'" for W
    using b' in_meta_not_valid [OF meta_key_in_meta [OF assms(2)]] by (auto simp: bucket_keys_def)
  have old: "of_nat (occ B b') + (case bt_get D b' of None \<Rightarrow> 0 | Some d \<Rightarrow> d) = (of_nat (occ V b') :: u64)"
    using assms(1) b' by (simp add: counts_ok_def)
  show "of_nat (occ B b') + (case bt_get (bt_insert b ((case bt_get D b of None \<Rightarrow> 0 | Some d \<Rightarrow> d)
      + (- of_nat n)) D) b' of None \<Rightarrow> 0 | Some d \<Rightarrow> d) = (of_nat (occ (reset B V b) b') :: u64)"
  proof (cases "b' = b")
    case True
    have "bucket_keys (reset B V b) b = {}"
      using meta(2) True by (auto simp: bucket_keys_def reset_def put_tab_def)
    then have "occ (reset B V b) b = 0"
      by (simp add: occ_def)
    then show ?thesis
      using True old assms(3) by (simp add: algebra_simps)
  next
    case False
    have "bucket_keys (reset B V b) b' = bucket_keys V b'"
      using meta(2) False by (auto simp: bucket_keys_def reset_def put_tab_def)
    then show ?thesis
      using False old by (simp add: occ_def)
  qed
qed

context full_reader
begin

lemma reset_bucket_at:
  assumes x: "ok x" and b: "is_valid_data_bucket b" and V: "bucket_ok V b M" and st: "sat x V0 V R st"
  defines "es \<equiv> entries_of (unat (capacity (meta_at V b))) (tab V b)"
  shows "\<exists>st'. canonicalize_bucket b st = reinsert_loop b es st' \<and> sat x V0 (reset (contents x) V b) R st'"
proof -
  let ?B = "contents x" and ?m = "meta_at V b" and ?T = "tab V b" and ?mk = "meta_key b"
  let ?c = "unat (capacity ?m)" and ?V1 = "put_tab V b (\<lambda>_. None)" and ?V2 = "reset (contents x) V b"
  note okb = bucket_okD [OF V]
  have mk: "is_metadata_key ?mk"
    by (rule is_metadata_key_meta [OF b])
  obtain s1 u1 where s1: "on_fst (Ephemeral_State.metadata b False) st = (Ok ?m, (s1, u1))"
      "sat x V0 V R (s1, u1)"
    using runs_fst_st_at [OF metadata_False_at [OF x _ b, of V R] st] by (auto simp: runs_def)
  let ?D = "usage_count_delta s1"
  have D: "counts_ok ?B V ?D" and pre1: "pre_at (reader_of x) ?B V0 V R ?D (s1, u1)"
    using s1(2) by (simp_all add: st_at_pre)
  have "put_tab V b (\<lambda>s. if s < ?c then None else ?T s) = ?V1"
    by (rule put_tab_cong) (use okb(3) in auto)
  then have "runs (clear_loop b ?c 0) (s1, u1) es (pre_at (reader_of x) ?B V0 ?V1 R ?D)"
    using clear_loop_at [OF x b, of V0 V 0 ?T R ?D "(s1, u1)" ?c] pre1 okb(2)
    by (simp add: es_def entries_of_def)
  then obtain s2 u2 where s2: "clear_loop b ?c 0 (s1, u1) = (Ok es, (s2, u2))"
      "pre_at (reader_of x) ?B V0 ?V1 R ?D (s2, u2)"
    by (auto simp: runs_def)
  let ?s3 = "s2\<lparr>cache := bt_remove ?mk (cache s2)\<rparr>"
  have "eph_pre (reader_of x) ?B ?V2 R ?D ?s3"
    unfolding reset_def by (rule eph_pre_remove [OF _ metas [OF x] mk]) (use s2(2) in \<open>simp add: pre_at_def\<close>)
  then obtain s4 where s4: "Ephemeral_State.metadata b False ?s3 = (Ok (meta_at ?B b), s4)"
      "eph_pre (reader_of x) ?B ?V2 R ?D s4"
    using metadata_False_pre [OF x _ b] meta_at_reset [OF b] by (fastforce simp: runs_def)
  have V: "norm V = V" "metas_ok V"
    using eph_at_norm [OF st_at_fst [OF st]] eph_at_metas_ok [OF st_at_fst [OF st]] .
  have old: "apply_updates u2 V0 ?mk = Some (meta_sv ?m)"
    using s2(2) norm_meta [OF V(2) b] V(1) put_tab_meta [OF b mk] by (simp add: pre_at_def)
  have new: "norm ?B ?mk = Some (meta_sv (meta_at ?B b))"
    by (rule norm_meta [OF metas [OF x] b])
  obtain u3 where u3: "try_add ?mk (Some (meta_sv ?m)) (Some (meta_sv (meta_at ?B b))) u2 = (Ok (), u3)"
      "chains_from u3 V0" "apply_updates u3 V0 = (apply_updates u2 V0)(?mk := Some (meta_sv (meta_at ?B b)))"
    using try_add_chains [OF _ old] s2(2) by (auto simp: pre_at_def)
  have u3': "su_ok u3" "apply_updates u3 V0 = ?V2"
    using try_add_su_ok [OF u3(1)] s2(2) u3(3) by (simp_all add: pre_at_def reset_def new)
  have len: "length es = occ V b"
    using bucket_ok_occ [OF assms(3) b] bucket_ok_card [OF assms(3)] by (simp add: es_def length_entries_of)
  let ?s5 = "bump_usage b (- of_nat (length es)) s4"
  have "counts_ok ?B ?V2 (usage_count_delta ?s5)"
    using counts_ok_reset [OF D b refl] s4(2) by (simp add: bump_usage_def len eph_pre_def)
  moreover have "eph_pre (reader_of x) ?B ?V2 R (usage_count_delta ?s5) ?s5"
    using s4(2) by (simp add: eph_pre_def view_def)
  ultimately have "sat x V0 ?V2 R (?s5, u3)"
    using u3(2) u3' by (simp add: st_at_def eph_pre_at)
  moreover have "canonicalize_bucket b st = reinsert_loop b es (?s5, u3)"
    using s1(1) s2(1) s4(1) b by (simp add: canonicalize_bucket_def bind_def on_fst_def add_eq [OF u3(1)])
  ultimately show ?thesis
    by blast
qed

lemma canonicalize_bucket_at:
  assumes x: "ok x" and b: "is_valid_data_bucket b" and V: "bucket_ok V b M" and st: "sat x V0 V R st"
    and base: "0 < unat (capacity (meta_at (contents x) b))" "unat (capacity (meta_at (contents x) b)) < 2 ^ 40"
    and n: "card (dom M) < 2 ^ 38"
  shows "\<exists>V' R'. runs (canonicalize_bucket b) st () (sat x V0 V' R') \<and> bucket_ok V' b M \<and>
    frame b V V' \<and> meta_at V' b = canon_meta (meta_at (contents x) b) (card (dom M))"
proof -
  let ?B = "contents x" and ?es = "entries_of (unat (capacity (meta_at V b))) (tab V b)"
  let ?c0 = "unat (capacity (meta_at ?B b))"
  obtain st' where st': "canonicalize_bucket b st = reinsert_loop b ?es st'" "sat x V0 (reset ?B V b) R st'"
    using reset_bucket_at [OF x b V st] by blast
  have len: "length ?es = card (dom M)"
    using bucket_ok_card [OF V] by (simp add: length_entries_of)
  have canon: "\<forall>e \<in> set ?es. sv_canon e \<and> plain_key e \<notin> dom (\<lambda>_. None :: salt_value option)"
    using bucket_ok_entry(2) [OF V] by (auto simp: set_entries_of)
  have c0: "unat (capacity (meta_at (reset ?B V b) b)) = resize_nat ?c0 (card (dom (\<lambda>_ :: bytes. None :: salt_value option)))"
    by (simp add: meta_at_reset [OF b] resize_nat_same)
  obtain V' R' where V': "runs (reinsert_loop b ?es) st' () (sat x V0 V' R')"
      "grown b (reset ?B V b) (resize_nat ?c0 (card (dom M))) M V'"
    using reinsert_loop_at [OF x b base(1) bucket_ok_reset [OF b base] st'(2) c0
        distinct_entries_of [OF bucket_okD(4) [OF V]] canon] n
    by (auto simp: len entries_of_map [OF V])
  have "meta_at V' b = canon_meta (meta_at ?B b) (card (dom M))"
    using V'(2) meta_at_reset [OF b] by (simp add: grown_def canon_meta_def)
  moreover have "frame b V V'"
    using frame_trans [OF frame_reset, of b ?B V V'] V'(2) by (simp add: grown_def)
  ultimately show ?thesis
    using V' st'(1) grown_bucket_ok [OF V'(2)] by (auto simp: runs_def)
qed

end

section \<open>Canonical states\<close>

definition canonical_at :: "salt_state \<Rightarrow> kv_map \<Rightarrow> salt_state \<Rightarrow> bucket_id \<Rightarrow> bool" where
  "canonical_at B kv V b \<longleftrightarrow> meta_at V b = canon_meta (meta_at B b) (card (dom (bmap kv b)))"

text \<open>A well-formed layout of \<open>kv\<close> whose metadata is the one canonicalization computes.\<close>

definition canonical :: "salt_state \<Rightarrow> kv_map \<Rightarrow> salt_state \<Rightarrow> bool" where
  "canonical B kv V \<longleftrightarrow> state_ok V kv \<and> norm V = V \<and> metas_ok V \<and> rest_same (norm B) V \<and>
     (\<forall>b. is_valid_data_bucket b \<longrightarrow> canonical_at B kv V b)"

definition base_ok :: "salt_state \<Rightarrow> bool" where
  "base_ok B \<longleftrightarrow> (\<forall>b. is_valid_data_bucket b \<longrightarrow>
     0 < unat (capacity (meta_at B b)) \<and> unat (capacity (meta_at B b)) < 2 ^ 40)"

lemma base_okD: "base_ok B \<Longrightarrow> is_valid_data_bucket b \<Longrightarrow>
    0 < unat (capacity (meta_at B b)) \<and> unat (capacity (meta_at B b)) < 2 ^ 40"
  by (simp add: base_ok_def)

text \<open>There is at most one.\<close>

lemma canonical_unique:
  assumes V: "canonical B kv V" and W: "canonical B kv W"
  shows "V = W"
proof
  fix k
  have meta: "meta_at V b = meta_at W b" if "is_valid_data_bucket b" for b
    using V W that by (simp add: canonical_def canonical_at_def)
  consider b where "is_valid_data_bucket b" "key_bucket_id k = b" | b where "is_valid_data_bucket b" "k = meta_key b"
    | "\<not> is_valid_data_bucket (key_bucket_id k)" "\<not> is_metadata_key k"
    by (auto simp: is_metadata_key_def)
  then show "V k = W k"
  proof cases
    case 1
    have "tab V b = tab W b"
      by (rule bucket_layout_unique [OF _ _ meta [OF 1(1)]])
         (use V W 1(1) state_ok_bucket in \<open>auto simp: canonical_def\<close>)
    then have "tab V b (unat (key_slot_id k)) = tab W b (unat (key_slot_id k))"
      by simp
    then show ?thesis
      using slot_key_of_parts [OF 1(2)] by (simp add: tab_def unat_key_slot_id)
  next
    case 2
    have "V k = Some (meta_sv (meta_at V b))" "W k = Some (meta_sv (meta_at W b))"
      using norm_meta [OF _ 2(1)] V W 2(2) by (auto simp: canonical_def) metis+
    then show ?thesis
      using meta [OF 2(1)] by simp
  next
    case 3
    have "norm B k = V k" "norm B k = W k"
      using V W 3 by (auto simp: canonical_def rest_same_def)
    then show ?thesis
      by simp
  qed
qed

lemma frame_state_ok:
  assumes "state_ok V kv" "bucket_ok V' b (bmap kv b)" "frame b V V'" "is_valid_data_bucket b"
  shows "state_ok V' kv"
  using assms frame_bucket_ok [OF assms(3,4)] unfolding state_ok_def by metis

lemma frame_canonical_at:
  assumes "frame b V V'" "is_valid_data_bucket b" "is_valid_data_bucket b'" "b' \<noteq> b"
  shows "canonical_at B kv V' b' = canonical_at B kv V b'"
  using frame_other [OF assms] by (simp add: canonical_at_def)

lemma settled_canonical_at:
  assumes "settled (meta_at B) V R kv" "is_valid_data_bucket b" "b \<notin> R"
  shows "canonical_at B kv V b"
proof -
  have m: "meta_at V b = meta_at B b" and l: "100 * card (dom (bmap kv b)) \<le> 80 * unat (capacity (meta_at V b))"
    using assms by (auto simp: settled_def)
  have "resize_nat (unat (capacity (meta_at B b))) (card (dom (bmap kv b))) = unat (capacity (meta_at B b))"
    by (rule resize_nat_same) (use l in \<open>simp add: m\<close>)
  then show ?thesis
    by (simp add: canonical_at_def canon_meta_def m)
qed

context full_reader
begin

lemma canonicalize_loop_at:
  assumes x: "ok x" and base: "base_ok (contents x)"
    and "state_ok V kv" "sat x V0 V R st" "\<forall>b \<in> set bs. is_valid_data_bucket b" "card (dom kv) < 2 ^ 38"
  shows "\<exists>V' R'. runs (canonicalize_loop bs) st () (sat x V0 V' R') \<and> state_ok V' kv \<and> rest_same V V' \<and>
    (\<forall>b. is_valid_data_bucket b \<longrightarrow> b \<in> set bs \<or> canonical_at (contents x) kv V b \<longrightarrow>
       canonical_at (contents x) kv V' b)"
  using assms(3-)
proof (induction bs arbitrary: V R st)
  case Nil
  then show ?case
    by (intro exI [of _ V] exI [of _ R]) simp
next
  case (Cons b bs)
  have b: "is_valid_data_bucket b"
    using Cons.prems(3) by simp
  have nb: "card (dom (bmap kv b)) < 2 ^ 38"
    using card_bmap_le [OF state_ok_finite [OF Cons.prems(1)], of b] Cons.prems(4) by simp
  note cap = base_okD [OF base b, THEN conjunct1] base_okD [OF base b, THEN conjunct2]
  obtain V1 R1 where V1: "runs (canonicalize_bucket b) st () (sat x V0 V1 R1)"
      "bucket_ok V1 b (bmap kv b)" "frame b V V1" "canonical_at (contents x) kv V1 b"
    using canonicalize_bucket_at [OF x b state_ok_bucket [OF Cons.prems(1) b] Cons.prems(2) cap nb]
    unfolding canonical_at_def by blast
  obtain st1 where st1: "canonicalize_bucket b st = (Ok (), st1)" "sat x V0 V1 R1 st1"
    using V1(1) unfolding runs_def by blast
  have ok1: "state_ok V1 kv"
    by (rule frame_state_ok [OF Cons.prems(1) V1(2,3) b])
  have bs: "\<forall>b \<in> set bs. is_valid_data_bucket b"
    using Cons.prems(3) by simp
  obtain V' R' where V': "runs (canonicalize_loop bs) st1 () (sat x V0 V' R')" "state_ok V' kv" "rest_same V1 V'"
      "\<forall>b. is_valid_data_bucket b \<longrightarrow> b \<in> set bs \<or> canonical_at (contents x) kv V1 b \<longrightarrow>
        canonical_at (contents x) kv V' b"
    using Cons.IH [OF ok1 st1(2) bs Cons.prems(4)] by blast
  have "runs (canonicalize_loop (b # bs)) st () (sat x V0 V' R')"
    using V'(1) st1(1) by (simp add: bind_def runs_def)
  moreover have "rest_same V V'"
    by (rule rest_same_trans [OF frame_rest [OF V1(3) b] V'(3)])
  moreover have "canonical_at (contents x) kv V' b'"
    if "is_valid_data_bucket b'" "b' \<in> set (b # bs) \<or> canonical_at (contents x) kv V b'" for b'
    using that V'(4) V1(4) frame_canonical_at [OF V1(3) b that(1)] by (cases "b' = b") auto
  ultimately show ?case
    using V'(2) by blast
qed

lemma canonicalize_at:
  assumes x: "ok x" and base: "base_ok (contents x)" and V: "state_ok V kv" and at: "eat x V R s"
    and set: "settled (meta_at (contents x)) V R kv" and rest: "rest_same (norm (contents x)) V"
    and order: "set (order R) = R" and n: "card (dom kv) < 2 ^ 38"
  shows "\<exists>u s' V'. canonicalize order s = (Ok u, s') \<and> eat x V' {} s' \<and> canonical (contents x) kv V' \<and>
    su_ok u \<and> chains_from u V \<and> apply_updates u V = V'"
proof -
  let ?s = "s\<lparr>rehashed_buckets := {}\<rparr>" and ?bs = "order (rehashed_buckets s)"
  have R: "rehashed_buckets s = R"
    using at by (simp add: eph_at_def)
  have at0: "eat x W R' (s'\<lparr>rehashed_buckets := R'\<rparr>)" if "eat x W R'' s'" for W R' R'' s'
    using that by (simp add: eph_at_def eph_inv_def view_def cur_def delta_of_def)
  have valid: "\<forall>b \<in> set ?bs. is_valid_data_bucket b"
    using set order by (simp add: R settled_def)
  obtain V' R' where V': "runs (canonicalize_loop ?bs) (?s, []) () (sat x V V' R')" "state_ok V' kv" "rest_same V V'"
      "\<forall>b. is_valid_data_bucket b \<longrightarrow> b \<in> set ?bs \<or> canonical_at (contents x) kv V b \<longrightarrow>
        canonical_at (contents x) kv V' b"
    using canonicalize_loop_at [OF x base V st_at_start [OF at0 [OF at]] valid n] by blast
  obtain s' u where s': "canonicalize_loop ?bs (?s, []) = (Ok (), (s', u))" "sat x V V' R' (s', u)"
    using V'(1) by (auto simp: runs_def)
  have at': "eat x V' {} (s'\<lparr>rehashed_buckets := {}\<rparr>)"
    by (rule at0 [OF st_at_eph [OF s'(2)]])
  have "canonical_at (contents x) kv V' b" if "is_valid_data_bucket b" for b
    using V'(4) that settled_canonical_at [OF set that] order by (simp add: R) blast
  then have "canonical (contents x) kv V'"
    using V'(2) rest_same_trans [OF rest V'(3)] eph_at_norm [OF at'] eph_at_metas_ok [OF at']
    by (simp add: canonical_def)
  moreover have "canonicalize order s = (Ok u, s'\<lparr>rehashed_buckets := {}\<rparr>)"
    using s'(1) by (simp add: canonicalize_def with_updates_def bind_def)
  ultimately show ?thesis
    using at' s'(2) unfolding st_at_def snd_conv by blast
qed

end

section \<open>Batches followed by canonicalization\<close>

lemma card_apply_batch:
  "finite (dom kv) \<Longrightarrow> finite (dom (apply_batch batch kv)) \<and>
     card (dom (apply_batch batch kv)) \<le> card (dom kv) + length batch"
proof (induction batch arbitrary: kv)
  case Nil
  then show ?case by (simp add: apply_batch_def)
next
  case (Cons y batch)
  obtain p v where y: "y = (p, v)" by (cases y)
  have sub: "dom (kv(p := v)) \<subseteq> insert p (dom kv)"
    by auto
  have fin: "finite (dom (kv(p := v)))"
    by (rule finite_subset [OF sub]) (simp add: Cons.prems)
  have "card (dom (kv(p := v))) \<le> card (insert p (dom kv))"
    by (rule card_mono [OF _ sub]) (simp add: Cons.prems)
  also have "\<dots> \<le> Suc (card (dom kv))"
    by (simp add: card_insert_if Cons.prems)
  finally have "card (dom (kv(p := v))) \<le> Suc (card (dom kv))" .
  moreover have "apply_batch (y # batch) kv = apply_batch batch (kv(p := v))"
    by (simp add: apply_batch_def y)
  ultimately show ?case
    using Cons.IH [OF fin] by (simp del: fun_upd_apply dom_fun_upd)
qed

lemma roomy_after: "roomy batch kv \<Longrightarrow> finite (dom kv) \<Longrightarrow> card (dom (apply_batch batch kv)) < 2 ^ 38"
  using card_apply_batch [of kv batch] by (simp add: roomy_def)

lemma apply_batch_append: "apply_batch (b1 @ b2) kv = apply_batch b2 (apply_batch b1 kv)"
  by (simp add: apply_batch_def)

text \<open>The updates that lead from the store's state to the canonical layout of \<open>kv\<close>.\<close>

definition canonical_updates :: "salt_state \<Rightarrow> kv_map \<Rightarrow> state_updates \<Rightarrow> bool" where
  "canonical_updates B kv u \<longleftrightarrow> card (dom kv) < 2 ^ 38 \<and> su_ok u \<and> chains_from u (norm B) \<and> canonical B kv (apply_updates u (norm B))"

lemma canonical_updates_unique: "canonical_updates B kv u \<Longrightarrow> canonical_updates B kv v \<Longrightarrow> u = v"
  using canonical_unique [of B kv "apply_updates u (norm B)" "apply_updates v (norm B)"]
  by (auto simp: canonical_updates_def intro: updates_ext)

lemma merge_at:
  assumes "su_ok u" "chains_from u V" "apply_updates u V = V'" "su_ok v" "chains_from v V'"
    and "apply_updates v V' = V''"
  shows "\<exists>w. merge v u = (Ok () :: (unit, 'e) res, w) \<and> su_ok w \<and> chains_from w V \<and> apply_updates w V = V''"
proof -
  obtain w where w: "try_merge v u = (Ok (), w)" "chains_from w V" "su_ok w" "apply_updates w V = V''"
    using try_merge_chains [of u V v] assms su_ok_bt by auto
  then show ?thesis
    using merge_eq [OF w(1)] by blast
qed

context full_reader
begin

lemma update_fin_at:
  assumes x: "ok x" and base: "base_ok (contents x)" and V: "state_ok V kv" and at: "eat x V R s"
    and set: "settled (meta_at (contents x)) V R kv" and rest: "rest_same (norm (contents x)) V"
    and order: "\<And>R. set (order R) = R" and batch: "batch_fits batch" "roomy batch kv"
  shows "\<exists>u s' V'. update_fin order batch s = (Ok u, s') \<and> eat x V' {} s' \<and>
    canonical (contents x) (apply_batch batch kv) V' \<and> su_ok u \<and> chains_from u V \<and> apply_updates u V = V'"
proof -
  obtain u1 V1 R1 s1 where u1: "update batch s = (Ok u1, s1)" "eat x V1 R1 s1"
      "state_ok V1 (apply_batch batch kv)" "rest_same V V1"
      "settled (meta_at (contents x)) V1 R1 (apply_batch batch kv)"
      "su_ok u1" "chains_from u1 V" "apply_updates u1 V = V1"
    using update_at [OF x V at batch] set by blast
  have n: "card (dom (apply_batch batch kv)) < 2 ^ 38"
    by (rule roomy_after [OF batch(2) state_ok_finite [OF V]])
  obtain u2 s2 V2 where u2: "canonicalize order s1 = (Ok u2, s2)" "eat x V2 {} s2"
      "canonical (contents x) (apply_batch batch kv) V2" "su_ok u2" "chains_from u2 V1" "apply_updates u2 V1 = V2"
    using canonicalize_at [where order = order, OF x base u1(3,2,5) rest_same_trans [OF rest u1(4)] order n] by blast
  obtain w where w: "merge u2 u1 = (Ok () :: (unit, 'e) res, w)" "su_ok w" "chains_from w V" "apply_updates w V = V2"
    using merge_at [OF u1(6-8) u2(4-6)] by blast
  have "update_fin order batch s = (Ok w, s2)"
    using u1(1) u2(1) w(1) by (simp add: update_fin_def bind_def)
  then show ?thesis
    using u2(2,3) w(2-4) by blast
qed

end

end
