(* ===== verification/Mem_State.thy ===== *)
theory Mem_State
  imports Canonical
begin

text \<open>
  The public methods of \<open>EphemeralSaltState\<close> and \<open>PlainStateProvider\<close> over a \<open>MemStore\<close>, stated
  without the machinery of the proofs. \<open>mem_holds ms kv\<close>: the store satisfies its invariant and
  its buckets are well-formed layouts of the map \<open>kv\<close>.
\<close>

definition mem_holds :: "mem_store \<Rightarrow> kv_map \<Rightarrow> bool" where
  "mem_holds ms kv \<longleftrightarrow> mem_ok ms \<and> state_ok (norm (mem_contents ms)) kv"

lemma mem_holds_new: "mem_holds mem_store_new (\<lambda>_. None)"
  by (simp add: mem_holds_def mem_ok_new state_ok_empty)

lemma mem_start:
  "mem_holds ms kv \<Longrightarrow>
     eph_at (mem_reader ms) (mem_contents ms) (norm (mem_contents ms)) {} (eph_new (mem_reader ms))"
  by (rule eph_at_new) (simp add: mem_holds_def mem_ok_def)

lemma mem_commit_holds:
  assumes "mem_holds ms kv" "su_ok u" "chains_from u (norm (mem_contents ms))"
    and "apply_updates u (norm (mem_contents ms)) = V'" "norm V' = V'" "metas_ok V'" "state_ok V' kv'"
  shows "mem_holds (update_state u ms) kv'"
proof -
  have V': "norm (apply_updates u (mem_contents ms)) = V'"
    using assms(4,5) norm_apply_updates [of u "mem_contents ms"] by simp
  have "metas_ok (apply_updates u (mem_contents ms))"
    by (rule chains_metas_ok) (use assms(4,6) in simp)
  then have "mem_ok (update_state u ms)"
      "mem_contents (update_state u ms) = apply_updates u (mem_contents ms)"
    using mem_update_state [of ms u] assms(1-3) by (auto simp: mem_holds_def su_ok_bt)
  then show ?thesis
    using assms(7) by (simp add: mem_holds_def V')
qed

lemma mem_update_at:
  assumes ms: "mem_holds ms kv" and batch: "batch_fits batch" "roomy batch kv"
  obtains u s' V' R' where "update batch (eph_new (mem_reader ms)) = (Ok u, s')"
    "eph_at (mem_reader ms) (mem_contents ms) V' R' s'" "state_ok V' (apply_batch batch kv)"
    "mem_holds (update_state u ms) (apply_batch batch kv)"
proof -
  have ok: "mem_ok ms" "state_ok (norm (mem_contents ms)) kv"
    using ms by (simp_all add: mem_holds_def)
  obtain u V' R' s' where u: "update batch (eph_new (mem_reader ms)) = (Ok u, s')"
      "eph_at (mem_reader ms) (mem_contents ms) V' R' s'" "state_ok V' (apply_batch batch kv)"
      "su_ok u" "chains_from u (norm (mem_contents ms))"
      "apply_updates u (norm (mem_contents ms)) = V'"
    using mem.update_at [OF ok mem_start [OF ms] batch] by blast
  have "mem_holds (update_state u ms) (apply_batch batch kv)"
    by (rule mem_commit_holds [OF ms u(4-6) eph_at_norm [OF u(2)] eph_at_metas_ok [OF u(2)] u(3)])
  then show ?thesis
    using that u(1-3) by blast
qed

lemma mem_plain_value_at:
  assumes "mem_ok ms" "state_ok V kv" "eph_at (mem_reader ms) (mem_contents ms) V R s"
  shows "fst (plain_value p s) = Ok (kv p)"
  using mem.plain_value_state [OF assms, of p] by (auto simp: runs_def)

text \<open>Fresh ephemeral states, with and without read caching.\<close>

definition fresh :: "mem_store \<Rightarrow> salt_error eph set" where
  "fresh ms = {eph_new (mem_reader ms), eph_cache_read (eph_new (mem_reader ms))}"

text \<open>No bucket is above the load factor that triggers a resize.\<close>

definition load_ok :: "mem_store \<Rightarrow> kv_map \<Rightarrow> bool" where
  "load_ok ms kv \<longleftrightarrow> (\<forall>b. is_valid_data_bucket b \<longrightarrow>
     100 * card (dom (bmap kv b)) \<le> 80 * unat (capacity (meta_at (mem_contents ms) b)))"

definition enumerates :: "(bucket_id set \<Rightarrow> bucket_id list) \<Rightarrow> bool" where
  "enumerates order \<longleftrightarrow> (\<forall>R. set (order R) = R)"

lemma enumerates_sorted: "enumerates sorted_list_of_set"
  by (simp add: enumerates_def)

lemma fresh_at:
  assumes "mem_holds ms kv" "s \<in> fresh ms"
  shows "eph_at (mem_reader ms) (mem_contents ms) (norm (mem_contents ms)) {} s"
proof -
  have "eph_at (mem_reader ms) (mem_contents ms) (norm (mem_contents ms)) {}
      (eph_cache_read (eph_new (mem_reader ms)))"
    by (rule eph_at_same_cur [OF mem_start [OF assms(1)]]) (simp_all add: eph_cache_read_def cur_def)
  then show ?thesis
    using assms mem_start by (auto simp: fresh_def)
qed

lemma mem_holds_base: "mem_holds ms kv \<Longrightarrow> base_ok (mem_contents ms)"
  unfolding base_ok_def mem_holds_def using bucket_okD(1,2) [OF state_ok_bucket] by (metis meta_at_norm)

lemma load_settled:
  "load_ok ms kv \<Longrightarrow> settled (meta_at (mem_contents ms)) (norm (mem_contents ms)) {} kv"
  by (simp add: load_ok_def settled_def)

lemma canonical_norm:
  "mem_holds ms kv \<Longrightarrow> load_ok ms kv \<Longrightarrow> canonical (mem_contents ms) kv (norm (mem_contents ms))"
  using settled_canonical_at [OF load_settled]
  by (auto simp: canonical_def mem_holds_def mem_ok_def)

lemma mem_update_fin_at:
  assumes ms: "mem_holds ms kv" "load_ok ms kv" and s: "s \<in> fresh ms" and order: "enumerates order"
    and batch: "batch_fits batch" "roomy batch kv"
  obtains u s' where "update_fin order batch s = (Ok u, s')"
    "canonical_updates (mem_contents ms) (apply_batch batch kv) u"
    "eph_at (mem_reader ms) (mem_contents ms) (apply_updates u (norm (mem_contents ms))) {} s'"
proof -
  have ok: "mem_ok ms" "state_ok (norm (mem_contents ms)) kv"
    using ms(1) by (simp_all add: mem_holds_def)
  have order': "\<And>R. set (order R) = R"
    using order by (simp add: enumerates_def)
  have n: "card (dom (apply_batch batch kv)) < 2 ^ 38"
    by (rule roomy_after [OF batch(2) state_ok_finite [OF ok(2)]])
  from mem.update_fin_at [where order = order, OF ok(1) mem_holds_base [OF ms(1)] ok(2) fresh_at [OF ms(1) s]
      load_settled [OF ms(2)] rest_same_refl order' batch]
  show ?thesis
    using that n unfolding canonical_updates_def by blast
qed

lemma canonical_updates_commit:
  assumes ms: "mem_holds ms kv" and u: "canonical_updates (mem_contents ms) kv' u"
  shows "mem_holds (update_state u ms) kv' \<and> load_ok (update_state u ms) kv'"
proof -
  let ?V = "apply_updates u (norm (mem_contents ms))"
  have c0: "su_ok u" "chains_from u (norm (mem_contents ms))" "canonical (mem_contents ms) kv' ?V"
    using u by (simp_all add: canonical_updates_def)
  have V: "state_ok ?V kv'" "norm ?V = ?V" "metas_ok ?V"
    using c0(3) by (simp_all add: canonical_def)
  have holds: "mem_holds (update_state u ms) kv'"
    by (rule mem_commit_holds [OF ms c0(1,2) refl V(2,3,1)])
  have con: "mem_contents (update_state u ms) = apply_updates u (mem_contents ms)"
    using update_state_store_kvs [OF su_ok_bt [OF c0(1)]] by (simp add: mem_contents_def update_state_def)
  have "100 * card (dom (bmap kv' b)) \<le> 80 * unat (capacity (meta_at (mem_contents (update_state u ms)) b))"
    if b: "is_valid_data_bucket b" for b
  proof -
    let ?n = "card (dom (bmap kv' b))" and ?m = "meta_at (mem_contents ms) b"
    have c: "unat (of_nat (resize_nat (unat (capacity ?m)) ?n) :: u64) = resize_nat (unat (capacity ?m)) ?n"
    proof (rule unat_of_nat_40, rule resize_nat_bound)
      show "0 < unat (capacity ?m)" "unat (capacity ?m) < 2 ^ 40"
        using base_okD [OF mem_holds_base [OF ms] b] by blast+
      have "card (dom kv') < 2 ^ 38"
        using u unfolding canonical_updates_def by blast
      then show "?n \<le> 2 ^ 38"
        using card_bmap_le [OF state_ok_finite [OF V(1)], of b] by linarith
    qed
    have "meta_at (mem_contents (update_state u ms)) b = meta_at ?V b"
      using meta_at_norm [OF b] norm_apply_updates V(2) unfolding con by metis
    also have "\<dots> = canon_meta ?m ?n"
      using c0(3) b by (simp add: canonical_def canonical_at_def)
    finally have "unat (capacity (meta_at (mem_contents (update_state u ms)) b)) = resize_nat (unat (capacity ?m)) ?n"
      using c by (simp add: canon_meta_def)
    then show ?thesis
      using resize_nat_load [of "unat (capacity ?m)" ?n] base_okD [OF mem_holds_base [OF ms] b] by simp
  qed
  with holds show ?thesis
    by (simp add: load_ok_def)
qed

section \<open>Properties\<close>

text \<open>C2: History independence. On a store that holds \<open>kv\<close> within its load factors, two batches
  that lead to the same final map give the very same \<open>StateUpdates\<close>, slot by slot and metadata
  included: the order of operations, intermediate insertions and deletions, premature resizes,
  read caching and the iteration order of the set of rehashed buckets leave no trace.\<close>
theorem history_independence:
  assumes "mem_holds ms kv" "load_ok ms kv" "s1 \<in> fresh ms" "s2 \<in> fresh ms"
    and "enumerates order1" "enumerates order2"
    and "batch_fits b1" "batch_fits b2" "roomy b1 kv" "roomy b2 kv"
    and "apply_batch b1 kv = apply_batch b2 kv"
  shows "\<exists>u s1' s2'. update_fin order1 b1 s1 = (Ok u, s1') \<and> update_fin order2 b2 s2 = (Ok u, s2')"
proof -
  obtain u s1' where u: "update_fin order1 b1 s1 = (Ok u, s1')"
      "canonical_updates (mem_contents ms) (apply_batch b1 kv) u"
    using mem_update_fin_at [OF assms(1,2,3,5,7,9)] by blast
  obtain v s2' where v: "update_fin order2 b2 s2 = (Ok v, s2')"
      "canonical_updates (mem_contents ms) (apply_batch b2 kv) v"
    using mem_update_fin_at [OF assms(1,2,4,6,8,10)] by blast
  have "u = v"
    using canonical_updates_unique u(2) v(2) assms(11) by metis
  then show ?thesis
    using u(1) v(1) by blast
qed

theorem history_independence_witness:
  "\<exists>u s1 s2.
     update_fin sorted_list_of_set [([1], Some [2]), ([3], Some [4])] (eph_new (mem_reader mem_store_new)) = (Ok u, s1) \<and>
     update_fin sorted_list_of_set [([3], Some [9]), ([7], Some [7]), ([3], Some [4]), ([1], Some [2]), ([7], None)]
       (eph_cache_read (eph_new (mem_reader mem_store_new))) = (Ok u, s2)"
proof (rule history_independence)
  show "mem_holds mem_store_new (\<lambda>_. None)"
    by (rule mem_holds_new)
  show "load_ok mem_store_new (\<lambda>_. None)"
    by (simp add: load_ok_def bmap_empty)
qed (auto simp: fresh_def enumerates_sorted batch_fits_def kv_fits_def roomy_def apply_batch_def fun_eq_iff)



text \<open>C11: Splitting a batch does not matter: updating in two steps, canonicalizing once at the end
  and merging the three sets of updates gives what \<open>update_fin\<close> gives on the whole batch.\<close>
theorem incremental_update:
  assumes "mem_holds ms kv" "load_ok ms kv" "s \<in> fresh ms" "enumerates order"
    and "batch_fits (b1 @ b2)" "roomy (b1 @ b2) kv"
  shows "\<exists>u1 s1 u2 s2 u3 s3 w1 w s'. update b1 s = (Ok u1, s1) \<and> update b2 s1 = (Ok u2, s2) \<and>
    canonicalize order s2 = (Ok u3, s3) \<and> merge u2 u1 = (Ok () :: (unit, salt_error) res, w1) \<and>
    merge u3 w1 = (Ok () :: (unit, salt_error) res, w) \<and> update_fin order (b1 @ b2) s = (Ok w, s')"
proof -
  let ?B = "mem_contents ms" and ?V = "norm (mem_contents ms)"
  have ok: "mem_ok ms" "state_ok ?V kv"
    using assms(1) by (simp_all add: mem_holds_def)
  have fits: "batch_fits b1" "batch_fits b2" and r1: "roomy b1 kv"
    using assms(5,6) by (auto simp: batch_fits_def roomy_def)
  have "card (dom (apply_batch b1 kv)) \<le> card (dom kv) + length b1"
    using card_apply_batch [OF state_ok_finite [OF ok(2)]] by blast
  then have r2: "roomy b2 (apply_batch b1 kv)"
    using assms(6) by (simp add: roomy_def)
  obtain u1 V1 R1 s1 where u1: "update b1 s = (Ok u1, s1)" "eph_at (mem_reader ms) ?B V1 R1 s1"
      "state_ok V1 (apply_batch b1 kv)" "rest_same ?V V1" "settled (meta_at ?B) V1 R1 (apply_batch b1 kv)"
      "su_ok u1" "chains_from u1 ?V" "apply_updates u1 ?V = V1"
    using mem.update_at [OF ok fresh_at [OF assms(1,3)] fits(1) r1] load_settled [OF assms(2)] by blast
  obtain u2 V2 R2 s2 where u2: "update b2 s1 = (Ok u2, s2)" "eph_at (mem_reader ms) ?B V2 R2 s2"
      "state_ok V2 (apply_batch (b1 @ b2) kv)" "rest_same V1 V2"
      "settled (meta_at ?B) V2 R2 (apply_batch (b1 @ b2) kv)"
      "su_ok u2" "chains_from u2 V1" "apply_updates u2 V1 = V2"
    using mem.update_at [OF ok(1) u1(3,2) fits(2) r2] u1(5) unfolding apply_batch_append by blast
  have n: "card (dom (apply_batch (b1 @ b2) kv)) < 2 ^ 38"
    by (rule roomy_after [OF assms(6) state_ok_finite [OF ok(2)]])
  have order: "set (order R2) = R2"
    using assms(4) by (simp add: enumerates_def)
  obtain u3 s3 V3 where u3: "canonicalize order s2 = (Ok u3, s3)" "canonical ?B (apply_batch (b1 @ b2) kv) V3"
      "su_ok u3" "chains_from u3 V2" "apply_updates u3 V2 = V3"
    using mem.canonicalize_at [where order = order, OF ok(1) mem_holds_base [OF assms(1)] u2(3,2,5)
        rest_same_trans [OF u1(4) u2(4)] order n] by blast
  obtain w1 where w1: "merge u2 u1 = (Ok () :: (unit, salt_error) res, w1)" "su_ok w1" "chains_from w1 ?V"
      "apply_updates w1 ?V = V2"
    using merge_at [OF u1(6-8) u2(6-8)] by blast
  obtain w where w: "merge u3 w1 = (Ok () :: (unit, salt_error) res, w)" "su_ok w" "chains_from w ?V"
      "apply_updates w ?V = V3"
    using merge_at [OF w1(2-4) u3(3-5)] by blast
  obtain u s' where u: "update_fin order (b1 @ b2) s = (Ok u, s')"
      "canonical_updates ?B (apply_batch (b1 @ b2) kv) u"
    using mem_update_fin_at [OF assms] by blast
  have "canonical_updates ?B (apply_batch (b1 @ b2) kv) w"
    using w(2-4) u3(2) n by (simp add: canonical_updates_def)
  then have "w = u"
    using u(2) canonical_updates_unique by blast
  then show ?thesis
    using u1(1) u2(1) u3(1) w1(1) w(1) u(1) by blast
qed

theorem incremental_update_witness:
  "\<exists>u1 s1 u2 s2. update [([1], Some [2])] (eph_new (mem_reader mem_store_new)) = (Ok u1, s1) \<and>
    update [([1], None)] s1 = (Ok u2, s2)"
  using incremental_update [OF mem_holds_new, of "eph_new (mem_reader mem_store_new)" sorted_list_of_set
      "[([1], Some [2])]" "[([1], None)]"]
  by (fastforce simp: load_ok_def bmap_empty batch_fits_def kv_fits_def roomy_def fresh_def enumerates_sorted)

text \<open>C12: A batch without net effect leaves no updates, even when it inserts, resizes and deletes
  on the way.\<close>
theorem no_net_effect:
  assumes "mem_holds ms kv" "load_ok ms kv" "s \<in> fresh ms" "enumerates order"
    and "batch_fits batch" "roomy batch kv" "apply_batch batch kv = kv"
  shows "\<exists>s'. update_fin order batch s = (Ok [], s')"
proof -
  obtain u s' where u: "update_fin order batch s = (Ok u, s')" "canonical_updates (mem_contents ms) kv u"
    using mem_update_fin_at [OF assms(1-6)] assms(7) by metis
  have "canonical_updates (mem_contents ms) kv []"
    using canonical_norm [OF assms(1,2)] assms(6) by (simp add: canonical_updates_def roomy_def)
  then have "u = []"
    using canonical_updates_unique u(2) by blast
  then show ?thesis
    using u(1) by blast
qed

theorem no_net_effect_witness:
  "\<exists>s'. update_fin sorted_list_of_set [([1], Some [2]), ([1], None)] (eph_new (mem_reader mem_store_new)) = (Ok [], s')"
  by (rule no_net_effect [OF mem_holds_new])
     (auto simp: load_ok_def bmap_empty batch_fits_def kv_fits_def roomy_def fresh_def enumerates_sorted
       apply_batch_def)

text \<open>C1: Batches are map updates: on a store that holds \<open>kv\<close>, \<open>update\<close> returns updates whose
  commitment yields a store that holds \<open>kv\<close> with the batch applied, insertions and deletions in
  order, whatever displacements, compactions and resizes the batch causes.\<close>
theorem mem_update_refines_map:
  assumes "mem_holds ms kv" "batch_fits batch" "roomy batch kv"
  shows "\<exists>u s'. update batch (eph_new (mem_reader ms)) = (Ok u, s') \<and>
    mem_holds (update_state u ms) (apply_batch batch kv)"
  using mem_update_at [OF assms] by metis

theorem mem_update_refines_map_witness:
  "\<exists>u s'. update [([1], Some [2]), ([3], None)] (eph_new (mem_reader mem_store_new)) = (Ok u, s') \<and>
    mem_holds (update_state u mem_store_new) ((\<lambda>_. None)([1] \<mapsto> [2], [3] := None))"
  using mem_update_refines_map [OF mem_holds_new, of "[([1], Some [2]), ([3], None)]"]
  by (auto simp: batch_fits_def kv_fits_def roomy_def apply_batch_def)

text \<open>C9: Read your writes: after \<open>update\<close>, before anything is committed, \<open>plain_value\<close> on the
  same state returns what the batch left under the key, and \<open>None\<close> for a deleted one.\<close>
theorem mem_read_your_writes:
  assumes "mem_holds ms kv" "batch_fits batch" "roomy batch kv"
  shows "\<exists>u s'. update batch (eph_new (mem_reader ms)) = (Ok u, s') \<and>
    (\<forall>p. fst (plain_value p s') = Ok (apply_batch batch kv p))"
proof -
  obtain u s' V' R' where u: "update batch (eph_new (mem_reader ms)) = (Ok u, s')"
      "eph_at (mem_reader ms) (mem_contents ms) V' R' s'" "state_ok V' (apply_batch batch kv)"
    using mem_update_at [OF assms] by metis
  have "mem_ok ms"
    using assms(1) by (simp add: mem_holds_def)
  then show ?thesis
    using u mem_plain_value_at by blast
qed

theorem mem_read_your_writes_witness:
  "\<exists>u s'. update [([1], Some [2])] (eph_new (mem_reader mem_store_new)) = (Ok u, s') \<and>
    fst (plain_value [1] s') = Ok (Some [2]) \<and> fst (plain_value [4] s') = Ok None"
  using mem_read_your_writes [OF mem_holds_new, of "[([1], Some [2])]"]
  by (auto simp: batch_fits_def kv_fits_def roomy_def apply_batch_def)

text \<open>C13: Changing a bucket's nonce moves its entries but not its contents: after \<open>set_nonce\<close> and
  a commit the store holds the same map, and the bucket has the new nonce and its old capacity.\<close>
theorem set_nonce_keeps_map:
  assumes "mem_holds ms kv" "is_valid_data_bucket b"
  shows "\<exists>u s'. set_nonce b n (eph_new (mem_reader ms)) = (Ok u, s') \<and> mem_holds (update_state u ms) kv \<and>
    meta_at (mem_contents (update_state u ms)) b = (meta_at (mem_contents ms) b)\<lparr>nonce := n\<rparr>"
proof -
  let ?B = "mem_contents ms" and ?V = "norm (mem_contents ms)" and ?s = "eph_new (mem_reader ms)"
  let ?c = "capacity (meta_at ?V b)"
  have ok: "mem_ok ms" "state_ok ?V kv"
    using assms(1) by (simp_all add: mem_holds_def)
  note V = state_ok_bucket [OF ok(2) assms(2)]
  obtain s1 where s1: "Ephemeral_State.metadata b False ?s = (Ok (meta_at ?V b), s1)" "mem.eat ms ?V {} s1"
    using mem.metadata_False_at [OF ok(1) mem_start [OF assms(1)] assms(2)] by (auto simp: runs_def)
  obtain V' where V': "runs (shi_rehash b n ?c) (s1, []) () (mem.sat ms ?V V' {b})"
      "bucket_ok V' b (bmap kv b)" "meta_at V' b = \<lparr>nonce = n, capacity = ?c, used = None\<rparr>" "frame b ?V V'"
    using mem.shi_rehash_at [OF ok(1) assms(2) V st_at_start [OF s1(2)] bucket_okD(1,2) [OF V] bucket_ok_le [OF V]]
    by blast
  obtain s2 u where u: "shi_rehash b n ?c (s1, []) = (Ok (), (s2, u))" "mem.sat ms ?V V' {b} (s2, u)"
    using V'(1) by (auto simp: runs_def)
  have "set_nonce b n ?s = (Ok u, s2)"
    using s1(1) u(1) by (simp add: set_nonce_def with_updates_def bind_def)
  moreover have at: "mem.eat ms V' {b} s2" "su_ok u" "chains_from u ?V" "apply_updates u ?V = V'"
    using u(2) by (simp_all add: st_at_def)
  have "mem_holds (update_state u ms) kv"
    by (rule mem_commit_holds [OF assms(1) at(2-4) eph_at_norm [OF at(1)] eph_at_metas_ok [OF at(1)]
        frame_state_ok [OF ok(2) V'(2,4) assms(2)]])
  moreover have "meta_at (mem_contents (update_state u ms)) b = meta_at V' b"
  proof -
    have "mem_contents (update_state u ms) = apply_updates u ?B"
      using update_state_store_kvs [OF su_ok_bt [OF at(2)]] by (simp add: mem_contents_def update_state_def)
    then show ?thesis
      using meta_at_norm [OF assms(2)] norm_apply_updates [of u ?B] eph_at_norm [OF at(1)] at(4) by metis
  qed
  then have "meta_at (mem_contents (update_state u ms)) b = (meta_at ?B b)\<lparr>nonce := n\<rparr>"
    using V'(3) meta_at_used [of ?B b] assms(2) by (cases "meta_at ?B b") simp
  ultimately show ?thesis
    by blast
qed

theorem set_nonce_keeps_map_witness:
  "\<exists>u s'. set_nonce 70000 5 (eph_new (mem_reader mem_store_new)) = (Ok u, s') \<and>
    mem_holds (update_state u mem_store_new) (\<lambda>_. None)"
  using set_nonce_keeps_map [OF mem_holds_new, of 70000 5] by (auto simp: is_valid_data_bucket_unat)

text \<open>C14: \<open>PlainStateProvider::plain_value\<close> looks up the map the store holds, with or without the
  bucket hint.\<close>
theorem provider_lookup:
  assumes "mem_holds ms kv" "hint \<in> {None, Some (bucket_id p)}"
  shows "provider_plain_value (mem_reader ms) p hint = Ok (kv p)"
proof -
  let ?V = "norm (mem_contents ms)" and ?b = "bucket_id p"
  let ?m = "meta_at (mem_contents ms) ?b" and ?M = "bmap kv (bucket_id p)"
  have ok: "mem_ok ms" "state_ok ?V kv"
    using assms(1) by (simp_all add: mem_holds_def)
  have b: "is_valid_data_bucket ?b"
    by simp
  note V = state_ok_bucket [OF ok(2) b]
  have m: "meta_at ?V ?b = ?m"
    by simp
  obtain u where u: "rd_metadata (mem_reader ms) ?b = Ok (?m\<lparr>used := u\<rparr>)"
    using mem.metadata [OF ok(1) b] by blast
  have read: "runs (lift_res (rd_value (mem_reader ms) k)) s (?V k) (\<lambda>_. True)"
    if "\<not> is_metadata_key k" for k and s :: unit
    using mem.reads [OF ok(1), of k] that by simp
  let ?f = "tab_find plain_key (unat (capacity ?m)) (home (nonce ?m) p) (tab ?V ?b) p (unat (capacity ?m)) 0"
  have "runs (shi_search (\<lambda>key. lift_res (rd_value (mem_reader ms) key)) ?b (nonce ?m) (capacity ?m) p) ()
      (map_option (\<lambda>(s, e). (of_nat s, e)) ?f) (\<lambda>_. True)"
    by (rule shi_search_runs) (use read b bucket_okD(2) [OF V] bucket_ok_valid [OF V] in \<open>simp_all add: m\<close>)
  then have search: "fst (shi_search (\<lambda>key. lift_res (rd_value (mem_reader ms) key)) ?b (nonce ?m) (capacity ?m) p ())
      = Ok (map_option (\<lambda>(s, e). (of_nat s, e)) ?f)"
    by (auto simp: runs_def)
  have find: "map_option snd ?f = ?M p"
    using tab_find_lookup [OF bucket_okD(4,5,1) [OF V], of p] by (simp add: m)
  have val: "map_option plain_val (?M p) = kv p" "\<And>e. ?M p = Some e \<Longrightarrow> sv_valid e"
    using ok(2) bucket_okD(6) [OF V] sv_canon_valid
    by (cases "kv p"; auto simp: bmap_lookup state_ok_def sv_map_def)+
  show ?thesis
    using assms(2) u search val [unfolded find [symmetric]]
    by (cases ?f) (auto simp: provider_plain_value_def provider_plain_value_and_slot_def)
qed

theorem provider_lookup_witness:
  "provider_plain_value (mem_reader mem_store_new) [1, 2, 3] None = Ok None"
  using provider_lookup [OF mem_holds_new, of None "[1, 2, 3]"] by simp

text \<open>A record that does not fit in 94 bytes aborts the batch: \<open>shi_upsert\<close> panics before it
  changes anything.\<close>
theorem upsert_too_long:
  assumes "92 < length pkey + length pval"
  shows "shi_upsert b pkey pval st = (Panic, st)"
proof -
  have "(salt_value_new pkey pval :: (_, 'a) res) = Panic"
    by (rule salt_value_new_panic) (use assms in \<open>simp add: kv_fits_def\<close>)
  then show ?thesis
    by (simp add: shi_upsert_def upsert_rec.simps [of b pkey pval] upsert_once_def)
qed

theorem upsert_too_long_witness:
  "fst (shi_upsert 70000 (replicate 90 1) [1, 2, 3] (eph_new (mem_reader mem_store_new), [])) = Panic"
  by (simp add: upsert_too_long)

end
