(* ===== verification/Witness.thy ===== *)
theory Witness
  imports Salt_Witness Mem_State
begin

text \<open>
  \<open>Witness\<close>, \<open>salt/src/proof/witness.rs\<close>: a \<open>SaltWitness\<close> with a table from plain keys to slots,
  created by replaying lookups and updates on a recording state, reconstructed from a
  \<open>SaltWitness\<close>, and verified by finding every listed key where the table says it is. The hash
  map of the table is an association list, its iteration order the key order.
\<close>

record ('el, 'pf) plain_witness =
  direct_lookup_tbl :: "(bytes, salt_key) btree"
  pw_salt_witness :: "('el, 'pf) salt_witness"

section \<open>Reconstruction\<close>

fun lookup_tbl_loop ::
  "(salt_key \<times> salt_value option) list \<Rightarrow> (bytes, salt_key) btree \<Rightarrow> ((bytes, salt_key) btree, 'e) res"
where
  "lookup_tbl_loop [] tbl = Ok tbl"
| "lookup_tbl_loop ((salt_key, val) # data) tbl =
     (if is_in_meta_bucket salt_key then lookup_tbl_loop data tbl
      else case val of
             Some salt_val \<Rightarrow> bind_res (sv_key salt_val) (\<lambda>plain. lookup_tbl_loop data (bt_insert plain salt_key tbl))
           | None \<Rightarrow> lookup_tbl_loop data tbl)"

definition witness_from :: "('el, 'pf) salt_witness \<Rightarrow> (('el, 'pf) plain_witness, 'e) res" where
  "witness_from sw = map_res (\<lambda>tbl. \<lparr>direct_lookup_tbl = tbl, pw_salt_witness = sw\<rparr>)
     (lookup_tbl_loop (sw_kvs sw) [])"

section \<open>Creation\<close>

text \<open>
  Lookups: a key that exists is witnessed at its slot and listed, a key that does not is searched
  for by the recorder, whose cache collects the probed slots.
\<close>

fun lookups_loop ::
  "'e reader \<Rightarrow> bytes list \<Rightarrow> 'e eph \<Rightarrow> 'e eph \<Rightarrow> (bytes, salt_key) btree \<Rightarrow> salt_key list \<Rightarrow>
   ('e eph \<times> 'e eph \<times> (bytes, salt_key) btree \<times> salt_key list, 'e) res"
where
  "lookups_loop rd [] state recorder tbl witnessed_keys = Ok (state, recorder, tbl, witnessed_keys)"
| "lookups_loop rd (plain # lookups) state recorder tbl witnessed_keys =
     (let b = bucket_id plain in
      bind_res (rd_metadata rd b) (\<lambda>meta.
      case shi_find b (nonce meta) (capacity meta) plain state of (r, state) \<Rightarrow>
      bind_res r (\<lambda>found.
      case found of
        Some (slot, _) \<Rightarrow>
          let salt_key = salt_key_from b slot
          in lookups_loop rd lookups state recorder (bt_insert plain salt_key tbl) (witnessed_keys @ [salt_key])
      | None \<Rightarrow>
          (case plain_value plain recorder of (r, recorder) \<Rightarrow>
           bind_res r (\<lambda>_. lookups_loop rd lookups state recorder tbl witnessed_keys)))))"

text \<open>
  Updates: an entry that overwrites an existing key is treated like a lookup, the others are kept
  for the recorder; \<open>.ok()?\<close> drops an entry whose lookup fails.
\<close>

fun updates_loop ::
  "'e reader \<Rightarrow> (bytes \<times> bytes option) list \<Rightarrow> 'e eph \<Rightarrow> (bytes, salt_key) btree \<Rightarrow> salt_key list \<Rightarrow>
   ('e eph \<times> (bytes, salt_key) btree \<times> salt_key list \<times> (bytes \<times> bytes option) list, 'e) res"
where
  "updates_loop rd [] state tbl witnessed_keys = Ok (state, tbl, witnessed_keys, [])"
| "updates_loop rd ((plain, new_value) # updates) state tbl witnessed_keys =
     (let b = bucket_id plain in
      case rd_metadata rd b of
        Err _ \<Rightarrow> updates_loop rd updates state tbl witnessed_keys
      | Panic \<Rightarrow> Panic
      | Diverge \<Rightarrow> Diverge
      | Ok meta \<Rightarrow>
          (case shi_find b (nonce meta) (capacity meta) plain state of
             (Err _, state) \<Rightarrow> updates_loop rd updates state tbl witnessed_keys
           | (Panic, state) \<Rightarrow> Panic
           | (Diverge, state) \<Rightarrow> Diverge
           | (Ok found, state) \<Rightarrow>
               (case (found, new_value) of
                  (Some (slot, _), Some _) \<Rightarrow>
                    let salt_key = salt_key_from b slot
                    in updates_loop rd updates state (bt_insert plain salt_key tbl) (witnessed_keys @ [salt_key])
                | _ \<Rightarrow>
                    map_res (\<lambda>(state, tbl, keys, rest). (state, tbl, keys, (plain, new_value) # rest))
                      (updates_loop rd updates state tbl witnessed_keys))))"

text \<open>The old capacities of the buckets whose metadata the recorded updates change.\<close>

definition old_capacity :: "salt_key \<times> salt_value option \<times> salt_value option \<Rightarrow> ((bucket_id \<times> u64) option, 'e) res" where
  "old_capacity = (\<lambda>(key, old_val, _). case old_val of
       None \<Rightarrow> Ok None
     | Some v \<Rightarrow> (case meta_of_salt_value v of
         Ok meta \<Rightarrow> map_res (\<lambda>b. Some (b, capacity meta)) (bucket_id_from_metadata_key key)
       | Err _ \<Rightarrow> Ok None
       | Panic \<Rightarrow> Panic
       | Diverge \<Rightarrow> Diverge))"

definition old_capacities :: "state_updates \<Rightarrow> ((bucket_id, u64) btree, 'e) res" where
  "old_capacities u =
     map_res (\<lambda>cs. bt_collect (List.map_filter id cs))
       (map_collect old_capacity (bt_range (fst METADATA_KEYS_RANGE) (snd METADATA_KEYS_RANGE) u))"

definition within_old_capacity :: "(bucket_id, u64) btree \<Rightarrow> salt_key \<Rightarrow> bool" where
  "within_old_capacity caps key = (case bt_get caps (key_bucket_id key) of
       None \<Rightarrow> True
     | Some old_cap \<Rightarrow> key_slot_id key < old_cap)"

definition witness_keys ::
  "bucket_id list \<Rightarrow> bytes list \<Rightarrow> (bytes, bytes option) btree \<Rightarrow> 'e reader \<Rightarrow>
   ((bytes, salt_key) btree \<times> salt_key list, 'e) res"
where
  "witness_keys bucket_ids lookups updates rd =
     bind_res (map_collect bucket_metadata_key bucket_ids) (\<lambda>meta_keys.
     bind_res (lookups_loop rd lookups (eph_new rd) (eph_cache_read (eph_new rd)) [] meta_keys)
       (\<lambda>(state, recorder, tbl, witnessed_keys).
     bind_res (updates_loop rd updates state tbl witnessed_keys)
       (\<lambda>(state, tbl, witnessed_keys, inserts_or_deletes).
     case update inserts_or_deletes recorder of (r, recorder) \<Rightarrow>
     bind_res r (\<lambda>state_updates.
     bind_res (old_capacities state_updates) (\<lambda>caps.
     Ok (tbl, witnessed_keys @ filter (within_old_capacity caps) (map fst (cache recorder))))))))"

definition witness_create ::
  "('el, 'fr, 'pf) crypto \<Rightarrow> nat \<Rightarrow> bucket_id list \<Rightarrow> bytes list \<Rightarrow> (bytes, bytes option) btree \<Rightarrow>
   'e reader \<Rightarrow> 'e trie_reader \<Rightarrow> (('el, 'pf) plain_witness, 'e proof_error) res"
where
  "witness_create cr threads bucket_ids lookups updates rd tr =
     bind_res (map_err (\<lambda>e. StateReadError (StateUnreadable e)) (witness_keys bucket_ids lookups updates rd))
       (\<lambda>(tbl, witnessed_keys).
     bind_res (sw_create cr threads witnessed_keys rd tr) (\<lambda>sw.
     Ok \<lparr>direct_lookup_tbl = tbl, pw_salt_witness = sw\<rparr>))"

section \<open>Reading and verification\<close>

definition pw_plain_value_fast :: "('el, 'pf) plain_witness \<Rightarrow> bytes \<Rightarrow> (salt_key, salt_error) res" where
  "pw_plain_value_fast w plain = (case bt_get (direct_lookup_tbl w) plain of
       Some salt_key \<Rightarrow> Ok salt_key
     | None \<Rightarrow> Err (NotInWitness ''Plain key''))"

definition pw_reader :: "('el, 'pf) plain_witness \<Rightarrow> salt_error reader" where
  "pw_reader w = \<lparr>rd_value = sw_value (pw_salt_witness w), rd_entries = sw_entries (pw_salt_witness w),
     rd_metadata = sw_metadata (pw_salt_witness w),
     rd_bucket_used_slots = sw_bucket_used_slots (pw_salt_witness w),
     rd_plain_value_fast = pw_plain_value_fast w\<rparr>"

definition pw_trie :: "('el, 'fr, 'pf) crypto \<Rightarrow> ('el, 'pf) plain_witness \<Rightarrow> salt_error trie_reader" where
  "pw_trie cr w = sw_trie cr (pw_salt_witness w)"

definition pw_state_root ::
  "('el, 'fr, 'pf) crypto \<Rightarrow> ('el, 'pf) plain_witness \<Rightarrow> (bytes, 'e proof_error) res"
where
  "pw_state_root cr w = sw_state_root cr (pw_salt_witness w)"

fun verify_tbl_loop ::
  "(bytes \<times> salt_key) list \<Rightarrow> salt_error eph \<Rightarrow> (unit, salt_error proof_error) res"
where
  "verify_tbl_loop [] state = Ok ()"
| "verify_tbl_loop ((plain, expected_salt_key) # tbl) state =
     (case direct_find plain state of
        (Ok (Some (k, _)), state) \<Rightarrow>
          if k = expected_salt_key then verify_tbl_loop tbl state
          else Err (InvalidLookupTable (WrongLocation plain))
      | (Panic, state) \<Rightarrow> Panic
      | (Diverge, state) \<Rightarrow> Diverge
      | (_, state) \<Rightarrow> Err (InvalidLookupTable (ClaimedButNotFound plain)))"

definition witness_verify ::
  "('el, 'fr, 'pf) crypto \<Rightarrow> nat \<Rightarrow> ('el, 'pf) plain_witness \<Rightarrow> (unit, salt_error proof_error) res"
where
  "witness_verify cr threads w =
     bind_res (sw_verify_proof cr threads (pw_salt_witness w)) (\<lambda>_.
     verify_tbl_loop (direct_lookup_tbl w) (eph_new (pw_reader w)))"

end
