(* ===== verification/Stateless.thy ===== *)
theory Stateless
  imports Witness
begin

text \<open>
  Stateless execution: the operations of \<open>EphemeralSaltState\<close> over a partial reader, such as a
  witness, against the same operations over the full state. \<open>follows\<close> says that a computation
  that succeeds on the partial reader makes the same steps on the full one; the locale
  \<open>reader_pair\<close> states when two readers are related, and carries the result through every
  operation. A \<open>SaltWitness\<close> that agrees with a state, paired with that state, is its interpretation.
\<close>

section \<open>Following a computation\<close>

definition follows :: "('s \<Rightarrow> 's) \<Rightarrow> ('s \<Rightarrow> bool) \<Rightarrow> ('s, 'a, 'e) comp \<Rightarrow> bool" where
  "follows put I m \<longleftrightarrow>
     (\<forall>s a s'. I s \<longrightarrow> m s = (Ok a, s') \<longrightarrow> I s' \<and> m (put s) = (Ok a, put s'))"

named_theorems follow \<open>computations that a full reader follows\<close>

lemma followsD: "follows put I m \<Longrightarrow> I s \<Longrightarrow> m s = (Ok a, s') \<Longrightarrow> I s' \<and> m (put s) = (Ok a, put s')"
  by (simp add: follows_def)

lemma followsI: "(\<And>s a s'. I s \<Longrightarrow> m s = (Ok a, s') \<Longrightarrow> I s' \<and> m (put s) = (Ok a, put s')) \<Longrightarrow> follows put I m"
  by (simp add: follows_def)

lemma follows_ret [follow]: "follows put I (ret a)"
  by (simp add: follows_def)

lemma follows_lift [follow]: "follows put I (lift_res r)"
  by (simp add: follows_def)

lemma follows_bind [follow]: "follows put I m \<Longrightarrow> (\<And>a. follows put I (f a)) \<Longrightarrow> follows put I (bind m f)"
proof (rule followsI)
  fix s a s'
  assume m: "follows put I m" and f: "\<And>a. follows put I (f a)" and s: "I s" and run: "bind m f s = (Ok a, s')"
  obtain r t where t: "m s = (r, t)" by (cases "m s")
  then obtain x where x: "r = Ok x" "f x t = (Ok a, s')"
    using run by (cases r) (simp_all add: bind_def)
  have "I t \<and> m (put s) = (Ok x, put t)"
    using followsD [OF m s] t x by simp
  then show "I s' \<and> bind m f (put s) = (Ok a, put s')"
    using followsD [OF f _ x(2)] by (simp add: bind_def)
qed

lemma follows_if [follow]:
  "(P \<Longrightarrow> follows put I m) \<Longrightarrow> (\<not> P \<Longrightarrow> follows put I n) \<Longrightarrow> follows put I (if P then m else n)"
  by simp

lemma follows_option [follow]:
  "follows put I m \<Longrightarrow> (\<And>x. follows put I (f x)) \<Longrightarrow> follows put I (case z of None \<Rightarrow> m | Some x \<Rightarrow> f x)"
  by (cases z) simp_all

lemma follows_prod [follow]: "(\<And>x y. follows put I (f x y)) \<Longrightarrow> follows put I (case z of (x, y) \<Rightarrow> f x y)"
  by (cases z) simp

text \<open>The store of an ephemeral state, the rest of it, and the updates beside it.\<close>

definition on_store :: "'e reader \<Rightarrow> 'e eph \<Rightarrow> 'e eph" where
  "on_store rd s = s\<lparr>store := rd\<rparr>"

definition reads_from :: "'e reader \<Rightarrow> bucket_id set \<Rightarrow> 'e eph \<Rightarrow> bool" where
  "reads_from rd B s \<longleftrightarrow> store s = rd \<and> rehashed_buckets s \<subseteq> B"

lemma on_store_simps [simp]:
  "store (on_store rd s) = rd" "cache (on_store rd s) = cache s"
  "usage_count_delta (on_store rd s) = usage_count_delta s"
  "rehashed_buckets (on_store rd s) = rehashed_buckets s" "cache_reads (on_store rd s) = cache_reads s"
  "on_store rd (cache_insert k v s) = cache_insert k v (on_store rd s)"
  "on_store rd (bump_usage b d s) = bump_usage b d (on_store rd s)"
  by (simp_all add: on_store_def cache_insert_def bump_usage_def)

lemma reads_from_simps [simp]:
  "reads_from rd B (cache_insert k v s) = reads_from rd B s"
  "reads_from rd B (bump_usage b d s) = reads_from rd B s"
  by (simp_all add: reads_from_def cache_insert_def bump_usage_def)

definition on_pair :: "('s \<Rightarrow> 's) \<Rightarrow> 's \<times> 'u \<Rightarrow> 's \<times> 'u" where
  "on_pair put = (\<lambda>(s, u). (put s, u))"

lemma on_pair_simps [simp]:
  "on_pair put (s, u) = (put s, u)" "fst (on_pair put st) = put (fst st)" "snd (on_pair put st) = snd st"
  by (simp_all add: on_pair_def split: prod.split)

lemma follows_on_fst [follow]:
  "follows put I m \<Longrightarrow> follows (on_pair put) (I \<circ> fst) (on_fst m)"
  by (auto simp: follows_def on_fst_def split: prod.splits)

lemma follows_if_ok_some:
  assumes "follows put I m" "\<And>x. follows put I (f x)" "follows put I g"
    and "\<And>s e s'. I s \<Longrightarrow> m s = (Err e, s') \<Longrightarrow> False"
  shows "follows put I (if_ok_some m f g)"
proof (rule followsI)
  fix s a s'
  assume s: "I s" and run: "if_ok_some m f g s = (Ok a, s')"
  obtain r t where m: "m s = (r, t)" by (cases "m s")
  then obtain z where r: "r = Ok z"
    using run assms(4) [OF s] by (cases r) (auto simp: if_ok_some_def)
  have t: "I t" "m (put s) = (Ok z, put t)"
    using followsD [OF assms(1) s] m r by auto
  have "(case z of None \<Rightarrow> g t | Some x \<Rightarrow> f x t) = (Ok a, s')"
    using run m r by (cases z) (simp_all add: if_ok_some_def)
  then show "I s' \<and> if_ok_some m f g (put s) = (Ok a, put s')"
    using t followsD [OF assms(2) t(1)] followsD [OF assms(3) t(1)]
    by (cases z) (auto simp: if_ok_some_def)
qed

definition eph_follows :: "'e reader \<Rightarrow> 'e reader \<Rightarrow> bucket_id set \<Rightarrow> ('e, 'a) eph_comp \<Rightarrow> bool" where
  "eph_follows rd rd' B = follows (on_store rd') (reads_from rd B)"

definition upd_follows :: "'e reader \<Rightarrow> 'e reader \<Rightarrow> bucket_id set \<Rightarrow> ('e, 'a) upd_comp \<Rightarrow> bool" where
  "upd_follows rd rd' B = follows (on_pair (on_store rd')) (reads_from rd B \<circ> fst)"

text \<open>The rules above for the two kinds of computations.\<close>

lemma eph_follows_rules [follow]:
  "eph_follows rd rd' B (ret a)" "eph_follows rd rd' B (lift_res r)"
  "eph_follows rd rd' B m \<Longrightarrow> (\<And>a. eph_follows rd rd' B (f a)) \<Longrightarrow> eph_follows rd rd' B (bind m f)"
  "(P \<Longrightarrow> eph_follows rd rd' B m) \<Longrightarrow> (\<not> P \<Longrightarrow> eph_follows rd rd' B n) \<Longrightarrow> eph_follows rd rd' B (if P then m else n)"
  "eph_follows rd rd' B m \<Longrightarrow> (\<And>x. eph_follows rd rd' B (g x)) \<Longrightarrow>
    eph_follows rd rd' B (case z of None \<Rightarrow> m | Some x \<Rightarrow> g x)"
  "(\<And>u v. eph_follows rd rd' B (h u v)) \<Longrightarrow> eph_follows rd rd' B (case w of (u, v) \<Rightarrow> h u v)"
  unfolding eph_follows_def by (rule follow; assumption)+

lemma upd_follows_rules [follow]:
  "upd_follows rd rd' B (ret a)" "upd_follows rd rd' B (lift_res r)"
  "upd_follows rd rd' B m \<Longrightarrow> (\<And>a. upd_follows rd rd' B (f a)) \<Longrightarrow> upd_follows rd rd' B (bind m f)"
  "(P \<Longrightarrow> upd_follows rd rd' B m) \<Longrightarrow> (\<not> P \<Longrightarrow> upd_follows rd rd' B n) \<Longrightarrow> upd_follows rd rd' B (if P then m else n)"
  "upd_follows rd rd' B m \<Longrightarrow> (\<And>x. upd_follows rd rd' B (g x)) \<Longrightarrow>
    upd_follows rd rd' B (case z of None \<Rightarrow> m | Some x \<Rightarrow> g x)"
  "(\<And>u v. upd_follows rd rd' B (h u v)) \<Longrightarrow> upd_follows rd rd' B (case w of (u, v) \<Rightarrow> h u v)"
  "eph_follows rd rd' B e \<Longrightarrow> upd_follows rd rd' B (on_fst e)"
  unfolding eph_follows_def upd_follows_def by (rule follow; assumption)+

section \<open>Pairs of readers\<close>

text \<open>
  \<open>part x\<close> reads less than \<open>full x\<close>: what it reads is what the full reader reads, and it knows the
  slot counts of the buckets in \<open>touched x\<close>. In a \<open>reader_pair\<close> neither has direct lookup.
\<close>

locale partial_reader =
  fixes part :: "'x \<Rightarrow> 'e reader"
    and full :: "'x \<Rightarrow> 'e reader"
    and touched :: "'x \<Rightarrow> bucket_id set"
    and agree :: "'x \<Rightarrow> bool"
  assumes value_le: "agree x \<Longrightarrow> rd_value (part x) k = Ok v \<Longrightarrow> rd_value (full x) k = Ok v"
    and metadata_le: "agree x \<Longrightarrow> rd_metadata (part x) b = Ok m \<Longrightarrow> rd_metadata (full x) b = Ok m"
    and used_le: "agree x \<Longrightarrow> rd_bucket_used_slots (part x) b = Ok n \<Longrightarrow> rd_bucket_used_slots (full x) b = Ok n"
    and used_ok: "agree x \<Longrightarrow> b \<in> touched x \<Longrightarrow> \<exists>n. rd_bucket_used_slots (part x) b = Ok n"
begin

lemma eph_value_follows [follow]: "agree x \<Longrightarrow> eph_follows (part x) (full x) (touched x) (eph_value k)"
  using value_le [of x k] unfolding eph_follows_def
  by (intro followsI)
     (auto simp: eph_value_def bind_def reads_from_def lift_res_def split: option.splits res.splits)

lemma usage_count_le:
  "agree x \<Longrightarrow> store s = part x \<Longrightarrow> usage_count b s = Ok n \<Longrightarrow> usage_count b (on_store (full x) s) = Ok n"
  using used_le [of x b] by (auto simp: usage_count_def bind_res_Ok_iff)

lemma usage_count_known:
  assumes "agree x" "store s = part x" "b \<in> touched x"
  shows "usage_count b (on_store (full x) s) = usage_count b s \<and> (\<forall>e. usage_count b s \<noteq> Err e)"
proof -
  obtain n where "rd_bucket_used_slots (part x) b = Ok n" "rd_bucket_used_slots (full x) b = Ok n"
    using used_ok [OF assms(1,3)] used_le [OF assms(1)] by blast
  then show ?thesis
    using assms(2) by (simp add: usage_count_def Let_def)
qed

lemma cached_metadata_follows [follow]:
  "agree x \<Longrightarrow> eph_follows (part x) (full x) (touched x) (cached_metadata b mk)"
  using metadata_le [of x b] unfolding eph_follows_def
  by (intro followsI)
     (auto simp: cached_metadata_def bind_def reads_from_def lift_res_def split: option.splits res.splits)

lemma used_follows [follow]:
  "agree x \<Longrightarrow> eph_follows (part x) (full x) (touched x) (\<lambda>s. (Salt_Prelude.map_res Some (usage_count b s), s))"
  using usage_count_le [of x _ b] unfolding eph_follows_def
  by (intro followsI) (auto simp: reads_from_def map_res_Ok_iff)

lemma metadata_follows [follow]: "agree x \<Longrightarrow> eph_follows (part x) (full x) (touched x) (metadata b u)"
  unfolding metadata_def by (intro follow)

lemma search_loop_follows [follow]:
  "agree x \<Longrightarrow> eph_follows (part x) (full x) (touched x) (search_loop eph_value b h cap p n i)"
proof (induction n arbitrary: i)
  case (Suc n)
  then show ?case
    unfolding search_loop.simps Let_def by (intro follow) simp_all
qed (simp add: follow)

lemma shi_find_follows [follow]: "agree x \<Longrightarrow> eph_follows (part x) (full x) (touched x) (shi_find b n c p)"
  unfolding shi_find_def shi_search_def by (intro follow)

text \<open>From a fresh state.\<close>

lemma fresh_follows:
  assumes "eph_follows (part x) (full x) (touched x) m" "m (eph_new (part x)) = (Ok a, s')"
  shows "m (eph_new (full x)) = (Ok a, on_store (full x) s')"
proof -
  have "reads_from (part x) (touched x) (eph_new (part x))" "on_store (full x) (eph_new (part x)) = eph_new (full x)"
    by (simp_all add: reads_from_def eph_new_def on_store_def)
  then show ?thesis
    using followsD [OF assms(1) [unfolded eph_follows_def] _ assms(2)] by simp
qed

end

locale reader_pair = partial_reader part full touched agree
  for part :: "'x \<Rightarrow> 'e reader"
    and full :: "'x \<Rightarrow> 'e reader"
    and touched :: "'x \<Rightarrow> bucket_id set"
    and agree :: "'x \<Rightarrow> bool" +
  assumes fast_part: "agree x \<Longrightarrow> \<exists>e. rd_plain_value_fast (part x) p = Err e"
    and fast_full: "agree x \<Longrightarrow> \<exists>e. rd_plain_value_fast (full x) p = Err e"
begin

lemma direct_find_none:
  "agree x \<Longrightarrow> store s = part x \<or> store s = full x \<Longrightarrow> direct_find p s = (Ok None, s)"
  using fast_part [of x p] fast_full [of x p] by (auto simp: direct_find_def)

lemma find_kv_follows [follow]: "agree x \<Longrightarrow> eph_follows (part x) (full x) (touched x) (find_kv p)"
proof -
  assume x: "agree x"
  show ?thesis
    unfolding find_kv_def eph_follows_def
  proof (rule follows_if_ok_some)
    show "follows (on_store (full x)) (reads_from (part x) (touched x)) (direct_find p)"
      using direct_find_none [OF x] by (intro followsI) (auto simp: reads_from_def)
    show "follows (on_store (full x)) (reads_from (part x) (touched x))
       (let b = bucket_id p in bind (metadata b False) (\<lambda>meta.
        bind (shi_find b (nonce meta) (capacity meta) p) (\<lambda>r.
        case r of Some (slot, salt_val) \<Rightarrow> ret (Some (salt_key_from b slot, salt_val)) | None \<Rightarrow> ret None)))"
      unfolding Let_def eph_follows_def [symmetric] by (intro follow x)
  qed (use direct_find_none [OF x] in \<open>auto simp: reads_from_def intro: follow\<close>)
qed

lemma plain_value_follows [follow]: "agree x \<Longrightarrow> eph_follows (part x) (full x) (touched x) (plain_value p)"
  unfolding plain_value_def by (intro follow)

lemma update_value_follows [follow]: "agree x \<Longrightarrow> upd_follows (part x) (full x) (touched x) (update_value k v w)"
  unfolding upd_follows_def update_value_def
  by (intro followsI) (auto simp: Let_def split: prod.splits if_splits)

lemma next_loop_follows [follow]:
  "agree x \<Longrightarrow> eph_follows (part x) (full x) (touched x) (next_loop b d nn cap n i)"
proof (induction n arbitrary: i)
  case (Suc n)
  then show ?case
    unfolding next_loop.simps Let_def by (intro follow) simp_all
qed (simp add: follow)

lemma shi_next_follows [follow]: "agree x \<Longrightarrow> eph_follows (part x) (full x) (touched x) (shi_next b d n c)"
  unfolding shi_next_def by (intro follow)

lemma upd_step:
  "upd_follows (part x) (full x) (touched x) m \<Longrightarrow> reads_from (part x) (touched x) (fst st) \<Longrightarrow>
    m st = (Ok a, st') \<Longrightarrow> reads_from (part x) (touched x) (fst st') \<and>
      m (on_pair (on_store (full x)) st) = (Ok a, on_pair (on_store (full x)) st')"
  by (auto simp: upd_follows_def dest: followsD)

lemma delete_loop_follows:
  assumes x: "agree x" and run: "delete_loop b n c d v st = Some r"
  shows "\<forall>a st'. r = (Ok a, st') \<longrightarrow> reads_from (part x) (touched x) (fst st) \<longrightarrow>
    reads_from (part x) (touched x) (fst st') \<and>
    delete_loop b n c d v (on_pair (on_store (full x)) st) = Some (Ok a, on_pair (on_store (full x)) st')"
    (is "?P b n c d v st r")
proof (rule delete_loop.raw_induct [where P = ?P, OF _ run], goal_cases)
  case (1 loop b n c d v st r)
  note upd = upd_step [OF update_value_follows [OF x]]
  show ?case
  proof (intro allI impI)
    fix a st'
    assume r: "r = (Ok a, st')" and I: "reads_from (part x) (touched x) (fst st)"
    obtain f st1 where f: "on_fst (shi_next b d n c) st = (Ok f, st1)"
      using 1(2) r by (cases "on_fst (shi_next b d n c) st") (auto split: res.splits)
    note st1 = upd_step [OF upd_follows_rules(7) [OF shi_next_follows [OF x, of b d n c]] I f]
    show "reads_from (part x) (touched x) (fst st') \<and>
      delete_loop b n c d v (on_pair (on_store (full x)) st) = Some (Ok a, on_pair (on_store (full x)) st')"
    proof (cases f)
      case None
      then have "update_value (salt_key_from b d) (Some v) None st1 = (Ok a, st')"
        using 1(2) r f by simp
      then show ?thesis
        using upd [of st1] st1 None by (subst delete_loop.simps) simp
    next
      case (Some p)
      obtain slot w where p: "p = (slot, w)" by (cases p)
      obtain y st2 where st2: "update_value (salt_key_from b d) (Some v) (Some w) st1 = (Ok y, st2)"
          "loop b n c slot w st2 = Some r"
        using 1(2) r f Some p
        by (cases "update_value (salt_key_from b d) (Some v) (Some w) st1") (auto split: res.splits)
      have "reads_from (part x) (touched x) (fst st2) \<and>
          update_value (salt_key_from b d) (Some v) (Some w) (on_pair (on_store (full x)) st1) =
            (Ok y, on_pair (on_store (full x)) st2)"
        using upd [OF _ st2(1)] st1 by blast
      then show ?thesis
        using 1(1) [OF st2(2)] r st1 Some p by (subst delete_loop.simps) simp
    qed
  qed
qed

lemma shi_delete_follows [follow]: "agree x \<Longrightarrow> upd_follows (part x) (full x) (touched x) (shi_delete b k)"
proof -
  assume x: "agree x"
  have loop: "upd_follows (part x) (full x) (touched x)
      (\<lambda>st. case delete_loop b n c d v st of Some res \<Rightarrow> res | None \<Rightarrow> (Diverge, st))" for n c d v
    unfolding upd_follows_def
    using delete_loop_follows [OF x] by (intro followsI) (fastforce split: option.splits)
  show ?thesis
    unfolding shi_delete_def by (intro follow loop x)
qed

lemma collect_loop_follows [follow]:
  "agree x \<Longrightarrow> eph_follows (part x) (full x) (touched x) (collect_loop b n i m)"
proof (induction n arbitrary: i m)
  case (Suc n)
  then show ?case
    unfolding collect_loop.simps Let_def by (intro follow) simp_all
qed (simp add: follow)

text \<open>Steps that only touch the cache, the counters and the updates.\<close>

lemma upd_pure:
  assumes "\<And>s u r s' u'. f (s, u) = (r, (s', u')) \<Longrightarrow> f (on_store (full x) s, u) = (r, (on_store (full x) s', u'))"
    and "\<And>s u r s' u'. f (s, u) = (r, (s', u')) \<Longrightarrow> reads_from (part x) (touched x) s \<Longrightarrow> reads_from (part x) (touched x) s'"
  shows "upd_follows (part x) (full x) (touched x) f"
  using assms unfolding upd_follows_def by (intro followsI) fastforce

lemma record_loop_follows [follow]:
  "agree x \<Longrightarrow> upd_follows (part x) (full x) (touched x) (record_loop b oc nc ob nb n i)"
proof (induction n arbitrary: i)
  case (Suc n)
  let ?key = "salt_key_from b i"
  let ?old = "if i < oc then bt_get ob ?key else None" and ?new = "if i < nc then bt_get nb ?key else None"
  have split: "record_loop b oc nc ob nb (Suc n) i =
      bind (\<lambda>(s, u). (Ok (), (if ?old \<noteq> ?new \<or> oc \<le> i then cache_insert ?key ?new s else s, u))) (\<lambda>_.
      bind (\<lambda>(s, u). if ?old \<noteq> ?new \<and> (?old \<noteq> None \<or> ?new \<noteq> None)
           then (case add ?key ?old ?new u of (r, u') \<Rightarrow> (r, (s, u')))
           else (Ok (), (s, u)))
        (\<lambda>_. record_loop b oc nc ob nb n (i + 1)))"
    by (rule ext) (simp add: bind_def Let_def split: prod.split)
  have 1: "upd_follows (part x) (full x) (touched x)
      (\<lambda>(s, u). (Ok (), (if ?old \<noteq> ?new \<or> oc \<le> i then cache_insert ?key ?new s else s, u)))"
    by (rule upd_pure) auto
  have 2: "upd_follows (part x) (full x) (touched x)
      (\<lambda>(s, u). if ?old \<noteq> ?new \<and> (?old \<noteq> None \<or> ?new \<noteq> None)
           then (case add ?key ?old ?new u of (r, u') \<Rightarrow> (r, (s, u')))
           else (Ok (), (s, u)))"
    by (rule upd_pure) (auto split: prod.splits if_splits)
  show ?case
    unfolding split by (intro upd_follows_rules(3) 1 2 Suc)
qed (simp add: follow)

lemma mark_rehashed_follows [follow]:
  "b \<in> touched x \<Longrightarrow> upd_follows (part x) (full x) (touched x) (mark_rehashed b)"
  by (rule upd_pure) (auto simp: mark_rehashed_def on_store_def reads_from_def)

lemma shi_rehash_follows [follow]:
  "agree x \<Longrightarrow> b \<in> touched x \<Longrightarrow> upd_follows (part x) (full x) (touched x) (shi_rehash b n c)"
  unfolding shi_rehash_def Let_def by (intro follow)

lemma after_insert_follows [follow]:
  assumes x: "agree x" and b: "b \<in> touched x"
  shows "upd_follows (part x) (full x) (touched x) (after_insert b n c)"
  unfolding upd_follows_def
proof (rule followsI)
  let ?I = "reads_from (part x) (touched x) \<circ> fst"
  fix st a st'
  assume I: "?I st" and run: "after_insert b n c st = (Ok a, st')"
  have I': "reads_from (part x) (touched x) (fst st)" and s: "store (fst st) = part x"
    using I by (simp_all add: reads_from_def)
  note known = usage_count_known [OF x s b]
  obtain used_now where u: "usage_count b (fst st) = Ok used_now"
    using run known by (cases "usage_count b (fst st)") (simp_all add: after_insert_def)
  have u': "usage_count b (fst (on_pair (on_store (full x)) st)) = Ok used_now"
    using known u by simp
  let ?big = "bind (lift_res (compute_resize_capacity c used_now)) (\<lambda>new_capacity.
      bind (shi_rehash b n new_capacity) (\<lambda>_. ret None))"
  have big: "upd_follows (part x) (full x) (touched x) ?big"
    by (intro follow x b)
  show "?I st' \<and> after_insert b n c (on_pair (on_store (full x)) st) = (Ok a, on_pair (on_store (full x)) st')"
  proof (cases "used_now > c * get_bucket_resize_threshold div 100")
    case True
    then have "?big st = (Ok a, st')"
      using run u by (simp add: after_insert_def)
    moreover have "after_insert b n c (on_pair (on_store (full x)) st) = ?big (on_pair (on_store (full x)) st)"
      using True u' by (simp add: after_insert_def)
    ultimately show ?thesis
      using upd_step [OF big I'] by (simp only: comp_apply)
  next
    case False
    then show ?thesis
      using run u u' I' unfolding after_insert_def by simp
  qed
qed

lemma upsert_loop_follows [follow]:
  "agree x \<Longrightarrow> b \<in> touched x \<Longrightarrow> upd_follows (part x) (full x) (touched x) (upsert_loop b nn c h n i v)"
proof (induction n arbitrary: i v)
  case (Suc n)
  then show ?case
    unfolding upsert_loop.simps Let_def by (intro follow) simp_all
qed (simp add: follow)

lemma upsert_once_follows [follow]:
  assumes x: "agree x" and b: "b \<in> touched x"
  shows "upd_follows (part x) (full x) (touched x) (upsert_once b k v)"
proof -
  have fast: "on_fst (direct_find k) st = (Ok None, st)"
    if "store (fst st) = part x \<or> store (fst st) = full x" for st :: "'e eph \<times> state_updates"
    using direct_find_none [OF x, of "fst st" k] that by (cases st) (simp add: on_fst_def)
  have "upd_follows (part x) (full x) (touched x) (if_ok_some (on_fst (direct_find k)) f g)"
    if g: "upd_follows (part x) (full x) (touched x) g" for f and g :: "('e, (bytes \<times> bytes) option) upd_comp"
    unfolding upd_follows_def
  proof (rule followsI)
    fix st a st'
    assume "(reads_from (part x) (touched x) \<circ> fst) st" "if_ok_some (on_fst (direct_find k)) f g st = (Ok a, st')"
    then have I: "reads_from (part x) (touched x) (fst st)" and run: "g st = (Ok a, st')"
      by (simp_all add: if_ok_some_def fast reads_from_def)
    from upd_step [OF g I run]
    show "(reads_from (part x) (touched x) \<circ> fst) st' \<and> if_ok_some (on_fst (direct_find k)) f g
        (on_pair (on_store (full x)) st) = (Ok a, on_pair (on_store (full x)) st')"
      by (simp add: if_ok_some_def fast)
  qed
  note fall = this
  show ?thesis
    unfolding upsert_once_def by (intro upd_follows_rules(3) upd_follows_rules(2) fall) (intro follow x b)+
qed

lemma upsert_rec_follows:
  assumes x: "agree x" and run: "upsert_rec b k v st = Some r"
  shows "\<forall>a st'. b \<in> touched x \<longrightarrow> r = (Ok a, st') \<longrightarrow> reads_from (part x) (touched x) (fst st) \<longrightarrow>
    reads_from (part x) (touched x) (fst st') \<and>
    upsert_rec b k v (on_pair (on_store (full x)) st) = Some (Ok a, on_pair (on_store (full x)) st')"
    (is "?P b k v st r")
proof (rule upsert_rec.raw_induct [where P = ?P, OF _ run], goal_cases)
  case (1 rec b k v st r)
  show ?case
  proof (intro allI impI)
    fix a st'
    assume b: "b \<in> touched x" and r: "r = (Ok a, st')" and I: "reads_from (part x) (touched x) (fst st)"
    obtain f st1 where f: "upsert_once b k v st = (Ok f, st1)"
      using 1(2) r by (cases "upsert_once b k v st") (auto split: res.splits)
    note st1 = upd_step [OF upsert_once_follows [OF x b] I f]
    show "reads_from (part x) (touched x) (fst st') \<and>
      upsert_rec b k v (on_pair (on_store (full x)) st) = Some (Ok a, on_pair (on_store (full x)) st')"
    proof (cases f)
      case None
      then show ?thesis
        using 1(2) r f st1 by (subst upsert_rec.simps) simp
    next
      case (Some p)
      obtain k' v' where p: "p = (k', v')" by (cases p)
      then have "rec b k' v' st1 = Some r"
        using 1(2) f Some by simp
      from 1(1) [OF this] b r st1
      have "reads_from (part x) (touched x) (fst st') \<and>
          upsert_rec b k' v' (on_pair (on_store (full x)) st1) = Some (Ok a, on_pair (on_store (full x)) st')"
        by blast
      then show ?thesis
        using st1 Some p by (subst upsert_rec.simps) simp
    qed
  qed
qed

lemma shi_upsert_follows [follow]:
  "agree x \<Longrightarrow> b \<in> touched x \<Longrightarrow> upd_follows (part x) (full x) (touched x) (shi_upsert b k v)"
  unfolding upd_follows_def shi_upsert_def
  using upsert_rec_follows [of x b k v] by (intro followsI) (fastforce split: option.splits)

lemma update_loop_follows [follow]:
  "agree x \<Longrightarrow> bucket_id ` fst ` set batch \<subseteq> touched x \<Longrightarrow>
    upd_follows (part x) (full x) (touched x) (update_loop batch)"
proof (induction batch)
  case (Cons kv batch)
  obtain k v where kv: "kv = (k, v)" by (cases kv)
  have IH: "upd_follows (part x) (full x) (touched x) (update_loop batch)"
    using Cons by auto
  have b: "bucket_id k \<in> touched x"
    using Cons.prems kv by simp
  show ?case
    unfolding kv update_loop.simps by (intro follow IH Cons.prems b)
qed (simp add: follow)

lemma with_updates_follows [follow]:
  "upd_follows (part x) (full x) (touched x) m \<Longrightarrow> eph_follows (part x) (full x) (touched x) (with_updates m)"
  unfolding eph_follows_def
proof (rule followsI)
  fix s s' :: "'e eph" and u
  assume m: "upd_follows (part x) (full x) (touched x) m" and I: "reads_from (part x) (touched x) s"
    and run: "with_updates m s = (Ok u, s')"
  obtain a where a: "m (s, []) = (Ok a, (s', u))"
    using run by (auto simp: with_updates_def split: prod.splits res.splits)
  show "reads_from (part x) (touched x) s' \<and> with_updates m (on_store (full x) s) = (Ok u, on_store (full x) s')"
    using upd_step [OF m _ a] I by (simp add: with_updates_def)
qed

lemma update_follows [follow]:
  "agree x \<Longrightarrow> bucket_id ` fst ` set batch \<subseteq> touched x \<Longrightarrow>
    eph_follows (part x) (full x) (touched x) (update batch)"
  unfolding update_def by (intro follow)

lemma clear_loop_follows [follow]:
  "agree x \<Longrightarrow> upd_follows (part x) (full x) (touched x) (clear_loop b n i)"
proof (induction n arbitrary: i)
  case (Suc n)
  have step: "upd_follows (part x) (full x) (touched x)
      (\<lambda>(s, u). case add k (Some v) None u of (r, u') \<Rightarrow> (r, (cache_insert k None s, u')))" for k v
    by (rule upd_pure) (auto split: prod.splits)
  show ?case
    unfolding clear_loop.simps Let_def by (intro follow step Suc)
qed (simp add: follow)

lemma reinsert_loop_follows [follow]:
  "agree x \<Longrightarrow> b \<in> touched x \<Longrightarrow> upd_follows (part x) (full x) (touched x) (reinsert_loop b vs)"
proof (induction vs)
  case (Cons v vs)
  then show ?case
    unfolding reinsert_loop.simps by (intro follow) simp_all
qed (simp add: follow)

lemma canonicalize_bucket_follows [follow]:
  assumes x: "agree x" and b: "b \<in> touched x"
  shows "upd_follows (part x) (full x) (touched x) (canonicalize_bucket b)"
proof -
  have 1: "upd_follows (part x) (full x) (touched x)
      (\<lambda>(s, u). (Ok (), (s\<lparr>cache := bt_remove k (cache s)\<rparr>, u)))" for k
    by (rule upd_pure) (auto simp: on_store_def reads_from_def)
  have 2: "upd_follows (part x) (full x) (touched x)
      (\<lambda>(s, u). case add k v w u of (r, u') \<Rightarrow> (r, (s, u')))" for k v w
    by (rule upd_pure) (auto split: prod.splits)
  have 3: "upd_follows (part x) (full x) (touched x) (\<lambda>(s, u). (Ok (), (bump_usage b d s, u)))" for d
    by (rule upd_pure) auto
  show ?thesis
    unfolding canonicalize_bucket_def by (intro follow 1 2 3 x b)
qed

lemma canonicalize_loop_follows [follow]:
  "agree x \<Longrightarrow> set bs \<subseteq> touched x \<Longrightarrow> upd_follows (part x) (full x) (touched x) (canonicalize_loop bs)"
proof (induction bs)
  case (Cons b bs)
  then show ?case
    unfolding canonicalize_loop.simps by (intro follow) simp_all
qed (simp add: follow)

lemma canonicalize_follows [follow]:
  assumes x: "agree x" and order: "\<And>R. set (order R) = R"
  shows "eph_follows (part x) (full x) (touched x) (canonicalize order)"
  unfolding eph_follows_def
proof (rule followsI)
  fix s s' :: "'e eph" and u
  let ?clear = "\<lambda>s :: 'e eph. s\<lparr>rehashed_buckets := {}\<rparr>"
  let ?m = "bind (with_updates (canonicalize_loop (order (rehashed_buckets s)))) (\<lambda>u s. (Ok u, ?clear s))"
  assume I: "reads_from (part x) (touched x) s" and run: "canonicalize order s = (Ok u, s')"
  have "set (order (rehashed_buckets s)) \<subseteq> touched x"
    using I order by (simp add: reads_from_def)
  moreover have "eph_follows (part x) (full x) (touched x) (\<lambda>s. (Ok u, ?clear s))" for u :: state_updates
    unfolding eph_follows_def by (intro followsI) (auto simp: reads_from_def on_store_def)
  ultimately have m: "eph_follows (part x) (full x) (touched x) ?m"
    by (intro follow x)
  have "reads_from (part x) (touched x) (?clear s)" "?m (?clear s) = (Ok u, s')"
    using I run by (simp_all add: reads_from_def canonicalize_def)
  note run' = followsD [OF m [unfolded eph_follows_def] this]
  have swap: "?clear (on_store (full x) s) = on_store (full x) (?clear s)"
    by (cases s) (simp add: on_store_def)
  show "reads_from (part x) (touched x) s' \<and> canonicalize order (on_store (full x) s) = (Ok u, on_store (full x) s')"
    unfolding canonicalize_def swap on_store_simps by (rule run')
qed

lemma update_fin_follows:
  assumes x: "agree x" and order: "\<And>R. set (order R) = R"
    and batch: "bucket_id ` fst ` set batch \<subseteq> touched x"
  shows "eph_follows (part x) (full x) (touched x) (update_fin order batch)"
proof -
  have "eph_follows (part x) (full x) (touched x)
      (\<lambda>s. case merge more u of (r, w) \<Rightarrow> (Salt_Prelude.map_res (\<lambda>_. w) r, s))" for more u
    unfolding eph_follows_def by (intro followsI) (auto split: prod.splits)
  then show ?thesis
    unfolding update_fin_def by (intro follow x batch) (simp_all add: order)
qed

end

section \<open>The full view of a state\<close>

text \<open>A reader of a whole state, with the interface of a full node's store.\<close>

definition view_entries :: "salt_state \<Rightarrow> salt_key \<Rightarrow> salt_key \<Rightarrow> (salt_key \<times> salt_value) list" where
  "view_entries V lo hi =
     map (\<lambda>k. (k, the (V k))) (sorted_list_of_set {k. lo \<le> k \<and> k \<le> hi \<and> V k \<noteq> None})"

definition view_reader :: "salt_state \<Rightarrow> salt_error reader" where
  "view_reader V = \<lparr>rd_value = (\<lambda>k. Ok (V k)), rd_entries = (\<lambda>lo hi. Ok (view_entries V lo hi)),
     rd_metadata = (\<lambda>b. Ok (meta_at V b)), rd_bucket_used_slots = (\<lambda>b. Ok (if is_valid_data_bucket b then of_nat (occ V b) else 0)),
     rd_plain_value_fast = (\<lambda>_. Err (UnsupportedOperation ''view''))\<rparr>"

lemma view_entries_spec:
  "bt_ok (view_entries V lo hi) \<and>
   bt_get (view_entries V lo hi) k = (if lo \<le> k \<and> k \<le> hi then V k else None)"
proof
  let ?S = "{k. lo \<le> k \<and> k \<le> hi \<and> V k \<noteq> None}"
  have fin: "finite ?S"
    by (rule finite_subset [OF subset_UNIV]) simp
  show "bt_ok (view_entries V lo hi)"
    by (simp add: view_entries_def bt_ok_def comp_def)
  show "bt_get (view_entries V lo hi) k = (if lo \<le> k \<and> k \<le> hi then V k else None)"
    using fin by (auto simp: view_entries_def bt_get_def map_of_map_restrict restrict_map_def)
qed

interpretation view: full_reader view_reader "\<lambda>V. V" metas_ok
proof
  fix V :: salt_state and b
  show "\<exists>u. rd_metadata (view_reader V) b = Ok ((meta_at V b)\<lparr>used := u\<rparr>)"
    by (intro exI [of _ None]) (simp add: view_reader_def)
  show "\<exists>es. rd_entries (view_reader V) lo hi = Ok es \<and> bt_ok es \<and>
      (\<forall>k. bt_get es k = (if lo \<le> k \<and> k \<le> hi then V k else None))" for lo hi
    using view_entries_spec [of V lo hi] by (auto simp: view_reader_def)
qed (simp_all add: view_reader_def)

end
