(* ===== verification/Stateless_Witness.thy ===== *)
theory Stateless_Witness
  imports Stateless
begin

text \<open>
  Executing over a \<open>SaltWitness\<close>: what its slot counts mean, and that reads and batches over a
  partial witness that agrees with a state give what a full node gives, or an error.
\<close>

section \<open>Slot counts\<close>

text \<open>What the witness knows is what the state \<open>V\<close> contains; it may know less.\<close>

definition agrees :: "('el, 'pf) salt_witness \<Rightarrow> salt_state \<Rightarrow> bool" where
  "agrees w V \<longleftrightarrow> (\<forall>k v. bt_get (sw_kvs w) k = Some v \<longrightarrow> V k = v)"

definition witnessed :: "('el, 'pf) salt_witness \<Rightarrow> bucket_id \<Rightarrow> nat set" where
  "witnessed w b = {s. bt_get (sw_kvs w) (slot_key b s) \<noteq> None}"

lemma sw_value_Ok: "sw_value w k = Ok v \<longleftrightarrow> bt_get (sw_kvs w) k = Some v"
  by (auto simp: sw_value_def split: option.splits)

lemma sw_value_cases: "sw_value w k = (case bt_get (sw_kvs w) k of
    Some v \<Rightarrow> Ok v | None \<Rightarrow> Err (NotInWitness ''Key''))"
  by (auto simp: sw_value_def split: option.splits)

lemma agrees_value: "agrees w V \<Longrightarrow> sw_value w k = Ok v \<Longrightarrow> V k = v"
  by (simp add: agrees_def sw_value_Ok)

lemma agrees_meta: "agrees w V \<Longrightarrow> sw_metadata w b = Ok m \<Longrightarrow> meta_at V b = m \<and> V (meta_key b) \<noteq> None"
  by (auto simp: agrees_def sw_metadata_def meta_at_def bind_res_Ok_iff bucket_metadata_key_def
      meta_key_def elim!: map_err.elims split: option.splits res.splits if_splits)

text \<open>The slots from \<open>i\<close> below \<open>i + n\<close> that the witness shows as occupied.\<close>

definition shown :: "('el, 'pf) salt_witness \<Rightarrow> bucket_id \<Rightarrow> nat \<Rightarrow> nat \<Rightarrow> nat set" where
  "shown w b i j = {s. i \<le> s \<and> s < j \<and> (\<exists>v. bt_get (sw_kvs w) (slot_key b s) = Some (Some v))}"

lemma card_shown_Suc:
  assumes "i < j"
  shows "card (shown w b i j) = (if \<exists>v. bt_get (sw_kvs w) (slot_key b i) = Some (Some v) then 1 else 0)
    + card (shown w b (Suc i) j)"
proof -
  let ?here = "if \<exists>v. bt_get (sw_kvs w) (slot_key b i) = Some (Some v) then {i} else {}"
  have fin: "finite (shown w b (Suc i) j)"
    by (rule finite_subset [of _ "{..<j}"]) (auto simp: shown_def)
  have "shown w b i j = ?here \<union> shown w b (Suc i) j"
    using assms by (auto simp: shown_def Suc_le_eq le_less)
  moreover have "?here \<inter> shown w b (Suc i) j = {}"
    by (auto simp: shown_def)
  ultimately show ?thesis
    using fin by (simp add: card_Un_disjoint)
qed

lemma sw_count_slots_exact:
  "sw_count_slots w b n (of_nat i) a =
     (if {i..<i + n} \<subseteq> witnessed w b then Ok (a + of_nat (card (shown w b i (i + n))))
      else Err (NotInWitness ''Key''))"
proof (induction n arbitrary: i a)
  case 0
  have "shown w b i i = {}" by (auto simp: shown_def)
  then show ?case by simp
next
  case (Suc n)
  have split: "{i..<i + Suc n} \<subseteq> witnessed w b \<longleftrightarrow> i \<in> witnessed w b \<and> {Suc i..<Suc i + n} \<subseteq> witnessed w b"
  proof -
    have "{i..<i + Suc n} = insert i {Suc i..<Suc i + n}"
      by (rule set_eqI) (simp only: atLeastLessThan_iff insert_iff, arith)
    then show ?thesis
      by simp
  qed
  have key: "salt_key_from b (of_nat i) = slot_key b i"
    by (simp add: slot_key_def)
  have "of_nat i + 1 = (of_nat (Suc i) :: slot_id)"
    by simp
  note IH = Suc.IH [of "Suc i", folded this]
  show ?case
  proof (cases "bt_get (sw_kvs w) (slot_key b i)")
    case None
    then show ?thesis
      unfolding split by (simp add: key sw_value_cases witnessed_def)
  next
    case (Some v)
    then have i: "i \<in> witnessed w b"
      by (simp add: witnessed_def)
    have c: "card (shown w b i (i + Suc n)) = (if v \<noteq> None then 1 else 0) + card (shown w b (Suc i) (Suc i + n))"
      using card_shown_Suc [of i "i + Suc n" w b] Some by (cases v) simp_all
    show ?thesis
      unfolding split c using Some i by (simp add: key sw_value_cases IH)
  qed
qed

lemma sw_used_exact:
  assumes "is_valid_data_bucket b" "sw_metadata w b = Ok m"
  shows "sw_bucket_used_slots w b =
    (if {..<unat (capacity m)} \<subseteq> witnessed w b then Ok (of_nat (card (shown w b 0 (unat (capacity m)))))
     else Err (NotInWitness ''Key''))"
  using assms sw_count_slots_exact [of w b "unat (capacity m)" 0 0]
  by (simp add: sw_bucket_used_slots_def atLeast0LessThan)

lemma shown_occupied:
  assumes "agrees w V" "{..<c} \<subseteq> witnessed w b" "c \<le> 2 ^ 40"
  shows "shown w b 0 c = occupied c (tab V b)"
proof -
  have "(\<exists>v. bt_get (sw_kvs w) (slot_key b s) = Some (Some v)) \<longleftrightarrow> tab V b s \<noteq> None" if s: "s < c" for s
  proof -
    obtain v where "bt_get (sw_kvs w) (slot_key b s) = Some v"
      using s assms(2) by (auto simp: witnessed_def)
    moreover from this have "V (slot_key b s) = v"
      using assms(1) by (simp add: agrees_def)
    ultimately show ?thesis
      using s assms(3) by (simp add: tab_slot)
  qed
  then show ?thesis
    by (auto simp: shown_def occupied_def)
qed

lemma sw_used_occ:
  assumes w: "agrees w V" and V: "bucket_ok V b M" and b: "is_valid_data_bucket b"
    and n: "sw_bucket_used_slots w b = Ok n"
  shows "n = of_nat (occ V b)"
proof -
  obtain m where m: "sw_metadata w b = Ok m"
    using n b by (auto simp: sw_bucket_used_slots_def bind_res_Ok_iff)
  have c: "meta_at V b = m"
    using agrees_meta [OF w m] by simp
  have all: "{..<unat (capacity m)} \<subseteq> witnessed w b"
    using sw_used_exact [OF b m] n by (simp split: if_splits)
  have "n = of_nat (card (occupied (unat (capacity m)) (tab V b)))"
    using sw_used_exact [OF b m] n all shown_occupied [OF w all] bucket_okD(2) [OF V] c by simp
  then show ?thesis
    using bucket_ok_card [OF V] bucket_ok_occ [OF V b] c by simp
qed

section \<open>The witness as a partial reader\<close>

text \<open>A witness, a state it agrees with, and buckets whose slots it knows.\<close>

definition partial_view :: "('el, 'pf) salt_witness \<Rightarrow> salt_state \<Rightarrow> bucket_id set \<Rightarrow> bool" where
  "partial_view w V B \<longleftrightarrow> agrees w V \<and> metas_ok V \<and> (\<exists>kv. state_ok V kv) \<and>
     (\<forall>b \<in> B. \<exists>n. sw_bucket_used_slots w b = Ok n)"

interpretation sw: reader_pair "\<lambda>(w, V, B). sw_reader w" "\<lambda>(w, V, B). view_reader V" "\<lambda>(w, V, B). B"
  "\<lambda>(w, V, B). partial_view w V B"
proof (unfold_locales, goal_cases)
  case (1 x k v)
  then show ?case
    by (auto simp: partial_view_def sw_reader_def view_reader_def intro: agrees_value split: prod.splits)
next
  case (2 x b m)
  then show ?case
    by (auto simp: partial_view_def sw_reader_def view_reader_def dest: agrees_meta split: prod.splits)
next
  case (3 x b n)
  then obtain w V B kv where x: "x = (w, V, B)" "agrees w V" "state_ok V kv"
      and n: "sw_bucket_used_slots w b = Ok n"
    by (auto simp: partial_view_def sw_reader_def split: prod.splits)
  show ?case
  proof (cases "is_valid_data_bucket b")
    case True
    then show ?thesis
      using sw_used_occ [OF x(2) state_ok_bucket [OF x(3) True] True n] x(1) by (simp add: view_reader_def)
  next
    case False
    then show ?thesis
      using n x(1) by (simp add: view_reader_def sw_bucket_used_slots_def)
  qed
qed (auto simp: partial_view_def sw_reader_def view_reader_def sw_plain_value_fast_def split: prod.splits)

lemma view_start:
  "metas_ok V \<Longrightarrow> norm V = V \<Longrightarrow> eph_at (view_reader V) V V {} (eph_new (view_reader V))"
  using eph_at_new [of V "view_reader V"] by simp

section \<open>Batches and reads over a witness\<close>

lemma sw_view: "partial_view w V B \<Longrightarrow> (\<lambda>(w, V, B). partial_view w V B) (w, V, B)"
  by simp

lemma sw_read_view:
  assumes w: "partial_view w V B" and V: "state_ok V kv" "norm V = V"
    and run: "plain_value p (eph_new (sw_reader w)) = (Ok r, s')"
  shows "r = kv p"
proof -
  have m: "metas_ok V"
    using w by (simp add: partial_view_def)
  have "plain_value p (eph_new (view_reader V)) = (Ok r, on_store (view_reader V) s')"
    using sw.fresh_follows [OF sw.plain_value_follows, of "(w, V, B)" p r s'] w run by simp
  then show ?thesis
    using view.plain_value_state [OF m V(1) view_start [OF m V(2)], of p] by (auto simp: runs_def)
qed

lemma mem_view:
  assumes "mem_holds ms kv"
  shows "metas_ok (norm (mem_contents ms))" "state_ok (norm (mem_contents ms)) kv"
    "base_ok (norm (mem_contents ms))"
  using assms mem_holds_base [OF assms] by (simp_all add: mem_holds_def mem_ok_def base_ok_def)

lemma canonical_view: "canonical (norm B) kv V \<longleftrightarrow> canonical B kv V"
  by (simp add: canonical_def canonical_at_def cong: conj_cong)

lemma view_update_fin:
  assumes ms: "mem_holds ms kv" "load_ok ms kv" and order: "enumerates order"
    and batch: "batch_fits batch" "roomy batch kv"
    and run: "update_fin order batch (eph_new (view_reader (norm (mem_contents ms)))) = (Ok u, s')"
  shows "canonical_updates (mem_contents ms) (apply_batch batch kv) u"
proof -
  let ?V = "norm (mem_contents ms)"
  note V = mem_view [OF ms(1)]
  have order': "\<And>R. set (order R) = R"
    using order by (simp add: enumerates_def)
  have set: "settled (meta_at ?V) ?V {} kv"
    using load_settled [OF ms(2)] unfolding settled_def by simp
  obtain u' s V' where "update_fin order batch (eph_new (view_reader ?V)) = (Ok u', s)"
      "canonical ?V (apply_batch batch kv) V'" "su_ok u'" "chains_from u' ?V" "apply_updates u' ?V = V'"
    using view.update_fin_at [where order = order, OF V(1,3,2) view_start [OF V(1)] set _ order' batch]
    by auto
  then show ?thesis
    using run roomy_after [OF batch(2) state_ok_finite [OF V(2)]]
    by (simp add: canonical_updates_def canonical_view)
qed

section \<open>Buckets witnessed as a whole\<close>

text \<open>Two stores that answer alike on a bucket: the computation makes the same steps on both.\<close>

definition same :: "('s \<Rightarrow> 's) \<Rightarrow> ('s \<Rightarrow> bool) \<Rightarrow> ('s, 'a, 'e) comp \<Rightarrow> bool" where
  "same put I m \<longleftrightarrow> (\<forall>s. I s \<longrightarrow> I (snd (m s)) \<and> m (put s) = (fst (m s), put (snd (m s))))"

lemma sameD: "same put I m \<Longrightarrow> I s \<Longrightarrow> I (snd (m s)) \<and> m (put s) = (fst (m s), put (snd (m s)))"
  by (simp add: same_def)

lemma same_ret: "same put I (ret a)" and same_lift: "same put I (lift_res r)"
  by (simp_all add: same_def ret_def lift_res_def)

lemma same_bind:
  assumes "same put I m" "\<And>a. same put I (f a)"
  shows "same put I (bind m f)"
  unfolding same_def
proof (intro allI impI)
  fix s assume s: "I s"
  obtain r t where m: "m s = (r, t)" by (cases "m s")
  then have t: "I t" "m (put s) = (r, put t)"
    using sameD [OF assms(1) s] by simp_all
  show "I (snd (bind m f s)) \<and> bind m f (put s) = (fst (bind m f s), put (snd (bind m f s)))"
    using t m sameD [OF assms(2) t(1)] by (cases r) (simp_all add: bind_def)
qed

lemma same_option:
  "same put I m \<Longrightarrow> (\<And>x. same put I (f x)) \<Longrightarrow> same put I (case z of None \<Rightarrow> m | Some x \<Rightarrow> f x)"
  by (cases z) simp_all

lemma same_if: "same put I m \<Longrightarrow> same put I n \<Longrightarrow> same put I (if P then m else n)"
  by simp

lemma same_prod: "(\<And>x y. same put I (f x y)) \<Longrightarrow> same put I (case z of (x, y) \<Rightarrow> f x y)"
  by (cases z) simp

lemmas same_rules = same_ret same_lift same_bind same_if same_option same_prod

text \<open>The slots of \<open>b\<close> below its capacity, and its metadata, are in the witness.\<close>

definition whole_bucket :: "('el, 'pf) salt_witness \<Rightarrow> bucket_id \<Rightarrow> bool" where
  "whole_bucket w b \<longleftrightarrow> (\<exists>m. sw_metadata w b = Ok m \<and> {..<unat (capacity m)} \<subseteq> witnessed w b)"

abbreviation sw_same :: "('el, 'pf) salt_witness \<Rightarrow> salt_state \<Rightarrow> (salt_error, 'a) eph_comp \<Rightarrow> bool" where
  "sw_same w V \<equiv> same (on_store (view_reader V)) (\<lambda>s. store s = sw_reader w)"

lemma sw_same_value:
  assumes "agrees w V" "bt_get (sw_kvs w) k \<noteq> None"
  shows "sw_same w V (eph_value k)"
proof -
  obtain v where v: "bt_get (sw_kvs w) k = Some v"
    using assms(2) by blast
  have "rd_value (view_reader V) k = Ok v" "sw_value w k = Ok v"
    using assms(1) v by (simp_all add: agrees_def view_reader_def sw_value_cases)
  then show ?thesis
    by (auto simp: same_def eph_value_def bind_def lift_res_def sw_reader_def cache_insert_def
        split: option.splits)
qed

lemma sw_metadata_fresh:
  assumes "agrees w V" "sw_metadata w b = Ok m" "store s \<in> {sw_reader w, view_reader V}" "cache s = []"
    "\<not> cache_reads s"
  shows "metadata b False s = (Ok (m\<lparr>used := None\<rparr>), s)"
proof -
  have m: "rd_metadata (store s) b = Ok m"
    using agrees_meta [OF assms(1,2)] assms(2,3) by (auto simp: view_reader_def sw_reader_def)
  obtain mk where "bucket_metadata_key b = (Ok mk :: (_, salt_error) res)"
    using assms(2) by (auto simp: sw_metadata_def bind_res_Ok_iff)
  then show ?thesis
    using m assms(4,5) by (auto simp: metadata_def cached_metadata_def bind_def lift_res_def ret_def bt_get_def)
qed

lemma sw_same_search:
  assumes "agrees w V" "{..<unat c} \<subseteq> witnessed w b" "0 < c"
  shows "sw_same w V (search_loop eph_value b h c p n i)"
proof (induction n arbitrary: i)
  case (Suc n)
  have "unat (probe h i c) < unat c"
    using assms(3) by (simp add: probe_def unat_mod word_less_nat_alt)
  then have "bt_get (sw_kvs w) (salt_key_from b (probe h i c)) \<noteq> None"
    using assms(2) by (auto simp: witnessed_def slot_key_def subset_iff dest!: spec [of _ "unat (probe h i c)"])
  then show ?case
    unfolding search_loop.simps Let_def by (intro same_rules Suc sw_same_value [OF assms(1)])
qed (simp add: same_rules)

lemma sw_find_whole:
  assumes w: "agrees w V" "whole_bucket w (bucket_id p)" and V: "state_ok V kv" "norm V = V" "metas_ok V"
  shows "\<exists>s'. plain_value p (eph_new (sw_reader w)) = (Ok (kv p), s')"
proof -
  let ?b = "bucket_id p" and ?s = "eph_new (sw_reader w)" and ?t = "eph_new (view_reader V)"
  obtain m where m: "sw_metadata w ?b = Ok m" "{..<unat (capacity m)} \<subseteq> witnessed w ?b"
    using w(2) by (auto simp: whole_bucket_def)
  have "0 < capacity m"
    using bucket_okD(1) [OF state_ok_bucket [OF V(1) bucket_id_valid, of p]] agrees_meta [OF w(1) m(1)]
    by (simp add: word_less_nat_alt)
  then have f: "sw_same w V (shi_find ?b (nonce m) (capacity m) p)"
    unfolding shi_find_def shi_search_def by (intro sw_same_search [OF w(1) m(2)])
  have t: "on_store (view_reader V) ?s = ?t"
    by (simp add: eph_new_def on_store_def)
  have meta: "metadata ?b False ?s = (Ok (m\<lparr>used := None\<rparr>), ?s)" "metadata ?b False ?t = (Ok (m\<lparr>used := None\<rparr>), ?t)"
    by (rule sw_metadata_fresh [OF w(1) m(1)]; simp add: eph_new_def)+
  have direct: "direct_find p ?s = (Ok None, ?s)" "direct_find p ?t = (Ok None, ?t)"
    by (simp_all add: direct_find_def eph_new_def sw_reader_def view_reader_def sw_plain_value_fast_def)
  have store: "store ?s = sw_reader w"
    by (simp add: eph_new_def)
  have "plain_value p ?t = (fst (plain_value p ?s), on_store (view_reader V) (snd (plain_value p ?s)))"
    using sameD [OF f store] meta direct t
    by (cases "shi_find ?b (nonce m) (capacity m) p ?s")
       (auto simp: plain_value_def find_kv_def if_ok_some_def bind_def Let_def ret_def lift_res_def
         split: res.splits option.splits)
  moreover obtain s' where "plain_value p ?t = (Ok (kv p), s')"
    using view.plain_value_state [OF V(3,1) view_start [OF V(3,2)], of p] by (auto simp: runs_def)
  ultimately show ?thesis
    by (metis fst_conv prod.collapse)
qed

text \<open>Reads and batches over a witness that agrees with a store.\<close>

lemma read_agrees:
  assumes "mem_holds ms kv" "agrees w (norm (mem_contents ms))"
    and "fst (plain_value p (eph_new (sw_reader w))) = Ok r"
  shows "r = kv p"
proof -
  have "partial_view w (norm (mem_contents ms)) {}"
    using mem_view [OF assms(1)] assms(2) by (auto simp: partial_view_def)
  then show ?thesis
    using sw_read_view [of w "norm (mem_contents ms)" "{}" kv p r] mem_view(2) [OF assms(1)] assms(3)
    by (cases "plain_value p (eph_new (sw_reader w))") auto
qed

lemma update_fin_agrees:
  assumes "mem_holds ms kv" "load_ok ms kv" "enumerates order" "enumerates order'"
    and "batch_fits batch" "roomy batch kv" "agrees w (norm (mem_contents ms))"
    and "\<forall>(p, v) \<in> set batch. \<exists>n. sw_bucket_used_slots w (bucket_id p) = Ok n"
    and "fst (update_fin order batch (eph_new (sw_reader w))) = Ok u"
  shows "fst (update_fin order' batch (eph_new (mem_reader ms))) = Ok u"
proof -
  let ?V = "norm (mem_contents ms)" and ?B = "bucket_id ` fst ` set batch"
  obtain s' where run: "update_fin order batch (eph_new (sw_reader w)) = (Ok u, s')"
    using assms(9) by (cases "update_fin order batch (eph_new (sw_reader w))") auto
  have w: "partial_view w ?V ?B"
    using mem_view [OF assms(1)] assms(7,8) by (auto simp: partial_view_def)
  have order: "\<And>R. set (order R) = R"
    using assms(3) by (simp add: enumerates_def)
  have "update_fin order batch (eph_new (view_reader ?V)) = (Ok u, on_store (view_reader ?V) s')"
    using sw.fresh_follows [OF sw.update_fin_follows [where order = order], of "(w, ?V, ?B)" batch u s'] w order run
    by simp
  from view_update_fin [OF assms(1,2,3,5,6) this]
  have u: "canonical_updates (mem_contents ms) (apply_batch batch kv) u" .
  have s: "eph_new (mem_reader ms) \<in> fresh ms"
    by (simp add: fresh_def)
  obtain u' where "fst (update_fin order' batch (eph_new (mem_reader ms))) = Ok u'"
      "canonical_updates (mem_contents ms) (apply_batch batch kv) u'"
    using mem_update_fin_at [OF assms(1,2) s assms(4,5,6)] by (metis fst_conv)
  then show ?thesis
    using canonical_updates_unique [OF u] by simp
qed

section \<open>Properties\<close>

text \<open>The witness of an empty bucket, for the concrete instances.\<close>

definition empty_bucket_witness :: "bucket_id \<Rightarrow> (nat, unit) salt_witness" where
  "empty_bucket_witness b = \<lparr>sw_kvs = (meta_key b, Some (meta_sv default_meta)) #
     map (\<lambda>s. (slot_key b s, None)) [0..<256],
     sw_proof = \<lparr>parents_commitments = [], sp_proof = (), sp_levels = []\<rparr>\<rparr>"

lemma empty_bucket_get:
  assumes "is_valid_data_bucket b"
  shows "bt_get (sw_kvs (empty_bucket_witness b)) (meta_key b) = Some (Some (meta_sv default_meta))"
    and "s < 256 \<Longrightarrow> bt_get (sw_kvs (empty_bucket_witness b)) (slot_key b s) = Some None"
    and "bt_get (sw_kvs (empty_bucket_witness b)) k = Some v \<Longrightarrow>
      k = meta_key b \<and> v = Some (meta_sv default_meta) \<or> (\<exists>s < 256. k = slot_key b s) \<and> v = None"
proof -
  let ?ns = "map (\<lambda>s. (slot_key b s, None :: salt_value option)) [0..<256]"
  have ns: "map_of ?ns k = (if k \<in> slot_key b ` {0..<256} then Some None else None)" for k
    using map_of_map_restrict [of "\<lambda>_. None :: salt_value option" "map (slot_key b) [0..<256]"]
    by (auto simp: restrict_map_def o_def)
  have ne: "meta_key b \<noteq> slot_key b s" "slot_key b s \<noteq> meta_key b" if "s < 256" for s
    using slot_key_data [OF assms, of s] is_metadata_key_meta [OF assms] that by auto
  then show "bt_get (sw_kvs (empty_bucket_witness b)) (meta_key b) = Some (Some (meta_sv default_meta))"
      "s < 256 \<Longrightarrow> bt_get (sw_kvs (empty_bucket_witness b)) (slot_key b s) = Some None"
      "bt_get (sw_kvs (empty_bucket_witness b)) k = Some v \<Longrightarrow>
        k = meta_key b \<and> v = Some (meta_sv default_meta) \<or> (\<exists>s < 256. k = slot_key b s) \<and> v = None"
    by (auto simp: empty_bucket_witness_def bt_get_def ns ne split: if_splits)
qed

lemma empty_bucket_agrees:
  assumes "is_valid_data_bucket b"
  shows "agrees (empty_bucket_witness b) (norm (\<lambda>_. None))"
  unfolding agrees_def
proof (intro allI impI)
  fix k v
  assume "bt_get (sw_kvs (empty_bucket_witness b)) k = Some v"
  from empty_bucket_get(3) [OF assms this] show "norm (\<lambda>_. None) k = v"
    using is_metadata_key_meta [OF assms] slot_key_data [OF assms] by (auto simp: norm_def)
qed

lemma empty_bucket_facts:
  assumes "is_valid_data_bucket b"
  shows "sw_metadata (empty_bucket_witness b) b = Ok default_meta"
    and "{..<256} \<subseteq> witnessed (empty_bucket_witness b) b"
    and "sw_bucket_used_slots (empty_bucket_witness b) b = Ok 0"
    and "whole_bucket (empty_bucket_witness b) b"
proof -
  show 1: "sw_metadata (empty_bucket_witness b) b = Ok default_meta"
    using assms by (simp add: sw_metadata_def empty_bucket_get(1) default_meta_def)
  show 2: "{..<256} \<subseteq> witnessed (empty_bucket_witness b) b"
    using empty_bucket_get(2) [OF assms] by (auto simp: witnessed_def)
  have c: "unat (capacity default_meta) = 256"
    by (simp add: default_meta_def salt_consts)
  then have "shown (empty_bucket_witness b) b 0 256 = {}"
    using empty_bucket_get(2) [OF assms] by (auto simp: shown_def)
  then show "sw_bucket_used_slots (empty_bucket_witness b) b = Ok 0"
    using sw_used_exact [OF assms 1] 2 c by simp
  show "whole_bucket (empty_bucket_witness b) b"
    using 1 2 c by (auto simp: whole_bucket_def)
qed

lemma empty_mem: "norm (mem_contents mem_store_new) = norm (\<lambda>_. None)"
  by (simp add: mem_contents_def mem_store_new_def bt_get_def fun_eq_iff norm_def)

text \<open>A \<open>SaltWitness\<close> that agrees with a state holding \<open>kv\<close> reports the slot count of a data bucket
  exactly when it contains the metadata and every slot below the capacity; the count is then the
  number of keys of \<open>kv\<close> in that bucket, otherwise the call fails rather than undercount.\<close>
theorem witness_count:
  assumes "mem_holds ms kv" "agrees w (norm (mem_contents ms))" "is_valid_data_bucket b"
    and "sw_metadata w b = Ok m"
  shows "sw_bucket_used_slots w b =
    (if {..<unat (capacity m)} \<subseteq> witnessed w b
     then Ok (of_nat (card {p. kv p \<noteq> None \<and> bucket_id p = b}))
     else Err (NotInWitness ''Key''))"
proof (cases "{..<unat (capacity m)} \<subseteq> witnessed w b")
  case True
  note V = state_ok_bucket [OF mem_view(2) [OF assms(1)] assms(3)]
  have "sw_bucket_used_slots w b = Ok (of_nat (occ (norm (mem_contents ms)) b))"
    using sw_used_exact [OF assms(3,4)] True sw_used_occ [OF assms(2) V assms(3)] by simp
  moreover have "dom (bmap kv b) = {p. kv p \<noteq> None \<and> bucket_id p = b}"
    by (auto simp: dom_bmap)
  then have "occ (norm (mem_contents ms)) b = card {p. kv p \<noteq> None \<and> bucket_id p = b}"
    using bucket_ok_occ [OF V assms(3)] by (simp only:)
  ultimately show ?thesis
    using True by simp
next
  case False
  then show ?thesis
    using sw_used_exact [OF assms(3,4)] by simp
qed

theorem witness_count_witness:
  "sw_bucket_used_slots (empty_bucket_witness 70000) 70000 = Ok 0"
proof -
  have b: "is_valid_data_bucket 70000"
    by (simp add: is_valid_data_bucket_def salt_consts)
  have "agrees (empty_bucket_witness 70000) (norm (mem_contents mem_store_new))"
    using empty_bucket_agrees [OF b] by (simp add: empty_mem)
  from witness_count [OF mem_holds_new this b empty_bucket_facts(1) [OF b]]
  show ?thesis
    using empty_bucket_facts(2) [OF b] by (simp add: default_meta_def salt_consts)
qed

text \<open>C16: Reads over a partial witness are right or fail: if the witness agrees with the store,
  whatever \<open>plain_value\<close> answers over it is what the full store holds, also for absent keys.\<close>
theorem stateless_read:
  assumes "mem_holds ms kv" "agrees w (norm (mem_contents ms))"
    and "fst (plain_value p (eph_new (sw_reader w))) = Ok r"
  shows "r = kv p"
  by (rule read_agrees [OF assms])

text \<open>C17: A witness of the metadata and all slots of a key's bucket always answers a read of the key,
  with the store's value, no matter what else it lacks.\<close>
theorem stateless_read_total:
  assumes "mem_holds ms kv" "agrees w (norm (mem_contents ms))" "whole_bucket w (bucket_id p)"
  shows "fst (plain_value p (eph_new (sw_reader w))) = Ok (kv p)"
  using sw_find_whole [OF assms(2,3) mem_view(2) [OF assms(1)] _ mem_view(1) [OF assms(1)]] by force

theorem stateless_read_total_witness:
  "fst (plain_value [1, 2, 3] (eph_new (sw_reader (empty_bucket_witness (bucket_id [1, 2, 3]))))) = Ok None"
  by (rule stateless_read_total [OF mem_holds_new])
     (simp_all add: empty_mem empty_bucket_agrees empty_bucket_facts(4))

theorem stateless_read_witness:
  "fst (plain_value [1, 2, 3] (eph_new (sw_reader (empty_bucket_witness (bucket_id [1, 2, 3]))))) = Ok None \<and>
   (None :: bytes option) = (\<lambda>_. None) [1, 2, 3 :: u8]"
proof -
  let ?w = "empty_bucket_witness (bucket_id [1, 2, 3])"
  have w: "agrees ?w (norm (mem_contents mem_store_new))"
    by (simp add: empty_mem empty_bucket_agrees)
  have run: "fst (plain_value [1, 2, 3] (eph_new (sw_reader ?w))) = Ok None"
    using sw_find_whole [OF w empty_bucket_facts(4) mem_view(2) [OF mem_holds_new] _ mem_view(1) [OF mem_holds_new]]
    by force
  then show ?thesis
    using stateless_read [OF mem_holds_new w run] by simp
qed

text \<open>C15: Stateless block execution: if a batch finishes over a partial witness that agrees with the
  store and knows the slot counts of the buckets the batch touches, the state updates it computes,
  rehashes and canonicalization included, are exactly those of a full node, in whatever order the
  two iterate their sets of rehashed buckets.\<close>
theorem stateless_update_fin:
  assumes "mem_holds ms kv" "load_ok ms kv" "enumerates order" "enumerates order'"
    and "batch_fits batch" "roomy batch kv" "agrees w (norm (mem_contents ms))"
    and "\<forall>(p, v) \<in> set batch. \<exists>n. sw_bucket_used_slots w (bucket_id p) = Ok n"
    and "fst (update_fin order batch (eph_new (sw_reader w))) = Ok u"
  shows "fst (update_fin order' batch (eph_new (mem_reader ms))) = Ok u"
  by (rule update_fin_agrees [OF assms])

text \<open>Inserting one key into the empty bucket, for the concrete instance.\<close>

lemma empty_bucket_search:
  assumes "b = bucket_id p" "s = eph_new (sw_reader (empty_bucket_witness b))"
  shows "metadata b False s = (Ok default_meta, s)" "direct_find p s = (Ok None, s)"
    "eph_value (salt_key_from b (probe h i 256)) s = (Ok None, s)"
proof -
  have b: "is_valid_data_bucket b"
    using assms(1) by simp
  have "default_meta\<lparr>used := None\<rparr> = default_meta"
    by (simp add: default_meta_def)
  then show "metadata b False s = (Ok default_meta, s)"
    using sw_metadata_fresh [OF empty_bucket_agrees [OF b] empty_bucket_facts(1) [OF b], of s] assms(2)
    by (simp add: eph_new_def)
  show "direct_find p s = (Ok None, s)"
    using assms(2) by (simp add: direct_find_def eph_new_def sw_reader_def sw_plain_value_fast_def)
  have "unat (probe h i 256) < 256"
    by (simp add: probe_def unat_mod)
  from empty_bucket_get(2) [OF b this]
  show "eph_value (salt_key_from b (probe h i 256)) s = (Ok None, s)"
    using assms(2) by (simp add: eph_value_def eph_new_def sw_reader_def sw_value_cases bt_get_def
        slot_key_def bind_def lift_res_def)
qed

lemma empty_bucket_insert:
  assumes fits: "kv_fits p v"
  defines "b \<equiv> bucket_id p"
  defines "k \<equiv> salt_key_from b (probe (hash_with_nonce p 0) 0 256)"
  shows "fst (update_fin sorted_list_of_set [(p, Some v)] (eph_new (sw_reader (empty_bucket_witness b)))) =
    Ok [(k, (None, Some (sv_enc p v)))]"
proof -
  let ?s = "eph_new (sw_reader (empty_bucket_witness b))" and ?e = "sv_enc p v"
  let ?s1 = "cache_insert k (Some ?e) (bump_usage b 1 ?s)" and ?u = "[(k, (None, Some ?e))]"
  have b: "is_valid_data_bucket b"
    by (simp add: b_def)
  note facts = empty_bucket_search [OF b_def [THEN meta_eq_to_obj_eq] refl]
  have c: "capacity default_meta = 256" "nonce default_meta = 0"
    by (simp_all add: default_meta_def salt_consts)
  have kb: "key_bucket_id k = b"
  proof -
    have "unat (probe (hash_with_nonce p 0) 0 256) < 256"
      by (simp add: probe_def unat_mod)
    then show ?thesis
      using slot_key_parts(1) [OF b, of "unat (probe (hash_with_nonce p 0) 0 256)"]
      by (simp add: k_def slot_key_def del: unat_mod)
  qed
  have upd: "update_value k None (Some ?e) (?s, []) = (Ok (), (?s1, ?u))"
    by (simp add: update_value_def kb add_def try_add_def bt_get_def)
  have cnt: "usage_count b ?s1 = Ok 1"
    using empty_bucket_facts(3) [OF b] by (simp add: usage_count_def eph_new_def cache_insert_def bump_usage_def
        sw_reader_def bt_get_def Let_def)
  have after: "after_insert b 0 256 (?s1, ?u) = (Ok None, (?s1, ?u))"
    using cnt by (simp add: after_insert_def get_bucket_resize_threshold_def BUCKET_RESIZE_LOAD_FACTOR_PCT_def)
  have loop: "upsert_loop b 0 256 (hash_with_nonce p 0) (Suc 255) 0 ?e (?s, []) = (Ok None, (?s1, ?u))"
    using facts(3) upd after unfolding upsert_loop.simps(2) by (simp add: on_fst_def bind_def Let_def k_def)
  have "upsert_once b p v (?s, []) = (Ok None, (?s1, ?u))"
    using facts(1,2) loop
    by (simp add: upsert_once_def on_fst_def if_ok_some_def bind_def c salt_value_new_ok [OF fits])
  then have "shi_upsert b p v (?s, []) = (Ok (), (?s1, ?u))"
    by (simp add: shi_upsert_def upsert_rec.simps [of b p v "(?s, [])"])
  then have "update [(p, Some v)] ?s = (Ok ?u, ?s1)"
    by (simp add: update_def with_updates_def bind_def b_def ret_def)
  moreover have "rehashed_buckets ?s1 = {}"
    by (simp add: eph_new_def cache_insert_def bump_usage_def)
  ultimately show ?thesis
    by (simp add: update_fin_def bind_def canonicalize_def with_updates_def ret_def merge_def)
qed

theorem stateless_update_fin_witness:
  "\<exists>k. fst (update_fin sorted_list_of_set [([1, 2, 3], Some [4])] (eph_new (mem_reader mem_store_new))) =
    Ok [(k, (None, Some (sv_enc [1, 2, 3] [4])))]"
proof -
  let ?w = "empty_bucket_witness (bucket_id [1, 2, 3])" and ?batch = "[([1, 2, 3], Some [4])]"
  have fits: "kv_fits [1, 2, 3] [4]"
    by (simp add: kv_fits_def MAX_SALT_VALUE_BYTES_def)
  have h: "load_ok mem_store_new (\<lambda>_. None)" "batch_fits ?batch" "roomy ?batch (\<lambda>_. None)"
    using fits by (simp_all add: load_ok_def bmap_empty batch_fits_def roomy_def)
  have w: "agrees ?w (norm (mem_contents mem_store_new))"
    by (simp add: empty_mem empty_bucket_agrees)
  have known: "\<forall>(p, v) \<in> set ?batch. \<exists>n. sw_bucket_used_slots ?w (bucket_id p) = Ok n"
    by (simp add: empty_bucket_facts(3))
  show ?thesis
    using stateless_update_fin [OF mem_holds_new h(1) enumerates_sorted enumerates_sorted h(2,3) w known
        empty_bucket_insert [OF fits]]
    by blast
qed

end
