(* ===== verification/Binding.thy ===== *)
theory Binding
  imports Verifier
begin

text \<open>
  What an accepted \<open>SaltProof\<close> binds, when nothing is known of who made it: the queries that follow from
  acceptance, two paths compared step by step even when they claim different numbers of subtree levels, and
  the slots that acceptance says nothing about.
\<close>

section \<open>Hypotheses\<close>

text \<open>Ideal hashing of an entry's bytes: no collisions, none with the empty slot.\<close>

definition collision_free :: "('el, 'fr, 'pf) crypto \<Rightarrow> bool" where
  "collision_free cr \<longleftrightarrow> (\<forall>b c. fr_of_le_bytes cr (blake3 cr b) = fr_of_le_bytes cr (blake3 cr c) \<longrightarrow> b = c) \<and>
     (\<forall>b. fr_of_le_bytes cr (blake3 cr b) \<noteq> fr_of_le_bytes cr EMPTY_SLOT_HASH)"

text \<open>The scalar of a commitment that somebody can open is not the hash of an entry.\<close>

definition separated :: "('el, 'fr, 'pf) crypto \<Rightarrow> ('el \<Rightarrow> 'fr \<Rightarrow> 'fr \<Rightarrow> bool) \<Rightarrow> bool" where
  "separated cr opens \<longleftrightarrow> (\<forall>c i r e. opens c i r \<longrightarrow> el_to_fr cr c \<noteq> kv_scalar cr e)"

text \<open>
  The well-formedness that acceptance does not give: entries in the order of a \<open>BTreeMap\<close>, from one to five levels
  claimed for every bucket, and slots that fit the claimed levels.
\<close>

definition claims_fit :: "bucket_levels \<Rightarrow> (salt_key, salt_value option) btree \<Rightarrow> bool" where
  "claims_fit levels data \<longleftrightarrow> bt_ok data \<and> (\<forall>(k, v) \<in> set data. level_ok levels (key_bucket_id k) \<and>
     unat (key_slot_id k) < 256 ^ unat (level_of levels (key_bucket_id k)))"

lemma claims_fitD:
  assumes "claims_fit levels data" "(k, v) \<in> set data"
  shows "level_ok levels (key_bucket_id k)" "bridge_ok (key_bucket_id k) (level_of levels (key_bucket_id k))"
    "unat (key_slot_id k) < 256 ^ unat (level_of levels (key_bucket_id k))"
  using assms level_okD key_bucket_small [of k] by (auto simp: claims_fit_def bridge_ok_def)

lemma request_claims: "request_ok levels data \<Longrightarrow> claims_fit levels data"
  unfolding request_ok_def claims_fit_def by fast

section \<open>The queries of an accepted proof\<close>

lemma map_collect_in:
  "map_collect f xs = Ok ys \<Longrightarrow> x \<in> set xs \<Longrightarrow> \<exists>y. f x = Ok y \<and> y \<in> set ys"
  by (induction xs arbitrary: ys) (auto simp: bind_res_Ok_iff)

lemma map_collect_all:
  "map_collect f xs = Ok ys \<Longrightarrow> y \<in> set ys \<Longrightarrow> \<exists>x \<in> set xs. f x = Ok y"
  by (induction xs arbitrary: ys) (auto simp: bind_res_Ok_iff)

lemma concat_collect_in:
  assumes "map_res concat (map_collect f xs) = Ok zs" "x \<in> set xs"
  shows "\<exists>ys. f x = Ok ys \<and> set ys \<subseteq> set zs"
proof -
  obtain yss where "map_collect f xs = Ok yss" "zs = concat yss"
    using assms(1) by (auto simp: map_res_Ok_iff)
  with map_collect_in [OF this(1) assms(2)] show ?thesis
    by auto
qed

lemma par_chunks_concat: "par_chunks threads xs = Ok cs \<Longrightarrow> concat cs = xs"
  by (auto simp: par_chunks_def Let_def concat_chunks_of split: if_splits)

lemma children_scalars:
  assumes "children_commitments_to_scalars nodes comms = (Ok (ids, cs) :: (_, 'e proof_error) res)"
  shows "cs = map (commitment_of comms) ids"
proof -
  define child :: "node_id \<Rightarrow> nat \<Rightarrow> (node_id \<times> 'a, 'e proof_error) res" where
    "child n point = bind_res (child_node_id n point) (\<lambda>child_id. case bt_get comms child_id of
        Some c \<Rightarrow> Ok (child_id, c) | None \<Rightarrow> Err (StateReadError (MissingCommitment child_id)))" for n point
  obtain css where css: "map_collect (\<lambda>(n, points). map_collect (child n) (sorted_list_of_set points)) nodes = Ok css"
      "ids = map fst (concat css)" "cs = map snd (concat css)"
    using assms unfolding children_commitments_to_scalars_def child_def [symmetric] map_res_Ok_iff by auto
  have "snd p = commitment_of comms (fst p)" if p: "p \<in> set (concat css)" for p
  proof -
    obtain ps where ps: "ps \<in> set css" "p \<in> set ps"
      using p by auto
    from map_collect_all [OF css(1) ps(1)] obtain n s where "map_collect (child n) (sorted_list_of_set s) = Ok ps"
      by auto
    from map_collect_all [OF this ps(2)] show ?thesis
      by (auto simp: child_def bind_res_Ok_iff commitment_of_def split: option.splits)
  qed
  then show ?thesis
    by (simp add: css(2,3))
qed

lemma child_map_scalar:
  assumes "bt_get (bt_collect (zip ids (map (el_to_fr cr) (map C ids)))) c = Some fr"
  shows "fr = el_to_fr cr (C c)"
proof -
  have "c \<in> set ids"
    using assms by (auto simp: bt_get_collect dest!: map_of_SomeD set_zip_leftD)
  then show ?thesis
    using assms bt_get_collect_zip [of c ids "el_to_fr cr \<circ> C"] by simp
qed

lemma edge_entry: "pts_ok m \<Longrightarrow> (n, i) \<in> edges m \<Longrightarrow> \<exists>s. (n, s) \<in> set m \<and> i \<in> s \<and> finite s"
  unfolding in_edges_iff by (fastforce simp: pts_ok_def)

lemma internal_query_in:
  assumes "create_internal_node_queries cr threads im comms = (Ok qs :: (_, 'e proof_error) res)"
    and "pts_ok im" "(n, i) \<in> edges im" "child_node_id n i = (Ok (child_of n i) :: (_, 'e proof_error) res)"
  shows "step_query cr (commitment_of comms) (n, i) \<in> set qs"
proof -
  obtain s where s: "(n, s) \<in> set im" "i \<in> s" "finite s"
    using edge_entry [OF assms(2,3)] by blast
  define run :: "(node_id \<times> nat set) list \<Rightarrow> (('a, 'b) verifier_query list, 'e proof_error) res" where
    "run nodes = bind_res (children_commitments_to_scalars nodes comms) (\<lambda>(ids, cms).
      let child_map = bt_collect (zip ids (map (el_to_fr cr) cms))
      in map_res concat (map_collect (internal_queries_of cr comms child_map) nodes))" for nodes
  obtain cs where cs: "par_chunks threads im = (Ok cs :: (_, 'e proof_error) res)" "map_res concat (map_collect run cs) = Ok qs"
    using assms(1) unfolding create_internal_node_queries_def run_def [symmetric] bind_res_Ok_iff by auto
  then obtain nodes where nodes: "nodes \<in> set cs" "(n, s) \<in> set nodes"
    using s(1) par_chunks_concat [OF cs(1)] by auto
  obtain ys where ys: "run nodes = Ok ys" "set ys \<subseteq> set qs"
    using concat_collect_in [OF cs(2) nodes(1)] by blast
  then obtain ids cms where ids: "children_commitments_to_scalars nodes comms = (Ok (ids, cms) :: (_, 'e proof_error) res)"
    unfolding run_def bind_res_Ok_iff by auto
  then have inner: "map_res concat (map_collect (internal_queries_of cr comms (bt_collect (zip ids (map (el_to_fr cr) cms)))) nodes) = (Ok ys :: (_, 'e proof_error) res)"
    using ys(1) by (simp add: run_def Let_def)
  obtain zs where zs: "internal_queries_of cr comms (bt_collect (zip ids (map (el_to_fr cr) cms))) (n, s) = (Ok zs :: (_, 'e proof_error) res)"
      "set zs \<subseteq> set ys"
    using concat_collect_in [OF inner nodes(2)] by blast
  define child where "child = bt_collect (zip ids (map (el_to_fr cr) (map (commitment_of comms) ids)))"
  obtain c where c: "bt_get comms (connect_parent_id n) = Some c"
      "map_collect (\<lambda>point. bind_res (child_node_id n point) (\<lambda>child_id. case bt_get child child_id of
         Some fr \<Rightarrow> Ok \<lparr>vq_commitment = c, vq_point = fr_of_u64 cr (of_nat point), vq_result = fr\<rparr>
       | None \<Rightarrow> Err (StateReadError (MissingCommitment child_id)))) (sorted_list_of_set s) = (Ok zs :: (_, 'e proof_error) res)"
    using zs(1) unfolding children_scalars [OF ids] child_def [symmetric]
    by (auto simp: internal_queries_of_def get_commitment_safe_def bind_res_Ok_iff split: option.splits)
  have "i \<in> set (sorted_list_of_set s)"
    using s(2,3) by simp
  from map_collect_in [OF c(2) this] obtain fr where
    "bt_get child (child_of n i) = Some fr"
    "\<lparr>vq_commitment = c, vq_point = fr_of_u64 cr (of_nat i), vq_result = fr\<rparr> \<in> set zs"
    using assms(4) by (auto simp: bind_res_Ok_iff split: option.splits)
  then show ?thesis
    using zs(2) ys(2) c(1) child_map_scalar [of ids cr "commitment_of comms"] unfolding child_def
    by (auto simp: step_query_def commitment_of_def)
qed

lemma slot_to_field_scalar: "slot_to_field cr entry = (Ok fr :: (_, 'e) res) \<Longrightarrow> fr = kv_scalar cr entry"
  by (auto simp: slot_to_field_def kv_hash_def kv_scalar_def bind_res_Ok_iff sv_key_def sv_value_def slice_def
      plain_key_def plain_val_def split: option.splits if_splits)

lemma leaf_query_in:
  assumes "create_leaf_node_queries cr sm comms data = (Ok qs :: (_, 'e proof_error) res)" "pts_ok sm" "(n, i) \<in> edges sm"
  shows "\<exists>e. bt_get data (leaf_start_key n + of_nat i) = Some e \<and> \<lparr>vq_commitment = commitment_of comms (connect_parent_id n),
    vq_point = fr_of_u64 cr (of_nat i), vq_result = kv_scalar cr e\<rparr> \<in> set qs"
proof -
  obtain s where s: "(n, s) \<in> set sm" "i \<in> s" "finite s"
    using edge_entry [OF assms(2,3)] by blast
  obtain zs where "bind_res (get_commitment_safe comms (connect_parent_id n)) (\<lambda>commitment.
       let salt_key_start = leaf_start_key n
       in map_collect (\<lambda>point.
            let salt_key = salt_key_start + of_nat point
            in case bt_get data salt_key of
                 None \<Rightarrow> Err (StateReadError (MissingKv salt_key))
               | Some salt_val \<Rightarrow> bind_res (slot_to_field cr salt_val) (\<lambda>fr.
                   Ok \<lparr>vq_commitment = commitment, vq_point = fr_of_u64 cr (of_nat point), vq_result = fr\<rparr>))
            (sorted_list_of_set s)) = (Ok zs :: (_, 'e proof_error) res)" "set zs \<subseteq> set qs"
    using concat_collect_in [OF assms(1) [unfolded create_leaf_node_queries_def] s(1)] by auto
  then obtain c where c: "bt_get comms (connect_parent_id n) = Some c"
      "map_collect (\<lambda>point. case bt_get data (leaf_start_key n + of_nat point) of
                 None \<Rightarrow> Err (StateReadError (MissingKv (leaf_start_key n + of_nat point)))
               | Some salt_val \<Rightarrow> bind_res (slot_to_field cr salt_val) (\<lambda>fr.
                   Ok \<lparr>vq_commitment = c, vq_point = fr_of_u64 cr (of_nat point), vq_result = fr\<rparr>))
            (sorted_list_of_set s) = (Ok zs :: (_, 'e proof_error) res)" "set zs \<subseteq> set qs"
    by (auto simp: get_commitment_safe_def Let_def split: option.splits)
  have "i \<in> set (sorted_list_of_set s)"
    using s(2,3) by simp
  from map_collect_in [OF c(2) this] obtain e fr where
    "bt_get data (leaf_start_key n + of_nat i) = Some e" "slot_to_field cr e = (Ok fr :: (_, 'e proof_error) res)"
    "\<lparr>vq_commitment = c, vq_point = fr_of_u64 cr (of_nat i), vq_result = fr\<rparr> \<in> set zs"
    by (auto simp: bind_res_Ok_iff split: option.splits)
  then show ?thesis
    using c(1,3) slot_to_field_scalar [of cr e] by (auto simp: commitment_of_def)
qed

text \<open>
  Acceptance opens every step of the path of a witnessed key. The last one opens to the hash of the key's own
  entry, except in the bucket 0 with a claim of more than one level, where the address computation of
  \<open>create_leaf_node_queries\<close> reads another entry.
\<close>

lemma accepted_path:
  assumes "opening_sound cr opens" "claims_fit (sp_levels proof) data"
    and "proof_check cr threads proof data root = (Ok () :: (_, 'e proof_error) res)" "(k, v) \<in> set data"
  shows "root = hash_commitment cr (el_bytes cr (commitment_of (parents_commitments proof) 0))"
    and "\<exists>e. (\<forall>q \<in> set (path_queries cr (commitment_of (parents_commitments proof)) (kv_scalar cr e) (path_of (sp_levels proof) k)).
        opens (vq_commitment q) (vq_point q) (vq_result q)) \<and>
      ((key_bucket_id k = 0 \<longrightarrow> level_of (sp_levels proof) (key_bucket_id k) = 1) \<longrightarrow> e = v)"
proof -
  let ?L = "sp_levels proof" and ?comms = "parents_commitments proof"
  let ?b = "key_bucket_id k" and ?s = "unat (key_slot_id k)"
  note claims = claims_fitD [OF assms(2,4)]
  have ok: "\<forall>k \<in> set (map fst data). level_ok ?L (key_bucket_id k)"
    using assms(2) by (auto simp: claims_fit_def)
  obtain im sm where ims: "parents_and_points (map fst data) ?L = (Ok (im, sm) :: (_, 'e proof_error) res)" "pts_ok im" "pts_ok sm"
      "edges im = (\<Union>k \<in> fst ` set data. key_internal ?L k)" "edges sm = key_leaf ?L ` fst ` set data"
    using parents_and_points_spec [OF ok, where 'e = "'e proof_error"] by auto
  obtain qs where qs: "create_verifier_queries cr threads proof data = (Ok qs :: (_, 'e proof_error) res)"
      "mp_check cr (sp_proof proof) qs" "root = hash_commitment cr (el_bytes cr (commitment_of ?comms 0))"
    using assms(3) by (auto simp: proof_check_def bind_res_Ok_iff commitment_of_def Let_def split: option.splits if_splits)
  then show "root = hash_commitment cr (el_bytes cr (commitment_of ?comms 0))"
    by simp
  obtain qi ql where q: "create_internal_node_queries cr threads im ?comms = (Ok qi :: (_, 'e proof_error) res)"
      "create_leaf_node_queries cr sm ?comms data = (Ok ql :: (_, 'e proof_error) res)" "qs = qi @ ql"
    using qs(1) by (auto simp: create_verifier_queries_def Let_def ims(1) bind_res_Ok_iff split: if_splits)
  have holds: "opens (vq_commitment q) (vq_point q) (vq_result q)" if "q \<in> set qi \<or> q \<in> set ql" for q
    using assms(1) qs(2) that by (auto simp: opening_sound_def q(3))
  have linked: "linked child_node_id (path_of ?L k)"
    unfolding path_of_def by (rule auth_path_linked [OF claims(2,3)])
  have edges: "set (butlast (path_of ?L k)) = key_internal ?L k" "last (path_of ?L k) = key_leaf ?L k"
    using auth_path_edges [OF claims(2)] by (simp_all add: path_of_def key_internal_def key_leaf_def)
  have key: "k \<in> fst ` set data"
    using assms(4) by force
  have steps: "step_query cr (commitment_of ?comms) x \<in> set qi" if x: "x \<in> key_internal ?L k" for x
  proof -
    obtain n i where ni: "x = (n, i)"
      by (cases x)
    have "child_node_id n i = (Ok (child_of n i) :: (_, 'e proof_error) res)"
      using linked_child [OF auth_path_linked [OF claims(2,3)] auth_path_linked [OF claims(2,3)], folded path_of_def] x
      unfolding ni edges(1) by blast
    then show ?thesis
      using internal_query_in [OF q(1) ims(2)] x key unfolding ni ims(4) by blast
  qed
  obtain e where e: "bt_get data (leaf_start_key (fst (key_leaf ?L k)) + of_nat (snd (key_leaf ?L k))) = Some e"
      "\<lparr>vq_commitment = commitment_of ?comms (connect_parent_id (fst (key_leaf ?L k))),
        vq_point = fr_of_u64 cr (of_nat (snd (key_leaf ?L k))), vq_result = kv_scalar cr e\<rparr> \<in> set ql"
    using leaf_query_in [OF q(2) ims(3), of "fst (key_leaf ?L k)" "snd (key_leaf ?L k)"] key unfolding ims(5) by auto
  have "e = v" if "?b = 0 \<longrightarrow> level_of ?L ?b = 1"
    using leaf_start_key_leaf [OF claims(2,3)] that e(1) bt_get_in [of data k v] assms(2,4) by (simp add: claims_fit_def)
  moreover have "opens (vq_commitment q) (vq_point q) (vq_result q)"
    if "q \<in> set (path_queries cr (commitment_of ?comms) (kv_scalar cr e) (path_of ?L k))" for q
    using that holds steps e(2) unfolding path_queries_linked [OF linked path_of_not_Nil] edges by blast
  ultimately show "\<exists>e. (\<forall>q \<in> set (path_queries cr (commitment_of ?comms) (kv_scalar cr e) (path_of ?L k)).
        opens (vq_commitment q) (vq_point q) (vq_result q)) \<and>
      ((?b = 0 \<longrightarrow> level_of ?L ?b = 1) \<longrightarrow> e = v)"
    by blast
qed

section \<open>Comparing paths\<close>

text \<open>
  Two opened paths that start at the same commitment and take the same positions as far as both go: neither ends
  before the other, or the hash of an entry would be the scalar of a commitment that opens; and they end in the same
  hash.
\<close>

lemma head_opens:
  "\<forall>q \<in> set (path_queries cr C r ((n, i) # ps)). opens (vq_commitment q) (vq_point q) (vq_result q) \<Longrightarrow>
    opens (C (connect_parent_id n)) (fr_of_u64 cr (of_nat i)) (case ps of [] \<Rightarrow> r | x # _ \<Rightarrow> el_to_fr cr (C (connect_parent_id (fst x))))"
  by (cases ps) auto

lemma paths_agree:
  assumes "opening_binding cr opens" "separated cr opens" "ps \<noteq> []" "qs \<noteq> []"
    and "el_to_fr cr (C (connect_parent_id (fst (hd ps)))) = el_to_fr cr (C' (connect_parent_id (fst (hd qs))))"
    and "take (length qs) (map snd ps) = take (length ps) (map snd qs)"
    and "\<forall>q \<in> set (path_queries cr C (kv_scalar cr e) ps). opens (vq_commitment q) (vq_point q) (vq_result q)"
    and "\<forall>q \<in> set (path_queries cr C' (kv_scalar cr e') qs). opens (vq_commitment q) (vq_point q) (vq_result q)"
  shows "length ps = length qs \<and> kv_scalar cr e = kv_scalar cr e'"
  using assms(3-)
proof (induction ps arbitrary: qs rule: induct_list012)
  case (2 x)
  obtain n i where x: "x = (n, i)" by (cases x)
  show ?case
  proof (cases qs rule: remdups_adj.cases)
    case (2 y)
    then show ?thesis
      using assms(1) "2.prems" unfolding opening_binding_def x by (cases y) auto
  next
    case (3 y y' zs)
    obtain m j m' j' where y: "y = (m, j)" "y' = (m', j')"
      by (cases y, cases y')
    have "\<forall>q \<in> set (path_queries cr C' (kv_scalar cr e') ((m', j') # zs)). opens (vq_commitment q) (vq_point q) (vq_result q)"
      using "2.prems"(6) unfolding 3 y by simp
    from head_opens [OF this] have "\<exists>i' r. opens (C' (connect_parent_id m')) i' r"
      by (intro exI)
    moreover have "kv_scalar cr e = el_to_fr cr (C' (connect_parent_id m'))"
      using assms(1) "2.prems" unfolding opening_binding_def 3 x y by auto
    ultimately show ?thesis
      using assms(2) unfolding separated_def by metis
  qed (use 2 in simp)
next
  case (3 x x' xs)
  obtain n i n' i' where x: "x = (n, i)" "x' = (n', i')"
    by (cases x, cases x')
  show ?case
  proof (cases qs rule: remdups_adj.cases)
    case (2 y)
    obtain m j where y: "y = (m, j)" by (cases y)
    have "\<forall>q \<in> set (path_queries cr C (kv_scalar cr e) ((n', i') # xs)). opens (vq_commitment q) (vq_point q) (vq_result q)"
      using "3.prems"(5) unfolding x by simp
    from head_opens [OF this] have "\<exists>i r. opens (C (connect_parent_id n')) i r"
      by (intro exI)
    moreover have "el_to_fr cr (C (connect_parent_id n')) = kv_scalar cr e'"
      using assms(1) "3.prems" unfolding opening_binding_def 2 x y by auto
    ultimately show ?thesis
      using assms(2) unfolding separated_def by metis
  next
    case q: (3 y y' zs)
    obtain m j m' j' where y: "y = (m, j)" "y' = (m', j')"
      by (cases y, cases y')
    have "el_to_fr cr (C (connect_parent_id n')) = el_to_fr cr (C' (connect_parent_id m'))"
      using assms(1) "3.prems" unfolding opening_binding_def q x y by auto
    then show ?thesis
      using "3.IH"(2) [of "y' # zs"] "3.prems" unfolding q x y by simp
  qed (use 3 in simp)
qed simp

text \<open>The positions on the path of a key: three in the main trie, and the digits of the slot in base 256.\<close>

definition slot_digits :: "nat \<Rightarrow> nat \<Rightarrow> nat list" where
  "slot_digits n s = map (\<lambda>j. s div 256 ^ (n - 1 - j) mod 256) [0..<n]"

lemma auth_path_positions:
  assumes "bridge_ok b L"
  shows "map snd (auth_path b s L) = [unat b div 65536, unat b div 256 mod 256, unat b mod 256] @ slot_digits (unat L) s"
  using level_word_cases [OF assms]
  by (elim disjE) (simp_all add: auth_path_def slot_digits_def upt_rec)

lemma take_slot_digits:
  assumes "m \<le> n"
  shows "take m (slot_digits n s) = slot_digits m (s div 256 ^ (n - m))"
proof -
  have "s div 256 ^ (n - 1 - j) mod 256 = s div 256 ^ (n - m) div 256 ^ (m - 1 - j) mod 256" if "j < m" for j
  proof -
    have "n - 1 - j = (n - m) + (m - 1 - j)"
      using assms that by simp
    then show ?thesis
      by (simp only: power_add div_mult2_eq)
  qed
  then show ?thesis
    using assms by (simp add: slot_digits_def take_map min_def)
qed

text \<open>Some slot of a bucket with \<open>L'\<close> levels starts, or is, as the slot \<open>s\<close> of a bucket with \<open>L\<close> levels.\<close>

lemma common_slot:
  assumes "bridge_ok b L" "bridge_ok b L'" "s < 256 ^ unat L"
  shows "\<exists>t < 256 ^ unat L'. (L = L' \<longrightarrow> t = s) \<and>
    take (length (auth_path b t L')) (map snd (auth_path b s L)) = take (length (auth_path b s L)) (map snd (auth_path b t L'))"
proof -
  have len: "length (auth_path b x M) = 3 + unat M" if "bridge_ok b M" for x M
    using arg_cong [OF auth_path_positions [OF that, of x], of length] by (simp add: slot_digits_def)
  have t3: "take (3 + n) ([x, y, z] @ xs) = [x, y, z] @ take n xs" for n x y z and xs :: "nat list"
    by (simp add: numeral_3_eq_3)
  show ?thesis
  proof (cases "unat L \<le> unat L'")
    case True
    let ?t = "s * 256 ^ (unat L' - unat L)"
    have "?t < 256 ^ unat L * 256 ^ (unat L' - unat L)"
      using assms(3) by simp
    then have "?t < 256 ^ unat L'"
      using True by (simp flip: power_add)
    moreover have "take (unat L) (slot_digits (unat L') ?t) = slot_digits (unat L) s"
      by (simp add: take_slot_digits [OF True])
    ultimately show ?thesis
      using True by (intro exI [of _ ?t])
        (simp only: len assms auth_path_positions t3, simp add: slot_digits_def)
  next
    case False
    let ?t = "s div 256 ^ (unat L - unat L')"
    have "s < 256 ^ unat L' * 256 ^ (unat L - unat L')"
      using assms(3) False by (simp flip: power_add)
    then have "?t < 256 ^ unat L'"
      by (rule less_mult_imp_div_less)
    moreover have "take (unat L') (slot_digits (unat L) s) = slot_digits (unat L') ?t"
      using False by (simp add: take_slot_digits)
    ultimately show ?thesis
      using False by (intro exI [of _ ?t])
        (simp only: len assms auth_path_positions t3, auto simp: slot_digits_def)
  qed
qed

section \<open>An honest trie\<close>

text \<open>
  The commitments \<open>C\<close> of the nodes of a trie over the state \<open>V\<close> in which the bucket \<open>b\<close> has \<open>lv b\<close> levels, the bucket 0
  one: they open, along the path of every slot that exists, to each other and to the entry.
\<close>

definition trie_over ::
  "('el, 'fr, 'pf) crypto \<Rightarrow> ('el \<Rightarrow> 'fr \<Rightarrow> 'fr \<Rightarrow> bool) \<Rightarrow> (node_id \<Rightarrow> 'el) \<Rightarrow> (bucket_id \<Rightarrow> u8) \<Rightarrow> salt_state \<Rightarrow> bool"
where
  "trie_over cr opens C lv V \<longleftrightarrow> lv 0 = 1 \<and> (\<forall>b. 1 \<le> lv b \<and> lv b \<le> 5) \<and>
     (\<forall>k. unat (key_slot_id k) < 256 ^ unat (lv (key_bucket_id k)) \<longrightarrow>
        (\<forall>q \<in> set (path_queries cr C (kv_scalar cr (V k)) (auth_path (key_bucket_id k) (unat (key_slot_id k)) (lv (key_bucket_id k)))).
           opens (vq_commitment q) (vq_point q) (vq_result q)))"

lemma path_root: "(connect_parent_id \<circ> fst) (hd (auth_path b s L)) = 0"
proof -
  have "node_fits 0 0 0"
    by (simp add: node_fits_def)
  then show ?thesis
    using connect_node_at [of 0 0 0] by (simp add: auth_path_def node_at_def)
qed

text \<open>A proof accepted against the root of the trie claims the right levels and shows the right hashes.\<close>

lemma accepted_authentic:
  assumes crypto: "opening_sound cr opens" "opening_binding cr opens" "faithful_bytes cr" "separated cr opens"
    and trie: "trie_over cr opens C lv V" and fit: "claims_fit (sp_levels proof) data"
    and ok: "proof_check cr threads proof data (hash_commitment cr (el_bytes cr (C 0))) = (Ok () :: (_, 'e proof_error) res)"
    and kv: "(k, v) \<in> set data"
  shows "level_of (sp_levels proof) (key_bucket_id k) = lv (key_bucket_id k)" "kv_scalar cr v = kv_scalar cr (V k)"
proof -
  let ?L = "level_of (sp_levels proof) (key_bucket_id k)" and ?b = "key_bucket_id k" and ?s = "unat (key_slot_id k)"
  let ?D = "commitment_of (parents_commitments proof)"
  note claims = claims_fitD [OF fit kv]
  have M: "bridge_ok ?b (lv ?b)"
    using trie key_bucket_small [of k] by (simp add: trie_over_def bridge_ok_def)
  obtain e where e: "\<forall>q \<in> set (path_queries cr ?D (kv_scalar cr e) (auth_path ?b ?s ?L)). opens (vq_commitment q) (vq_point q) (vq_result q)"
      "(?b = 0 \<longrightarrow> ?L = 1) \<longrightarrow> e = v"
    using accepted_path(2) [OF crypto(1) fit ok kv] by (auto simp: path_of_def)
  obtain t where t: "t < 256 ^ unat (lv ?b)" "?L = lv ?b \<longrightarrow> t = ?s"
      "take (length (auth_path ?b t (lv ?b))) (map snd (auth_path ?b ?s ?L)) = take (length (auth_path ?b ?s ?L)) (map snd (auth_path ?b t (lv ?b)))"
    using common_slot [OF claims(2) M claims(3)] by blast
  have "(256 :: nat) ^ unat (lv ?b) \<le> 256 ^ 5"
    using bridge_okD [OF M] by (intro power_increasing) simp_all
  then have t40: "t < 2 ^ 40"
    using t(1) by simp
  then have u: "unat (of_nat t :: u64) = t"
    by (simp add: unsigned_of_nat take_bit_nat_eq_self)
  let ?k = "salt_key_from ?b (of_nat t)"
  have fits: "key_fits ?b (of_nat t)"
    using t40 key_bucket_small [of k] by (simp add: key_fits_def u)
  have parts: "key_bucket_id ?k = ?b" "unat (key_slot_id ?k) = t"
    using key_bucket_id_from [OF fits] key_slot_id_from [OF fits] by (simp_all add: u)
  have h: "\<forall>q \<in> set (path_queries cr C (kv_scalar cr (V ?k)) (auth_path ?b t (lv ?b))). opens (vq_commitment q) (vq_point q) (vq_result q)"
    using trie t(1) parts unfolding trie_over_def by metis
  have "el_to_fr cr (?D 0) = el_to_fr cr (C 0)"
    by (rule same_root [OF crypto(3)]) (use accepted_path(1) [OF crypto(1) fit ok kv] in simp)
  then have start: "el_to_fr cr (?D (connect_parent_id (fst (hd (auth_path ?b ?s ?L))))) =
      el_to_fr cr (C (connect_parent_id (fst (hd (auth_path ?b t (lv ?b))))))"
    using path_root [of ?b] by simp
  have ne: "auth_path ?b x L \<noteq> []" for x L
    by (simp add: auth_path_def)
  have same: "length (auth_path ?b ?s ?L) = length (auth_path ?b t (lv ?b))" "kv_scalar cr e = kv_scalar cr (V ?k)"
    using paths_agree [OF crypto(2,4) ne ne start t(3) e(1) h] by blast+
  have "unat ?L = unat (lv ?b)"
    using same(1) arg_cong [OF auth_path_positions [OF claims(2), of ?s], of length]
      arg_cong [OF auth_path_positions [OF M, of t], of length] by (simp add: slot_digits_def)
  then show L: "?L = lv ?b"
    by (simp add: word_eq_unat)
  then have "?k = k"
    using t(2) salt_key_from_parts [of k] by simp
  moreover have "e = v"
    using e(2) L trie by (auto simp: trie_over_def)
  ultimately show "kv_scalar cr v = kv_scalar cr (V k)"
    using same(2) by simp
qed

end
