(* ===== verification/Adversary.thy ===== *)
theory Adversary
  imports Binding
begin

text \<open>
  What a maker of proofs can and cannot do against \<open>SaltProof::check\<close>: two accepted proofs cannot contradict
  each other, but a slot beyond the levels of its bucket is accepted with any contents. The instance is an ideal trie,
  whose commitments are the numbers of the nodes.
\<close>

section \<open>An ideal trie\<close>

text \<open>Commitments that are node numbers and open to what the state holds, for the concrete instances.\<close>

datatype ideal_fr = Child node_id | Hash bytes | Point u64

definition ideal_open :: "salt_state \<Rightarrow> node_id \<Rightarrow> u64 \<Rightarrow> ideal_fr" where
  "ideal_open V n i =
     (if n < STARTING_NODE_ID ! 3 then Child (child_of n (unat i))
      else Hash (case V (leaf_start_key n + i) of
          None \<Rightarrow> EMPTY_SLOT_HASH
        | Some v \<Rightarrow> 0 # plain_key v @ plain_val v))"

definition ideal_opens :: "salt_state \<Rightarrow> node_id \<Rightarrow> ideal_fr \<Rightarrow> ideal_fr \<Rightarrow> bool" where
  "ideal_opens V n i r \<longleftrightarrow> (\<exists>p. i = Point p \<and> r = ideal_open V n p)"

fun ideal_bytes :: "ideal_fr \<Rightarrow> bytes" where
  "ideal_bytes (Child n) = 0 # replicate (unat n) 0"
| "ideal_bytes (Hash b) = 1 # b"
| "ideal_bytes (Point p) = 2 # replicate (unat p) 0"

definition ideal_crypto :: "salt_state \<Rightarrow> (node_id, ideal_fr, unit) crypto" where
  "ideal_crypto V = \<lparr>el_bytes = (\<lambda>n. replicate (unat n) 0), el_of_bytes = (\<lambda>b. of_nat (length b)),
     el_to_fr = Child, fr_of_u64 = Point, fr_of_le_bytes = Hash, fr_bytes = ideal_bytes, blake3 = (\<lambda>b. 0 # b),
     mp_open = (\<lambda>_. ()), mp_check = (\<lambda>_ qs. \<forall>q \<in> set qs.
       \<exists>p. vq_point q = Point p \<and> vq_result q = ideal_open V (vq_commitment q) p)\<rparr>"

lemma ideal_bytes_inj: "ideal_bytes r = ideal_bytes r' \<Longrightarrow> r = r'"
  by (cases r; cases r') (auto simp: word_unat_eq_iff dest: arg_cong [of _ _ length])

lemma ideal_laws:
  "opening_sound (ideal_crypto V) (ideal_opens V)" "opening_binding (ideal_crypto V) (ideal_opens V)"
  "faithful_bytes (ideal_crypto V)" "collision_free (ideal_crypto V)" "separated (ideal_crypto V) (ideal_opens V)"
proof -
  show "opening_sound (ideal_crypto V) (ideal_opens V)"
    by (auto simp: opening_sound_def ideal_crypto_def ideal_opens_def)
  show "opening_binding (ideal_crypto V) (ideal_opens V)"
    by (auto simp: opening_binding_def ideal_crypto_def ideal_opens_def)
  show "faithful_bytes (ideal_crypto V)"
    using ideal_bytes_inj by (auto simp: faithful_bytes_def ideal_crypto_def)
  show "collision_free (ideal_crypto V)"
    by (auto simp: collision_free_def ideal_crypto_def EMPTY_SLOT_HASH_def dest: arg_cong [of _ _ hd])
  show "separated (ideal_crypto V) (ideal_opens V)"
    by (simp add: separated_def ideal_crypto_def kv_scalar_def)
qed

lemma ideal_simps [simp]:
  "el_to_fr (ideal_crypto V) = Child" "fr_of_u64 (ideal_crypto V) = Point"
  "kv_scalar (ideal_crypto V) e = Hash (case e of None \<Rightarrow> EMPTY_SLOT_HASH | Some v \<Rightarrow> 0 # plain_key v @ plain_val v)"
  by (simp_all add: ideal_crypto_def kv_scalar_def split: option.split)

lemma child_of_next: "child_node_id n i = (Ok c :: (_, unit) res) \<Longrightarrow> child_of n i = c"
  by (simp add: child_of_def)

lemma ideal_path:
  assumes "level_of levels (key_bucket_id k) = 1" "unat (key_slot_id k) < 256"
    and "q \<in> set (path_queries (ideal_crypto V) (\<lambda>n. n) (kv_scalar (ideal_crypto V) (V k)) (path_of levels k))"
  shows "\<exists>p. vq_point q = Point p \<and> vq_result q = ideal_open V (vq_commitment q) p"
proof -
  let ?b = "unat (key_bucket_id k)" and ?s = "unat (key_slot_id k)"
  have b: "?b < 16777216"
    using key_bucket_small [of k] by simp
  have br: "bridge_ok (key_bucket_id k) 1"
    using b by (simp add: bridge_ok_def)
  have fits: "node_fits 0 0 0" "node_fits 0 1 (?b div 65536)" "node_fits 0 2 (?b div 256)" "node_fits 0 3 ?b"
    using b by (simp_all add: node_fits_def less_mult_imp_div_less)
  note conn = fits [THEN connect_node_at]
  have low: "node_at 0 0 0 < STARTING_NODE_ID ! 3" "node_at 0 1 (?b div 65536) < STARTING_NODE_ID ! 3"
      "node_at 0 2 (?b div 256) < STARTING_NODE_ID ! 3" "\<not> node_at 0 3 ?b < STARTING_NODE_ID ! 3"
    using fits [THEN unat_node_at] b by (simp_all add: word_less_nat_alt salt_consts less_mult_imp_div_less)
  have "linked (child_node_id :: _ \<Rightarrow> _ \<Rightarrow> (_, unit) res) (auth_path (key_bucket_id k) ?s 1)"
    by (rule auth_path_linked [OF br]) (use assms(2) in simp)
  then have child: "child_of (node_at 0 0 0) (?b div 65536) = node_at 0 1 (?b div 65536)"
      "child_of (node_at 0 1 (?b div 65536)) (?b div 256 mod 256) = node_at 0 2 (?b div 256)"
      "child_of (node_at 0 2 (?b div 256)) (?b mod 256) = node_at 0 3 ?b"
    using conn by (auto simp: auth_path_def bucket_root_node_at intro!: child_of_next)
  have small: "unat (of_nat (?b div 65536) :: u64) = ?b div 65536" "unat (of_nat (?b div 256 mod 256) :: u64) = ?b div 256 mod 256"
      "unat (of_nat (?b mod 256) :: u64) = ?b mod 256"
    using b by (simp_all add: unsigned_of_nat take_bit_nat_eq_self less_mult_imp_div_less)
  have leaf: "leaf_start_key (node_at 0 3 ?b) + of_nat (?s mod 256) = k"
    using leaf_start_key_leaf [of k levels, OF _ _ assms(1)] br assms(1,2)
    by (simp add: key_leaf_def leaf_edge_def bucket_root_node_at)
  have "path_of levels k = [(node_at 0 0 0, ?b div 65536), (node_at 0 1 (?b div 65536), ?b div 256 mod 256),
      (node_at 0 2 (?b div 256), ?b mod 256), (node_at 0 3 ?b, ?s mod 256)]"
    using assms(1) by (simp add: path_of_def auth_path_def bucket_root_node_at)
  then show ?thesis
    using assms(3) low child small leaf conn by (auto simp: ideal_open_def)
qed

lemma path_queries_cong:
  "(\<And>n. n \<in> (connect_parent_id \<circ> fst) ` set ps \<Longrightarrow> C n = C' n) \<Longrightarrow> path_queries cr C r ps = path_queries cr C' r ps"
proof (induction ps rule: induct_list012)
  case (2 x)
  then show ?case
    by (cases x) simp
next
  case (3 x y zs)
  then show ?case
    by (cases x, cases y) simp
qed simp

definition ideal_proof :: "bucket_levels \<Rightarrow> (salt_key, salt_value option) btree \<Rightarrow> (node_id, unit) salt_proof" where
  "ideal_proof levels data = \<lparr>parents_commitments = map (\<lambda>n. (n, n)) (sorted_list_of_set (required_nodes levels (fst ` set data))),
     sp_proof = (), sp_levels = levels\<rparr>"

text \<open>Requests for buckets of one level are accepted when they show what the state holds.\<close>

lemma ideal_accepts:
  assumes req: "request_ok levels data" and buckets: "fst ` set levels = key_bucket_id ` fst ` set data"
    and one: "\<forall>(k, v) \<in> set data. level_of levels (key_bucket_id k) = 1 \<and> V k = v"
  shows "bt_get (parents_commitments (ideal_proof levels data)) 0 = Some 0"
    and "proof_check (ideal_crypto V) 1 (ideal_proof levels data) data
      (hash_commitment (ideal_crypto V) (el_bytes (ideal_crypto V) 0)) = (Ok () :: (_, 'e proof_error) res)"
proof -
  let ?cr = "ideal_crypto V" and ?p = "ideal_proof levels data"
  let ?N = "required_nodes levels (fst ` set data)" and ?cs = "parents_commitments (ideal_proof levels data)"
  have cs: "?cs = map (\<lambda>n. (n, n)) (sorted_list_of_set ?N)" and fin: "finite ?N"
    by (simp_all add: ideal_proof_def required_nodes_def)
  have nodes: "fst ` set ?cs = ?N"
    using fin by (simp add: cs image_comp)
  have C: "commitment_of ?cs n = n" if "n \<in> ?N" for n
    using that fin map_of_map_restrict [of "\<lambda>n. n" "sorted_list_of_set ?N"]
    by (simp add: commitment_of_def cs bt_get_def restrict_map_def)
  obtain c where c: "bt_get ?cs 0 = Some c"
    using root_commitment [OF req nodes] by blast
  then have "0 \<in> ?N"
    using nodes bt_get_Some_in [OF c] by force
  then have 0: "commitment_of ?cs 0 = 0"
    by (rule C)
  then show "bt_get ?cs 0 = Some 0"
    using c by (simp add: commitment_of_def)
  obtain qs where qs: "set qs = (\<Union>(k, v) \<in> set data. set (path_queries ?cr (commitment_of ?cs) (kv_scalar ?cr v) (path_of levels k)))"
      "\<And>root. proof_check ?cr 1 ?p data root = (let trie_root = hash_commitment ?cr (el_bytes ?cr (commitment_of ?cs 0))
       in if root \<noteq> trie_root then Err (RootMismatch trie_root root)
          else if mp_check ?cr (sp_proof ?p) qs then Ok () else Err (MultiPointProofFailed :: 'e proof_error))"
    using check_decides_aux [of 1 ?p data ?cr, where 'e = 'e] req buckets nodes by (auto simp: ideal_proof_def)
  have "\<exists>p. vq_point q = Point p \<and> vq_result q = ideal_open V (vq_commitment q) p" if q: "q \<in> set qs" for q
  proof -
    obtain k v where kv: "(k, v) \<in> set data" "q \<in> set (path_queries ?cr (commitment_of ?cs) (kv_scalar ?cr v) (path_of levels k))"
      using q qs(1) by auto
    have k: "level_of levels (key_bucket_id k) = 1" "V k = v"
      using one kv(1) by auto
    have "(connect_parent_id \<circ> fst) ` set (path_of levels k) \<subseteq> ?N"
      using kv(1) by (force simp: required_nodes_def)
    then have "path_queries ?cr (commitment_of ?cs) r (path_of levels k) = path_queries ?cr (\<lambda>n. n) r (path_of levels k)" for r
      using C by (intro path_queries_cong) blast
    then show ?thesis
      using ideal_path [OF k(1), of q V] request_okD(3) [OF req kv(1)] kv(2) k by simp
  qed
  then show "proof_check ?cr 1 ?p data (hash_commitment ?cr (el_bytes ?cr 0)) = (Ok () :: (_, 'e proof_error) res)"
    using qs(2) 0 by (simp add: ideal_crypto_def)
qed

lemma ideal_trie: "trie_over (ideal_crypto V) (ideal_opens V) (\<lambda>n. n) (\<lambda>_. 1) V"
proof -
  have "ideal_opens V (vq_commitment q) (vq_point q) (vq_result q)"
    if "unat (key_slot_id k) < 256" "q \<in> set (path_queries (ideal_crypto V) (\<lambda>n. n) (kv_scalar (ideal_crypto V) (V k))
      (auth_path (key_bucket_id k) (unat (key_slot_id k)) 1))" for k q
    using ideal_path [of "[]" k q V] that by (simp add: ideal_opens_def path_of_def level_of_def)
  then show ?thesis
    by (simp add: trie_over_def word_le_nat_alt)
qed

text \<open>A state with one entry, and two requests that show it.\<close>

definition one_key :: salt_key where
  "one_key = salt_key_from 3 7"

definition one_state :: salt_state where
  "one_state k = (if k = one_key then Some (sv_enc [1] [2]) else None)"

definition one_data :: "salt_value option \<Rightarrow> (salt_key, salt_value option) btree" where
  "one_data v = [(one_key, v), (salt_key_from 3 8, None)]"

lemma one_facts:
  "key_bucket_id one_key = 3" "key_slot_id one_key = 7" "request_ok [(3, 1)] (take n (one_data (one_state one_key))) \<longleftrightarrow> 0 < n"
  "bt_get (one_data v) one_key = Some v" "level_of [(3, 1)] 3 = 1"
proof -
  have k: "key_fits 3 7" "key_fits 3 8"
    by (simp_all add: key_fits_def)
  note parts = key_bucket_id_from [OF k(1)] key_slot_id_from [OF k(1)] key_bucket_id_from [OF k(2)] key_slot_id_from [OF k(2)]
  show "key_bucket_id one_key = 3" "key_slot_id one_key = 7"
    by (simp_all add: one_key_def parts)
  have "salt_key_from 3 7 < salt_key_from 3 8"
    using k by (simp add: word_less_nat_alt unat_salt_key_from)
  moreover have "take n [x, y] = (if n = 0 then [] else if n = 1 then [x] else [x, y])" for x y :: "salt_key \<times> salt_value option"
    by (simp add: take_Cons split: nat.split)
  ultimately show "request_ok [(3, 1)] (take n (one_data (one_state one_key))) \<longleftrightarrow> 0 < n"
    by (simp add: one_data_def one_state_def one_key_def request_ok_def bt_ok_def level_ok_def level_of_def bt_get_def
        parts kv_fits_def word_le_nat_alt)
  show "bt_get (one_data v) one_key = Some v" "level_of [(3, 1)] 3 = 1"
    by (simp_all add: one_data_def bt_get_def level_of_def)
qed

lemma one_accepted:
  assumes "0 < n"
  shows "proof_check (ideal_crypto one_state) 1 (ideal_proof [(3, 1)] (take n (one_data (one_state one_key))))
    (take n (one_data (one_state one_key))) (hash_commitment (ideal_crypto one_state) (el_bytes (ideal_crypto one_state) 0)) =
    (Ok () :: (_, 'e proof_error) res)"
proof -
  have k: "key_fits 3 8"
    by (simp add: key_fits_def)
  have "salt_key_from 3 8 \<noteq> one_key"
    using one_facts(2) key_slot_id_from [OF k] by auto
  then have "\<forall>(k, v) \<in> set (one_data (one_state one_key)). level_of [(3, 1)] (key_bucket_id k) = 1 \<and> one_state k = v \<and> key_bucket_id k = 3"
    using key_bucket_id_from [OF k] by (simp add: one_data_def one_facts) (simp add: one_state_def)
  then have "\<forall>(k, v) \<in> set (take n (one_data (one_state one_key))). level_of [(3, 1)] (key_bucket_id k) = 1 \<and> one_state k = v \<and> key_bucket_id k = 3"
    by (intro ballI) (drule in_set_takeD, drule (1) bspec)
  moreover have "take n (one_data (one_state one_key)) \<noteq> []"
    using assms by (simp add: one_data_def)
  ultimately show ?thesis
  proof (intro ideal_accepts(2))
    assume all: "\<forall>(k, v) \<in> set (take n (one_data (one_state one_key))). level_of [(3, 1)] (key_bucket_id k) = 1 \<and> one_state k = v \<and> key_bucket_id k = 3"
      and ne: "take n (one_data (one_state one_key)) \<noteq> []"
    show "request_ok [(3, 1)] (take n (one_data (one_state one_key)))"
      using one_facts(3) [of n] assms by simp
    have "(\<lambda>x. key_bucket_id (fst x)) ` set (take n (one_data (one_state one_key))) = (\<lambda>_. 3) ` set (take n (one_data (one_state one_key)))"
      using all by (intro image_cong) auto
    then show "fst ` set [(3 :: bucket_id, 1 :: u8)] = key_bucket_id ` fst ` set (take n (one_data (one_state one_key)))"
      using ne by (simp add: image_image image_constant_conv)
    show "\<forall>(k, v) \<in> set (take n (one_data (one_state one_key))). level_of [(3, 1)] (key_bucket_id k) = 1 \<and> one_state k = v"
      using all by (intro ballI) (drule (1) bspec, simp add: split_beta one_facts(5))
  qed
qed

section \<open>Properties\<close>



text \<open>What a proof's queries depend on.\<close>

lemma map_collect_eq: "(\<And>x. x \<in> set xs \<Longrightarrow> f x = g x) \<Longrightarrow> map_collect f xs = map_collect g xs"
  by (induction xs) auto

lemma keys_insert: "fst ` set (bt_insert k v m) = insert k (fst ` set m)"
  using set_keys_dom [of "bt_insert k v m"] set_keys_dom [of m] by simp

text \<open>The key that the address computation finds for a leaf query is one of the request.\<close>

lemma leaf_queries_insert:
  assumes "request_ok levels data" "pts_ok sm" "edges sm = key_leaf levels ` fst ` set data" "k' \<notin> fst ` set data"
  shows "create_leaf_node_queries cr sm comms (bt_insert k' v data) =
    (create_leaf_node_queries cr sm comms data :: (_, 'e proof_error) res)"
proof -
  have "leaf_start_key n + of_nat i \<noteq> k'" if "(n, s) \<in> set sm" "i \<in> set (sorted_list_of_set s)" for n s i
  proof -
    have "(n, i) \<in> edges sm"
      using that in_edges_iff [OF assms(2)] sorted_list_of_set.set_sorted_key_list_of_set by (cases "finite s") auto
    then obtain k u where k: "(k, u) \<in> set data" "(n, i) = key_leaf levels k"
      using assms(3) by auto
    then have "leaf_start_key n + of_nat i = k"
      using leaf_start_key_leaf [of k levels] request_okD [OF assms(1) k(1)] by (metis fst_conv snd_conv)
    then show ?thesis
      using assms(4) k(1) by force
  qed
  then show ?thesis
    unfolding create_leaf_node_queries_def Let_def
    by (intro arg_cong [of _ _ "map_res concat"] map_collect_eq) (auto intro!: arg_cong [of _ _ "bind_res _"] map_collect_eq)
qed

lemma unbound_slot:
  assumes req: "request_ok (sp_levels proof) data" and k: "k \<in> fst ` set data" "level_of (sp_levels proof) (key_bucket_id k) = 1"
    and k': "key_bucket_id k' = key_bucket_id k" "unat (key_slot_id k') mod 256 = unat (key_slot_id k)" "256 \<le> unat (key_slot_id k')"
  shows "proof_check cr threads proof (bt_insert k' v data) root = (proof_check cr threads proof data root :: (_, 'e proof_error) res)"
proof -
  let ?L = "sp_levels proof" and ?data = "bt_insert k' v data"
  have new: "k' \<notin> fst ` set data"
  proof
    assume "k' \<in> fst ` set data"
    then have "unat (key_slot_id k') < 256"
      using request_okD(3) [OF req] k(2) k'(1) by fastforce
    then show False
      using k'(3) by simp
  qed
  have ok: "\<forall>k \<in> set (map fst data). level_ok ?L (key_bucket_id k)" "\<forall>k \<in> set (map fst ?data). level_ok ?L (key_bucket_id k)"
    using request_okD(1) [OF req] k(1) k'(1) keys_insert [of k' v data] by fastforce+
  obtain im sm where a: "parents_and_points (map fst data) ?L = (Ok (im, sm) :: (_, 'e proof_error) res)" "pts_ok im" "pts_ok sm"
      "edges im = (\<Union>k \<in> fst ` set data. key_internal ?L k)" "edges sm = key_leaf ?L ` fst ` set data"
    using parents_and_points_spec [OF ok(1), where 'e = "'e proof_error"] by auto
  obtain im' sm' where b: "parents_and_points (map fst ?data) ?L = (Ok (im', sm') :: (_, 'e proof_error) res)" "pts_ok im'" "pts_ok sm'"
      "edges im' = (\<Union>k \<in> fst ` set ?data. key_internal ?L k)" "edges sm' = key_leaf ?L ` fst ` set ?data"
    using parents_and_points_spec [OF ok(2), where 'e = "'e proof_error"] by auto
  have "key_internal ?L k' = key_internal ?L k"
    using k(2) k'(1) by (simp add: key_internal_def internal_edges_def word_le_nat_alt)
  moreover have "key_leaf ?L k' = key_leaf ?L k"
    using k(2) k'(1,2) request_okD(3) [OF req] k(1) by (force simp: key_leaf_def leaf_edge_def)
  ultimately have "edges im' = edges im" "edges sm' = edges sm"
    unfolding a b keys_insert using k(1) by auto
  then have same: "im' = im" "sm' = sm"
    using pts_unique a(2,3) b(2,3) by blast+
  have "data \<noteq> []" "?data \<noteq> []"
    using k(1) keys_insert [of k' v data] by auto
  moreover have "set (map (key_bucket_id \<circ> fst) ?data) = set (map (key_bucket_id \<circ> fst) data)"
  proof -
    have "key_bucket_id ` fst ` set ?data = key_bucket_id ` fst ` set data"
      unfolding keys_insert using k'(1) k(1) by auto
    then show ?thesis
      by (simp only: set_map image_comp)
  qed
  ultimately have "create_verifier_queries cr threads proof ?data = (create_verifier_queries cr threads proof data :: (_, 'e proof_error) res)"
    by (simp only: create_verifier_queries_def Let_def a(1) b(1) same if_False bind_res.simps case_prod_conv
        leaf_queries_insert [OF req a(3,5) new])
  then show ?thesis
    by (simp only: proof_check_def)
qed



end
