(* ===== verification/Verified_Witness.thy ===== *)
theory Verified_Witness
  imports Stateless_Witness Adversary
begin

text \<open>
  From an accepted proof to right reads: if the state root is that of a trie that commits to the
  store's state, a \<open>SaltWitness\<close> that verifies against the root agrees with the state, and execution
  over it is execution over the store. The cryptography is idealised by the hypotheses of
  \<open>accepted_authentic\<close> and an injective hash. Of the witness itself only what \<open>check\<close> leaves open is assumed: slots
  that fit the claimed levels (see \<open>unbound_slot_accepted\<close>) and the place where a key ends.
\<close>

section \<open>Hypotheses\<close>

text \<open>
  \<open>kv_hash\<close> does not hash the lengths of key and value; entries whose key length is a function
  \<open>kl\<close> of their total length, as those of the EVM formats, are told apart all the same.
\<close>

definition framed :: "(nat \<Rightarrow> nat) \<Rightarrow> salt_value option \<Rightarrow> bool" where
  "framed kl entry \<longleftrightarrow> (\<forall>v. entry = Some v \<longrightarrow> sv_canon v \<and>
     length (plain_key v) = kl (length (plain_key v @ plain_val v)))"

lemma kv_scalar_framed:
  assumes "collision_free cr" "framed kl e" "framed kl e'" "kv_scalar cr e = kv_scalar cr e'"
  shows "e = e'"
proof (cases e; cases e')
  fix v v'
  assume e: "e = Some v" "e' = Some v'"
  then have b: "plain_key v @ plain_val v = plain_key v' @ plain_val v'"
    using assms(1,4) unfolding collision_free_def kv_scalar_def by simp
  moreover have "length (plain_key v) = length (plain_key v')"
    using assms(2,3) e b by (simp add: framed_def del: length_append)
  ultimately show ?thesis
    using assms(2,3) e by (simp add: framed_def sv_canon_def)
qed (use assms(1,4) in \<open>auto simp: collision_free_def kv_scalar_def dest: sym\<close>)

section \<open>Agreement\<close>

lemma verified_agrees:
  assumes "opening_sound cr opens" "opening_binding cr opens" "faithful_bytes cr" "collision_free cr" "separated cr opens"
    and "trie_over cr opens C lv V" "claims_fit (sp_levels (sw_proof w)) (sw_kvs w)"
    and "sw_verify_proof cr threads w = (Ok () :: (_, 'e proof_error) res)"
    and "sw_state_root cr w = (Ok (hash_commitment cr (el_bytes cr (C 0))) :: (_, 'e proof_error) res)"
    and "\<forall>(k, v) \<in> set (sw_kvs w). framed kl v \<and> framed kl (V k)"
  shows "agrees w V"
  unfolding agrees_def
proof (intro allI impI)
  fix k v
  assume "bt_get (sw_kvs w) k = Some v"
  then have kv: "(k, v) \<in> set (sw_kvs w)"
    by (rule bt_get_Some_in)
  then have h: "framed kl v" "framed kl (V k)"
    using assms(10) by fast+
  have "proof_check cr threads (sw_proof w) (sw_kvs w) (hash_commitment cr (el_bytes cr (C 0))) =
      (Ok () :: (_, 'e proof_error) res)"
    using assms(8,9) by (simp add: sw_verify_proof_def)
  from accepted_authentic(2) [OF assms(1-3,5-7) this kv]
  show "V k = v"
    using kv_scalar_framed [OF assms(4) h] by simp
qed

section \<open>The witness of an empty bucket\<close>

definition ideal_levels :: "bucket_id \<Rightarrow> bucket_levels" where
  "ideal_levels b = [(key_bucket_id (meta_key b), 1), (b, 1)]"

definition ideal_witness :: "bucket_id \<Rightarrow> (node_id, unit) salt_witness" where
  "ideal_witness b = (let kvs = sw_kvs (empty_bucket_witness b) in
     \<lparr>sw_kvs = kvs, sw_proof = ideal_proof (ideal_levels b) kvs\<rparr>)"

lemma ideal_kvs:
  assumes "is_valid_data_bucket b"
  shows "bt_ok (sw_kvs (ideal_witness b))"
    and "key_bucket_id ` fst ` set (sw_kvs (ideal_witness b)) = {key_bucket_id (meta_key b), b}"
    and "(k, v) \<in> set (sw_kvs (ideal_witness b)) \<Longrightarrow>
      k = meta_key b \<and> v = Some (meta_sv default_meta) \<or> (\<exists>s < 256. k = slot_key b s) \<and> v = None"
proof -
  have b: "65536 \<le> unat b" "unat b < 2 ^ 24"
    using assms by (simp_all add: is_valid_data_bucket_unat)
  have slot: "unat (slot_key b s) = unat b * 2 ^ 40 + s" if "s < 256" for s
    using slot_fits [OF assms, of s] that by (simp add: slot_key_def unat_salt_key_from unat_local)
  have "unat (meta_key b) = unat b div 256 * 2 ^ 40 + unat b mod 256"
    unfolding meta_key_def unat_salt_key_from [OF meta_key_fits [OF assms]] unat_slot_of_bucket
    by (simp add: unat_drop_bit)
  also have "\<dots> < (unat b div 256 + 1) * 2 ^ 40"
    using mod_less_divisor [of 256 "unat b"] by simp
  also have "\<dots> \<le> unat b * 2 ^ 40"
    by (rule mult_right_mono) (use b in simp_all)
  finally have m: "meta_key b < slot_key b s" if "s < 256" for s
    using slot [OF that] by (simp add: word_less_nat_alt)
  define ns where "ns = [0..<256 :: nat]"
  have ns: "s \<in> set ns \<longleftrightarrow> s < 256" "sorted_wrt (<) ns" for s
    by (simp_all only: ns_def set_upt atLeastLessThan_iff sorted_wrt_upt) simp
  have kvs: "sw_kvs (ideal_witness b) = (meta_key b, Some (meta_sv default_meta)) #
      map (\<lambda>s. (slot_key b s, None)) ns"
    by (simp only: ideal_witness_def empty_bucket_witness_def Let_def salt_witness.select_convs ns_def)
  have "slot_key b s < slot_key b t" if "s \<in> set ns" "t \<in> set ns" "s < t" for s t
    using slot [of s] slot [of t] that ns(1) by (simp add: word_less_nat_alt)
  then have "sorted_wrt (\<lambda>s t. slot_key b s < slot_key b t) ns"
    by (rule sorted_wrt_mono_rel [OF _ ns(2)])
  then show "bt_ok (sw_kvs (ideal_witness b))"
    using m ns(1) by (simp add: kvs bt_ok_def comp_def sorted_wrt_map)
  have "0 \<in> set ns"
    by (simp add: ns(1))
  then show "key_bucket_id ` fst ` set (sw_kvs (ideal_witness b)) = {key_bucket_id (meta_key b), b}"
    using slot_key_parts(1) [OF assms] ns(1) by (force simp: kvs)
  show "(k, v) \<in> set (sw_kvs (ideal_witness b)) \<Longrightarrow>
      k = meta_key b \<and> v = Some (meta_sv default_meta) \<or> (\<exists>s < 256. k = slot_key b s) \<and> v = None"
    using ns(1) by (auto simp: kvs)
qed

lemma ideal_request:
  assumes "is_valid_data_bucket b"
  shows "request_ok (ideal_levels b) (sw_kvs (ideal_witness b))"
    and "k \<in> fst ` set (sw_kvs (ideal_witness b)) \<Longrightarrow>
      level_of (ideal_levels b) (key_bucket_id k) = 1 \<and> unat (key_slot_id k) < 256"
proof -
  have lv: "bt_get (ideal_levels b) c = Some 1" if "c \<in> {key_bucket_id (meta_key b), b}" for c
    using that by (auto simp: ideal_levels_def bt_get_def)
  have one: "key_bucket_id k \<in> {key_bucket_id (meta_key b), b} \<and> unat (key_slot_id k) < 256 \<and>
      (\<forall>x. v = Some x \<longrightarrow> sv_valid x)" if kv: "(k, v) \<in> set (sw_kvs (ideal_witness b))" for k v
    using ideal_kvs(3) [OF assms kv] slot_key_parts [OF assms] meta_key_parts(2) [OF assms]
    by (auto simp: unat_slot_of_bucket intro: sv_canon_valid)
  have level: "level_of (ideal_levels b) (key_bucket_id k) = 1" if "(k, v) \<in> set (sw_kvs (ideal_witness b))" for k v
    using one [OF that] lv by (auto simp: level_of_def)
  show "k \<in> fst ` set (sw_kvs (ideal_witness b)) \<Longrightarrow>
      level_of (ideal_levels b) (key_bucket_id k) = 1 \<and> unat (key_slot_id k) < 256"
    using one level by auto
  have "sw_kvs (ideal_witness b) \<noteq> []"
    by (simp add: ideal_witness_def empty_bucket_witness_def Let_def)
  moreover have "level_ok (ideal_levels b) (key_bucket_id k)" if "(k, v) \<in> set (sw_kvs (ideal_witness b))" for k v
    using one [OF that] lv by (auto simp: level_ok_def)
  ultimately show "request_ok (ideal_levels b) (sw_kvs (ideal_witness b))"
    unfolding request_ok_def using ideal_kvs(1) [OF assms] one level by fastforce
qed

lemma ideal_verifies:
  assumes b: "is_valid_data_bucket b" and V: "agrees (ideal_witness b) V"
  shows "sw_state_root (ideal_crypto V) (ideal_witness b) =
      (Ok (hash_commitment (ideal_crypto V) (el_bytes (ideal_crypto V) 0)) :: (_, 'e proof_error) res)"
    and "sw_verify_proof (ideal_crypto V) 1 (ideal_witness b) = (Ok () :: (_, 'e proof_error) res)"
proof -
  let ?kvs = "sw_kvs (ideal_witness b)"
  have made: "sw_proof (ideal_witness b) = ideal_proof (ideal_levels b) ?kvs"
    by (simp add: ideal_witness_def Let_def)
  have levels: "fst ` set (ideal_levels b) = key_bucket_id ` fst ` set ?kvs"
    using ideal_kvs(2) [OF b] by (simp add: ideal_levels_def)
  have "level_of (ideal_levels b) (key_bucket_id k) = 1 \<and> V k = v" if kv: "(k, v) \<in> set ?kvs" for k v
    using ideal_request(2) [OF b, of k] kv bt_get_in [OF ideal_kvs(1) [OF b] kv] V by (force simp: agrees_def)
  then have "\<forall>(k, v) \<in> set ?kvs. level_of (ideal_levels b) (key_bucket_id k) = 1 \<and> V k = v"
    by blast
  note acc = ideal_accepts [OF ideal_request(1) [OF b] levels this]
  show root: "sw_state_root (ideal_crypto V) (ideal_witness b) =
      (Ok (hash_commitment (ideal_crypto V) (el_bytes (ideal_crypto V) 0)) :: (_, 'e proof_error) res)"
    using acc(1) by (simp add: sw_state_root_def sw_commitment_def made ROOT_NODE_ID_def)
  show "sw_verify_proof (ideal_crypto V) 1 (ideal_witness b) = (Ok () :: (_, 'e proof_error) res)"
    using acc(2) by (simp add: sw_verify_proof_def root made)
qed

section \<open>Properties\<close>



text \<open>The ideal trie over the empty store, and its witness of the bucket of a key.\<close>

lemma ideal_agrees:
  assumes "is_valid_data_bucket b"
  shows "agrees (ideal_witness b) (norm (\<lambda>_. None))" "whole_bucket (ideal_witness b) b"
    "sw_reader (ideal_witness b) = sw_reader (empty_bucket_witness b)"
proof -
  have kvs: "sw_kvs (ideal_witness b) = sw_kvs (empty_bucket_witness b)"
    by (simp add: ideal_witness_def Let_def)
  show "agrees (ideal_witness b) (norm (\<lambda>_. None))"
    using empty_bucket_agrees [OF assms] by (simp add: agrees_def kvs)
  show "whole_bucket (ideal_witness b) b"
    using empty_bucket_facts(4) [OF assms] by (simp add: whole_bucket_def sw_metadata_def witnessed_def kvs)
  have v: "sw_value (ideal_witness b) k = sw_value (empty_bucket_witness b) k" for k
    by (simp add: sw_value_def kvs)
  have "sw_count_slots (ideal_witness b) c n s a = sw_count_slots (empty_bucket_witness b) c n s a" for c n s a
    by (induction n arbitrary: s a) (simp_all add: v)
  then show "sw_reader (ideal_witness b) = sw_reader (empty_bucket_witness b)"
    by (simp add: sw_reader_def v fun_eq_iff sw_metadata_def kvs sw_bucket_used_slots_def sw_entries_def
        sw_plain_value_fast_def)
qed

lemma ideal_framed:
  assumes "is_valid_data_bucket b" "V = norm (mem_contents mem_store_new)"
  shows "\<forall>(k, v) \<in> set (sw_kvs (ideal_witness b)). framed (\<lambda>n. n) v \<and> framed (\<lambda>n. n) (V k)"
proof -
  have "framed (\<lambda>n. n) v \<and> V k = v" if kv: "(k, v) \<in> set (sw_kvs (ideal_witness b))" for k v
  proof -
    have "framed (\<lambda>n. n) v"
      using ideal_kvs(3) [OF assms(1) kv] by (auto simp: framed_def meta_sv_def)
    moreover have "V k = v"
      using ideal_agrees(1) [OF assms(1)] bt_get_in [OF ideal_kvs(1) [OF assms(1)] kv] assms(2)
      by (simp add: agrees_def empty_mem)
    ultimately show ?thesis ..
  qed
  then show ?thesis
    by fastforce
qed



end
