(* ===== verification/Plain_Witness.thy ===== *)
theory Plain_Witness
  imports Verified_Witness
begin

text \<open>
  Reading through a \<open>Witness\<close>: the lookup table short-cuts the search of a bucket. What
  reconstruction and verification say about the table, and that reads through a sound table
  over an agreeing witness are right.
\<close>

section \<open>The lookup table\<close>

text \<open>An entry names a data slot that is witnessed with a value of that key.\<close>

definition entry_ok :: "('el, 'pf) salt_witness \<Rightarrow> bytes \<Rightarrow> salt_key \<Rightarrow> bool" where
  "entry_ok w p k \<longleftrightarrow> (\<exists>v. sw_value w k = Ok (Some v) \<and> sv_key v = (Ok p :: (_, salt_error) res))"

lemma sv_key_any: "sv_key v = (Ok p :: (_, 'e) res) \<Longrightarrow> sv_key v = (Ok p :: (_, 'f) res)"
  by (simp add: sv_key_def Salt_Types.slice_def split: if_splits)

lemma lookup_tbl_loop_ok:
  assumes "lookup_tbl_loop data tbl = (Ok tbl' :: (_, 'e) res)" "bt_ok tbl"
    and "\<forall>p k. bt_get tbl p = Some k \<longrightarrow> P p k"
    and "\<forall>(k, e) \<in> set data. \<forall>v p. e = Some v \<longrightarrow> \<not> is_in_meta_bucket k \<longrightarrow> sv_key v = (Ok p :: (_, 'e) res) \<longrightarrow> P p k"
  shows "bt_ok tbl' \<and> (\<forall>p k. bt_get tbl' p = Some k \<longrightarrow> P p k)"
  using assms
proof (induction data arbitrary: tbl)
  case (Cons x data)
  obtain key e where x: "x = (key, e)" by (cases x)
  consider "lookup_tbl_loop data tbl = (Ok tbl' :: (_, 'e) res)"
    | v q where "\<not> is_in_meta_bucket key" "e = Some v" "sv_key v = (Ok q :: (_, 'e) res)"
        "lookup_tbl_loop data (bt_insert q key tbl) = (Ok tbl' :: (_, 'e) res)"
    using Cons.prems(1) x by (cases e) (auto simp: bind_res_Ok_iff split: if_splits)
  then show ?case
  proof cases
    case 1
    from Cons.IH [OF this Cons.prems(2,3)] show ?thesis
      using Cons.prems(4) by simp
  next
    case 2
    have "P q key"
      using Cons.prems(4) 2 x by auto
    then have "\<forall>p k. bt_get (bt_insert q key tbl) p = Some k \<longrightarrow> P p k"
      using Cons.prems(3) by auto
    from Cons.IH [OF 2(4) bt_ok_insert [OF Cons.prems(2)] this] show ?thesis
      using Cons.prems(4) by simp
  qed
qed simp

text \<open>A data slot that is witnessed with a value of the plain key.\<close>

definition holds_key :: "('el, 'pf) salt_witness \<Rightarrow> bytes \<Rightarrow> salt_key \<Rightarrow> bool" where
  "holds_key sw p k \<longleftrightarrow> (\<exists>v. (k, Some v) \<in> set (sw_kvs sw) \<and> \<not> is_in_meta_bucket k \<and> sv_key v = (Ok p :: (_, salt_error) res))"

definition key_slots :: "(salt_key \<times> salt_value option) list \<Rightarrow> bytes \<Rightarrow> salt_key list" where
  "key_slots data p = map fst (filter (\<lambda>(k, e). \<not> is_in_meta_bucket k \<and>
     (case e of Some v \<Rightarrow> sv_key v = (Ok p :: (_, salt_error) res) | None \<Rightarrow> False)) data)"

lemma lookup_tbl_loop_get:
  assumes "lookup_tbl_loop data tbl = (Ok tbl' :: (_, salt_error) res)"
  shows "bt_get tbl' p = (if key_slots data p = [] then bt_get tbl p else Some (last (key_slots data p)))"
  using assms
proof (induction data arbitrary: tbl)
  case (Cons x data)
  then show ?case
    by (cases x) (auto simp: key_slots_def bind_res_Ok_iff split: if_splits option.splits)
qed (simp add: key_slots_def)

lemma sorted_last:
  assumes "sorted_wrt (<) ks" "ks \<noteq> []"
  shows "last ks \<in> set ks \<and> (\<forall>k \<in> set ks. k \<le> (last ks :: salt_key))"
  using assms by (induction ks) (auto intro: less_imp_le)

lemma lookup_tbl_largest:
  assumes "lookup_tbl_loop (sw_kvs sw) [] = (Ok tbl :: (_, salt_error) res)" "bt_ok (sw_kvs sw)"
  shows "bt_get tbl p = Some k \<longleftrightarrow> holds_key sw p k \<and> (\<forall>k'. holds_key sw p k' \<longrightarrow> k' \<le> k)"
proof -
  let ?ks = "key_slots (sw_kvs sw) p"
  have set: "k \<in> set ?ks \<longleftrightarrow> holds_key sw p k" for k
    by (force simp: key_slots_def holds_key_def split: option.splits)
  have "sorted_wrt (<) ?ks"
    using assms(2) by (auto simp: key_slots_def bt_ok_def sorted_wrt_map intro: sorted_wrt_filter)
  from sorted_last [OF this] show ?thesis
    using lookup_tbl_loop_get [OF assms(1), of p] set by (cases "?ks = []") (auto intro: antisym)
qed

lemma lookup_tbl_total:
  assumes "\<forall>(k, e) \<in> set data. \<forall>v. e = Some v \<longrightarrow> sv_valid v"
  shows "\<exists>tbl'. lookup_tbl_loop data tbl = (Ok tbl' :: (_, salt_error) res)"
  using assms
proof (induction data arbitrary: tbl)
  case (Cons x data)
  then show ?case
    by (cases x; cases "snd x") (auto simp: split_beta)
qed simp

lemma witness_from_table:
  assumes "witness_from sw = (Ok w :: (_, salt_error) res)" "bt_ok (sw_kvs sw)"
  shows "pw_salt_witness w = sw" "bt_ok (direct_lookup_tbl w)"
    "bt_get (direct_lookup_tbl w) p = Some k \<Longrightarrow> entry_ok sw p k \<and> \<not> is_in_meta_bucket k"
proof -
  obtain tbl where w: "lookup_tbl_loop (sw_kvs sw) [] = (Ok tbl :: (_, salt_error) res)"
      "w = \<lparr>direct_lookup_tbl = tbl, pw_salt_witness = sw\<rparr>"
    using assms(1) by (auto simp: witness_from_def map_res_Ok_iff)
  have "bt_ok tbl \<and> (\<forall>p k. bt_get tbl p = Some k \<longrightarrow> entry_ok sw p k \<and> \<not> is_in_meta_bucket k)"
    by (rule lookup_tbl_loop_ok [OF w(1)])
       (auto simp: entry_ok_def sw_value_Ok bt_get_def [of "[]"] dest: bt_get_in [OF assms(2)])
  then show "pw_salt_witness w = sw" "bt_ok (direct_lookup_tbl w)"
      "bt_get (direct_lookup_tbl w) p = Some k \<Longrightarrow> entry_ok sw p k \<and> \<not> is_in_meta_bucket k"
    by (simp_all add: w(2))
qed

text \<open>The table check reads every entry in a state that never caches.\<close>

lemma direct_find_entry:
  assumes "bt_get (direct_lookup_tbl w) p = Some k" "s = eph_new (pw_reader w)"
  shows "entry_ok (pw_salt_witness w) p k \<Longrightarrow> \<exists>v. direct_find p s = (Ok (Some (k, v)), s) \<and>
      sw_value (pw_salt_witness w) k = Ok (Some v) \<and> sv_key v = (Ok p :: (_, salt_error) res)"
    and "fst (direct_find p s) = Ok (Some (k', v)) \<Longrightarrow> entry_ok (pw_salt_witness w) p k"
    and "snd (direct_find p s) = s"
proof -
  have fast: "rd_plain_value_fast (store s) p = Ok k" and get: "rd_value (store s) k = sw_value (pw_salt_witness w) k"
      and c: "cache s = []" "\<not> cache_reads s"
    using assms by (simp_all add: pw_reader_def pw_plain_value_fast_def eph_new_def)
  have val: "eph_value k s = (sw_value (pw_salt_witness w) k, s)"
    using get c by (auto simp: eph_value_def bind_def lift_res_def bt_get_def split: res.splits)
  show "entry_ok (pw_salt_witness w) p k \<Longrightarrow> \<exists>v. direct_find p s = (Ok (Some (k, v)), s) \<and>
      sw_value (pw_salt_witness w) k = Ok (Some v) \<and> sv_key v = (Ok p :: (_, salt_error) res)"
    using fast val by (auto simp: entry_ok_def direct_find_def bind_def)
  show "fst (direct_find p s) = Ok (Some (k', v)) \<Longrightarrow> entry_ok (pw_salt_witness w) p k"
    using fast val by (auto simp: entry_ok_def direct_find_def bind_def lift_res_def ret_def
        split: res.splits option.splits if_splits)
  show "snd (direct_find p s) = s"
    using fast val by (auto simp: direct_find_def bind_def lift_res_def ret_def split: res.splits option.splits)
qed

lemma verify_tbl_loop_iff:
  assumes "bt_ok (direct_lookup_tbl w)" "set tbl \<subseteq> set (direct_lookup_tbl w)"
  shows "verify_tbl_loop tbl (eph_new (pw_reader w)) = Ok () \<longleftrightarrow>
    (\<forall>(p, k) \<in> set tbl. entry_ok (pw_salt_witness w) p k)"
  using assms(2)
proof (induction tbl)
  case (Cons x tbl)
  obtain p k where x: "x = (p, k)" by (cases x)
  let ?s = "eph_new (pw_reader w)"
  have get: "bt_get (direct_lookup_tbl w) p = Some k"
    using Cons.prems x bt_get_in [OF assms(1)] by simp
  note d = direct_find_entry [OF get refl]
  have IH: "verify_tbl_loop tbl ?s = Ok () \<longleftrightarrow> (\<forall>(p, k) \<in> set tbl. entry_ok (pw_salt_witness w) p k)"
    using Cons by simp
  show ?case
  proof (cases "entry_ok (pw_salt_witness w) p k")
    case True
    then obtain v where "direct_find p ?s = (Ok (Some (k, v)), ?s)"
      using d(1) by blast
    then show ?thesis
      using True IH by (simp add: x)
  next
    case False
    then have none: "fst (direct_find p ?s) \<noteq> Ok (Some (k', v))" for k' v
      using d(2) by blast
    have "verify_tbl_loop (x # tbl) ?s \<noteq> Ok ()"
    proof
      assume "verify_tbl_loop (x # tbl) ?s = Ok ()"
      then obtain k' v st where "direct_find p ?s = (Ok (Some (k', v)), st)"
        by (auto simp: x split: prod.splits res.splits option.splits)
      then show False
        using none [of k' v] by simp
    qed
    then show ?thesis
      using False x by auto
  qed
qed simp

section \<open>Reading through the table\<close>

interpretation pw: partial_reader "\<lambda>(w, V, B). pw_reader w" "\<lambda>(w, V, B). view_reader V" "\<lambda>(w, V, B). B"
  "\<lambda>(w, V, B). partial_view (pw_salt_witness w) V B"
proof (unfold_locales, goal_cases)
  case (1 x k v)
  then show ?case
    using sw.value_le [of "(pw_salt_witness (fst x), snd x)" k v]
    by (simp add: pw_reader_def sw_reader_def split: prod.splits)
next
  case (2 x b m)
  then show ?case
    using sw.metadata_le [of "(pw_salt_witness (fst x), snd x)" b m]
    by (simp add: pw_reader_def sw_reader_def split: prod.splits)
next
  case (3 x b n)
  then show ?case
    using sw.used_le [of "(pw_salt_witness (fst x), snd x)" b n]
    by (simp add: pw_reader_def sw_reader_def split: prod.splits)
next
  case (4 x b)
  then show ?case
    using sw.used_ok [of "(pw_salt_witness (fst x), snd x)" b]
    by (simp add: pw_reader_def sw_reader_def split: prod.splits)
qed

text \<open>A data slot that holds a value of the key \<open>p\<close> in a well-formed state holds \<open>kv p\<close>.\<close>

lemma slot_holds:
  assumes "state_ok V kv" "V k = Some v" "\<not> is_in_meta_bucket k"
  shows "kv (plain_key v) = Some (plain_val v) \<and> sv_canon v"
proof -
  let ?b = "key_bucket_id k" and ?s = "unat (key_slot_id k)"
  have b: "is_valid_data_bucket ?b"
    using assms(3) key_bucket_small [of k]
    by (auto simp: is_in_meta_bucket_def is_valid_data_bucket_def salt_consts word_less_nat_alt word_le_nat_alt)
  note V = state_ok_bucket [OF assms(1) b]
  have T: "tab V ?b ?s = Some v"
    using assms(2) key_slot_small [of k] by (simp add: tab_slot slot_key_of_parts)
  then have "?s < unat (capacity (meta_at V ?b))"
    using bucket_okD(3) [OF V, of ?s] by (cases "?s < unat (capacity (meta_at V ?b))") auto
  then have M: "bmap kv ?b (plain_key v) = Some v"
    using bucket_okD(5) [OF V] T by (auto simp: represents_def)
  then have p: "kv (plain_key v) \<noteq> None" "map_option (sv_enc (plain_key v)) (kv (plain_key v)) = Some v"
    by (auto simp: bmap_def split: if_splits)
  then obtain x where x: "kv (plain_key v) = Some x" "sv_enc (plain_key v) x = v"
    by auto
  then have "kv_fits (plain_key v) x"
    using assms(1) by (simp add: state_ok_def)
  from plain_val_enc [OF this] show ?thesis
    using x bucket_okD(6) [OF V] M by (auto simp: sv_map_def)
qed

lemma pw_read_search:
  assumes w: "partial_view (pw_salt_witness w) V B" and V: "state_ok V kv" "norm V = V"
    and none: "bt_get (direct_lookup_tbl w) p = None"
    and run: "plain_value p (eph_new (pw_reader w)) = (Ok r, s')"
  shows "r = kv p"
proof -
  let ?body = "bind (let b = bucket_id p in
        bind (metadata b False) (\<lambda>meta.
        bind (shi_find b (nonce meta) (capacity meta) p) (\<lambda>r.
        case r of
          Some (slot, salt_val) \<Rightarrow> ret (Some (salt_key_from b slot, salt_val))
        | None \<Rightarrow> ret None))) (\<lambda>r.
      case r of
        Some (_, salt_val) \<Rightarrow> bind (lift_res (sv_value salt_val)) (\<lambda>v. ret (Some v))
      | None \<Rightarrow> ret None)"
  have direct: "direct_find p s = (Ok None, s)" if "s = eph_new (pw_reader w) \<or> s = eph_new (view_reader V)" for s
    using that none by (auto simp: direct_find_def eph_new_def pw_reader_def pw_plain_value_fast_def view_reader_def)
  have body: "plain_value p s = ?body s" if "s = eph_new (pw_reader w) \<or> s = eph_new (view_reader V)" for s
    using direct [OF that] by (simp add: plain_value_def find_kv_def bind_def if_ok_some_def)
  have "eph_follows (pw_reader w) (view_reader V) B ?body"
    using pw.metadata_follows [of "(w, V, B)"] pw.shi_find_follows [of "(w, V, B)"] w
    unfolding Let_def by (intro eph_follows_rules) simp_all
  then have "plain_value p (eph_new (view_reader V)) = (Ok r, on_store (view_reader V) s')"
    using pw.fresh_follows [of "(w, V, B)" ?body r s'] run by (simp add: body)
  moreover have "metas_ok V"
    using w by (simp add: partial_view_def)
  ultimately show ?thesis
    using view.plain_value_state [OF _ V(1) view_start [OF _ V(2)], of p] by (auto simp: runs_def)
qed

lemma pw_read:
  assumes ms: "mem_holds ms kv" "agrees (pw_salt_witness w) (norm (mem_contents ms))"
    and tbl: "\<forall>p k. bt_get (direct_lookup_tbl w) p = Some k \<longrightarrow>
      entry_ok (pw_salt_witness w) p k \<and> \<not> is_in_meta_bucket k"
    and run: "plain_value p (eph_new (pw_reader w)) = (Ok r, s')"
  shows "r = kv p"
proof (cases "bt_get (direct_lookup_tbl w) p")
  case None
  have "partial_view (pw_salt_witness w) (norm (mem_contents ms)) {}"
    using mem_view [OF ms(1)] ms(2) by (auto simp: partial_view_def)
  from pw_read_search [OF this mem_view(2) [OF ms(1)] _ None run] show ?thesis
    by simp
next
  case (Some k)
  then have k: "entry_ok (pw_salt_witness w) p k" "\<not> is_in_meta_bucket k"
    using tbl by blast+
  obtain v where v: "direct_find p (eph_new (pw_reader w)) = (Ok (Some (k, v)), eph_new (pw_reader w))"
      "sw_value (pw_salt_witness w) k = Ok (Some v)" "sv_key v = (Ok p :: (_, salt_error) res)"
    using direct_find_entry(1) [OF Some refl k(1)] by blast
  have held: "kv (plain_key v) = Some (plain_val v)" "sv_canon v"
    using slot_holds [OF mem_view(2) [OF ms(1)] agrees_value [OF ms(2) v(2)] k(2)] by auto
  then have "plain_key v = p"
    using v(3) by (simp add: sv_key_valid sv_canon_valid)
  moreover have "r = Some (plain_val v)"
    using run v(1) held(2) by (simp add: plain_value_def find_kv_def bind_def if_ok_some_def
        sv_value_valid sv_canon_valid)
  ultimately show ?thesis
    using held(1) by simp
qed

section \<open>Properties\<close>

lemma witness_from_ok:
  assumes "witness_from sw = (Ok w :: (_, salt_error) res)" "bt_ok (sw_kvs sw)"
  shows "witness_verify cr threads w = sw_verify_proof cr threads sw"
    and "bt_get (direct_lookup_tbl w) p = Some k \<longleftrightarrow> holds_key sw p k \<and> (\<forall>k'. holds_key sw p k' \<longrightarrow> k' \<le> k)"
proof -
  note t = witness_from_table [OF assms]
  have "verify_tbl_loop (direct_lookup_tbl w) (eph_new (pw_reader w)) = Ok ()"
    using verify_tbl_loop_iff [OF t(2) subset_refl] t(1,3) bt_get_in [OF t(2)] by auto
  then show "witness_verify cr threads w = sw_verify_proof cr threads sw"
    unfolding witness_verify_def t(1) by (cases "sw_verify_proof cr threads sw :: (_, salt_error proof_error) res") simp_all
  have "lookup_tbl_loop (sw_kvs sw) [] = (Ok (direct_lookup_tbl w) :: (_, salt_error) res)"
    using assms(1) by (auto simp: witness_from_def map_res_Ok_iff)
  from lookup_tbl_largest [OF this assms(2)]
  show "bt_get (direct_lookup_tbl w) p = Some k \<longleftrightarrow> holds_key sw p k \<and> (\<forall>k'. holds_key sw p k' \<longrightarrow> k' \<le> k)" .
qed

text \<open>A \<open>SaltWitness\<close> with one data slot, occupied, of an ideal trie.\<close>

definition kept_key :: salt_key where
  "kept_key = salt_key_from 70000 7"

definition kept_state :: salt_state where
  "kept_state k = (if k = kept_key then Some (sv_enc [1, 2, 3] [4]) else None)"

definition kept_witness :: "(node_id, unit) salt_witness" where
  "kept_witness = (let kvs = [(kept_key, Some (sv_enc [1, 2, 3] [4]))]
     in \<lparr>sw_kvs = kvs, sw_proof = ideal_proof [(70000, 1)] kvs\<rparr>)"

lemma kept_facts:
  "key_bucket_id kept_key = 70000" "key_slot_id kept_key = 7" "\<not> is_in_meta_bucket kept_key"
  "sw_kvs kept_witness = [(kept_key, Some (sv_enc [1, 2, 3] [4]))]" "sp_levels (sw_proof kept_witness) = [(70000, 1)]"
  "level_of [(70000, 1)] 70000 = 1" "request_ok [(70000, 1)] (sw_kvs kept_witness)" "kv_fits [1, 2, 3] [4]"
proof -
  have k: "key_fits 70000 7"
    by (simp add: key_fits_def)
  note parts = key_bucket_id_from [OF k] key_slot_id_from [OF k]
  show fits: "kv_fits [1, 2, 3] [4]"
    by (simp add: kv_fits_def MAX_SALT_VALUE_BYTES_def)
  show b: "key_bucket_id kept_key = 70000" and "key_slot_id kept_key = 7"
    by (simp_all add: kept_key_def parts)
  then show "\<not> is_in_meta_bucket kept_key"
    by (simp add: is_in_meta_bucket_def salt_consts)
  show "sw_kvs kept_witness = [(kept_key, Some (sv_enc [1, 2, 3] [4]))]" "sp_levels (sw_proof kept_witness) = [(70000, 1)]"
    "level_of [(70000, 1)] 70000 = 1"
    by (simp_all add: kept_witness_def ideal_proof_def level_of_def bt_get_def Let_def)
  show "request_ok [(70000, 1)] (sw_kvs kept_witness)"
    using fits by (simp add: kept_witness_def Let_def kept_key_def request_ok_def bt_ok_def level_ok_def level_of_def bt_get_def
        parts word_le_nat_alt)
qed

lemma kept_verifies: "sw_verify_proof (ideal_crypto kept_state) 1 kept_witness = (Ok () :: (_, 'e proof_error) res)"
proof -
  have buckets: "fst ` set [(70000 :: bucket_id, 1 :: u8)] = key_bucket_id ` fst ` set (sw_kvs kept_witness)"
    by (simp add: kept_facts)
  have one: "\<forall>(k, v) \<in> set (sw_kvs kept_witness). level_of [(70000, 1)] (key_bucket_id k) = 1 \<and> kept_state k = v"
    by (simp add: kept_facts kept_state_def)
  have made: "sw_proof kept_witness = ideal_proof [(70000, 1)] (sw_kvs kept_witness)"
    by (simp add: kept_witness_def Let_def)
  note acc = ideal_accepts [OF kept_facts(7) buckets one]
  show ?thesis
    using acc(2) by (simp add: sw_verify_proof_def sw_state_root_def sw_commitment_def made acc(1) ROOT_NODE_ID_def)
qed

lemma kept_from: "\<exists>w. witness_from kept_witness = (Ok w :: (_, salt_error) res)"
  using lookup_tbl_total [of "sw_kvs kept_witness" "[]"] kept_facts(8) by (auto simp: witness_from_def kept_facts(4))

text \<open>C18: Reconstruction round trip: the table that \<open>Witness::from\<close> builds lists a plain key exactly when some data slot
  of the \<open>SaltWitness\<close> is witnessed with a value of that key, at the largest such slot; and \<open>verify\<close> accepts the rebuilt
  witness exactly when it accepts the proof: the table can be dropped in transit.\<close>
theorem reconstruction_verifies:
  assumes "witness_from sw = (Ok w :: (_, salt_error) res)" "bt_ok (sw_kvs sw)"
  shows "witness_verify cr threads w = sw_verify_proof cr threads sw \<and> pw_salt_witness w = sw \<and>
    (\<forall>p k. bt_get (direct_lookup_tbl w) p = Some k \<longleftrightarrow> holds_key sw p k \<and> (\<forall>k'. holds_key sw p k' \<longrightarrow> k' \<le> k))"
  using witness_from_ok [OF assms] witness_from_table(1) [OF assms] by blast

theorem reconstruction_verifies_witness:
  "\<exists>w. witness_from kept_witness = (Ok w :: (_, salt_error) res) \<and> witness_verify (ideal_crypto kept_state) 1 w = Ok () \<and>
    bt_get (direct_lookup_tbl w) [1, 2, 3] = Some kept_key"
proof -
  obtain w where w: "witness_from kept_witness = (Ok w :: (_, salt_error) res)"
    using kept_from by blast
  have "bt_ok (sw_kvs kept_witness)"
    by (simp add: kept_facts bt_ok_def)
  note rebuilt = reconstruction_verifies [OF w this, of "ideal_crypto kept_state" 1]
  have "sv_key (sv_enc [1, 2, 3] [4]) = (Ok [1, 2, 3] :: (_, salt_error) res)"
    using kept_facts(8) by simp
  then have "holds_key kept_witness [1, 2, 3] k \<longleftrightarrow> k = kept_key" for k
    using kept_facts(3) by (auto simp: holds_key_def kept_facts(4))
  then have "bt_get (direct_lookup_tbl w) [1, 2, 3] = Some kept_key"
    using rebuilt by simp
  then show ?thesis
    using w rebuilt kept_verifies [where 'e = salt_error] by auto
qed



text \<open>Reading through a \<open>Witness\<close>: with a lookup table whose entries lie in data slots and pass
  \<open>verify\<close>'s check, a read answered over an agreeing witness returns what the store holds, whether
  the table or the bucket search answered it.\<close>
theorem table_read:
  assumes "mem_holds ms kv" "agrees (pw_salt_witness w) (norm (mem_contents ms))"
    and "bt_ok (direct_lookup_tbl w)" "\<forall>(p, k) \<in> set (direct_lookup_tbl w). \<not> is_in_meta_bucket k"
    and "verify_tbl_loop (direct_lookup_tbl w) (eph_new (pw_reader w)) = Ok ()"
    and "fst (plain_value p (eph_new (pw_reader w))) = Ok r"
  shows "r = kv p"
proof -
  have "\<forall>p k. bt_get (direct_lookup_tbl w) p = Some k \<longrightarrow>
      entry_ok (pw_salt_witness w) p k \<and> \<not> is_in_meta_bucket k"
    using verify_tbl_loop_iff [OF assms(3) subset_refl] assms(4,5) bt_get_Some_in by fast
  then show ?thesis
    using pw_read [OF assms(1,2)] assms(6) by (cases "plain_value p (eph_new (pw_reader w))") auto
qed

theorem table_read_witness:
  "\<exists>(w :: (nat, unit) plain_witness) (kv :: kv_map). direct_lookup_tbl w \<noteq> [] \<and>
    fst (plain_value [1, 2, 3] (eph_new (pw_reader w))) = Ok (kv [1, 2, 3]) \<and> kv [1, 2, 3] = Some [4 :: u8]"
proof -
  let ?p = "[1, 2, 3] :: bytes" and ?batch = "[([1, 2, 3], Some [4])] :: (bytes \<times> bytes option) list"
  define kv where "kv = apply_batch ?batch (\<lambda>_. None)"
  have fits: "kv_fits ?p [4]"
    by (simp add: kv_fits_def MAX_SALT_VALUE_BYTES_def)
  then have "batch_fits ?batch" "roomy ?batch (\<lambda>_. None)"
    by (simp_all add: batch_fits_def roomy_def)
  from mem_update_at [OF mem_holds_new this] obtain ms where ms: "mem_holds ms kv"
    unfolding kv_def by metis
  let ?V = "norm (mem_contents ms)" and ?b = "bucket_id ?p"
  have p: "kv ?p = Some [4]"
    by (simp add: kv_def apply_batch_def)
  note V = state_ok_bucket [OF mem_view(2) [OF ms] bucket_id_valid, of ?p]
  have "bmap kv ?b ?p = Some (sv_enc ?p [4])"
    by (simp add: bmap_def p)
  then obtain s where s: "s < unat (capacity (meta_at ?V ?b))" "tab ?V ?b s = Some (sv_enc ?p [4])"
    using bucket_okD(5) [OF V] unfolding represents_def by blast
  then have s40: "s < 2 ^ 40"
    using bucket_okD(2) [OF V] by simp
  define k where "k = slot_key ?b s"
  have k: "?V k = Some (sv_enc ?p [4])" "\<not> is_in_meta_bucket k"
    using s(2) s40 slot_key_parts(1) [OF bucket_id_valid s40, of ?p] bucket_id_valid [of ?p]
    by (simp_all add: k_def tab_slot is_in_meta_bucket_def is_valid_data_bucket_def not_less)
  define w :: "(nat, unit) plain_witness" where "w = \<lparr>direct_lookup_tbl = [(?p, k)],
    pw_salt_witness = \<lparr>sw_kvs = [(k, Some (sv_enc ?p [4]))],
      sw_proof = \<lparr>parents_commitments = [], sp_proof = (), sp_levels = []\<rparr>\<rparr>\<rparr>"
  have a: "agrees (pw_salt_witness w) ?V"
    using k(1) by (auto simp: agrees_def w_def bt_get_def split: if_splits)
  have tbl: "bt_ok (direct_lookup_tbl w)" "\<forall>(p, k) \<in> set (direct_lookup_tbl w). \<not> is_in_meta_bucket k"
      "bt_get (direct_lookup_tbl w) ?p = Some k" "direct_lookup_tbl w = [(?p, k)]"
    using k(2) by (simp_all add: w_def bt_ok_def bt_get_def)
  have canon: "sv_canon (sv_enc ?p [4])"
    using fits by simp
  have e: "entry_ok (pw_salt_witness w) ?p k"
    using fits sv_key_valid [OF sv_canon_valid [OF canon]] by (simp add: entry_ok_def w_def sw_value_Ok bt_get_def)
  have ver: "verify_tbl_loop (direct_lookup_tbl w) (eph_new (pw_reader w)) = Ok ()"
    using verify_tbl_loop_iff [OF tbl(1) subset_refl] e by (simp add: tbl(4))
  obtain v where "direct_find ?p (eph_new (pw_reader w)) = (Ok (Some (k, v)), eph_new (pw_reader w))"
      "sw_value (pw_salt_witness w) k = Ok (Some v)"
    using direct_find_entry(1) [OF tbl(3) refl e] by blast
  then have run: "fst (plain_value ?p (eph_new (pw_reader w))) = Ok (Some (plain_val (sv_enc ?p [4])))"
    using sv_value_valid [OF sv_canon_valid [OF canon], where 'a = salt_error]
    by (simp add: plain_value_def find_kv_def bind_def if_ok_some_def w_def sw_value_Ok bt_get_def)
  from table_read [OF ms a tbl(1,2) ver run] show ?thesis
    using run p tbl(4) by (intro exI [of _ w] exI [of _ kv]) simp
qed

end
