(* ===== verification/Trie_Root.thy ===== *)
theory Trie_Root
  imports Verifier
begin

text \<open>
  \<open>StateRoot\<close>, \<open>salt/src/trie/trie.rs\<close>: incremental updates of the trie's vector commitments and the
  rebuild from scratch. Elements and scalars are abelian groups (\<open>Element\<close> and \<open>Fr\<close> with their
  \<open>+\<close> and \<open>-\<close>), \<open>mul\<close> is \<open>Committer::mul_index\<close>. A hash map is a sorted association list; an unstable
  sort is the stable one. Where a comparator may panic the keys are computed first.
\<close>

section \<open>State\<close>

text \<open>The store: both of its traits, with \<open>get_subtree_levels\<close>, which an implementation may override.\<close>

record 'e trie_store =
  ts_reader :: "'e reader"
  ts_trie :: "'e trie_reader"
  ts_levels :: "bucket_id \<Rightarrow> (usize, 'e) res"

definition empty_store :: "salt_error trie_store" where
  "empty_store = \<lparr>ts_reader = empty_reader, ts_trie = empty_trie, ts_levels = get_subtree_levels empty_reader\<rparr>"

definition mem_trie_store :: "mem_store \<Rightarrow> salt_error trie_store" where
  "mem_trie_store ms = \<lparr>ts_reader = mem_reader ms, ts_trie = mem_trie ms,
     ts_levels = get_subtree_levels (mem_reader ms)\<rparr>"

record 'e state_root =
  sr_store :: "'e trie_store"
  sr_updates :: "(node_id, commitment_bytes \<times> commitment_bytes) btree"
  sr_cache :: "(node_id, commitment_bytes) btree"
  bucket_capacity_cache :: "(bucket_id, u64) btree"
  min_par_batch_size :: nat
  deferred_levels :: nat

type_synonym ('e, 'a) root_comp = "('e state_root, 'a, 'e) comp"
type_synonym ('fr, 'el) mul_index = "'fr \<Rightarrow> nat \<Rightarrow> 'el"
type_synonym kv_update = "salt_key \<times> (salt_value option \<times> salt_value option)"
type_synonym 'el delta_list = "(node_id \<times> 'el) list"

definition state_root_new :: "'e trie_store \<Rightarrow> 'e state_root" where
  "state_root_new store = \<lparr>sr_store = store, sr_updates = [], sr_cache = [], bucket_capacity_cache = [],
     min_par_batch_size = 64, deferred_levels = 1\<rparr>"

definition with_min_par_batch_size :: "nat \<Rightarrow> 'e state_root \<Rightarrow> 'e state_root" where
  "with_min_par_batch_size n s = s\<lparr>min_par_batch_size := n\<rparr>"

definition with_deferred_levels :: "nat \<Rightarrow> 'e state_root \<Rightarrow> ('e state_root, 'e) res" where
  "with_deferred_levels levels s =
     (if 0 < levels \<and> levels < MAIN_TRIE_LEVELS then Ok (s\<lparr>deferred_levels := levels\<rparr>) else Panic)"

definition root_commitment_of :: "'e state_root \<Rightarrow> node_id \<Rightarrow> (commitment_bytes, 'e) res" where
  "root_commitment_of s n =
     (case bt_get (sr_cache s) n of Some c \<Rightarrow> Ok c | None \<Rightarrow> tr_commitment (ts_trie (sr_store s)) n)"

definition cache_node :: "node_id \<Rightarrow> commitment_bytes \<Rightarrow> 'e state_root \<Rightarrow> 'e state_root" where
  "cache_node n c s = s\<lparr>sr_cache := bt_insert n c (sr_cache s)\<rparr>"

section \<open>Adding deltas\<close>

definition par_batch_size :: "nat \<Rightarrow> 'e state_root \<Rightarrow> nat \<Rightarrow> nat" where
  "par_batch_size threads s num_tasks = max (min_par_batch_size s) (div_ceil num_tasks (10 * threads))"

text \<open>The inner loop extends a boundary to the end of a node's deltas, the outer one collects boundaries.\<close>

function node_boundary :: "'el delta_list \<Rightarrow> nat \<Rightarrow> nat" where
  "node_boundary deltas i =
     (if i < length deltas \<and> fst (deltas ! i) = fst (deltas ! (i - 1)) then node_boundary deltas (i + 1) else i)"
  by pat_completeness auto
termination
  by (relation "measure (\<lambda>(deltas, i). length deltas - i)") auto

declare node_boundary.simps [simp del]

lemma node_boundary_ge: "i \<le> node_boundary deltas i"
proof (induction deltas i rule: node_boundary.induct)
  case (1 deltas i)
  then show ?case
    by (subst node_boundary.simps) auto
qed

function boundaries :: "nat \<Rightarrow> 'el delta_list \<Rightarrow> nat \<Rightarrow> nat list" where
  "boundaries task_size deltas i =
     (if i < length deltas \<and> 0 < task_size then
        let b = node_boundary deltas i
        in if b < length deltas then b # boundaries task_size deltas (b + task_size)
           else boundaries task_size deltas b
      else [])"
  by pat_completeness auto
termination
proof (relation "measure (\<lambda>(task_size, deltas, i). length deltas - i)", goal_cases)
  case (2 task_size deltas i b)
  then show ?case
    using node_boundary_ge [of i deltas] by auto
next
  case (3 task_size deltas i b)
  then show ?case
    using node_boundary_ge [of i deltas] by auto
qed simp

declare boundaries.simps [simp del]

text \<open>The ranges between neighbouring boundaries; \<open>task_size = 0\<close> divides by zero.\<close>

definition create_node_aligned_chunks :: "'el delta_list \<Rightarrow> nat \<Rightarrow> ((nat \<times> nat) list, 'e) res" where
  "create_node_aligned_chunks deltas task_size =
     (if task_size = 0 then Panic
      else let bs = 0 # boundaries task_size deltas task_size @ [length deltas]
           in Ok (zip bs (tl bs)))"

text \<open>
  The loop over a chunk: \<open>acc\<close> holds, latest first, the nodes with their old commitment and the
  element accumulated so far; \<open>current\<close> is the node of its head.
\<close>

fun accumulate_loop ::
  "('el :: ab_group_add, 'fr, 'pf) crypto \<Rightarrow> 'e state_root \<Rightarrow> 'el delta_list \<Rightarrow> node_id \<Rightarrow>
   (node_id \<times> commitment_bytes \<times> 'el) list \<Rightarrow> ((node_id \<times> commitment_bytes \<times> 'el) list, 'e) res"
where
  "accumulate_loop cr s [] current acc = Ok acc"
| "accumulate_loop cr s ((n, d) # deltas) current acc =
     (if n = current then
        accumulate_loop cr s deltas current
          (case acc of [] \<Rightarrow> [] | (m, old, el) # acc' \<Rightarrow> (m, old, el + d) # acc')
      else
        bind_res (root_commitment_of s n) (\<lambda>old.
        accumulate_loop cr s deltas n ((n, old, el_of_bytes cr old + d) # acc)))"

definition accumulate_chunk_deltas ::
  "('el :: ab_group_add, 'fr, 'pf) crypto \<Rightarrow> 'e state_root \<Rightarrow> 'el delta_list \<Rightarrow> nat \<times> nat \<Rightarrow> (trie_updates, 'e) res"
where
  "accumulate_chunk_deltas cr s deltas = (\<lambda>(a, b).
     map_res (\<lambda>acc. map (\<lambda>(n, old, el). (n, (old, el_bytes cr el))) (rev acc))
       (accumulate_loop cr s (take (b - a) (drop a deltas)) (- 1) []))"

definition add_commitment_deltas ::
  "('el :: ab_group_add, 'fr, 'pf) crypto \<Rightarrow> 'e state_root \<Rightarrow> 'el delta_list \<Rightarrow> nat \<Rightarrow> (trie_updates, 'e) res"
where
  "add_commitment_deltas cr s commitment_deltas task_size =
     (let deltas = sort_key fst commitment_deltas
      in bind_res (create_node_aligned_chunks deltas task_size) (\<lambda>chunks.
         map_res concat (map_collect (accumulate_chunk_deltas cr s deltas) chunks)))"

section \<open>Leaf and internal nodes\<close>

definition slot_in_leaf :: "salt_key \<Rightarrow> nat" where
  "slot_in_leaf k = unat (key_slot_id k mod of_nat TRIE_WIDTH)"

definition update_leaf_nodes ::
  "('el :: ab_group_add, 'fr :: ab_group_add, 'pf) crypto \<Rightarrow> ('fr, 'el) mul_index \<Rightarrow> nat \<Rightarrow> 'e state_root \<Rightarrow>
   kv_update list \<Rightarrow> (salt_key \<Rightarrow> node_id) \<Rightarrow> (trie_updates, 'e) res"
where
  "update_leaf_nodes cr mul threads s state_updates to_node_id =
     (let sorted = sort_key (slot_in_leaf \<circ> fst) state_updates;
          batch_size = par_batch_size threads s (length sorted)
      in bind_res (map_collect (\<lambda>(k, (old, new)).
            bind_res (kv_hash cr new) (\<lambda>h1. bind_res (kv_hash cr old) (\<lambda>h0.
            Ok (to_node_id k, mul (h1 - h0) (slot_in_leaf k))))) sorted) (\<lambda>c_deltas.
         add_commitment_deltas cr s c_deltas batch_size))"

definition commitment_hash :: "('el, 'fr, 'pf) crypto \<Rightarrow> commitment_bytes \<Rightarrow> 'fr" where
  "commitment_hash cr c = el_to_fr cr (el_of_bytes cr c)"

definition internal_delta ::
  "('el, 'fr :: ab_group_add, 'pf) crypto \<Rightarrow> ('fr, 'el) mul_index \<Rightarrow>
   node_id \<times> (commitment_bytes \<times> commitment_bytes) \<Rightarrow> (node_id \<times> 'el, 'e) res"
where
  "internal_delta cr mul = (\<lambda>(n, (old, new)).
     bind_res (get_parent_node n) (\<lambda>parent. bind_res (vc_position_in_parent n) (\<lambda>pos.
     Ok (parent, mul (commitment_hash cr new - commitment_hash cr old) pos))))"

definition update_internal_nodes ::
  "('el :: ab_group_add, 'fr :: ab_group_add, 'pf) crypto \<Rightarrow> ('fr, 'el) mul_index \<Rightarrow> nat \<Rightarrow> 'e state_root \<Rightarrow>
   trie_updates \<Rightarrow> (trie_updates, 'e) res"
where
  "update_internal_nodes cr mul threads s child_updates =
     bind_res (map_collect (\<lambda>u. map_res (\<lambda>pos. (pos, u)) (vc_position_in_parent (fst u))) child_updates) (\<lambda>keyed.
     let sorted = map snd (sort_key fst keyed);
         batch_size = par_batch_size threads s (length sorted)
     in if batch_size = 0 then Panic
        else bind_res (map_res concat (map_collect (map_collect (internal_delta cr mul)) (chunks_of batch_size sorted)))
          (\<lambda>delta_list. add_commitment_deltas cr s delta_list batch_size))"

section \<open>Capacity changes\<close>

record change_info =
  ci_old_capacity :: u64
  ci_old_level :: nat
  ci_old_top :: node_id
  ci_new_capacity :: u64
  ci_new_level :: nat
  ci_new_top :: node_id
  ci_root :: node_id

definition subtree_base :: "bucket_id \<Rightarrow> node_id" where
  "subtree_base b = push_bit BUCKET_SLOT_BITS (ucast b)"

definition change_info_new :: "bucket_id \<Rightarrow> u64 \<Rightarrow> u64 \<Rightarrow> (change_info, 'e) res" where
  "change_info_new b old_cap new_cap =
     (let old_level = unat (subtree_root_level old_cap); new_level = unat (subtree_root_level new_cap)
      in bind_res (starting_node_id old_level) (\<lambda>old_start. bind_res (starting_node_id new_level) (\<lambda>new_start.
         Ok \<lparr>ci_old_capacity = old_cap, ci_old_level = old_level, ci_old_top = subtree_base b + old_start,
           ci_new_capacity = new_cap, ci_new_level = new_level, ci_new_top = subtree_base b + new_start,
           ci_root = bucket_root_node_id b\<rparr>)))"

record contraction_op =
  op_level :: nat
  update_range :: "nat \<times> nat"
  immediate_boundary :: nat

text \<open>The loop over the levels below the old root, from the leaves up.\<close>

fun contraction_loop :: "nat \<Rightarrow> nat list \<Rightarrow> nat \<Rightarrow> nat \<Rightarrow> contraction_op list" where
  "contraction_loop new_top_level [] start stop = []"
| "contraction_loop new_top_level (level # levels) start stop =
     (let stop' = div_ceil stop MIN_BUCKET_SIZE;
          start' = (if level > new_top_level then div_ceil start MIN_BUCKET_SIZE else 0);
          extract = (if level > new_top_level then min (div_ceil (start' - 1) MIN_BUCKET_SIZE * MIN_BUCKET_SIZE) stop' else 0)
      in \<lparr>op_level = level, update_range = (start', stop'), immediate_boundary = extract\<rparr> #
         contraction_loop new_top_level levels start' stop')"

definition compute_contraction_ops :: "u64 \<Rightarrow> u64 \<Rightarrow> contraction_op list" where
  "compute_contraction_ops old_cap new_cap =
     (let old_top_level = unat (subtree_root_level old_cap); new_top_level = unat (subtree_root_level new_cap)
      in contraction_loop new_top_level (rev [old_top_level + 1..<MAX_SUBTREE_LEVELS]) (unat new_cap) (unat old_cap))"

section \<open>Bucket subtrees: sorting the updates\<close>

text \<open>Step 1.1: the capacity changes in the metadata updates.\<close>

definition meta_change :: "kv_update \<Rightarrow> (bucket_id \<times> change_info, 'e) res" where
  "meta_change = (\<lambda>(key, (old, new)).
     bind_res (bucket_id_from_metadata_key key) (\<lambda>b.
     case old of None \<Rightarrow> Panic | Some old_val \<Rightarrow>
     bind_res (expect (meta_of_salt_value old_val)) (\<lambda>old_meta.
     case new of None \<Rightarrow> Panic | Some new_val \<Rightarrow>
     bind_res (expect (meta_of_salt_value new_val)) (\<lambda>new_meta.
     map_res (\<lambda>ci. (b, ci)) (change_info_new b (capacity old_meta) (capacity new_meta))))))"

definition subtree_changes :: "state_updates \<Rightarrow> ((bucket_id, change_info) btree, 'e) res" where
  "subtree_changes updates =
     map_res bt_collect (map_collect meta_change
       (bt_range (fst METADATA_KEYS_RANGE) (snd METADATA_KEYS_RANGE) updates))"

text \<open>Step 1.2.\<close>

definition cache_capacities :: "(bucket_id, change_info) btree \<Rightarrow> 'e state_root \<Rightarrow> 'e state_root" where
  "cache_capacities infos s = s\<lparr>bucket_capacity_cache :=
     fold (\<lambda>(b, ci). bt_insert b (ci_new_capacity ci)) infos (bucket_capacity_cache s)\<rparr>"

text \<open>
  An expanding bucket: from every new segment's leaf up to the first node that is visited, stored
  or the new root, the default commitments are cached. The walk starts at level 4 and a parent of
  the root panics, so five rounds are enough.
\<close>

fun cache_path :: "nat \<Rightarrow> node_id \<Rightarrow> node_id \<Rightarrow> node_id set \<Rightarrow> ('e, node_id set) root_comp" where
  "cache_path 0 new_top n visited = (\<lambda>s. (Panic, s))"
| "cache_path (Suc rounds) new_top n visited = (\<lambda>s.
     if n \<in> visited then (Ok visited, s)
     else case root_commitment_of s n of
       Ok _ \<Rightarrow> (Ok visited, s)
     | Panic \<Rightarrow> (Panic, s)
     | Diverge \<Rightarrow> (Diverge, s)
     | Err _ \<Rightarrow>
         bind (lift_res (default_commitment n)) (\<lambda>c.
         bind (\<lambda>s. (Ok (), cache_node n c s)) (\<lambda>_.
         if n = new_top then ret (insert n visited)
         else bind (lift_res (get_parent_node n)) (\<lambda>parent.
           cache_path rounds new_top parent (insert n visited)))) s)"

fun cache_segments :: "bucket_id \<Rightarrow> node_id \<Rightarrow> nat \<Rightarrow> nat \<Rightarrow> node_id set \<Rightarrow> ('e, unit) root_comp" where
  "cache_segments b new_top 0 segment_id visited = ret ()"
| "cache_segments b new_top (Suc n) segment_id visited =
     bind (cache_path MAX_SUBTREE_LEVELS new_top
         (subtree_base b + STARTING_NODE_ID ! (MAX_SUBTREE_LEVELS - 1) + of_nat segment_id) visited) (\<lambda>visited.
     cache_segments b new_top n (segment_id + 1) visited)"

text \<open>Step 1.3: the loop over the updates; the variables of the loop as a record.\<close>

record classify =
  cl_changes :: "(bucket_id, change_info) btree"
  cl_need_handle :: "bucket_id set"
  cl_last :: bucket_id
  cl_expanded :: bool
  cl_capacity :: u64
  cl_expansion_kvs :: "kv_update list"
  cl_other_kvs :: "kv_update list"

definition classify_start :: "(bucket_id, change_info) btree \<Rightarrow> classify" where
  "classify_start infos = \<lparr>cl_changes = infos, cl_need_handle = {}, cl_last = - 1, cl_expanded = False,
     cl_capacity = of_nat MIN_BUCKET_SIZE, cl_expansion_kvs = [], cl_other_kvs = []\<rparr>"

definition level_capacity :: "nat \<Rightarrow> u64" where
  "level_capacity top_level = of_nat (MIN_BUCKET_SIZE ^ (MAX_SUBTREE_LEVELS - top_level))"

definition need_handle :: "bucket_id \<Rightarrow> bool \<Rightarrow> classify \<Rightarrow> classify" where
  "need_handle b p cl = (if p then cl\<lparr>cl_need_handle := insert b (cl_need_handle cl)\<rparr> else cl)"

text \<open>The first update of a bucket whose metadata changes.\<close>

definition enter_changed :: "salt_key \<Rightarrow> change_info \<Rightarrow> classify \<Rightarrow> ('e, classify) root_comp" where
  "enter_changed key ci cl =
     (let b = key_bucket_id key in
      bind (\<lambda>s. (root_commitment_of s (ci_root ci), s)) (\<lambda>bucket_root.
      bind (\<lambda>s. (Ok (), cache_node (ci_old_top ci) bucket_root s)) (\<lambda>_.
      let cl = cl\<lparr>cl_expanded := True, cl_capacity := ci_new_capacity ci\<rparr> in
      if ci_new_capacity ci > ci_old_capacity ci then
        let old_segments = div_ceil (unat (ci_old_capacity ci)) MIN_BUCKET_SIZE;
            new_segments = div_ceil (unat (ci_new_capacity ci)) MIN_BUCKET_SIZE
        in bind (cache_segments b (ci_new_top ci) (new_segments - old_segments) old_segments {}) (\<lambda>_.
           ret (need_handle b (key_slot_id key < level_capacity (ci_old_level ci)) cl))
      else if ci_new_capacity ci < ci_old_capacity ci then
        ret (need_handle b (key_slot_id key < level_capacity (ci_new_level ci)) cl)
      else
        let expanded = ci_new_capacity ci > of_nat MIN_BUCKET_SIZE
        in ret (need_handle b expanded (cl\<lparr>cl_expanded := expanded\<rparr>)))))"

text \<open>The first update of a bucket whose metadata does not change.\<close>

definition enter_unchanged :: "bucket_id \<Rightarrow> classify \<Rightarrow> ('e, classify) root_comp" where
  "enter_unchanged b cl =
     bind (\<lambda>s. (case bt_get (bucket_capacity_cache s) b of
            Some cap \<Rightarrow> Ok cap
          | None \<Rightarrow> map_res (\<lambda>level. of_nat (TRIE_WIDTH ^ unat level)) (ts_levels (sr_store s) b), s)) (\<lambda>cap.
     let expanded = cap > of_nat MIN_BUCKET_SIZE;
         cl = cl\<lparr>cl_capacity := cap, cl_expanded := expanded\<rparr>
     in if expanded then
          bind (lift_res (change_info_new b cap cap)) (\<lambda>ci.
          bind (\<lambda>s. (root_commitment_of s (ci_root ci), s)) (\<lambda>bucket_root.
          bind (\<lambda>s. (Ok (), cache_node (ci_old_top ci) bucket_root s)) (\<lambda>_.
          ret (need_handle b True (cl\<lparr>cl_changes := bt_insert b ci (cl_changes cl)\<rparr>)))))
        else ret cl)"

definition enter_bucket :: "salt_key \<Rightarrow> classify \<Rightarrow> ('e, classify) root_comp" where
  "enter_bucket key cl =
     (let b = key_bucket_id key in
      if cl_last cl \<noteq> b \<and> b \<ge> of_nat NUM_META_BUCKETS then
        (case bt_get (cl_changes cl) b of
           Some ci \<Rightarrow> enter_changed key ci (cl\<lparr>cl_last := b\<rparr>)
         | None \<Rightarrow> enter_unchanged b (cl\<lparr>cl_last := b\<rparr>))
      else ret cl)"

definition place_update :: "kv_update \<Rightarrow> classify \<Rightarrow> classify" where
  "place_update u cl =
     (if \<not> cl_expanded cl then cl\<lparr>cl_other_kvs := cl_other_kvs cl @ [u]\<rparr>
      else if key_slot_id (fst u) < cl_capacity cl then cl\<lparr>cl_expansion_kvs := cl_expansion_kvs cl @ [u]\<rparr>
      else cl)"

fun classify_loop :: "kv_update list \<Rightarrow> classify \<Rightarrow> ('e, classify) root_comp" where
  "classify_loop [] cl = ret cl"
| "classify_loop (u # updates) cl =
     bind (enter_bucket (fst u) cl) (\<lambda>cl. classify_loop updates (place_update u cl))"

section \<open>Bucket subtrees: updating the nodes\<close>

text \<open>Updates per level of the subtree.\<close>

type_synonym per_level = "nat \<Rightarrow> trie_updates"
type_synonym triggers = "nat \<Rightarrow> (bucket_id, change_info) btree"

definition push_level :: "nat \<Rightarrow> trie_updates \<Rightarrow> per_level \<Rightarrow> per_level" where
  "push_level l us m = m(l := m l @ us)"

text \<open>Step 3: the nodes that a contracting bucket no longer uses go back to their defaults.\<close>

definition reset_node :: "'e state_root \<Rightarrow> node_id \<Rightarrow> ((node_id \<times> (commitment_bytes \<times> commitment_bytes)) option, 'e) res" where
  "reset_node s n =
     bind_res (expect (root_commitment_of s n)) (\<lambda>old_c.
     bind_res (default_commitment n) (\<lambda>new_c.
     Ok (if new_c \<noteq> old_c then Some (n, (old_c, new_c)) else None)))"

definition contract_level ::
  "'e state_root \<Rightarrow> bucket_id \<Rightarrow> contraction_op \<Rightarrow> trie_updates \<times> per_level \<Rightarrow> (trie_updates \<times> per_level, 'e) res"
where
  "contract_level s b op = (\<lambda>(uncomputed, extra).
     let base = subtree_base b + STARTING_NODE_ID ! op_level op;
         extract_end = of_nat (immediate_boundary op) + base
     in bind_res (map_collect (reset_node s) (map (\<lambda>i. base + of_nat i) [fst (update_range op)..<snd (update_range op)]))
          (\<lambda>us. let updates = List.map_filter id us
                in Ok (uncomputed @ dropWhile (\<lambda>u. fst u < extract_end) updates,
                       push_level (op_level op) (takeWhile (\<lambda>u. fst u < extract_end) updates) extra)))"

fun contract_levels ::
  "'e state_root \<Rightarrow> bucket_id \<Rightarrow> contraction_op list \<Rightarrow> trie_updates \<times> per_level \<Rightarrow> (trie_updates \<times> per_level, 'e) res"
where
  "contract_levels s b [] acc = Ok acc"
| "contract_levels s b (op # ops) acc = bind_res (contract_level s b op acc) (contract_levels s b ops)"

fun contract_buckets ::
  "'e state_root \<Rightarrow> (bucket_id \<times> change_info) list \<Rightarrow> trie_updates \<times> per_level \<Rightarrow> (trie_updates \<times> per_level, 'e) res"
where
  "contract_buckets s [] acc = Ok acc"
| "contract_buckets s ((b, ci) # infos) acc =
     (if ci_new_capacity ci \<ge> ci_old_capacity ci then contract_buckets s infos acc
      else bind_res (contract_levels s b (compute_contraction_ops (ci_old_capacity ci) (ci_new_capacity ci)) acc)
             (contract_buckets s infos))"

text \<open>Step 4: where a bucket's subtree needs attention on the way up.\<close>

definition trigger :: "nat \<Rightarrow> bucket_id \<Rightarrow> change_info \<Rightarrow> triggers \<Rightarrow> triggers" where
  "trigger l b ci ts = ts(l := bt_insert b ci (ts l))"

definition expansion_update :: "'e state_root \<Rightarrow> change_info \<Rightarrow> per_level \<Rightarrow> (per_level, 'e) res" where
  "expansion_update s ci extra =
     bind_res (default_commitment (ci_old_top ci)) (\<lambda>default_c.
     bind_res (root_commitment_of s (ci_root ci)) (\<lambda>bucket_root.
     Ok (push_level (ci_old_level ci) [(ci_old_top ci, (default_c, bucket_root))] extra)))"

definition contraction_update :: "'e state_root \<Rightarrow> change_info \<Rightarrow> trie_updates \<Rightarrow> (trie_updates, 'e) res" where
  "contraction_update s ci uncomputed =
     bind_res (root_commitment_of s (ci_root ci)) (\<lambda>old_c. bind_res (root_commitment_of s (ci_new_top ci)) (\<lambda>new_c.
     Ok (uncomputed @ [(ci_root ci, (old_c, new_c))])))"

fun set_triggers ::
  "'e state_root \<Rightarrow> (bucket_id \<times> change_info) list \<Rightarrow> bucket_id set \<Rightarrow> trie_updates \<Rightarrow> per_level \<Rightarrow> triggers \<Rightarrow>
   (bucket_id set \<times> trie_updates \<times> per_level \<times> triggers, 'e) res"
where
  "set_triggers s [] need uncomputed extra ts = Ok (need, uncomputed, extra, ts)"
| "set_triggers s ((b, ci) # infos) need uncomputed extra ts =
     (if b \<in> need then
        let ts = trigger (ci_new_level ci) b ci ts
        in set_triggers s infos need uncomputed extra
             (if ci_old_level ci > ci_new_level ci then trigger (ci_old_level ci) b ci ts else ts)
      else if ci_old_level ci > ci_new_level ci then
        bind_res (expansion_update s ci extra) (\<lambda>extra.
        set_triggers s infos (insert b need) uncomputed extra
          (trigger (ci_new_level ci) b ci (trigger (ci_old_level ci) b ci ts)))
      else if ci_old_level ci < ci_new_level ci then
        bind_res (contraction_update s ci uncomputed) (\<lambda>uncomputed. set_triggers s infos need uncomputed extra ts)
      else set_triggers s infos need uncomputed extra ts)"

text \<open>
  Step 6: a node of a triggered bucket at its new root level becomes the update of the bucket's
  root in the main trie, at its old root level its old commitment counts as the default one.
\<close>

definition apply_trigger ::
  "'e state_root \<Rightarrow> nat \<Rightarrow> (bucket_id, change_info) btree \<Rightarrow> node_id \<times> (commitment_bytes \<times> commitment_bytes) \<Rightarrow>
   (trie_updates \<times> trie_updates, 'e) res"
where
  "apply_trigger s level ts = (\<lambda>(n, (old_c, new_c)).
     case bt_get ts (ucast (drop_bit BUCKET_SLOT_BITS n)) of
       None \<Rightarrow> Ok ([(n, (old_c, new_c))], [])
     | Some ci \<Rightarrow>
         if ci_new_level ci = level then
           (if ci_new_top ci \<noteq> n then Panic
            else bind_res (expect (root_commitment_of s (ci_root ci))) (\<lambda>root_c.
                 Ok ([], [(ci_root ci, (root_c, new_c))])))
         else bind_res (default_commitment (ci_old_top ci)) (\<lambda>default_c. Ok ([(n, (default_c, new_c))], [])))"

definition handle_triggers ::
  "'e state_root \<Rightarrow> nat \<Rightarrow> triggers \<Rightarrow> trie_updates \<Rightarrow> trie_updates \<Rightarrow> (trie_updates \<times> trie_updates, 'e) res"
where
  "handle_triggers s level ts commitments updates =
     (if ts level = [] then Ok (commitments, updates)
      else bind_res (map_collect (apply_trigger s level (ts level)) commitments) (\<lambda>rs.
           Ok (concat (map fst rs), updates @ concat (map snd rs))))"

fun subtree_loop ::
  "('el :: ab_group_add, 'fr :: ab_group_add, 'pf) crypto \<Rightarrow> ('fr, 'el) mul_index \<Rightarrow> nat \<Rightarrow> 'e state_root \<Rightarrow>
   per_level \<Rightarrow> triggers \<Rightarrow> nat \<Rightarrow> trie_updates \<Rightarrow> trie_updates \<Rightarrow> (trie_updates, 'e) res"
where
  "subtree_loop cr mul threads s extra ts 0 commitments updates =
     bind_res (handle_triggers s 0 ts commitments updates) (\<lambda>(commitments, updates).
     Ok (updates @ commitments @ extra 0))"
| "subtree_loop cr mul threads s extra ts (Suc l) commitments updates =
     bind_res (handle_triggers s (Suc l) ts commitments updates) (\<lambda>(commitments, updates).
     let commitments = commitments @ extra (Suc l);
         updates = updates @ commitments
     in if (\<Sum>i \<le> l. length (ts i)) = 0 then Ok updates
        else bind_res (expect (update_internal_nodes cr mul threads s commitments)) (\<lambda>commitments.
             subtree_loop cr mul threads s extra ts l commitments updates))"

definition subtree_leaf_of :: "salt_key \<Rightarrow> node_id" where
  "subtree_leaf_of k = subtree_base (key_bucket_id k) + drop_bit 8 (key_slot_id k)
     + STARTING_NODE_ID ! (MAX_SUBTREE_LEVELS - 1)"

text \<open>Steps 2 to 6, which only read the state.\<close>

definition update_nodes ::
  "('el :: ab_group_add, 'fr :: ab_group_add, 'pf) crypto \<Rightarrow> ('fr, 'el) mul_index \<Rightarrow> nat \<Rightarrow> classify \<Rightarrow> 'e state_root \<Rightarrow>
   (trie_updates, 'e) res"
where
  "update_nodes cr mul threads cl s =
     bind_res (update_leaf_nodes cr mul threads s (cl_other_kvs cl) (bucket_root_node_id \<circ> key_bucket_id)) (\<lambda>updates.
     bind_res (contract_buckets s (cl_changes cl) ([], \<lambda>_. [])) (\<lambda>(uncomputed, extra).
     bind_res (set_triggers s (cl_changes cl) (cl_need_handle cl) uncomputed extra (\<lambda>_. []))
       (\<lambda>(need, uncomputed, extra, ts).
     bind_res (if need = {} then Ok []
               else update_leaf_nodes cr mul threads s (cl_expansion_kvs cl) subtree_leaf_of) (\<lambda>commitments.
     map_res (\<lambda>updates. updates @ uncomputed)
       (subtree_loop cr mul threads s extra ts (MAX_SUBTREE_LEVELS - 1) commitments updates)))))"

definition update_bucket_subtrees ::
  "('el :: ab_group_add, 'fr :: ab_group_add, 'pf) crypto \<Rightarrow> ('fr, 'el) mul_index \<Rightarrow> nat \<Rightarrow> state_updates \<Rightarrow>
   ('e, trie_updates) root_comp"
where
  "update_bucket_subtrees cr mul threads updates =
     bind (lift_res (subtree_changes updates)) (\<lambda>infos.
     bind (\<lambda>s. (Ok (), cache_capacities infos s)) (\<lambda>_.
     bind (classify_loop updates (classify_start infos)) (\<lambda>cl s.
     (update_nodes cr mul threads cl s, s))))"

section \<open>The two phases\<close>

definition drop_updates_below_level :: "trie_updates \<Rightarrow> nat \<Rightarrow> trie_updates" where
  "drop_updates_below_level updates level = filter (\<lambda>u. fst u < STARTING_NODE_ID ! level) updates"

fun apply_updates_to_caches :: "trie_updates \<Rightarrow> 'e state_root \<Rightarrow> 'e state_root" where
  "apply_updates_to_caches [] s = s"
| "apply_updates_to_caches ((n, (old, new)) # us) s =
     apply_updates_to_caches us (cache_node n new (s\<lparr>sr_updates :=
       bt_insert n (case bt_get (sr_updates s) n of Some (first, _) \<Rightarrow> (first, new) | None \<Rightarrow> (old, new))
         (sr_updates s)\<rparr>))"

fun propagate ::
  "('el :: ab_group_add, 'fr :: ab_group_add, 'pf) crypto \<Rightarrow> ('fr, 'el) mul_index \<Rightarrow> nat \<Rightarrow> nat \<Rightarrow> trie_updates \<Rightarrow>
   ('e, unit) root_comp"
where
  "propagate cr mul threads 0 level_updates = ret ()"
| "propagate cr mul threads (Suc n) level_updates =
     bind (\<lambda>s. (update_internal_nodes cr mul threads s level_updates, s)) (\<lambda>level_updates.
     bind (\<lambda>s. (Ok (), apply_updates_to_caches level_updates s)) (\<lambda>_.
     propagate cr mul threads n level_updates))"

definition sr_update ::
  "('el :: ab_group_add, 'fr :: ab_group_add, 'pf) crypto \<Rightarrow> ('fr, 'el) mul_index \<Rightarrow> nat \<Rightarrow> state_updates \<Rightarrow>
   ('e, unit) root_comp"
where
  "sr_update cr mul threads updates =
     bind (update_bucket_subtrees cr mul threads updates) (\<lambda>subtree_updates.
     let level_updates = drop_updates_below_level subtree_updates MAIN_TRIE_LEVELS
     in bind (\<lambda>s. (Ok (), apply_updates_to_caches subtree_updates s)) (\<lambda>_ s.
        propagate cr mul threads (MAIN_TRIE_LEVELS - (deferred_levels s + 1)) level_updates s))"

fun main_trie_loop ::
  "('el :: ab_group_add, 'fr :: ab_group_add, 'pf) crypto \<Rightarrow> ('fr, 'el) mul_index \<Rightarrow> nat \<Rightarrow> 'e state_root \<Rightarrow> nat \<Rightarrow>
   trie_updates \<Rightarrow> trie_updates \<Rightarrow> (trie_updates, 'e) res"
where
  "main_trie_loop cr mul threads s 0 level_updates acc = Ok acc"
| "main_trie_loop cr mul threads s (Suc n) level_updates acc =
     bind_res (update_internal_nodes cr mul threads s level_updates) (\<lambda>level_updates.
     main_trie_loop cr mul threads s n level_updates (acc @ level_updates))"

definition update_main_trie ::
  "('el :: ab_group_add, 'fr :: ab_group_add, 'pf) crypto \<Rightarrow> ('fr, 'el) mul_index \<Rightarrow> nat \<Rightarrow> 'e state_root \<Rightarrow>
   trie_updates \<Rightarrow> nat \<Rightarrow> (bytes \<times> trie_updates, 'e) res"
where
  "update_main_trie cr mul threads s acc_updates start_level =
     bind_res (main_trie_loop cr mul threads s (start_level - 1)
         (drop_updates_below_level acc_updates start_level) acc_updates) (\<lambda>acc.
     bind_res (if acc \<noteq> [] \<and> fst (last acc) = 0 then Ok (snd (snd (last acc)))
               else tr_commitment (ts_trie (sr_store s)) 0) (\<lambda>root.
     Ok (hash_commitment cr root, acc)))"

definition finalize ::
  "('el :: ab_group_add, 'fr :: ab_group_add, 'pf) crypto \<Rightarrow> ('fr, 'el) mul_index \<Rightarrow> nat \<Rightarrow>
   ('e, bytes \<times> trie_updates) root_comp"
where
  "finalize cr mul threads =
     bind (\<lambda>s. (Ok (sr_updates s), s\<lparr>sr_updates := []\<rparr>)) (\<lambda>taken.
     bind (\<lambda>s. (update_main_trie cr mul threads s taken (deferred_levels s + 1), s)) (\<lambda>(root_hash, trie_updates) s.
     (Ok (root_hash, trie_updates),
      fold (\<lambda>(n, (_, new)). cache_node n new) (drop_updates_below_level trie_updates (deferred_levels s)) s)))"

definition sr_update_fin ::
  "('el :: ab_group_add, 'fr :: ab_group_add, 'pf) crypto \<Rightarrow> ('fr, 'el) mul_index \<Rightarrow> nat \<Rightarrow> state_updates \<Rightarrow>
   ('e, bytes \<times> trie_updates) root_comp"
where
  "sr_update_fin cr mul threads updates = bind (sr_update cr mul threads updates) (\<lambda>_. finalize cr mul threads)"

section \<open>Rebuilding\<close>

definition rebuild_chunk ::
  "('el :: ab_group_add, 'fr :: ab_group_add, 'pf) crypto \<Rightarrow> ('fr, 'el) mul_index \<Rightarrow> nat \<Rightarrow> 'e reader \<Rightarrow> nat \<Rightarrow>
   (trie_updates, 'e) res"
where
  "rebuild_chunk cr mul threads rd chunk_start =
     (let chunk_end = min NUM_BUCKETS (chunk_start + META_BUCKET_SIZE) - 1;
          metas = bucket_range (of_nat (chunk_start div META_BUCKET_SIZE)) (of_nat (chunk_end div META_BUCKET_SIZE));
          datas = bucket_range (of_nat chunk_start) (of_nat chunk_end)
      in bind_res (rd_entries rd (fst metas) (snd metas)) (\<lambda>meta_entries.
         bind_res (salt_value_of_meta default_meta) (\<lambda>default_value.
         let updates = bt_collect (map (\<lambda>(k, actual). (k, (Some default_value, Some actual))) meta_entries)
         in bind_res (rd_entries rd (fst datas) (snd datas)) (\<lambda>entries.
            let updates = fold (\<lambda>(k, v). bt_insert k (None, Some v)) entries updates
            in expect (fst (update_bucket_subtrees cr mul threads updates (state_root_new empty_store)))))))"

definition sr_rebuild ::
  "('el :: ab_group_add, 'fr :: ab_group_add, 'pf) crypto \<Rightarrow> ('fr, 'el) mul_index \<Rightarrow> nat \<Rightarrow> 'e reader \<Rightarrow>
   (bytes \<times> trie_updates, 'e) res"
where
  "sr_rebuild cr mul threads rd =
     bind_res (map_collect (rebuild_chunk cr mul threads rd)
         (map (\<lambda>i. NUM_META_BUCKETS + META_BUCKET_SIZE * i) [0..<(NUM_BUCKETS - NUM_META_BUCKETS) div META_BUCKET_SIZE]))
       (\<lambda>all. expect (update_main_trie cr mul threads (state_root_new empty_store) (concat all) MAIN_TRIE_LEVELS))"

end
