(* ===== verification/Trie_Delta.thy ===== *)
theory Trie_Delta
  imports Trie_Root "HOL-Library.Multiset"
begin

text \<open>
  What \<open>add_commitment_deltas\<close> computes, whatever the sizes of its chunks: for each node that has
  deltas, in node order, the old commitment and the old element plus the sum of the deltas.
\<close>

section \<open>One chunk\<close>

definition delta_sum :: "'el :: ab_group_add delta_list \<Rightarrow> node_id \<Rightarrow> 'el" where
  "delta_sum ds n = sum_list (map snd (filter (\<lambda>d. fst d = n) ds))"

lemma delta_sum_simps [simp]:
  "delta_sum [] n = 0"
  "delta_sum ((m, d) # ds) n = (if m = n then d + delta_sum ds n else delta_sum ds n)"
  "delta_sum (ds @ es) n = delta_sum ds n + delta_sum es n"
  by (simp_all add: delta_sum_def)

lemma delta_sum_notin: "n \<notin> fst ` set ds \<Longrightarrow> delta_sum ds n = 0"
  by (induction ds) auto

lemma delta_sum_sort: "delta_sum (sort_key fst ds) n = delta_sum ds n"
  by (simp add: delta_sum_def mset_map mset_filter flip: sum_mset_sum_list)

definition new_element ::
  "('el :: ab_group_add, 'fr, 'pf) crypto \<Rightarrow> (node_id \<Rightarrow> commitment_bytes) \<Rightarrow> 'el delta_list \<Rightarrow> node_id \<Rightarrow> 'el"
where
  "new_element cr C ds n = el_of_bytes cr (C n) + delta_sum ds n"

definition node_update ::
  "('el :: ab_group_add, 'fr, 'pf) crypto \<Rightarrow> (node_id \<Rightarrow> commitment_bytes) \<Rightarrow> 'el delta_list \<Rightarrow> node_id \<Rightarrow>
   node_id \<times> (commitment_bytes \<times> commitment_bytes)"
where
  "node_update cr C ds n = (n, (C n, el_bytes cr (new_element cr C ds n)))"

text \<open>The nodes of a chunk in order.\<close>

abbreviation nodes_of :: "'el delta_list \<Rightarrow> node_id list" where
  "nodes_of ds \<equiv> remdups_adj (map fst ds)"

lemma nodes_of_Cons:
  assumes "sorted (map fst ((n, d) # ds))"
  shows "nodes_of ((n, d) # ds) = n # nodes_of (filter (\<lambda>d. fst d \<noteq> n) ds)"
proof -
  have "remdups_adj (n # ns) = n # remdups_adj (filter (\<lambda>m. m \<noteq> n) ns)"
    if "sorted ns" "\<forall>m \<in> set ns. n \<le> m" for ns
    using that
  proof (induction ns)
    case (Cons m ns)
    show ?case
    proof (cases "m = n")
      case False
      then have "filter (\<lambda>m. m \<noteq> n) ns = ns"
        using Cons.prems by (intro filter_True) force
      then show ?thesis
        using False by simp
    qed (use Cons in simp)
  qed simp
  from this [of "map fst ds"] show ?thesis
    using assms by (simp add: filter_map o_def)
qed

lemma updates_Cons:
  assumes "sorted (map fst ((n, d) # ds))"
  shows "map (\<lambda>m. (m, C m, new_element cr C ((n, d) # ds) m)) (nodes_of ((n, d) # ds)) =
    (n, C n, el_of_bytes cr (C n) + d + delta_sum ds n) #
    map (\<lambda>m. (m, C m, new_element cr C ds m)) (nodes_of (filter (\<lambda>d. fst d \<noteq> n) ds))"
  unfolding nodes_of_Cons [OF assms] by (auto simp: new_element_def add.assoc)

lemma accumulate_loop_ok:
  assumes "sorted (map fst ds)" "\<forall>n \<in> fst ` set ds. root_commitment_of s n = Ok (C n)"
    and "\<forall>n \<in> fst ` set ds. cur \<le> n"
  shows "accumulate_loop cr s ds cur ((cur, old, el) # acc) =
    Ok (rev (map (\<lambda>n. (n, C n, new_element cr C ds n)) (nodes_of (filter (\<lambda>d. fst d \<noteq> cur) ds)))
      @ (cur, old, el + delta_sum ds cur) # acc)"
  using assms
proof (induction ds arbitrary: cur old el acc)
  case (Cons x ds)
  obtain n d where x: "x = (n, d)" by (cases x)
  note prems = Cons.prems [unfolded x, simplified]
  show ?case
  proof (cases "n = cur")
    case True
    have eq: "map (\<lambda>m. (m, C m, new_element cr C ((n, d) # ds) m)) (nodes_of (filter (\<lambda>d. fst d \<noteq> cur) ds)) =
        map (\<lambda>m. (m, C m, new_element cr C ds m)) (nodes_of (filter (\<lambda>d. fst d \<noteq> cur) ds))"
      using True by (auto simp: new_element_def)
    show ?thesis
      using Cons.IH [of cur old "el + d"] prems True eq by (simp add: x add.assoc)
  next
    case False
    then have "\<forall>m \<in> fst ` set (x # ds). m \<noteq> cur"
      using prems x by force
    then have all: "filter (\<lambda>d. fst d \<noteq> cur) (x # ds) = x # ds" "delta_sum (x # ds) cur = 0"
      by (intro filter_True, force, intro delta_sum_notin, blast)
    have "accumulate_loop cr s (x # ds) cur ((cur, old, el) # acc) =
        accumulate_loop cr s ds n ((n, C n, el_of_bytes cr (C n) + d) # (cur, old, el) # acc)"
      using False prems by (simp add: x)
    also have "\<dots> = Ok (rev (map (\<lambda>m. (m, C m, new_element cr C ds m)) (nodes_of (filter (\<lambda>d. fst d \<noteq> n) ds)))
        @ (n, C n, el_of_bytes cr (C n) + d + delta_sum ds n) # (cur, old, el) # acc)"
      using Cons.IH [of n "C n" "el_of_bytes cr (C n) + d"] prems by simp
    also have "\<dots> = Ok (rev (map (\<lambda>m. (m, C m, new_element cr C (x # ds) m)) (nodes_of (x # ds)))
        @ (cur, old, el) # acc)"
      unfolding x updates_Cons [OF Cons.prems(1) [unfolded x]] by simp
    finally show ?thesis
      unfolding all by simp
  qed
qed simp

lemma accumulate_ok:
  assumes "sorted (map fst ds)" "\<forall>n \<in> fst ` set ds. n \<noteq> - 1 \<and> root_commitment_of s n = Ok (C n)"
  shows "map_res (\<lambda>acc. map (\<lambda>(n, old, el). (n, (old, el_bytes cr el))) (rev acc)) (accumulate_loop cr s ds (- 1) []) =
    Ok (map (node_update cr C ds) (nodes_of ds))"
proof (cases ds)
  case (Cons x es)
  obtain n d where x: "x = (n, d)" by (cases x)
  have "accumulate_loop cr s ds (- 1) [] = accumulate_loop cr s es n [(n, C n, el_of_bytes cr (C n) + d)]"
    using assms(2) by (simp add: Cons x)
  also have "\<dots> = Ok (rev (map (\<lambda>m. (m, C m, new_element cr C es m)) (nodes_of (filter (\<lambda>d. fst d \<noteq> n) es)))
      @ [(n, C n, el_of_bytes cr (C n) + d + delta_sum es n)])"
    by (rule accumulate_loop_ok) (use assms Cons x in auto)
  also have "\<dots> = Ok (rev (map (\<lambda>m. (m, C m, new_element cr C ds m)) (nodes_of ds)))"
    unfolding Cons x updates_Cons [OF assms(1) [unfolded Cons x]] by simp
  finally show ?thesis
    by (simp add: rev_map [symmetric] o_def node_update_def)
qed simp

section \<open>Chunks\<close>

text \<open>A boundary separates the deltas of different nodes.\<close>

definition aligned :: "'el delta_list \<Rightarrow> nat \<Rightarrow> bool" where
  "aligned ds b \<longleftrightarrow> 0 < b \<and> b < length ds \<and> fst (ds ! b) \<noteq> fst (ds ! (b - 1))"

lemma node_boundary_aligned:
  "0 < i \<Longrightarrow> node_boundary ds i < length ds \<Longrightarrow> aligned ds (node_boundary ds i)"
proof (induction ds i rule: node_boundary.induct)
  case (1 ds i)
  then show ?case
    by (subst node_boundary.simps) (auto simp: aligned_def node_boundary.simps [of ds i] split: if_splits)
qed

lemma boundaries_ok:
  assumes "0 < i"
  shows "sorted_wrt (<) (boundaries t ds i) \<and> (\<forall>b \<in> set (boundaries t ds i). i \<le> b \<and> aligned ds b)"
  using assms
proof (induction t ds i rule: boundaries.induct)
  case (1 t ds i)
  let ?b = "node_boundary ds i"
  have b: "i \<le> ?b"
    by (rule node_boundary_ge)
  show ?case
  proof (cases "i < length ds \<and> 0 < t")
    case True
    show ?thesis
    proof (cases "?b < length ds")
      case inside: True
      have "boundaries t ds i = ?b # boundaries t ds (?b + t)"
        using True inside by (subst boundaries.simps) (simp add: Let_def)
      moreover have "sorted_wrt (<) (boundaries t ds (?b + t)) \<and>
          (\<forall>c \<in> set (boundaries t ds (?b + t)). ?b + t \<le> c \<and> aligned ds c)"
        using "1.IH"(1) [OF True refl inside] 1(3) b by simp
      ultimately show ?thesis
        using node_boundary_aligned [OF 1(3) inside] b True by force
    next
      case outside: False
      have "boundaries t ds i = boundaries t ds ?b"
        using True outside by (subst boundaries.simps) (simp add: Let_def)
      moreover have "boundaries t ds ?b = []"
        using outside by (subst boundaries.simps) simp
      ultimately show ?thesis
        by simp
    qed
  next
    case False
    then have "boundaries t ds i = []"
      by (subst boundaries.simps) auto
    then show ?thesis
      by simp
  qed
qed

lemma exists_nth_drop: "x \<in> set (drop b xs) \<Longrightarrow> b < length xs \<Longrightarrow> \<exists>i. b + i < length xs \<and> x = xs ! (b + i)"
  unfolding in_set_conv_nth by (auto simp: less_diff_conv add.commute)

lemma aligned_split:
  assumes "sorted (map fst ds)" "aligned ds b"
  shows "fst ` set (take b ds) \<inter> fst ` set (drop b ds) = {}"
proof -
  have b: "0 < b" "b < length ds" "fst (ds ! (b - 1)) < fst (ds ! b)"
    using assms(2) sorted_nth_mono [OF assms(1), of "b - 1" b] by (auto simp: aligned_def)
  have "fst x \<le> fst (ds ! (b - 1))" if "x \<in> set (take b ds)" for x
  proof -
    from that obtain i where "i < b" "x = ds ! i"
      by (auto simp: in_set_conv_nth)
    then show ?thesis
      using sorted_nth_mono [OF assms(1), of i "b - 1"] b by simp
  qed
  moreover have "fst (ds ! b) \<le> fst x" if mem: "x \<in> set (drop b ds)" for x
  proof -
    obtain i where "b + i < length ds" "x = ds ! (b + i)"
      using exists_nth_drop [OF mem b(2)] by blast
    then show ?thesis
      using sorted_nth_mono [OF assms(1), of b "b + i"] by simp
  qed
  ultimately have "m < n" if "m \<in> fst ` set (take b ds)" "n \<in> fst ` set (drop b ds)" for m n
    using that b(3) by (elim imageE) (simp, meson le_less_trans less_le_trans)
  then show ?thesis
    by (metis Int_emptyI order_less_irrefl)
qed

lemma aligned_bounds:
  "aligned ds b \<Longrightarrow> 0 < b \<and> b < length ds"
  by (simp add: aligned_def)

abbreviation seg :: "'a list \<Rightarrow> nat \<Rightarrow> nat \<Rightarrow> 'a list" where
  "seg ds a b \<equiv> take (b - a) (drop a ds)"

lemma seg_set: "a \<le> b \<Longrightarrow> set (seg ds a b) \<subseteq> set (take b ds)"
  by (metis drop_take set_drop_subset)

lemma delta_sum_seg:
  assumes "sorted (map fst ds)" "a \<le> b" "a = 0 \<or> aligned ds a" "b = length ds \<or> aligned ds b"
    and "n \<in> fst ` set (seg ds a b)"
  shows "delta_sum ds n = delta_sum (seg ds a b) n"
proof -
  have ds: "ds = take a ds @ seg ds a b @ drop b ds"
    using append_take_drop_id [of a ds] append_take_drop_id [of "b - a" "drop a ds"] assms(2) by simp
  have "n \<notin> fst ` set (take a ds)"
    using assms(3,5) aligned_split [OF assms(1), of a] by (force dest: in_set_takeD)
  moreover have "n \<notin> fst ` set (drop b ds)"
  proof (cases "b = length ds")
    case False
    have "n \<in> fst ` set (take b ds)"
      using assms(5) image_mono [OF seg_set [OF assms(2), of ds], of fst] by blast
    then show ?thesis
      using False assms(4) aligned_split [OF assms(1), of b] by blast
  qed simp
  ultimately have "delta_sum (take a ds @ seg ds a b @ drop b ds) n = delta_sum (seg ds a b) n"
    by (simp add: delta_sum_notin)
  then show ?thesis
    by (simp flip: ds)
qed

lemma nodes_of_append:
  assumes "fst ` set xs \<inter> fst ` set ys = {}"
  shows "nodes_of (xs @ ys) = nodes_of xs @ nodes_of ys"
proof -
  have "xs = [] \<or> ys = [] \<or> last (map fst xs) \<noteq> hd (map fst ys)"
  proof (cases "xs = [] \<or> ys = []")
    case False
    then have "fst (last xs) \<in> fst ` set xs" "fst (hd ys) \<in> fst ` set ys"
      by auto
    then have "fst (last xs) \<noteq> fst (hd ys)"
      using assms by (metis IntI empty_iff)
    then show ?thesis
      using False by (simp add: last_map hd_map)
  qed blast
  then show ?thesis
    unfolding map_append by (intro remdups_adj_append') simp
qed

lemma chunks_concat:
  assumes "sorted (map fst ds)" "a = 0 \<or> aligned ds a"
    and "sorted_wrt (<) bs" "\<forall>b \<in> set bs. a \<le> b \<and> aligned ds b" "a \<le> length ds"
  shows "concat (map (\<lambda>(a, b). map (node_update cr C (seg ds a b)) (nodes_of (seg ds a b)))
      (zip (a # bs @ [length ds]) (bs @ [length ds]))) = map (node_update cr C ds) (nodes_of (drop a ds))"
  using assms(2-)
proof (induction bs arbitrary: a)
  case Nil
  have "map (node_update cr C (drop a ds)) (nodes_of (drop a ds)) = map (node_update cr C ds) (nodes_of (drop a ds))"
    using delta_sum_seg [OF assms(1) Nil(4,1), of _] by (auto simp: node_update_def new_element_def)
  then show ?case
    by simp
next
  case (Cons b bs)
  have b: "a \<le> b" "aligned ds b" "0 < b" "b < length ds"
    using Cons.prems aligned_bounds by auto
  have split: "drop a ds = seg ds a b @ drop b ds"
    using append_take_drop_id [of "b - a" "drop a ds"] b(1) by simp
  have disj: "fst ` set (seg ds a b) \<inter> fst ` set (drop b ds) = {}"
    using aligned_split [OF assms(1) b(2)] image_mono [OF seg_set [OF b(1), of ds], of fst] by blast
  have "nodes_of (drop a ds) = nodes_of (seg ds a b) @ nodes_of (drop b ds)"
    by (subst split) (rule nodes_of_append [OF disj])
  moreover have "map (node_update cr C (seg ds a b)) (nodes_of (seg ds a b)) =
      map (node_update cr C ds) (nodes_of (seg ds a b))"
    using delta_sum_seg [OF assms(1) b(1) Cons.prems(1), of] b(2) by (auto simp: node_update_def new_element_def)
  moreover have "concat (map (\<lambda>(a, b). map (node_update cr C (seg ds a b)) (nodes_of (seg ds a b)))
      (zip (b # bs @ [length ds]) (bs @ [length ds]))) = map (node_update cr C ds) (nodes_of (drop b ds))"
    using Cons.prems b by (intro Cons.IH) auto
  ultimately show ?case
    by simp
qed

section \<open>All chunks\<close>

lemma strict_remdups_adj: "sorted xs \<Longrightarrow> sorted_wrt (<) (remdups_adj (xs :: 'a :: linorder list))"
  by (induction xs rule: remdups_adj.induct) (auto simp: less_le)

lemma sorted_fst_sort: "sorted (map fst (sort_key fst ds))"
  by simp

lemma nodes_of_sort: "nodes_of (sort_key fst ds) = sorted_list_of_set (fst ` set ds)"
proof -
  have "sorted (nodes_of (sort_key fst ds))" "distinct (nodes_of (sort_key fst ds))"
    using strict_remdups_adj [OF sorted_fst_sort [of ds]] by (simp_all only: strict_sorted_iff)
  then have "sorted_list_of_set (set (nodes_of (sort_key fst ds))) = nodes_of (sort_key fst ds)"
    by (rule sorted_list_of_set.idem_if_sorted_distinct)
  then show ?thesis
    by simp
qed

lemma chunks_zip: "zip (0 # bs @ [l]) (tl (0 # bs @ [l])) = zip (0 # bs @ [l]) (bs @ [l])"
  by simp

lemma add_commitment_deltas_ok:
  fixes ds :: "'el :: ab_group_add delta_list"
  assumes "0 < task_size" "\<forall>n \<in> fst ` set ds. n \<noteq> - 1 \<and> root_commitment_of s n = Ok (C n)"
  shows "add_commitment_deltas cr s ds task_size =
    Ok (map (node_update cr C ds) (sorted_list_of_set (fst ` set ds)))"
proof -
  let ?ds = "sort_key fst ds"
  let ?B = "boundaries task_size ?ds task_size"
  let ?chunks = "zip (0 # ?B @ [length ?ds]) (?B @ [length ?ds])"
  let ?U = "\<lambda>(a, b). map (node_update cr C (seg ?ds a b)) (nodes_of (seg ?ds a b))"
  have "accumulate_chunk_deltas cr s ?ds ab = Ok (?U ab)" for ab
  proof (cases ab)
    case (Pair a b)
    have "sorted (map fst (seg ?ds a b))"
      unfolding take_map [symmetric] drop_map [symmetric]
      by (intro sorted_wrt_take sorted_wrt_drop sorted_fst_sort)
    moreover have "set (seg ?ds a b) \<subseteq> set ds"
      using set_take_subset [of "b - a" "drop a ?ds"] set_drop_subset [of a ?ds] by auto
    ultimately have "map_res (\<lambda>acc. map (\<lambda>(n, old, el). (n, (old, el_bytes cr el))) (rev acc))
        (accumulate_loop cr s (seg ?ds a b) (- 1) []) = Ok (?U (a, b))"
      unfolding prod.case using assms(2) by (intro accumulate_ok) blast+
    then show ?thesis
      by (simp add: Pair accumulate_chunk_deltas_def)
  qed
  then have "map_collect (accumulate_chunk_deltas cr s ?ds) ?chunks = Ok (map ?U ?chunks)"
    by (intro map_collect_Ok)
  moreover have "concat (map ?U ?chunks) = map (node_update cr C ?ds) (nodes_of (drop 0 ?ds))"
    using boundaries_ok [OF assms(1), of task_size ?ds] sorted_fst_sort [of ds] by (intro chunks_concat) auto
  moreover have "node_update cr C ?ds = node_update cr C ds"
    by (intro ext) (simp add: node_update_def new_element_def delta_sum_sort)
  ultimately show ?thesis
    using assms(1) by (simp add: add_commitment_deltas_def create_node_aligned_chunks_def chunks_zip nodes_of_sort)
qed

end
