(* ===== verification/Trie_Levels.thy ===== *)
theory Trie_Levels
  imports Trie_Delta
begin

text \<open>
  One step of the update: if the updates of a level lead from the elements \<open>E\<close> to the elements
  \<open>E'\<close>, the updates computed for the level above lead from the commitments to \<open>E\<close> to the
  commitments to \<open>E'\<close>. Nodes are given by bucket, level and position, \<open>node_at\<close>.
\<close>

section \<open>Linear commitments\<close>

text \<open>
  What the code relies on of banderwagon: \<open>mul_index\<close> is linear, and reading back the bytes of an
  element gives the element.
\<close>

definition linear_crypto :: "('el :: ab_group_add, 'fr :: ab_group_add, 'pf) crypto \<Rightarrow> ('fr, 'el) mul_index \<Rightarrow> bool" where
  "linear_crypto cr mul \<longleftrightarrow>
     (\<forall>x y i. mul (x - y) i = mul x i - mul y i) \<and> (\<forall>e. el_of_bytes cr (el_bytes cr e) = e)"

text \<open>The commitment to 256 scalars, for every node of a level.\<close>

definition vc :: "('fr, 'el :: ab_group_add) mul_index \<Rightarrow> (bucket_id \<Rightarrow> nat \<Rightarrow> nat \<Rightarrow> 'fr) \<Rightarrow> bucket_id \<Rightarrow> nat \<Rightarrow> 'el" where
  "vc mul H b p = (\<Sum>i<256. mul (H b p i) i)"

text \<open>The scalars of a node's children.\<close>

definition child_scalars ::
  "('el, 'fr, 'pf) crypto \<Rightarrow> (bucket_id \<Rightarrow> nat \<Rightarrow> 'el) \<Rightarrow> bucket_id \<Rightarrow> nat \<Rightarrow> nat \<Rightarrow> 'fr"
where
  "child_scalars cr E b p i = el_to_fr cr (E b (256 * p + i))"

definition level_updates ::
  "('el, 'fr, 'pf) crypto \<Rightarrow> bucket_id set \<Rightarrow> nat \<Rightarrow> (bucket_id \<Rightarrow> nat \<Rightarrow> 'el) \<Rightarrow> (bucket_id \<Rightarrow> nat \<Rightarrow> 'el) \<Rightarrow>
   trie_updates \<Rightarrow> bool"
where
  "level_updates cr B l E E' us \<longleftrightarrow>
     distinct (map fst us) \<and>
     (\<forall>(n, (old, new)) \<in> set us. \<exists>b \<in> B. \<exists>p. node_fits b l p \<and> n = node_at b l p \<and>
        el_of_bytes cr old = E b p \<and> el_of_bytes cr new = E' b p) \<and>
     (\<forall>b \<in> B. \<forall>p. node_fits b l p \<and> node_at b l p \<notin> fst ` set us \<longrightarrow> E b p = E' b p)"

definition committed ::
  "('el, 'fr, 'pf) crypto \<Rightarrow> 'e state_root \<Rightarrow> bucket_id set \<Rightarrow> nat \<Rightarrow> (bucket_id \<Rightarrow> nat \<Rightarrow> 'el) \<Rightarrow> bool"
where
  "committed cr s B l E \<longleftrightarrow> (\<forall>b \<in> B. \<forall>p. node_fits b l p \<longrightarrow>
     (\<exists>c. root_commitment_of s (node_at b l p) = Ok c \<and> el_of_bytes cr c = E b p))"

lemma linearD:
  assumes "linear_crypto cr mul"
  shows "mul (x - y) i = mul x i - mul y i" "mul 0 i = 0" "el_of_bytes cr (el_bytes cr e) = e"
proof -
  have "mul (0 - 0) i = mul 0 i - mul 0 i"
    using assms unfolding linear_crypto_def by blast
  then show "mul 0 i = 0"
    by simp
qed (use assms in \<open>auto simp: linear_crypto_def\<close>)

lemma vc_diff:
  assumes "linear_crypto cr mul"
  shows "vc mul H' b p - vc mul H b p = (\<Sum>i<256. mul (H' b p i - H b p i) i)"
  by (simp add: vc_def linearD [OF assms] sum_subtractf)

lemma node_at_not_max:
  assumes "node_fits b l p"
  shows "node_at b l p \<noteq> - 1"
proof
  assume "node_at b l p = - 1"
  then have "unat b * 2 ^ 40 + (level_start l + p) = 2 ^ 64 - 1"
    using unat_node_at [OF assms] by (simp add: unsigned_minus_1_eq_mask mask_eq_exp_minus_1)
  moreover have "level_start l + p < 2 ^ 40 - 1"
    using assms level_cases [of l] by (auto simp: node_fits_def)
  moreover have "unat b < 2 ^ 24"
    using assms by (simp add: node_fits_def)
  moreover have "k * 2 ^ 40 + x = 2 ^ 64 - 1 \<Longrightarrow> x < 2 ^ 40 - 1 \<Longrightarrow> k < 2 ^ 24 \<Longrightarrow> False" for k x :: nat
    by (rule ccontr) (use mod_mult_self3 [of k "2 ^ 40" x] in simp)
  ultimately show False
    by blast
qed

section \<open>The deltas of a level\<close>

type_synonym slot_ref = "bucket_id \<times> nat \<times> nat"

definition slot_delta ::
  "('fr :: ab_group_add, 'el) mul_index \<Rightarrow> (bucket_id \<Rightarrow> nat \<Rightarrow> nat \<Rightarrow> 'fr) \<Rightarrow> (bucket_id \<Rightarrow> nat \<Rightarrow> nat \<Rightarrow> 'fr) \<Rightarrow> nat \<Rightarrow>
   slot_ref \<Rightarrow> node_id \<times> 'el"
where
  "slot_delta mul H H' l = (\<lambda>(b, p, i). (node_at b l p, mul (H' b p i - H b p i) i))"

lemma delta_sum_mset: "mset ds = mset es \<Longrightarrow> delta_sum ds n = delta_sum es n"
  by (simp add: delta_sum_def mset_map mset_filter flip: sum_mset_sum_list)

lemma delta_sum_slots:
  assumes "linear_crypto cr mul" "distinct cs" "node_fits b l p"
    and "\<forall>(b, p, i) \<in> set cs. node_fits b l p \<and> i < 256"
    and "\<forall>i<256. (b, p, i) \<notin> set cs \<longrightarrow> H b p i = H' b p i"
  shows "delta_sum (map (slot_delta mul H H' l) cs) (node_at b l p) = vc mul H' b p - vc mul H b p"
proof -
  let ?at = "\<lambda>c. case c of (b', p', i) \<Rightarrow> node_at b' l p' = node_at b l p"
  let ?I = "{i. i < 256 \<and> (b, p, i) \<in> set cs}"
  let ?d = "\<lambda>i. mul (H' b p i - H b p i) i"
  have slots: "{c \<in> set cs. ?at c} = (\<lambda>i. (b, p, i)) ` ?I"
    using assms(3,4) node_at_inj by fastforce
  have "delta_sum (map (slot_delta mul H H' l) cs) (node_at b l p) =
      (\<Sum>c\<leftarrow>filter ?at cs. snd (slot_delta mul H H' l c))"
    by (simp add: delta_sum_def filter_map o_def slot_delta_def split_def)
  also have "\<dots> = (\<Sum>c \<in> {c \<in> set cs. ?at c}. snd (slot_delta mul H H' l c))"
    using assms(2) by (simp add: sum_list_distinct_conv_sum_set)
  also have "\<dots> = (\<Sum>i \<in> ?I. ?d i)"
    unfolding slots by (subst sum.reindex) (auto simp: inj_on_def slot_delta_def)
  also have "\<dots> = (\<Sum>i<256. ?d i)"
    using assms(5) by (intro sum.mono_neutral_left) (auto simp: linearD(2) [OF assms(1)])
  finally show ?thesis
    by (simp add: vc_diff [OF assms(1)])
qed

lemma delta_level:
  assumes lin: "linear_crypto cr mul" and cs: "distinct cs" "0 < task_size"
    and ds: "mset ds = mset (map (slot_delta mul H H' l) cs)"
    and fits: "\<forall>(b, p, i) \<in> set cs. b \<in> B \<and> node_fits b l p \<and> i < 256"
    and same: "\<forall>b \<in> B. \<forall>p i. node_fits b l p \<and> i < 256 \<and> (b, p, i) \<notin> set cs \<longrightarrow> H b p i = H' b p i"
    and com: "\<forall>(b, p, i) \<in> set cs. \<exists>c. root_commitment_of s (node_at b l p) = Ok c \<and> el_of_bytes cr c = vc mul H b p"
  shows "\<exists>us. add_commitment_deltas cr s ds task_size = Ok us \<and> level_updates cr B l (vc mul H) (vc mul H') us \<and>
    fst ` set us = (\<lambda>(b, p, i). node_at b l p) ` set cs"
proof -
  define C where "C n = (case root_commitment_of s n of Ok c \<Rightarrow> c)" for n
  let ?us = "map (node_update cr C ds) (sorted_list_of_set (fst ` set ds))"
  have nodes: "fst ` set ds = (\<lambda>(b, p, i). node_at b l p) ` set cs"
    using mset_eq_setD [OF ds] by (auto simp: slot_delta_def image_image split_def)
  have node: "\<exists>b \<in> B. \<exists>p. node_fits b l p \<and> n = node_at b l p \<and> root_commitment_of s n = Ok (C n) \<and>
      el_of_bytes cr (C n) = vc mul H b p" if "n \<in> fst ` set ds" for n
    using that fits com unfolding nodes by (fastforce simp: C_def)
  have "add_commitment_deltas cr s ds task_size = Ok ?us"
  proof (rule add_commitment_deltas_ok [OF cs(2)], intro ballI conjI)
    show "n \<noteq> - 1" "root_commitment_of s n = Ok (C n)" if "n \<in> fst ` set ds" for n
      using node [OF that] node_at_not_max by auto
  qed
  moreover have new: "el_of_bytes cr (el_bytes cr (new_element cr C ds (node_at b l p))) = vc mul H' b p"
    if "b \<in> B" "node_fits b l p" "el_of_bytes cr (C (node_at b l p)) = vc mul H b p" for b p
    using that delta_sum_slots [OF lin cs(1) that(2), of H H'] fits same
    by (simp add: linearD(3) [OF lin] new_element_def delta_sum_mset [OF ds] split_def)
  have "level_updates cr B l (vc mul H) (vc mul H') ?us"
    unfolding level_updates_def
  proof (intro conjI)
    show "distinct (map fst ?us)"
      by (simp add: o_def node_update_def)
    show "\<forall>(n, (old, new)) \<in> set ?us. \<exists>b \<in> B. \<exists>p. node_fits b l p \<and> n = node_at b l p \<and>
        el_of_bytes cr old = vc mul H b p \<and> el_of_bytes cr new = vc mul H' b p"
      using node new by (fastforce simp: node_update_def)
    show "\<forall>b \<in> B. \<forall>p. node_fits b l p \<and> node_at b l p \<notin> fst ` set ?us \<longrightarrow> vc mul H b p = vc mul H' b p"
    proof (intro ballI allI impI)
      fix b p
      assume b: "b \<in> B" and p: "node_fits b l p \<and> node_at b l p \<notin> fst ` set ?us"
      have "(b, p, i) \<notin> set cs" for i
        using p nodes by (force simp: node_update_def image_image)
      then show "vc mul H b p = vc mul H' b p"
        using same b p by (simp add: vc_def)
    qed
  qed
  moreover have "fst ` set ?us = (\<lambda>(b, p, i). node_at b l p) ` set cs"
    unfolding nodes [symmetric] by (simp add: image_image node_update_def)
  ultimately show ?thesis
    by blast
qed

section \<open>Internal nodes\<close>

lemma par_batch_pos: "0 < min_par_batch_size s \<Longrightarrow> 0 < par_batch_size threads s n"
  by (simp add: par_batch_size_def)

lemma map_collect_chunks:
  assumes "\<And>x. x \<in> set (concat xss) \<Longrightarrow> f x = Ok (g x)"
  shows "map_res concat (map_collect (map_collect f) xss) = Ok (map g (concat xss))"
proof -
  have "map_collect (map_collect f) xss = Ok (map (map g) xss)"
    using assms by (intro map_collect_Ok) auto
  then show ?thesis
    by (simp add: map_concat)
qed

lemma mset_snd_sort: "mset (map snd (sort_key fst xs)) = mset (map snd xs)"
  by (simp add: mset_map)

lemma update_internal_ok:
  fixes us :: trie_updates and s :: "'e state_root"
  assumes lin: "linear_crypto cr mul" and par: "0 < min_par_batch_size s" and l: "l < 4"
    and us: "level_updates cr B (Suc l) E E' us"
    and com: "committed cr s B l (vc mul (child_scalars cr E))"
  shows "\<exists>us'. update_internal_nodes cr mul threads s us = Ok us' \<and>
    level_updates cr B l (vc mul (child_scalars cr E)) (vc mul (child_scalars cr E')) us' \<and>
    (us' = [] \<longleftrightarrow> us = [])"
proof -
  let ?H = "child_scalars cr E" and ?H' = "child_scalars cr E'"
  have "\<forall>u. \<exists>c. u \<in> set us \<longrightarrow> (case c of (b, q, i) \<Rightarrow> b \<in> B \<and> node_fits b l q \<and> i < 256 \<and>
      fst u = node_at b (Suc l) (256 * q + i) \<and>
      commitment_hash cr (fst (snd u)) = ?H b q i \<and> commitment_hash cr (snd (snd u)) = ?H' b q i)"
  proof
    fix u
    show "\<exists>c. u \<in> set us \<longrightarrow> (case c of (b, q, i) \<Rightarrow> b \<in> B \<and> node_fits b l q \<and> i < 256 \<and>
        fst u = node_at b (Suc l) (256 * q + i) \<and>
        commitment_hash cr (fst (snd u)) = ?H b q i \<and> commitment_hash cr (snd (snd u)) = ?H' b q i)"
    proof (cases "u \<in> set us")
      case True
      obtain n old new where u: "u = (n, (old, new))"
        by (metis prod.collapse)
      obtain b p where "b \<in> B" "node_fits b (Suc l) p" "n = node_at b (Suc l) p"
        "el_of_bytes cr old = E b p" "el_of_bytes cr new = E' b p"
        using us True unfolding u level_updates_def by fast
      then show ?thesis
        using parent_fits [of b "Suc l" p]
        by (intro exI [of _ "(b, p div 256, p mod 256)"]) (simp add: u commitment_hash_def child_scalars_def)
    qed blast
  qed
  from choice [OF this] obtain f where f: "u \<in> set us \<Longrightarrow> case f u of (b, q, i) \<Rightarrow> b \<in> B \<and> node_fits b l q \<and> i < 256 \<and>
      fst u = node_at b (Suc l) (256 * q + i) \<and>
      commitment_hash cr (fst (snd u)) = ?H b q i \<and> commitment_hash cr (snd (snd u)) = ?H' b q i" for u
    by blast
  let ?keyed = "map (\<lambda>u. (snd (snd (f u)), u)) us"
  let ?sorted = "map snd (sort_key fst ?keyed)"
  let ?ds = "map (\<lambda>u. slot_delta mul ?H ?H' l (f u)) ?sorted"
  have mset: "mset ?sorted = mset us"
    unfolding mset_snd_sort by (simp add: o_def)
  have child: "vc_position_in_parent (fst u) = Ok (snd (snd (f u)))"
    "internal_delta cr mul u = Ok (slot_delta mul ?H ?H' l (f u))" if "u \<in> set us" for u
  proof -
    obtain b q i where c: "f u = (b, q, i)"
      by (cases "f u")
    note fu = f [OF that, unfolded c prod.case]
    have fits: "node_fits b (Suc l) (256 * q + i)"
      using child_fits [of b l q i] fu l by simp
    show "vc_position_in_parent (fst u) = Ok (snd (snd (f u)))"
      using fu by (simp add: vc_position_node_at [OF fits] c)
    show "internal_delta cr mul u = Ok (slot_delta mul ?H ?H' l (f u))"
      using fu by (simp add: vc_position_node_at [OF fits] parent_node_at [OF fits] c internal_delta_def
        slot_delta_def split_def)
  qed
  have "distinct us"
    using us by (simp add: level_updates_def distinct_map)
  moreover have "inj_on f (set us)"
  proof (rule inj_onI)
    fix u v
    assume "u \<in> set us" "v \<in> set us" "f u = f v"
    then have "fst u = fst v"
      using f [of u] f [of v] by (auto split: prod.splits)
    then show "u = v"
      using us \<open>u \<in> set us\<close> \<open>v \<in> set us\<close> by (auto simp: level_updates_def distinct_map dest: inj_onD)
  qed
  ultimately have distinct: "distinct (map f us)"
    by (simp add: distinct_map)
  have deltas: "\<exists>us'. add_commitment_deltas cr s ?ds (par_batch_size threads s (length us)) = Ok us' \<and>
      level_updates cr B l (vc mul ?H) (vc mul ?H') us' \<and>
      fst ` set us' = (\<lambda>(b, p, i). node_at b l p) ` set (map f us)"
  proof (rule delta_level [OF lin distinct par_batch_pos [OF par]])
    show "mset ?ds = mset (map (slot_delta mul ?H ?H' l) (map f us))"
    proof -
      have "mset ?ds = image_mset (\<lambda>u. slot_delta mul ?H ?H' l (f u)) (mset ?sorted)"
        by (rule mset_map)
      then show ?thesis
        unfolding mset by (simp add: multiset.map_comp o_def)
    qed
    show "\<forall>(b, p, i) \<in> set (map f us). b \<in> B \<and> node_fits b l p \<and> i < 256"
      using f by fastforce
    show "\<forall>b \<in> B. \<forall>p i. node_fits b l p \<and> i < 256 \<and> (b, p, i) \<notin> set (map f us) \<longrightarrow> ?H b p i = ?H' b p i"
    proof (intro ballI allI impI)
      fix b p i
      assume b: "b \<in> B" and p: "node_fits b l p \<and> i < 256 \<and> (b, p, i) \<notin> set (map f us)"
      then have fits: "node_fits b (Suc l) (256 * p + i)"
        using child_fits [of b l p i] l by simp
      have "node_at b (Suc l) (256 * p + i) \<notin> fst ` set us"
      proof
        assume "node_at b (Suc l) (256 * p + i) \<in> fst ` set us"
        then obtain u where u: "u \<in> set us" "fst u = node_at b (Suc l) (256 * p + i)"
          by force
        obtain b' q j where c: "f u = (b', q, j)"
          by (cases "f u")
        have "b' = b \<and> 256 * q + j = 256 * p + i"
          using node_at_inj [OF child_fits [of b' l q j] fits] f [OF u(1), unfolded c prod.case] u(2) l by simp
        moreover have "j < 256"
          using f [OF u(1), unfolded c prod.case] by simp
        ultimately have "(b', q, j) = (b, p, i)"
          using p mult_add_unique [of q 256 j p i] by (simp add: mult.commute)
        then show False
          using p u(1) c by force
      qed
      then show "?H b p i = ?H' b p i"
        using us b fits by (simp add: level_updates_def child_scalars_def)
    qed
    show "\<forall>(b, p, i) \<in> set (map f us).
        \<exists>c. root_commitment_of s (node_at b l p) = Ok c \<and> el_of_bytes cr c = vc mul ?H b p"
      using f com by (fastforce simp: committed_def)
  qed
  have "map_collect (\<lambda>u. map_res (\<lambda>pos. (pos, u)) (vc_position_in_parent (fst u))) us = (Ok ?keyed :: (_, 'e) res)"
    by (intro map_collect_Ok) (simp add: child(1))
  moreover have "map_res concat (map_collect (map_collect (internal_delta cr mul))
      (chunks_of (par_batch_size threads s (length us)) ?sorted)) = (Ok ?ds :: (_, 'e) res)"
  proof -
    have "set ?sorted = set us"
      by (rule mset_eq_setD [OF mset])
    then have "internal_delta cr mul u = (Ok (slot_delta mul ?H ?H' l (f u)) :: (_, 'e) res)" if "u \<in> set ?sorted" for u
      using that by (simp only: child(2))
    then show ?thesis
      using map_collect_chunks [of "chunks_of (par_batch_size threads s (length us)) ?sorted"
        "internal_delta cr mul :: _ \<Rightarrow> (_, 'e) res" "\<lambda>u. slot_delta mul ?H ?H' l (f u)"]
      by (simp only: concat_chunks_of [OF par_batch_pos [OF par]])
  qed
  ultimately show ?thesis
    using deltas par_batch_pos [OF par] by (auto simp: update_internal_nodes_def Let_def)
qed

section \<open>Leaves\<close>

text \<open>\<open>ref\<close> says where the commitments refer to a key: bucket, position of the leaf, slot in the leaf.\<close>

lemma update_leaf_ok:
  fixes us :: "kv_update list"
  assumes lin: "linear_crypto cr mul" and par: "0 < min_par_batch_size s" and dist: "distinct (map fst us)"
    and us: "\<And>k old new. (k, (old, new)) \<in> set us \<Longrightarrow> (case ref k of (b, p, i) \<Rightarrow>
      b \<in> B \<and> node_fits b l p \<and> i = slot_in_leaf k \<and> i < 256 \<and> to_node k = node_at b l p \<and>
      kv_hash cr old = (Ok (H b p i) :: (_, 'e) res) \<and> kv_hash cr new = (Ok (H' b p i) :: (_, 'e) res))"
    and inj: "inj_on ref (fst ` set us)"
    and same: "\<forall>b \<in> B. \<forall>p i. node_fits b l p \<and> i < 256 \<and> (b, p, i) \<notin> ref ` fst ` set us \<longrightarrow> H b p i = H' b p i"
    and com: "committed cr s B l (vc mul H)"
  shows "\<exists>us'. update_leaf_nodes cr mul threads (s :: 'e state_root) us to_node = Ok us' \<and>
    level_updates cr B l (vc mul H) (vc mul H') us' \<and>
    fst ` set us' = to_node ` fst ` set us"
proof -
  let ?sorted = "sort_key (slot_in_leaf \<circ> fst) us"
  let ?D = "\<lambda>u. slot_delta mul H H' l (ref (fst u))"
  have distinct: "distinct (map (ref \<circ> fst) us)"
    using dist inj by (simp add: distinct_map comp_inj_on_iff)
  have step: "(\<lambda>(k, (old, new)). bind_res (kv_hash cr new) (\<lambda>h1. bind_res (kv_hash cr old) (\<lambda>h0.
      Ok (to_node k, mul (h1 - h0) (slot_in_leaf k))))) u = (Ok (?D u) :: (_, 'e) res)" if "u \<in> set us" for u
  proof -
    obtain k old new where u: "u = (k, (old, new))"
      by (metis prod.collapse)
    obtain b p i where c: "ref k = (b, p, i)"
      by (cases "ref k")
    show ?thesis
      using us [of k old new, unfolded c prod.case] that unfolding u by (simp add: c slot_delta_def)
  qed
  have deltas: "\<exists>us'. add_commitment_deltas cr s (map ?D ?sorted) (par_batch_size threads s (length us)) = Ok us' \<and>
      level_updates cr B l (vc mul H) (vc mul H') us' \<and>
      fst ` set us' = (\<lambda>(b, p, i). node_at b l p) ` set (map (ref \<circ> fst) us)"
  proof (rule delta_level [OF lin distinct par_batch_pos [OF par]])
    show "mset (map ?D ?sorted) = mset (map (slot_delta mul H H' l) (map (ref \<circ> fst) us))"
      by (simp add: mset_map multiset.map_comp o_def)
    show "\<forall>(b, p, i) \<in> set (map (ref \<circ> fst) us). b \<in> B \<and> node_fits b l p \<and> i < 256"
      using us by fastforce
    show "\<forall>b \<in> B. \<forall>p i. node_fits b l p \<and> i < 256 \<and> (b, p, i) \<notin> set (map (ref \<circ> fst) us) \<longrightarrow> H b p i = H' b p i"
      using same by (simp add: image_comp)
    show "\<forall>(b, p, i) \<in> set (map (ref \<circ> fst) us).
        \<exists>c. root_commitment_of s (node_at b l p) = Ok c \<and> el_of_bytes cr c = vc mul H b p"
      using us com by (fastforce simp: committed_def)
  qed
  have "(case ref (fst u) of (b, p, i) \<Rightarrow> node_at b l p) = to_node (fst u)" if "u \<in> set us" for u
    using us [of "fst u" "fst (snd u)" "snd (snd u)"] that by (auto split: prod.splits)
  then have nodes: "(\<lambda>(b, p, i). node_at b l p) ` set (map (ref \<circ> fst) us) = to_node ` fst ` set us"
    by (simp add: image_image cong: image_cong)
  have "map_collect (\<lambda>(k, (old, new)). bind_res (kv_hash cr new) (\<lambda>h1. bind_res (kv_hash cr old) (\<lambda>h0.
      Ok (to_node k, mul (h1 - h0) (slot_in_leaf k))))) ?sorted = (Ok (map ?D ?sorted) :: (_, 'e) res)"
    using step by (intro map_collect_Ok) simp
  then show ?thesis
    using deltas nodes by (simp add: update_leaf_nodes_def Let_def)
qed

end
