(* ===== verification/Trie_Flat.thy ===== *)
theory Trie_Flat
  imports Trie_Levels
begin

text \<open>
  \<open>update_bucket_subtrees\<close> when no bucket is expanded: the updates of the buckets' commitments, at the
  bottom level of the main trie. Metadata may change, the capacity in it stays at 256.
\<close>

section \<open>The batches\<close>

text \<open>The store, the settings, the pending updates and the main trie's commitments are the same.\<close>

definition same_main :: "'e state_root \<Rightarrow> 'e state_root \<Rightarrow> bool" where
  "same_main s s' \<longleftrightarrow> sr_store s' = sr_store s \<and> sr_updates s' = sr_updates s \<and>
     bucket_capacity_cache s' = bucket_capacity_cache s \<and> min_par_batch_size s' = min_par_batch_size s \<and>
     deferred_levels s' = deferred_levels s \<and>
     (\<forall>n. unat n < 2 ^ 40 \<longrightarrow> bt_get (sr_cache s') n = bt_get (sr_cache s) n)"

text \<open>No data bucket is expanded, as far as the capacities are known.\<close>

definition flat :: "'e state_root \<Rightarrow> bool" where
  "flat s \<longleftrightarrow> (\<forall>b. of_nat NUM_META_BUCKETS \<le> b \<and> unat b < NUM_BUCKETS \<longrightarrow>
     (case bt_get (bucket_capacity_cache s) b of
        Some cap \<Rightarrow> cap = 256
      | None \<Rightarrow> ts_levels (sr_store s) b = Ok 1))"

definition flat_meta :: "salt_value option \<Rightarrow> bool" where
  "flat_meta e \<longleftrightarrow> (\<exists>v m. e = Some v \<and> meta_of_salt_value v = Ok m \<and> capacity m = 256)"

definition entry_ok :: "salt_value option \<Rightarrow> bool" where
  "entry_ok e \<longleftrightarrow> (\<forall>v. e = Some v \<longrightarrow> sv_valid v)"

text \<open>A batch of updates that leads from the entries \<open>V\<close> to the entries \<open>V'\<close>.\<close>

definition flat_batch :: "salt_state \<Rightarrow> state_updates \<Rightarrow> salt_state \<Rightarrow> bool" where
  "flat_batch V updates V' \<longleftrightarrow> bt_ok updates \<and>
     (\<forall>(k, (old, new)) \<in> set updates. unat (key_slot_id k) < 256 \<and> old = V k \<and> new = V' k \<and>
        entry_ok old \<and> entry_ok new \<and> (is_in_meta_bucket k \<longrightarrow> flat_meta old \<and> flat_meta new)) \<and>
     (\<forall>k. k \<notin> fst ` set updates \<longrightarrow> V k = V' k)"

definition flat_info :: "bucket_id \<Rightarrow> change_info" where
  "flat_info b = \<lparr>ci_old_capacity = 256, ci_old_level = 4, ci_old_top = subtree_base b + STARTING_NODE_ID ! 4,
     ci_new_capacity = 256, ci_new_level = 4, ci_new_top = subtree_base b + STARTING_NODE_ID ! 4,
     ci_root = bucket_root_node_id b\<rparr>"

section \<open>Capacity changes\<close>

lemma level_256: "unat (subtree_root_level 256) = 4"
  by (simp add: subtree_root_level_def subtree_root_level_loop.simps salt_consts)

lemma change_info_256: "change_info_new b 256 256 = Ok (flat_info b)"
  by (simp add: change_info_new_def level_256 starting_level_start flat_info_def Let_def) (simp add: salt_consts)

definition meta_bucket :: "salt_key \<Rightarrow> bucket_id" where
  "meta_bucket k = push_bit MIN_BUCKET_SIZE_BITS (key_bucket_id k) + ucast (key_slot_id k)"

lemma meta_change_flat:
  assumes "is_in_meta_bucket k" "flat_meta old" "flat_meta new"
  shows "meta_change (k, (old, new)) = Ok (meta_bucket k, flat_info (meta_bucket k))"
  using assms unfolding METADATA_KEYS_RANGE_iff [symmetric]
  by (auto simp: flat_meta_def meta_change_def bucket_id_from_metadata_key_def change_info_256 meta_bucket_def)

definition all_flat :: "(bucket_id, change_info) btree \<Rightarrow> bool" where
  "all_flat infos \<longleftrightarrow> (\<forall>(b, ci) \<in> set infos. ci = flat_info b)"

lemma set_bt_collect: "set (bt_collect xs) \<subseteq> set xs"
proof
  fix x
  assume "x \<in> set (bt_collect xs)"
  then have "bt_get (bt_collect xs) (fst x) = Some (snd x)"
    by (simp add: bt_get_in)
  then have "map_of (rev xs) (fst x) = Some (snd x)"
    by (simp add: bt_get_collect)
  then show "x \<in> set xs"
    by (metis map_of_SomeD prod.collapse set_rev)
qed

lemma subtree_changes_flat:
  assumes "flat_batch V updates V'"
  shows "\<exists>infos. subtree_changes updates = (Ok infos :: (_, 'e) res) \<and> all_flat infos"
proof -
  let ?us = "bt_range (fst METADATA_KEYS_RANGE) (snd METADATA_KEYS_RANGE) updates"
  have flat: "meta_change u = Ok (meta_bucket (fst u), flat_info (meta_bucket (fst u)))" if "u \<in> set ?us" for u
  proof -
    obtain k old new where u: "u = (k, (old, new))"
      by (metis prod.collapse)
    then have "(k, (old, new)) \<in> set updates" "is_in_meta_bucket k"
      using that by (auto simp: in_bt_range METADATA_KEYS_RANGE_iff [symmetric])
    then show ?thesis
      using assms meta_change_flat unfolding u flat_batch_def by fastforce
  qed
  have "map_collect meta_change ?us =
      (Ok (map (\<lambda>u. (meta_bucket (fst u), flat_info (meta_bucket (fst u)))) ?us) :: (_, 'e) res)"
    by (intro map_collect_Ok) (rule flat)
  moreover have "all_flat (bt_collect (map (\<lambda>u. (meta_bucket (fst u), flat_info (meta_bucket (fst u)))) ?us))"
    using set_bt_collect unfolding all_flat_def by fastforce
  ultimately show ?thesis
    unfolding subtree_changes_def by simp
qed

lemma cache_capacities_flat:
  assumes "all_flat infos" "flat s"
  shows "flat (cache_capacities infos s)"
proof -
  have "bt_get (fold (\<lambda>(b, ci). bt_insert b (ci_new_capacity ci)) infos m) b = bt_get m b \<or>
      bt_get (fold (\<lambda>(b, ci). bt_insert b (ci_new_capacity ci)) infos m) b = Some 256" for m b
    using assms(1)
  proof (induction infos arbitrary: m)
    case (Cons x infos)
    then have "all_flat infos" "ci_new_capacity (snd x) = 256"
      by (auto simp: all_flat_def flat_info_def)
    then show ?case
      using Cons.IH [of "bt_insert (fst x) 256 m"] by (auto simp: split_def split: if_splits)
  qed simp
  then have cap: "bt_get (bucket_capacity_cache (cache_capacities infos s)) b = bt_get (bucket_capacity_cache s) b \<or>
      bt_get (bucket_capacity_cache (cache_capacities infos s)) b = Some 256" for b
    by (simp add: cache_capacities_def)
  have "case bt_get (bucket_capacity_cache (cache_capacities infos s)) b of
        Some cap \<Rightarrow> cap = 256
      | None \<Rightarrow> ts_levels (sr_store (cache_capacities infos s)) b = Ok 1"
    if "of_nat NUM_META_BUCKETS \<le> b" "unat b < NUM_BUCKETS" for b
    using assms(2) that cap [of b] unfolding flat_def
    by (elim allE [of _ b]) (auto simp: cache_capacities_def split: option.splits)
  then show ?thesis
    by (simp add: flat_def)
qed

section \<open>The loop over the updates\<close>

lemma same_main_refl [simp]: "same_main s s"
  by (simp add: same_main_def)

lemma same_main_trans: "same_main s s' \<Longrightarrow> same_main s' s'' \<Longrightarrow> same_main s s''"
  by (simp add: same_main_def)

lemma same_main_commitment:
  assumes "same_main s s'" "node_fits 0 l p"
  shows "root_commitment_of s' (node_at 0 l p) = root_commitment_of s (node_at 0 l p)"
proof -
  have "unat (node_at 0 l p) < 2 ^ 40"
    using assms(2) local_bound [OF assms(2)] by (simp add: unat_node_at)
  then show ?thesis
    using assms(1) by (simp add: same_main_def root_commitment_of_def split: option.split)
qed

lemma same_main_committed: "same_main s s' \<Longrightarrow> committed cr s {0} l E \<Longrightarrow> committed cr s' {0} l E"
  by (simp add: committed_def same_main_commitment)

lemma same_main_flat: "same_main s s' \<Longrightarrow> flat s \<Longrightarrow> flat s'"
  by (auto simp: same_main_def flat_def split: option.splits)

lemma cache_subtree_top:
  assumes "0 < unat b" "unat b < 2 ^ 24"
  shows "same_main s (cache_node (ci_old_top (flat_info b)) c s)"
proof -
  have fits: "node_fits b 4 0"
    using assms by (simp add: node_fits_def)
  have "ci_old_top (flat_info b) = node_at b 4 0"
    by (simp add: flat_info_def subtree_base_def node_at_def salt_consts)
  then have "2 ^ 40 \<le> unat (ci_old_top (flat_info b))"
    using assms unat_node_at [OF fits] by simp
  then show ?thesis
    by (auto simp: same_main_def cache_node_def)
qed

text \<open>No bucket needs its subtree handled, no update goes into a subtree.\<close>

definition classify_flat :: "kv_update list \<Rightarrow> classify \<Rightarrow> bool" where
  "classify_flat us cl \<longleftrightarrow> all_flat (cl_changes cl) \<and> cl_need_handle cl = {} \<and> \<not> cl_expanded cl \<and>
     cl_expansion_kvs cl = [] \<and> cl_other_kvs cl = us"

definition roots_known :: "'e state_root \<Rightarrow> bool" where
  "roots_known s \<longleftrightarrow> (\<forall>b. unat b < 2 ^ 24 \<longrightarrow> (\<exists>c. root_commitment_of s (bucket_root_node_id b) = Ok c))"

lemma roots_known_same: "same_main s s' \<Longrightarrow> roots_known s \<Longrightarrow> roots_known s'"
  by (simp add: roots_known_def bucket_root_node_at same_main_commitment bucket_root_fits)

lemma roots_known_committed:
  assumes "committed cr s {0} 3 E"
  shows "roots_known s"
  unfolding roots_known_def bucket_root_node_at
proof (intro allI impI)
  fix b :: bucket_id
  assume "unat b < 2 ^ 24"
  then have "node_fits 0 3 (unat b)"
    by (rule bucket_root_fits)
  then show "\<exists>c. root_commitment_of s (node_at 0 3 (unat b)) = Ok c"
    using assms by (auto simp: committed_def)
qed

lemma enter_bucket_flat:
  assumes "classify_flat us cl" "flat s" "roots_known s"
  shows "\<exists>cl' s'. enter_bucket k cl s = (Ok cl', s') \<and> classify_flat us cl' \<and> same_main s s'"
proof (cases "cl_last cl \<noteq> key_bucket_id k \<and> key_bucket_id k \<ge> of_nat NUM_META_BUCKETS")
  case True
  let ?b = "key_bucket_id k"
  have b: "unat ?b < 2 ^ 24" "0 < unat ?b"
    using key_fits_parts [of k] True by (auto simp: key_fits_def word_le_nat_alt salt_consts)
  obtain c where c: "root_commitment_of s (bucket_root_node_id ?b) = Ok c"
    using assms(3) b by (auto simp: roots_known_def)
  show ?thesis
  proof (cases "bt_get (cl_changes cl) ?b")
    case None
    have "(case bt_get (bucket_capacity_cache s) ?b of Some cap \<Rightarrow> Ok cap
        | None \<Rightarrow> map_res (\<lambda>level. of_nat (TRIE_WIDTH ^ unat level)) (ts_levels (sr_store s) ?b)) = Ok 256"
      using assms(2) True b unfolding flat_def
      by (auto simp: salt_consts split: option.splits)
    then show ?thesis
      using True None assms(1)
      by (simp add: enter_bucket_def Let_def enter_unchanged_def bind_def classify_flat_def salt_consts)
  next
    case (Some ci)
    then have "ci = flat_info ?b"
      using assms(1) bt_get_Some_in by (fastforce simp: classify_flat_def all_flat_def)
    then show ?thesis
      using True Some assms(1) c cache_subtree_top [OF b(2,1), of s c]
      by (simp add: enter_bucket_def Let_def enter_changed_def bind_def classify_flat_def salt_consts need_handle_def
          flat_info_def)
  qed
qed (use assms in \<open>auto simp: enter_bucket_def Let_def\<close>)

lemma classify_loop_flat:
  assumes "classify_flat us0 cl" "flat s" "roots_known s"
  shows "\<exists>cl' s'. classify_loop us cl s = (Ok cl', s') \<and> classify_flat (us0 @ us) cl' \<and> same_main s s'"
  using assms
proof (induction us arbitrary: us0 cl s)
  case (Cons u us)
  obtain cl' s' where enter: "enter_bucket (fst u) cl s = (Ok cl', s')" "classify_flat us0 cl'" "same_main s s'"
    using enter_bucket_flat [OF Cons.prems] by blast
  then have "classify_flat (us0 @ [u]) (place_update u cl')"
    by (simp add: classify_flat_def place_update_def)
  then obtain cl'' s'' where "classify_loop us (place_update u cl') s' = (Ok cl'', s'')"
    "classify_flat (us0 @ u # us) cl''" "same_main s' s''"
    using Cons.IH [of "us0 @ [u]" "place_update u cl'" s']
      same_main_flat [OF enter(3) Cons.prems(2)] roots_known_same [OF enter(3) Cons.prems(3)] by auto
  then show ?case
    using enter same_main_trans by (auto simp: bind_def)
qed simp

section \<open>The updates of the buckets\<close>

lemma contract_buckets_flat: "all_flat infos \<Longrightarrow> contract_buckets s infos acc = Ok acc"
  by (induction infos) (auto simp: all_flat_def flat_info_def)

lemma set_triggers_flat:
  "all_flat infos \<Longrightarrow> set_triggers s infos {} uncomputed extra ts = Ok ({}, uncomputed, extra, ts)"
  by (induction infos) (auto simp: all_flat_def flat_info_def)

lemma update_nodes_flat:
  assumes "classify_flat us cl"
  shows "update_nodes cr mul threads cl s =
    update_leaf_nodes cr mul threads s us (bucket_root_node_id \<circ> key_bucket_id)"
  using assms
  by (cases "update_leaf_nodes cr mul threads s us (bucket_root_node_id \<circ> key_bucket_id)")
    (simp_all add: update_nodes_def classify_flat_def contract_buckets_flat set_triggers_flat salt_consts
      numeral_eq_Suc handle_triggers_def)

text \<open>The scalars of the entries of a bucket; the buckets are the leaves of bucket 0's trie.\<close>

definition entry_scalars :: "('el, 'fr, 'pf) crypto \<Rightarrow> salt_state \<Rightarrow> bucket_id \<Rightarrow> nat \<Rightarrow> nat \<Rightarrow> 'fr" where
  "entry_scalars cr V b p i = kv_scalar cr (V (salt_key_from (of_nat p) (of_nat i)))"

definition slot_ref :: "salt_key \<Rightarrow> slot_ref" where
  "slot_ref k = (0, unat (key_bucket_id k), unat (key_slot_id k))"

lemma kv_hash_ok: "entry_ok e \<Longrightarrow> kv_hash cr e = Ok (kv_scalar cr e)"
  using slot_to_field_ok [of e cr] by (simp add: entry_ok_def slot_to_field_def)

lemma slot_in_leaf_small: "unat (key_slot_id k) < 256 \<Longrightarrow> slot_in_leaf k = unat (key_slot_id k)"
  by (simp add: slot_in_leaf_def unat_mod salt_consts)

lemma update_leaf_flat:
  assumes lin: "linear_crypto cr mul" and par: "0 < min_par_batch_size s"
    and batch: "flat_batch V us V'" and com: "committed cr s {0} 3 (vc mul (entry_scalars cr V))"
  shows "\<exists>us'. update_leaf_nodes cr mul threads s us (bucket_root_node_id \<circ> key_bucket_id) = Ok us' \<and>
    level_updates cr {0} 3 (vc mul (entry_scalars cr V)) (vc mul (entry_scalars cr V')) us' \<and>
    fst ` set us' = (bucket_root_node_id \<circ> key_bucket_id) ` fst ` set us"
proof (rule update_leaf_ok [OF lin par, where ref = slot_ref])
  show "distinct (map fst us)"
    using batch by (simp add: flat_batch_def bt_ok_distinct)
  show "inj_on slot_ref (fst ` set us)"
    by (rule inj_onI) (metis Pair_inject salt_key_from_parts slot_ref_def word_eq_unat)
  show "committed cr s {0} 3 (vc mul (entry_scalars cr V))"
    by (rule com)
  fix k old new
  assume "(k, (old, new)) \<in> set us"
  then have k: "unat (key_slot_id k) < 256" "old = V k" "new = V' k" "entry_ok old" "entry_ok new"
    using batch by (auto simp: flat_batch_def)
  then show "case slot_ref k of (b, p, i) \<Rightarrow> b \<in> {0} \<and> node_fits b 3 p \<and> i = slot_in_leaf k \<and> i < 256 \<and>
      (bucket_root_node_id \<circ> key_bucket_id) k = node_at b 3 p \<and>
      kv_hash cr old = Ok (entry_scalars cr V b p i) \<and> kv_hash cr new = Ok (entry_scalars cr V' b p i)"
    using key_fits_parts [of k]
    by (simp add: slot_ref_def bucket_root_fits key_fits_def slot_in_leaf_small bucket_root_node_at kv_hash_ok
        entry_scalars_def)
next
  show "\<forall>b \<in> {0}. \<forall>p i. node_fits b 3 p \<and> i < 256 \<and> (b, p, i) \<notin> slot_ref ` fst ` set us \<longrightarrow>
      entry_scalars cr V b p i = entry_scalars cr V' b p i"
  proof (intro ballI allI impI)
    fix b p i
    assume b: "b \<in> {0 :: bucket_id}" and p: "node_fits b 3 p \<and> i < 256 \<and> (b, p, i) \<notin> slot_ref ` fst ` set us"
    let ?k = "salt_key_from (of_nat p) (of_nat i)"
    have fits: "key_fits (of_nat p) (of_nat i)"
      using p by (simp add: key_fits_def node_fits_def unat_of_nat)
    then have "slot_ref ?k = (b, p, i)"
      using b p by (simp add: slot_ref_def node_fits_def unat_of_nat)
    then have "?k \<notin> fst ` set us"
      using p by (metis imageI)
    then show "entry_scalars cr V b p i = entry_scalars cr V' b p i"
      using batch by (simp add: flat_batch_def entry_scalars_def)
  qed
qed

text \<open>What a batch leaves alone, the capacities apart.\<close>

definition same_trie :: "'e state_root \<Rightarrow> 'e state_root \<Rightarrow> bool" where
  "same_trie s s' \<longleftrightarrow> (\<exists>caps. same_main (s\<lparr>bucket_capacity_cache := caps\<rparr>) s')"

lemma update_bucket_subtrees_flat:
  fixes s :: "'e state_root"
  assumes lin: "linear_crypto cr mul" and par: "0 < min_par_batch_size s" and flat: "flat s"
    and batch: "flat_batch V us V'" and com: "committed cr s {0} 3 (vc mul (entry_scalars cr V))"
  shows "\<exists>us' s'. update_bucket_subtrees cr mul threads us s = (Ok us', s') \<and> flat s' \<and> same_trie s s' \<and>
    level_updates cr {0} 3 (vc mul (entry_scalars cr V)) (vc mul (entry_scalars cr V')) us' \<and>
    fst ` set us' = (bucket_root_node_id \<circ> key_bucket_id) ` fst ` set us"
proof -
  obtain infos where infos: "subtree_changes us = (Ok infos :: (_, 'e) res)" "all_flat infos"
    using subtree_changes_flat [OF batch] by blast
  let ?s = "cache_capacities infos s"
  have flat1: "flat ?s"
    by (rule cache_capacities_flat [OF infos(2) flat])
  have com1: "committed cr ?s {0} l E = committed cr s {0} l E" for l E
    by (simp add: committed_def root_commitment_of_def cache_capacities_def cong: option.case_cong)
  have "roots_known ?s"
    using com [folded com1] by (rule roots_known_committed)
  moreover have "classify_flat [] (classify_start infos)"
    using infos(2) by (simp add: classify_flat_def classify_start_def)
  ultimately obtain cl s' where loop: "classify_loop us (classify_start infos) ?s = (Ok cl, s')"
    "classify_flat us cl" "same_main ?s s'"
    using classify_loop_flat [OF _ flat1, of "[]" "classify_start infos" us] by auto
  have com2: "committed cr s' {0} 3 (vc mul (entry_scalars cr V))" "0 < min_par_batch_size s'"
    using same_main_committed [OF loop(3) com [folded com1]] loop(3) par
    by (simp_all add: same_main_def cache_capacities_def)
  obtain us' where "update_leaf_nodes cr mul threads s' us (bucket_root_node_id \<circ> key_bucket_id) = Ok us'"
    "level_updates cr {0} 3 (vc mul (entry_scalars cr V)) (vc mul (entry_scalars cr V')) us'"
    "fst ` set us' = (bucket_root_node_id \<circ> key_bucket_id) ` fst ` set us"
    using update_leaf_flat [OF lin com2(2) batch com2(1), of threads] by (elim exE conjE) (rule that)
  moreover have "same_trie s s'"
    using loop(3) by (auto simp: same_trie_def cache_capacities_def)
  moreover have "update_bucket_subtrees cr mul threads us s =
      (update_leaf_nodes cr mul threads s' us (bucket_root_node_id \<circ> key_bucket_id), s')"
    using infos(1) loop(1) update_nodes_flat [OF loop(2)] by (simp add: update_bucket_subtrees_def bind_def)
  ultimately show ?thesis
    using same_main_flat [OF loop(3) flat1] by (intro exI [of _ us'] exI [of _ s'] conjI) simp_all
qed

end
