(* ===== verification/Trie_Phases.thy ===== *)
theory Trie_Phases
  imports Trie_Flat
begin

text \<open>
  The update and the finalize phase over a trie without expanded buckets: what the caches and the
  pending updates hold between the calls, level by level, and the root the last phase computes.
\<close>

section \<open>The elements of the trie\<close>

text \<open>The commitments to the entries \<open>V\<close>, by height over the buckets.\<close>

primrec trie_el ::
  "('el :: ab_group_add, 'fr, 'pf) crypto \<Rightarrow> ('fr, 'el) mul_index \<Rightarrow> salt_state \<Rightarrow> nat \<Rightarrow> bucket_id \<Rightarrow> nat \<Rightarrow> 'el"
where
  "trie_el cr mul V 0 = vc mul (entry_scalars cr V)"
| "trie_el cr mul V (Suc h) = vc mul (child_scalars cr (trie_el cr mul V h))"

definition level_el ::
  "('el :: ab_group_add, 'fr, 'pf) crypto \<Rightarrow> ('fr, 'el) mul_index \<Rightarrow> salt_state \<Rightarrow> nat \<Rightarrow> bucket_id \<Rightarrow> nat \<Rightarrow> 'el"
where
  "level_el cr mul V l = trie_el cr mul V (3 - l)"

definition flat_root :: "('el :: ab_group_add, 'fr, 'pf) crypto \<Rightarrow> ('fr, 'el) mul_index \<Rightarrow> salt_state \<Rightarrow> bytes" where
  "flat_root cr mul V = fr_bytes cr (el_to_fr cr (level_el cr mul V 0 0 0))"

lemma level_el_leaf: "level_el cr mul V 3 = vc mul (entry_scalars cr V)"
  by (simp add: level_el_def)

lemma level_el_inner: "l < 3 \<Longrightarrow> level_el cr mul V l = vc mul (child_scalars cr (level_el cr mul V (Suc l)))"
proof -
  assume "l < 3"
  then have "3 - l = Suc (3 - Suc l)"
    by simp
  then show ?thesis
    by (simp only: level_el_def trie_el.simps)
qed

section \<open>The levels of the main trie\<close>

lemma starting_nth: "l \<le> 4 \<Longrightarrow> STARTING_NODE_ID ! l = of_nat (level_start l)"
  by (drule level_cases) (auto simp: salt_consts)

lemma level_start_step: "l \<le> 3 \<Longrightarrow> level_start (Suc l) = level_start l + 256 ^ l"
  by (drule order_trans [of l 3 4]) (use level_cases [of l] in \<open>auto simp: level_start_def\<close>)

lemma level_start_mono: "l \<le> m \<Longrightarrow> m \<le> 4 \<Longrightarrow> level_start l \<le> level_start m"
  by (simp add: level_start_def div_le_mono diff_le_mono power_increasing)

lemma main_node_below:
  assumes "node_fits 0 l p" "l \<le> 3" "m \<le> 4"
  shows "node_at 0 l p < STARTING_NODE_ID ! m \<longleftrightarrow> l < m"
proof -
  have p: "p < 256 ^ l"
    using assms by (simp add: node_fits_def)
  have "unat (STARTING_NODE_ID ! m) = level_start m"
    using level_cases [OF assms(3)] by (auto simp: salt_consts)
  then have "node_at 0 l p < STARTING_NODE_ID ! m \<longleftrightarrow> level_start l + p < level_start m"
    using unat_node_at [OF assms(1)] by (simp add: word_less_nat_alt)
  also have "\<dots> \<longleftrightarrow> l < m"
  proof (cases "l < m")
    case True
    then have "level_start l + 256 ^ l \<le> level_start m"
      using level_start_mono [of "Suc l" m] level_start_step [OF assms(2)] assms(3) by simp
    then show ?thesis
      using True p by simp
  next
    case False
    then show ?thesis
      using level_start_mono [of m l] assms(2) by simp
  qed
  finally show ?thesis .
qed

definition in_level :: "nat \<Rightarrow> node_id \<Rightarrow> bool" where
  "in_level l n \<longleftrightarrow> STARTING_NODE_ID ! l \<le> n \<and> n < STARTING_NODE_ID ! (Suc l)"

definition at_level :: "nat \<Rightarrow> trie_updates \<Rightarrow> trie_updates" where
  "at_level l us = filter (\<lambda>u. in_level l (fst u)) us"

lemma main_node_level:
  assumes "node_fits 0 l p" "l \<le> 3" "m \<le> 3"
  shows "in_level m (node_at 0 l p) \<longleftrightarrow> l = m"
  using main_node_below [OF assms(1,2), of m] main_node_below [OF assms(1,2), of "Suc m"] assms(3)
  by (auto simp: in_level_def not_less [symmetric])

lemma level_updates_node:
  "level_updates cr {0} l E E' us \<Longrightarrow> u \<in> set us \<Longrightarrow> \<exists>p. node_fits 0 l p \<and> fst u = node_at 0 l p"
  by (cases u) (fastforce simp: level_updates_def)

lemma level_updates_refl: "level_updates cr B l E E []"
  by (simp add: level_updates_def)

lemma level_updates_distinct: "level_updates cr B l E E' us \<Longrightarrow> distinct (map fst us)"
  by (simp add: level_updates_def)

section \<open>Writing updates to the caches\<close>

lemma apply_commitment:
  "distinct (map fst us) \<Longrightarrow> root_commitment_of (apply_updates_to_caches us s) n =
    (case map_of us n of Some (old, new) \<Rightarrow> Ok new | None \<Rightarrow> root_commitment_of s n)"
proof (induction us s rule: apply_updates_to_caches.induct)
  case (2 m old new us s)
  have "n \<noteq> m \<or> map_of us n = None"
    using "2.prems" by (auto simp: map_of_eq_None_iff)
  then show ?case
    using 2 by (auto simp: root_commitment_of_def cache_node_def split: option.splits)
qed simp

lemma apply_pending:
  "distinct (map fst us) \<Longrightarrow> bt_get (sr_updates (apply_updates_to_caches us s)) n =
    (case map_of us n of
       Some (old, new) \<Rightarrow> Some (case bt_get (sr_updates s) n of Some (first, _) \<Rightarrow> first | None \<Rightarrow> old, new)
     | None \<Rightarrow> bt_get (sr_updates s) n)"
proof (induction us s rule: apply_updates_to_caches.induct)
  case (2 m old new us s)
  have "n \<noteq> m \<or> map_of us n = None"
    using "2.prems" by (auto simp: map_of_eq_None_iff)
  then show ?case
    using 2 by (auto simp: cache_node_def split: option.splits)
qed simp

lemma apply_frame [simp]:
  "sr_store (apply_updates_to_caches us s) = sr_store s"
  "bucket_capacity_cache (apply_updates_to_caches us s) = bucket_capacity_cache s"
  "min_par_batch_size (apply_updates_to_caches us s) = min_par_batch_size s"
  "deferred_levels (apply_updates_to_caches us s) = deferred_levels s"
  "bt_ok (sr_updates s) \<Longrightarrow> bt_ok (sr_updates (apply_updates_to_caches us s))"
  by (induction us s rule: apply_updates_to_caches.induct) (simp_all add: cache_node_def)

lemma apply_flat [simp]: "flat (apply_updates_to_caches us s) \<longleftrightarrow> flat s"
  by (simp add: flat_def cong: option.case_cong)

lemma committed_apply:
  assumes us: "level_updates cr {0} l E E' us" and com: "committed cr s {0} j (if j = l then E else G)"
  shows "committed cr (apply_updates_to_caches us s) {0} j (if j = l then E' else G)"
  unfolding committed_def
proof (intro ballI allI impI)
  fix b :: bucket_id and p
  assume "b \<in> {0}" and p: "node_fits b j p"
  then have b: "b = 0"
    by simp
  note get = apply_commitment [OF level_updates_distinct [OF us], of s]
  show "\<exists>c. root_commitment_of (apply_updates_to_caches us s) (node_at b j p) = Ok c \<and>
      el_of_bytes cr c = (if j = l then E' else G) b p"
  proof (cases "map_of us (node_at 0 j p)")
    case None
    then have "node_at 0 j p \<notin> fst ` set us"
      by (simp add: map_of_eq_None_iff)
    then show ?thesis
      using None com us p unfolding b get by (auto simp: committed_def level_updates_def)
  next
    case (Some c)
    then have mem: "(node_at 0 j p, (fst c, snd c)) \<in> set us"
      by (simp add: map_of_SomeD)
    then obtain q where q: "node_fits 0 l q" "node_at 0 j p = node_at 0 l q" "el_of_bytes cr (snd c) = E' 0 q"
      using us unfolding level_updates_def by fast
    have "j = l \<and> p = q"
      using node_at_inj [OF p [unfolded b] q(1,2)] by simp
    then show ?thesis
      using q(3) Some unfolding b get by (simp add: split_def)
  qed
qed

section \<open>The pending updates of a level\<close>

lemma at_level_get: "bt_ok m \<Longrightarrow> bt_get (at_level l m) n = (if in_level l n then bt_get m n else None)"
proof -
  assume ok: "bt_ok m"
  have "bt_get (at_level l m) n = Some v \<longleftrightarrow> in_level l n \<and> bt_get m n = Some v" for v
    using ok by (auto simp: at_level_def bt_get_iff_in)
  then show ?thesis
    by (metis not_None_eq)
qed

lemma level_updates_lookup:
  assumes "bt_ok us"
  shows "level_updates cr {0} l E E' us \<longleftrightarrow>
    (\<forall>n old new. bt_get us n = Some (old, new) \<longrightarrow> (\<exists>p. node_fits 0 l p \<and> n = node_at 0 l p \<and>
       el_of_bytes cr old = E 0 p \<and> el_of_bytes cr new = E' 0 p)) \<and>
    (\<forall>p. node_fits 0 l p \<and> bt_get us (node_at 0 l p) = None \<longrightarrow> E 0 p = E' 0 p)"
proof -
  have none: "n \<notin> fst ` set us \<longleftrightarrow> bt_get us n = None" for n
    using set_keys_dom [of us] by auto
  have some: "x \<in> set us \<longleftrightarrow> bt_get us (fst x) = Some (fst (snd x), snd (snd x))" for x
    using bt_get_iff_in [OF assms, of "fst x" "snd x"] by simp
  show ?thesis
    unfolding level_updates_def Ball_def none some by (simp add: bt_ok_distinct [OF assms] split_def)
qed

lemma bt_ok_at_level [simp]: "bt_ok us \<Longrightarrow> bt_ok (at_level l us)"
  by (simp add: at_level_def)

lemma at_level_apply_other:
  assumes us: "level_updates cr {0} l E E' us" "l \<le> 3" and j: "j \<le> 3" "j \<noteq> l" and ok: "bt_ok (sr_updates s)"
  shows "at_level j (sr_updates (apply_updates_to_caches us s)) = at_level j (sr_updates s)"
proof (rule bt_ext)
  have "map_of us n = None" if level: "in_level j n" for n
  proof -
    have "n \<notin> fst ` set us"
    proof
      assume "n \<in> fst ` set us"
      then obtain p where "node_fits 0 l p" "n = node_at 0 l p"
        using level_updates_node [OF us(1)] by fast
      then show False
        using level main_node_level [OF _ us(2) j(1)] j(2) by simp
    qed
    then show ?thesis
      by (simp add: map_of_eq_None_iff)
  qed
  then show "bt_get (at_level j (sr_updates (apply_updates_to_caches us s))) = bt_get (at_level j (sr_updates s))"
    using ok by (auto simp: at_level_get apply_pending [OF level_updates_distinct [OF us(1)]])
qed (use ok in simp_all)

lemma at_level_apply_same:
  assumes us: "level_updates cr {0} l E E' us" "l \<le> 3"
    and pend: "level_updates cr {0} l P E (at_level l (sr_updates s))" and ok: "bt_ok (sr_updates s)"
  shows "level_updates cr {0} l P E' (at_level l (sr_updates (apply_updates_to_caches us s)))"
proof -
  let ?m = "at_level l (sr_updates s)" and ?m' = "at_level l (sr_updates (apply_updates_to_caches us s))"
  note old = pend [unfolded level_updates_lookup [OF bt_ok_at_level [OF ok]]]
  have new: "\<exists>p. node_fits 0 l p \<and> n = node_at 0 l p \<and> el_of_bytes cr old = E 0 p \<and> el_of_bytes cr new = E' 0 p"
    if "map_of us n = Some (old, new)" for n old new
    using us(1) map_of_SomeD [OF that] unfolding level_updates_def by fast
  have level: "in_level l n" if "map_of us n = Some x" for n x
    using new [of n "fst x" "snd x"] that main_node_level [OF _ us(2,2)] by auto
  have get: "bt_get ?m' n = (case map_of us n of
       Some (old, new) \<Rightarrow> Some (case bt_get ?m n of Some (first, _) \<Rightarrow> first | None \<Rightarrow> old, new)
     | None \<Rightarrow> bt_get ?m n)" for n
    using ok level by (auto simp: at_level_get apply_pending [OF level_updates_distinct [OF us(1)]]
        split: option.split)
  have unch: "E 0 p = E' 0 p" if "node_fits 0 l p" "map_of us (node_at 0 l p) = None" for p
    using us(1) that by (auto simp: level_updates_def map_of_eq_None_iff)
  show ?thesis
    unfolding level_updates_lookup [OF bt_ok_at_level [OF apply_frame(5) [OF ok]]] get
  proof (intro conjI allI impI)
    fix n old new
    assume c: "(case map_of us n of
       Some (old, new) \<Rightarrow> Some (case bt_get ?m n of Some (first, _) \<Rightarrow> first | None \<Rightarrow> old, new)
     | None \<Rightarrow> bt_get ?m n) = Some (old, new)"
    show "\<exists>p. node_fits 0 l p \<and> n = node_at 0 l p \<and> el_of_bytes cr old = P 0 p \<and> el_of_bytes cr new = E' 0 p"
    proof (cases "map_of us n")
      case None
      then obtain p where "node_fits 0 l p" "n = node_at 0 l p" "el_of_bytes cr old = P 0 p" "el_of_bytes cr new = E 0 p"
        using c old [THEN conjunct1, rule_format, of n old new] by auto
      then show ?thesis
        using unch [of p] None by auto
    next
      case (Some w)
      then obtain p where p: "node_fits 0 l p" "n = node_at 0 l p" "el_of_bytes cr (fst w) = E 0 p"
        "el_of_bytes cr (snd w) = E' 0 p"
        using new [of n "fst w" "snd w"] by auto
      show ?thesis
      proof (cases "bt_get ?m n")
        case None
        then have "P 0 p = E 0 p"
          using old p by blast
        then show ?thesis
          using p c unfolding Some None by (cases w) auto
      next
        case (Some x)
        then obtain q where q: "node_fits 0 l q" "n = node_at 0 l q" "el_of_bytes cr (fst x) = P 0 q"
          using old [THEN conjunct1, rule_format, of n "fst x" "snd x"] by auto
        then have qp: "q = p"
          using node_at_inj [OF q(1) p(1) q(2) [symmetric, THEN trans, OF p(2)]] by simp
        have "old = fst x \<and> new = snd w"
          using c unfolding Some \<open>map_of us n = Some w\<close> by (cases w; cases x) simp
        then show ?thesis
          using p(1,2,4) q(3) qp by (intro exI [of _ p]) simp
      qed
    qed
  next
    fix p
    assume "node_fits 0 l p \<and> (case map_of us (node_at 0 l p) of
       Some (old, new) \<Rightarrow> Some (case bt_get ?m (node_at 0 l p) of Some (first, _) \<Rightarrow> first | None \<Rightarrow> old, new)
     | None \<Rightarrow> bt_get ?m (node_at 0 l p)) = None"
    then show "P 0 p = E' 0 p"
      using old unch [of p] by (auto split: option.splits)
  qed
qed

section \<open>Between the calls\<close>

text \<open>
  \<open>F l\<close> is what level \<open>l\<close> commits to now, \<open>P l\<close> what it did before the pending updates. Nothing is pending
  above the deferred levels.
\<close>

definition holds ::
  "('el, 'fr, 'pf) crypto \<Rightarrow> 'e state_root \<Rightarrow> (nat \<Rightarrow> bucket_id \<Rightarrow> nat \<Rightarrow> 'el) \<Rightarrow> (nat \<Rightarrow> bucket_id \<Rightarrow> nat \<Rightarrow> 'el) \<Rightarrow> bool"
where
  "holds cr s P F \<longleftrightarrow>
     0 < min_par_batch_size s \<and> 0 < deferred_levels s \<and> deferred_levels s < 4 \<and> flat s \<and> bt_ok (sr_updates s) \<and>
     (\<forall>u \<in> set (sr_updates s). STARTING_NODE_ID ! deferred_levels s \<le> fst u \<and> fst u < STARTING_NODE_ID ! 4) \<and>
     (\<forall>l \<le> 3. committed cr s {0} l (F l)) \<and>
     (\<forall>l. deferred_levels s \<le> l \<and> l \<le> 3 \<longrightarrow> level_updates cr {0} l (P l) (F l) (at_level l (sr_updates s)))"

lemma dom_apply:
  "dom (bt_get (sr_updates (apply_updates_to_caches us s))) = fst ` set us \<union> dom (bt_get (sr_updates s))"
  by (induction us s rule: apply_updates_to_caches.induct) (auto simp: cache_node_def)

lemma holds_apply:
  assumes h: "holds cr s P F" and us: "level_updates cr {0} l (F l) E us" and l: "deferred_levels s \<le> l" "l \<le> 3"
  shows "holds cr (apply_updates_to_caches us s) P (F(l := E))"
proof -
  let ?s = "apply_updates_to_caches us s"
  have ok: "bt_ok (sr_updates s)" and com: "\<forall>l \<le> 3. committed cr s {0} l (F l)"
    and pend: "\<forall>l. deferred_levels s \<le> l \<and> l \<le> 3 \<longrightarrow> level_updates cr {0} l (P l) (F l) (at_level l (sr_updates s))"
    using h by (simp_all add: holds_def)
  have "committed cr ?s {0} j ((F(l := E)) j)" if "j \<le> 3" for j
    using committed_apply [OF us, of s j "F j"] com that by (auto split: if_splits)
  moreover have "level_updates cr {0} j (P j) ((F(l := E)) j) (at_level j (sr_updates ?s))"
    if "deferred_levels s \<le> j" "j \<le> 3" for j
    using at_level_apply_same [OF us l(2), of "P l" s] at_level_apply_other [OF us l(2) that(2) _ ok] pend that ok
    by (cases "j = l") simp_all
  moreover have "STARTING_NODE_ID ! deferred_levels s \<le> fst u \<and> fst u < STARTING_NODE_ID ! 4"
    if "u \<in> set (sr_updates ?s)" for u
  proof (cases "fst u \<in> fst ` set us")
    case True
    then obtain v where v: "v \<in> set us" "fst u = fst v"
      by auto
    then obtain p where "node_fits 0 l p" "fst u = node_at 0 l p"
      using level_updates_node [OF us v(1)] by auto
    then show ?thesis
      using main_node_below [of l p "deferred_levels s"] main_node_below [of l p 4] l h
      by (simp add: holds_def not_less [symmetric])
  next
    case False
    have "fst u \<in> set (map fst (sr_updates ?s))"
      using that by simp
    then have "fst u \<in> set (map fst (sr_updates s))"
      using False unfolding set_keys_dom dom_apply by blast
    then show ?thesis
      using h by (auto simp: holds_def)
  qed
  ultimately show ?thesis
    using h by (simp add: holds_def)
qed

lemma same_trie_holds:
  assumes "same_trie s s'" "flat s'" "holds cr s P F"
  shows "holds cr s' P F"
proof -
  obtain caps where caps: "same_main (s\<lparr>bucket_capacity_cache := caps\<rparr>) s'"
    using assms(1) by (auto simp: same_trie_def)
  have "committed cr s' {0} l E" if "committed cr s {0} l E" for l E
  proof (rule same_main_committed [OF caps])
    show "committed cr (s\<lparr>bucket_capacity_cache := caps\<rparr>) {0} l E"
      using that by (simp add: committed_def root_commitment_of_def cong: option.case_cong)
  qed
  then show ?thesis
    using assms(2,3) caps by (simp add: holds_def same_main_def)
qed

section \<open>The update phase\<close>

lemma drop_all: "(\<And>u. u \<in> set us \<Longrightarrow> fst u < STARTING_NODE_ID ! l) \<Longrightarrow> drop_updates_below_level us l = us"
  by (simp add: drop_updates_below_level_def)

lemma level_updates_below:
  assumes "level_updates cr {0} l E E' us" "l < m" "m \<le> 4"
  shows "drop_updates_below_level us m = us"
proof (rule drop_all)
  fix u
  assume "u \<in> set us"
  then obtain p where "node_fits 0 l p" "fst u = node_at 0 l p"
    using level_updates_node [OF assms(1)] by blast
  then show "fst u < STARTING_NODE_ID ! m"
    using main_node_below [of l p m] assms(2,3) by simp
qed

text \<open>The contents of the levels when those from \<open>l\<close> on are up to date.\<close>

definition filled ::
  "('el :: ab_group_add, 'fr, 'pf) crypto \<Rightarrow> ('fr, 'el) mul_index \<Rightarrow> nat \<Rightarrow> (nat \<Rightarrow> bucket_id \<Rightarrow> nat \<Rightarrow> 'el) \<Rightarrow> salt_state \<Rightarrow>
   nat \<Rightarrow> bucket_id \<Rightarrow> nat \<Rightarrow> 'el"
where
  "filled cr mul l F V = (\<lambda>j. if l \<le> j then level_el cr mul V j else F j)"

lemma filled_step: "(filled cr mul (Suc l) F V)(l := level_el cr mul V l) = filled cr mul l F V"
  by (auto simp: filled_def fun_eq_iff)

lemma propagate_step:
  assumes lin: "linear_crypto cr mul" and h: "holds cr s P F" and l: "l < 3"
    and E: "F l = vc mul (child_scalars cr (level_el cr mul V (Suc l)))"
    and us: "level_updates cr {0} (Suc l) (level_el cr mul V (Suc l)) (level_el cr mul V' (Suc l)) us"
  shows "\<exists>us'. update_internal_nodes cr mul threads s us = Ok us' \<and>
    level_updates cr {0} l (F l) (level_el cr mul V' l) us' \<and> (us' = [] \<longleftrightarrow> us = [])"
  using update_internal_ok [OF lin _ _ us, of s threads] h l
  unfolding E level_el_inner [OF l] by (simp add: holds_def E [symmetric])

text \<open>Something is pending at the lowest level that finalize starts from.\<close>

definition dirty :: "'e state_root \<Rightarrow> bool" where
  "dirty s \<longleftrightarrow> at_level (deferred_levels s) (sr_updates s) \<noteq> []"

lemma dirty_iff: "dirty s \<longleftrightarrow> (\<exists>n \<in> dom (bt_get (sr_updates s)). in_level (deferred_levels s) n)"
proof -
  have "dirty s \<longleftrightarrow> (\<exists>n \<in> fst ` set (sr_updates s). in_level (deferred_levels s) n)"
    by (simp add: dirty_def at_level_def filter_empty_conv)
  then show ?thesis
    by (simp flip: set_keys_dom)
qed

lemma dirty_apply: "dirty s \<Longrightarrow> dirty (apply_updates_to_caches us s)"
  by (auto simp: dirty_iff dom_apply)

lemma dirty_apply_level:
  assumes us: "level_updates cr {0} l E E' us" "us \<noteq> []" and l: "l = deferred_levels s" "l \<le> 3"
  shows "dirty (apply_updates_to_caches us s)"
proof -
  obtain u us' where u: "us = u # us'"
    using us(2) by (cases us) auto
  then obtain p where p: "node_fits 0 l p" "fst u = node_at 0 l p"
    using level_updates_node [OF us(1), of u] by auto
  then have "in_level l (fst u)"
    using main_node_level [OF p(1) l(2,2)] by simp
  moreover have "fst u \<in> dom (bt_get (sr_updates (apply_updates_to_caches us s)))"
    unfolding dom_apply u by simp
  ultimately show ?thesis
    unfolding dirty_iff using l by auto
qed

definition same_setup :: "'e state_root \<Rightarrow> 'e state_root \<Rightarrow> bool" where
  "same_setup s s' \<longleftrightarrow> sr_store s' = sr_store s \<and> deferred_levels s' = deferred_levels s \<and>
     bt_get (sr_cache s') 0 = bt_get (sr_cache s) 0"

lemma apply_cache: "n \<notin> fst ` set us \<Longrightarrow> bt_get (sr_cache (apply_updates_to_caches us s)) n = bt_get (sr_cache s) n"
  by (induction us s rule: apply_updates_to_caches.induct) (auto simp: cache_node_def)

lemma root_not_updated:
  assumes "level_updates cr {0} l E E' us" "0 < l"
  shows "0 \<notin> fst ` set us"
proof
  assume "0 \<in> fst ` set us"
  then obtain u where "u \<in> set us" "fst u = 0"
    by auto
  then obtain p where "node_fits 0 l p" "fst u = node_at 0 l p"
    using level_updates_node [OF assms(1)] by blast
  moreover have "node_at 0 0 0 = 0"
    by (simp add: node_at_def)
  ultimately have p: "node_fits 0 l p" "node_at 0 l p = node_at 0 0 0"
    using \<open>fst u = 0\<close> by simp_all
  then show False
    using node_at_inj [OF p(1) _ p(2)] assms(2) by (simp add: node_fits_def)
qed

lemma propagate_ok:
  assumes lin: "linear_crypto cr mul"
    and "holds cr s P (filled cr mul l (filled cr mul d F V) V')" "d = deferred_levels s" "l = d + n" "l \<le> 3"
    and "level_updates cr {0} l (level_el cr mul V l) (level_el cr mul V' l) us"
    and "dirty s \<or> (us \<noteq> [] \<and> 0 < n) \<or> \<not> changed" "changed \<longrightarrow> us \<noteq> []"
  shows "\<exists>s'. propagate cr mul threads n us s = (Ok (), s') \<and> holds cr s' P (filled cr mul d F V') \<and>
    same_setup s s' \<and> (changed \<or> dirty s \<longrightarrow> dirty s')"
  using assms(2-)
proof (induction n arbitrary: s l us)
  case 0
  then have "filled cr mul l (filled cr mul d F V) V' = filled cr mul d F V'"
    by (auto simp: filled_def fun_eq_iff)
  then show ?case
    using 0 by (auto simp: same_setup_def)
next
  case (Suc n)
  then obtain m where l: "l = Suc m" "m = d + n"
    by simp
  let ?F = "filled cr mul l (filled cr mul d F V) V'"
  have "?F m = level_el cr mul V m"
    using l by (simp add: filled_def)
  then have E: "?F m = vc mul (child_scalars cr (level_el cr mul V (Suc m)))"
    using level_el_inner [of m cr mul V] l Suc.prems(4) by simp
  obtain us' where us': "update_internal_nodes cr mul threads s us = Ok us'"
    "level_updates cr {0} m (?F m) (level_el cr mul V' m) us'" "us' = [] \<longleftrightarrow> us = []"
    using propagate_step [OF lin Suc.prems(1) _ E, of V' us threads] Suc.prems(4,5) l by auto
  let ?s = "apply_updates_to_caches us' s"
  have h: "holds cr ?s P (filled cr mul m (filled cr mul d F V) V')"
    using holds_apply [OF Suc.prems(1) us'(2)] l Suc.prems(2,4) by (simp add: filled_step)
  have dirty: "dirty ?s \<or> (us' \<noteq> [] \<and> 0 < n) \<or> \<not> changed" "dirty s \<longrightarrow> dirty ?s"
    using dirty_apply_level [OF us'(2), of s] dirty_apply [of s us']
      us'(3) Suc.prems(2,4,7) l by (cases n; auto)+
  have us2: "level_updates cr {0} m (level_el cr mul V m) (level_el cr mul V' m) us'"
    using us'(2) \<open>?F m = level_el cr mul V m\<close> by simp
  obtain s' where s': "propagate cr mul threads n us' ?s = (Ok (), s')" "holds cr s' P (filled cr mul d F V')"
    "same_setup ?s s'" "changed \<or> dirty ?s \<longrightarrow> dirty s'"
    using Suc.IH [OF h _ l(2) _ us2 dirty(1)] Suc.prems(2,4,7) l us'(3) by auto
  moreover have "bt_get (sr_cache ?s) 0 = bt_get (sr_cache s) 0"
    using apply_cache [OF root_not_updated [OF us'(2)], of s] Suc.prems(1,2) l by (simp add: holds_def)
  ultimately show ?case
    using us'(1) dirty(2) by (auto simp: bind_def same_setup_def)
qed

lemma sr_update_ok:
  assumes lin: "linear_crypto cr mul" and h: "holds cr s P (filled cr mul (deferred_levels s) F V)"
    and batch: "flat_batch V us V'"
  shows "\<exists>s'. sr_update cr mul threads us s = (Ok (), s') \<and>
    holds cr s' P (filled cr mul (deferred_levels s) F V') \<and> same_setup s s' \<and> (us \<noteq> [] \<or> dirty s \<longrightarrow> dirty s')"
proof -
  let ?d = "deferred_levels s"
  have d: "0 < ?d" "?d \<le> 3" "0 < min_par_batch_size s" "flat s"
    using h by (simp_all add: holds_def)
  have "committed cr s {0} 3 (level_el cr mul V 3)"
    using h d(2) by (auto simp: holds_def filled_def)
  then have com: "committed cr s {0} 3 (vc mul (entry_scalars cr V))"
    by (simp only: level_el_leaf)
  obtain us3 s1 where s1: "update_bucket_subtrees cr mul threads us s = (Ok us3, s1)" "flat s1" "same_trie s s1"
    "level_updates cr {0} 3 (level_el cr mul V 3) (level_el cr mul V' 3) us3"
    "fst ` set us3 = (bucket_root_node_id \<circ> key_bucket_id) ` fst ` set us"
    using update_bucket_subtrees_flat [OF lin d(3,4) batch com, of threads, folded level_el_leaf]
    by (elim exE conjE) (rule that)
  have empty: "us3 = [] \<longleftrightarrow> us = []"
    using arg_cong [OF s1(5), of "\<lambda>N. N = {}"] by simp
  have frame: "deferred_levels s1 = ?d" "sr_store s1 = sr_store s" "sr_updates s1 = sr_updates s"
    using s1(3) by (auto simp: same_trie_def same_main_def)
  then have dirty1: "dirty s1 \<longleftrightarrow> dirty s"
    by (simp add: dirty_def)
  let ?s = "apply_updates_to_caches us3 s1"
  have h1: "holds cr ?s P ((filled cr mul ?d F V)(3 := level_el cr mul V' 3))"
    using s1(4) d(2) frame(1) by (intro holds_apply [OF same_trie_holds [OF s1(3,2) h]]) (auto simp: filled_def)
  moreover have "(G(3 := level_el cr mul V' 3)) l = filled cr mul 3 G V' l" if "l \<le> 3" for G l
    using that by (auto simp: filled_def)
  ultimately have h2: "holds cr ?s P (filled cr mul 3 (filled cr mul ?d F V) V')"
    by (simp add: holds_def)
  have dirty: "dirty s \<longrightarrow> dirty ?s" "us \<noteq> [] \<and> ?d = 3 \<longrightarrow> dirty ?s"
    using dirty_apply [of s1 us3] dirty_apply_level [OF s1(4), of s1] empty frame(1) dirty1 by auto
  have fresh: "dirty ?s \<or> (us3 \<noteq> [] \<and> 0 < 3 - ?d) \<or> \<not> us \<noteq> []"
    using dirty(2) d(2) empty by (cases "?d = 3") auto
  obtain s' where s': "propagate cr mul threads (3 - ?d) us3 ?s = (Ok (), s')" "holds cr s' P (filled cr mul ?d F V')"
    "same_setup ?s s'" "us \<noteq> [] \<or> dirty ?s \<longrightarrow> dirty s'"
    using propagate_ok [OF lin h2 _ _ _ s1(4) fresh, of threads] d frame(1) empty by auto
  have "drop_updates_below_level us3 MAIN_TRIE_LEVELS = us3"
    using level_updates_below [OF s1(4), of 4] by (simp add: salt_consts)
  moreover have "MAIN_TRIE_LEVELS - (?d + 1) = 3 - ?d"
    by (simp add: salt_consts)
  moreover have "bt_get (sr_cache ?s) 0 = bt_get (sr_cache s) 0"
    using apply_cache [OF root_not_updated [OF s1(4)], of s1] s1(3) by (auto simp: same_trie_def same_main_def)
  ultimately show ?thesis
    using s1(1) s' frame dirty(1) by (auto simp: sr_update_def bind_def same_setup_def)
qed

section \<open>The finalize phase\<close>

lemma main_trie_loop_ok:
  assumes lin: "linear_crypto cr mul" and par: "0 < min_par_batch_size s" and "n \<le> 3"
    and "\<forall>j<n. committed cr s {0} j (level_el cr mul V j)"
    and "level_updates cr {0} n (level_el cr mul V n) (level_el cr mul V' n) us"
  shows "\<exists>f. main_trie_loop cr mul threads s n us acc = Ok (acc @ concat (map f (rev [0..<n]))) \<and>
    (\<forall>j<n. level_updates cr {0} j (level_el cr mul V j) (level_el cr mul V' j) (f j) \<and> (f j = [] \<longleftrightarrow> us = []))"
  using assms(3-)
proof (induction n arbitrary: us acc)
  case (Suc n)
  have n: "n < 3" "n < 4"
    using Suc.prems(1) by simp_all
  have "committed cr s {0} n (vc mul (child_scalars cr (level_el cr mul V (Suc n))))"
    using Suc.prems(2) by (simp add: level_el_inner [OF n(1), symmetric])
  from update_internal_ok [OF lin par n(2) Suc.prems(3) this, of threads]
  obtain us' where us': "update_internal_nodes cr mul threads s us = Ok us'"
    "level_updates cr {0} n (level_el cr mul V n) (level_el cr mul V' n) us'" "us' = [] \<longleftrightarrow> us = []"
    unfolding level_el_inner [OF n(1), symmetric] by blast
  obtain f where f: "main_trie_loop cr mul threads s n us' (acc @ us') = Ok ((acc @ us') @ concat (map f (rev [0..<n])))"
    "\<forall>j<n. level_updates cr {0} j (level_el cr mul V j) (level_el cr mul V' j) (f j) \<and> (f j = [] \<longleftrightarrow> us' = [])"
    using Suc.IH [of us' "acc @ us'"] us'(2) Suc.prems by auto
  have "concat (map (f(n := us')) (rev [0..<Suc n])) = us' @ concat (map f (rev [0..<n]))"
  proof -
    have "map (f(n := us')) (rev [0..<n]) = map f (rev [0..<n])"
      by (rule map_cong) auto
    then show ?thesis
      by simp
  qed
  then have "main_trie_loop cr mul threads s (Suc n) us acc =
      Ok (acc @ concat (map (f(n := us')) (rev [0..<Suc n])))"
    using us'(1) f(1) by (simp only: main_trie_loop.simps bind_res.simps append_assoc)
  moreover have "\<forall>j<Suc n. level_updates cr {0} j (level_el cr mul V j) (level_el cr mul V' j) ((f(n := us')) j) \<and>
      ((f(n := us')) j = [] \<longleftrightarrow> us = [])"
    using us'(2,3) f(2) by (simp add: less_Suc_eq)
  ultimately show ?case
    by blast
qed simp

text \<open>Nothing pending at the level that the phase starts from: the root has not changed.\<close>

lemma unchanged_levels:
  assumes "level_updates cr {0} n (level_el cr mul V n) (level_el cr mul V' n) []" "n \<le> 3" "l \<le> n" "node_fits 0 l p"
  shows "level_el cr mul V l 0 p = level_el cr mul V' l 0 p"
  using assms(3,4)
proof (induction "n - l" arbitrary: l p)
  case 0
  then show ?case
    using assms(1) by (simp add: level_updates_def)
next
  case (Suc h)
  have "level_el cr mul V (Suc l) 0 (256 * p + i) = level_el cr mul V' (Suc l) 0 (256 * p + i)" if "i < 256" for i
    using Suc.hyps Suc.prems that assms(2) child_fits [of 0 l p i] by simp
  then show ?case
    using Suc.hyps(2) assms(2) by (simp add: level_el_inner vc_def child_scalars_def)
qed

lemma cache_fold_frame [simp]:
  "sr_store (fold (\<lambda>(n, (_, new)). cache_node n new) us s) = sr_store s"
  "sr_updates (fold (\<lambda>(n, (_, new)). cache_node n new) us s) = sr_updates s"
  "bucket_capacity_cache (fold (\<lambda>(n, (_, new)). cache_node n new) us s) = bucket_capacity_cache s"
  "min_par_batch_size (fold (\<lambda>(n, (_, new)). cache_node n new) us s) = min_par_batch_size s"
  "deferred_levels (fold (\<lambda>(n, (_, new)). cache_node n new) us s) = deferred_levels s"
  by (induction us arbitrary: s) (auto simp: cache_node_def)

lemma cache_fold_commitment:
  "root_commitment_of (fold (\<lambda>(n, (_, new)). cache_node n new) us s) = root_commitment_of (apply_updates_to_caches us s)"
proof -
  have "sr_cache (fold (\<lambda>(n, (_, new)). cache_node n new) us s) = sr_cache (apply_updates_to_caches us t)"
    if "sr_cache s = sr_cache t" for t
    using that by (induction us t arbitrary: s rule: apply_updates_to_caches.induct) (simp_all add: cache_node_def)
  from this [OF refl] show ?thesis
    by (simp add: root_commitment_of_def fun_eq_iff split: option.split)
qed

lemma cache_fold_committed:
  assumes "level_updates cr {0} l (F l) E us" "committed cr s {0} j (F j)"
  shows "committed cr (fold (\<lambda>(n, (_, new)). cache_node n new) us s) {0} j ((F(l := E)) j)"
proof -
  have "committed cr s {0} j (if j = l then F l else F j)"
    using assms(2) by (cases "j = l") simp_all
  then have "committed cr (apply_updates_to_caches us s) {0} j (if j = l then E else F j)"
    by (rule committed_apply [OF assms(1)])
  then show ?thesis
    by (simp only: committed_def cache_fold_commitment fun_upd_apply)
qed

lemma cache_levels:
  assumes "\<forall>j<n. level_updates cr {0} j (level_el cr mul V j) (level_el cr mul V' j) (f j)"
    and "\<forall>j \<le> 3. committed cr s {0} j (if j < n then level_el cr mul V j else level_el cr mul V' j)" "j \<le> 3"
  shows "committed cr (fold (\<lambda>(n, (_, new)). cache_node n new) (concat (map f (rev [0..<n]))) s) {0} j (level_el cr mul V' j)"
  using assms(1,2)
proof (induction n arbitrary: s)
  case 0
  then show ?case
    using assms(3) by simp
next
  case (Suc n)
  let ?F = "\<lambda>j. if j < Suc n then level_el cr mul V j else level_el cr mul V' j"
  let ?s = "fold (\<lambda>(n, (_, new)). cache_node n new) (f n) s"
  have "level_updates cr {0} n (?F n) (level_el cr mul V' n) (f n)"
    using Suc.prems(1) by simp
  then have "committed cr ?s {0} j ((?F(n := level_el cr mul V' n)) j)" if "j \<le> 3" for j
    using cache_fold_committed [of cr n ?F "level_el cr mul V' n" "f n" s j] Suc.prems(2) that by simp
  moreover have "(?F(n := level_el cr mul V' n)) j = (if j < n then level_el cr mul V j else level_el cr mul V' j)" for j
    by auto
  ultimately show ?case
    using Suc.IH [of ?s] Suc.prems(1) by (simp add: fold_append)
qed

lemma at_level_level:
  assumes "level_updates cr {0} j E E' us" "j \<le> 3" "l \<le> 3"
  shows "at_level l us = (if l = j then us else [])"
proof -
  have "in_level l (fst u) \<longleftrightarrow> l = j" if "u \<in> set us" for u
    using level_updates_node [OF assms(1) that] main_node_level assms(2,3) by auto
  then show ?thesis
    by (auto simp: at_level_def intro: filter_True)
qed

lemma at_level_append [simp]: "at_level l (us @ vs) = at_level l us @ at_level l vs"
  by (simp add: at_level_def)

lemma at_level_concat:
  assumes "\<forall>j<n. level_updates cr {0} j (E j) (E' j) (f j)" "n \<le> 3" "l \<le> 3"
  shows "at_level l (concat (map f (rev [0..<n]))) = (if l < n then f l else [])"
  using assms(1,2)
proof (induction n)
  case 0
  then show ?case
    by (simp add: at_level_def)
next
  case (Suc n)
  then show ?case
    using at_level_level [of cr n "E n" "E' n" "f n" l] assms(3) by (auto simp: less_Suc_eq)
qed

lemma drop_concat:
  assumes "\<forall>j<n. level_updates cr {0} j (E j) (E' j) (f j)" "n \<le> 3"
  shows "drop_updates_below_level (concat (map f (rev [0..<n]))) n = concat (map f (rev [0..<n]))"
proof (rule drop_all)
  fix u
  assume "u \<in> set (concat (map f (rev [0..<n])))"
  then obtain j where j: "j < n" "u \<in> set (f j)"
    by auto
  then obtain p where "node_fits 0 j p" "fst u = node_at 0 j p"
    using level_updates_node assms(1) by blast
  then show "fst u < STARTING_NODE_ID ! n"
    using main_node_below [of j p n] j(1) assms(2) by simp
qed

lemma starting_pos: "0 < l \<Longrightarrow> l \<le> 3 \<Longrightarrow> STARTING_NODE_ID ! l \<noteq> 0"
  using level_cases [of l] by (auto simp: salt_consts)

lemma holds_pending:
  assumes "holds cr s P F"
  shows "drop_updates_below_level (sr_updates s) (deferred_levels s) = []"
    and "drop_updates_below_level (sr_updates s) (Suc (deferred_levels s)) = at_level (deferred_levels s) (sr_updates s)"
    and "l < deferred_levels s \<Longrightarrow> at_level l (sr_updates s) = []"
    and "sr_updates s \<noteq> [] \<Longrightarrow> fst (last (sr_updates s)) \<noteq> 0"
proof -
  let ?d = "deferred_levels s"
  have low: "STARTING_NODE_ID ! ?d \<le> fst u" if "u \<in> set (sr_updates s)" for u
    using assms that by (simp add: holds_def)
  then show "drop_updates_below_level (sr_updates s) ?d = []"
    by (auto simp: drop_updates_below_level_def filter_empty_conv not_less)
  show "drop_updates_below_level (sr_updates s) (Suc ?d) = at_level ?d (sr_updates s)"
    using low by (auto simp: drop_updates_below_level_def at_level_def in_level_def intro: filter_cong)
  have d: "0 < ?d" "?d \<le> 3"
    using assms by (simp_all add: holds_def)
  show "fst (last (sr_updates s)) \<noteq> 0" if "sr_updates s \<noteq> []"
    using low [of "last (sr_updates s)"] that starting_pos [OF d] by auto
  show "at_level l (sr_updates s) = []" if "l < ?d"
  proof -
    have "unat (STARTING_NODE_ID ! Suc l) \<le> unat (STARTING_NODE_ID ! ?d)"
      using that d level_start_mono [of "Suc l" ?d] starting_nth [of "Suc l"] starting_nth [of ?d]
        level_cases [of ?d] level_cases [of "Suc l"] by (auto simp: salt_consts)
    then show ?thesis
      using low by (fastforce simp: at_level_def in_level_def filter_empty_conv word_le_nat_alt word_less_nat_alt)
  qed
qed

text \<open>The root the loop ends with.\<close>

lemma root_of_loop:
  assumes d: "0 < d" "d \<le> 3"
    and us: "level_updates cr {0} d (level_el cr mul V d) (level_el cr mul V' d) us"
    and com: "committed cr s {0} 0 (level_el cr mul V 0)"
    and first: "first \<noteq> [] \<Longrightarrow> fst (last first) \<noteq> 0"
    and known: "us \<noteq> [] \<or> bt_get (sr_cache s) 0 = None"
    and f: "\<forall>j<d. level_updates cr {0} j (level_el cr mul V j) (level_el cr mul V' j) (f j) \<and> (f j = [] \<longleftrightarrow> us = [])"
    and acc: "acc = first @ concat (map f (rev [0..<d]))"
  shows "\<exists>c. (if acc \<noteq> [] \<and> fst (last acc) = 0 then Ok (snd (snd (last acc)))
      else tr_commitment (ts_trie (sr_store s)) 0) = Ok c \<and> el_of_bytes cr c = level_el cr mul V' 0 0 0"
proof -
  have zero: "node_at 0 0 0 = 0" "node_fits 0 0 0"
    by (simp_all add: node_at_def node_fits_def)
  show ?thesis
  proof (cases "us = []")
    case False
    have "concat (map f (rev [0..<d])) = concat (map f (rev [1..<d])) @ f 0"
      using d(1) by (simp add: upt_conv_Cons)
    then have last: "acc \<noteq> []" "last acc = last (f 0)" "last (f 0) \<in> set (f 0)"
      using f d(1) False by (auto simp: acc)
    have "level_updates cr {0} 0 (level_el cr mul V 0) (level_el cr mul V' 0) (f 0)"
      using f d(1) by blast
    then obtain p where "node_fits 0 0 p" "fst (last (f 0)) = node_at 0 0 p"
      "el_of_bytes cr (snd (snd (last (f 0)))) = level_el cr mul V' 0 0 p"
      using last(3) by (cases "last (f 0)") (fastforce simp: level_updates_def)
    then show ?thesis
      using last zero by (simp add: node_fits_def)
  next
    case True
    then have "acc = first"
      using f by (simp add: acc)
    then have stored: "\<not> (acc \<noteq> [] \<and> fst (last acc) = 0)"
      using first by blast
    have "level_el cr mul V 0 0 0 = level_el cr mul V' 0 0 0"
      using unchanged_levels [OF us [unfolded True] d(2) _ zero(2)] by simp
    moreover obtain c where "root_commitment_of s 0 = Ok c" "el_of_bytes cr c = level_el cr mul V 0 0 0"
      using com zero by (auto simp: committed_def dest!: spec [of _ 0])
    ultimately show ?thesis
      using stored known True by (auto simp: root_commitment_of_def)
  qed
qed

lemma update_main_trie_ok:
  assumes lin: "linear_crypto cr mul" and par: "0 < min_par_batch_size s" and d: "0 < d" "d \<le> 3"
    and com: "\<forall>j<d. committed cr s {0} j (level_el cr mul V j)"
    and us: "level_updates cr {0} d (level_el cr mul V d) (level_el cr mul V' d) (drop_updates_below_level first (Suc d))"
    and first: "first \<noteq> [] \<Longrightarrow> fst (last first) \<noteq> 0"
    and known: "drop_updates_below_level first (Suc d) \<noteq> [] \<or> bt_get (sr_cache s) 0 = None"
  shows "\<exists>f. update_main_trie cr mul threads s first (Suc d) =
      Ok (flat_root cr mul V', first @ concat (map f (rev [0..<d]))) \<and>
    (\<forall>j<d. level_updates cr {0} j (level_el cr mul V j) (level_el cr mul V' j) (f j))"
proof -
  obtain f where loop: "main_trie_loop cr mul threads s d (drop_updates_below_level first (Suc d)) first =
      Ok (first @ concat (map f (rev [0..<d])))"
    and f: "\<forall>j<d. level_updates cr {0} j (level_el cr mul V j) (level_el cr mul V' j) (f j) \<and>
      (f j = [] \<longleftrightarrow> drop_updates_below_level first (Suc d) = [])"
    using main_trie_loop_ok [OF lin par d(2) com us] by blast
  let ?acc = "first @ concat (map f (rev [0..<d]))"
  obtain c where root: "(if ?acc \<noteq> [] \<and> fst (last ?acc) = 0 then Ok (snd (snd (last ?acc)))
      else tr_commitment (ts_trie (sr_store s)) 0) = Ok c" "el_of_bytes cr c = level_el cr mul V' 0 0 0"
    using root_of_loop [OF d us _ first known f refl] com d(1) by blast
  have "update_main_trie cr mul threads s first (Suc d) = Ok (hash_commitment cr c, ?acc)"
    by (simp only: update_main_trie_def diff_Suc_1 loop bind_res.simps root(1))
  then show ?thesis
    using f root(2) by (auto simp: hash_commitment_def flat_root_def)
qed

lemma finalize_ok:
  assumes lin: "linear_crypto cr mul"
    and h: "holds cr s (level_el cr mul V) (filled cr mul (deferred_levels s) (level_el cr mul V) V')"
    and known: "dirty s \<or> bt_get (sr_cache s) 0 = None"
  shows "\<exists>us s'. finalize cr mul threads s = (Ok (flat_root cr mul V', us), s') \<and>
    holds cr s' (level_el cr mul V') (level_el cr mul V') \<and> sr_store s' = sr_store s \<and>
    deferred_levels s' = deferred_levels s \<and> sr_updates s' = [] \<and>
    (\<forall>l \<le> 3. level_updates cr {0} l (level_el cr mul V l) (level_el cr mul V' l) (at_level l us))"
proof -
  let ?d = "deferred_levels s" and ?t = "s\<lparr>sr_updates := []\<rparr>"
  have d: "0 < ?d" "?d \<le> 3"
    using h by (simp_all add: holds_def)
  have com: "committed cr ?t {0} l E \<longleftrightarrow> committed cr s {0} l E" for l E
    by (simp add: committed_def root_commitment_of_def cong: option.case_cong)
  have "committed cr ?t {0} j (level_el cr mul V j)" if "j < ?d" for j
  proof -
    have "committed cr s {0} j (filled cr mul ?d (level_el cr mul V) V' j)"
      using h d(2) that by (simp add: holds_def)
    then show ?thesis
      using that by (simp add: com filled_def)
  qed
  moreover have "level_updates cr {0} ?d (level_el cr mul V ?d) (level_el cr mul V' ?d) (at_level ?d (sr_updates s))"
    using h d by (auto simp: holds_def filled_def dest: spec [of _ ?d])
  moreover have "0 < min_par_batch_size ?t"
    using h by (simp add: holds_def)
  ultimately obtain f where main: "update_main_trie cr mul threads ?t (sr_updates s) (Suc ?d) =
      Ok (flat_root cr mul V', sr_updates s @ concat (map f (rev [0..<?d])))"
    and levels: "\<forall>j<?d. level_updates cr {0} j (level_el cr mul V j) (level_el cr mul V' j) (f j)"
    using update_main_trie_ok [OF lin _ d, of ?t V V' "sr_updates s" threads] holds_pending(4) [OF h] known
    unfolding holds_pending(2) [OF h] by (auto simp: dirty_def)
  let ?rest = "concat (map f (rev [0..<?d]))" and ?s = "fold (\<lambda>(n, (_, new)). cache_node n new) (concat (map f (rev [0..<?d]))) ?t"
  have "drop_updates_below_level (sr_updates s @ ?rest) ?d = ?rest"
    using holds_pending(1) [OF h] drop_concat [OF levels d(2)] by (simp add: drop_updates_below_level_def)
  then have "finalize cr mul threads s = (Ok (flat_root cr mul V', sr_updates s @ ?rest), ?s)"
    using main by (simp add: finalize_def bind_def)
  moreover have "committed cr ?s {0} j (level_el cr mul V' j)" if "j \<le> 3" for j
  proof (rule cache_levels [OF levels _ that], intro allI impI)
    show "committed cr ?t {0} i (if i < ?d then level_el cr mul V i else level_el cr mul V' i)" if "i \<le> 3" for i
      using h that com [of i] by (cases "i < ?d") (auto simp: holds_def filled_def dest!: spec [of _ i])
  qed
  then have "holds cr ?s (level_el cr mul V') (level_el cr mul V')"
    using h by (simp add: holds_def flat_def level_updates_refl at_level_def cong: option.case_cong)
  moreover have "level_updates cr {0} l (level_el cr mul V l) (level_el cr mul V' l) (at_level l (sr_updates s @ ?rest))"
    if "l \<le> 3" for l
  proof (cases "l < ?d")
    case True
    then show ?thesis
      using levels at_level_concat [OF levels d(2) that] holds_pending(3) [OF h] by simp
  next
    case False
    then show ?thesis
      using h that at_level_concat [OF levels d(2) that] by (auto simp: holds_def filled_def dest!: spec [of _ l])
  qed
  ultimately show ?thesis
    by (intro exI [of _ "sr_updates s @ ?rest"] exI [of _ ?s]) simp
qed

end
