(* ===== verification/Trie_Session.thy ===== *)
theory Trie_Session
  imports Trie_Phases
begin

text \<open>
  Sessions of \<open>StateRoot\<close>, batches of updates and a \<open>finalize\<close>, for tries without expanded buckets,
  and a concrete linear commitment scheme under which the default commitments of the code are
  those of the empty state.
\<close>

section \<open>Sessions\<close>

text \<open>The stored commitments are those of the entries \<open>V\<close>, and no bucket is expanded.\<close>

definition consistent ::
  "('el :: ab_group_add, 'fr, 'pf) crypto \<Rightarrow> ('fr, 'el) mul_index \<Rightarrow> 'e trie_store \<Rightarrow> salt_state \<Rightarrow> bool"
where
  "consistent cr mul st V \<longleftrightarrow>
     (\<forall>b. of_nat NUM_META_BUCKETS \<le> b \<and> unat b < NUM_BUCKETS \<longrightarrow> ts_levels st b = Ok 1) \<and>
     (\<forall>l \<le> 3. \<forall>p. node_fits 0 l p \<longrightarrow>
        (\<exists>c. tr_commitment (ts_trie st) (node_at 0 l p) = Ok c \<and> el_of_bytes cr c = level_el cr mul V l 0 p))"

text \<open>The same of a \<open>StateRoot\<close>, whose caches may be ahead of the store.\<close>

definition up_to_date ::
  "('el :: ab_group_add, 'fr, 'pf) crypto \<Rightarrow> ('fr, 'el) mul_index \<Rightarrow> 'e state_root \<Rightarrow> salt_state \<Rightarrow> bool"
where
  "up_to_date cr mul s V \<longleftrightarrow> holds cr s (level_el cr mul V) (level_el cr mul V) \<and> sr_updates s = []"

text \<open>The entries after a batch, and the batches that fit them.\<close>

definition apply_batch :: "state_updates \<Rightarrow> salt_state \<Rightarrow> salt_state" where
  "apply_batch us V = (\<lambda>k. case bt_get us k of Some (_, new) \<Rightarrow> new | None \<Rightarrow> V k)"

fun batches_ok :: "salt_state \<Rightarrow> state_updates list \<Rightarrow> bool" where
  "batches_ok V [] \<longleftrightarrow> True"
| "batches_ok V (us # uss) \<longleftrightarrow> flat_batch V us (apply_batch us V) \<and> batches_ok (apply_batch us V) uss"

text \<open>Several calls of \<open>update\<close>, then \<open>finalize\<close>.\<close>

fun update_all ::
  "('el :: ab_group_add, 'fr :: ab_group_add, 'pf) crypto \<Rightarrow> ('fr, 'el) mul_index \<Rightarrow> nat \<Rightarrow> state_updates list \<Rightarrow>
   ('e, unit) root_comp"
where
  "update_all cr mul threads [] = ret ()"
| "update_all cr mul threads (us # uss) =
     bind (sr_update cr mul threads us) (\<lambda>_. update_all cr mul threads uss)"

definition session ::
  "('el :: ab_group_add, 'fr :: ab_group_add, 'pf) crypto \<Rightarrow> ('fr, 'el) mul_index \<Rightarrow> nat \<Rightarrow> state_updates list \<Rightarrow>
   ('e, bytes \<times> trie_updates) root_comp"
where
  "session cr mul threads uss = bind (update_all cr mul threads uss) (\<lambda>_. finalize cr mul threads)"

lemma new_up_to_date:
  assumes "consistent cr mul st V" "0 < n" "with_deferred_levels d (with_min_par_batch_size n (state_root_new st)) = Ok s"
  shows "up_to_date cr mul s V" "bt_get (sr_cache s) 0 = None"
proof -
  have s: "s = (state_root_new st)\<lparr>min_par_batch_size := n, deferred_levels := d\<rparr>" "0 < d" "d < 4"
    using assms(3) by (auto simp: with_deferred_levels_def with_min_par_batch_size_def salt_consts split: if_splits)
  have "root_commitment_of s n = tr_commitment (ts_trie st) n" for n
    by (simp add: s(1) root_commitment_of_def state_root_new_def)
  then show "up_to_date cr mul s V"
    using assms(1,2) s(2,3)
    by (simp add: up_to_date_def holds_def consistent_def committed_def s(1) state_root_new_def flat_def
        at_level_def level_updates_refl)
  show "bt_get (sr_cache s) 0 = None"
    by (simp add: s(1) state_root_new_def)
qed

lemma update_all_ok:
  assumes lin: "linear_crypto cr mul"
    and "holds cr s P (filled cr mul (deferred_levels s) F V)" "batches_ok V uss"
  shows "\<exists>s'. update_all cr mul threads uss s = (Ok (), s') \<and>
    holds cr s' P (filled cr mul (deferred_levels s) F (fold apply_batch uss V)) \<and> same_setup s s' \<and>
    ((\<exists>us \<in> set uss. us \<noteq> []) \<or> dirty s \<longrightarrow> dirty s')"
  using assms(2,3)
proof (induction uss arbitrary: s V)
  case (Cons us uss)
  obtain s1 where s1: "sr_update cr mul threads us s = (Ok (), s1)"
    "holds cr s1 P (filled cr mul (deferred_levels s) F (apply_batch us V))" "same_setup s s1"
    "us \<noteq> [] \<or> dirty s \<longrightarrow> dirty s1"
    using sr_update_ok [OF lin Cons.prems(1), of us "apply_batch us V" threads] Cons.prems(2) by auto
  then have "holds cr s1 P (filled cr mul (deferred_levels s1) F (apply_batch us V))"
    by (simp add: same_setup_def)
  from Cons.IH [OF this] show ?case
    using s1 Cons.prems(2) by (auto simp: bind_def same_setup_def)
qed (simp add: same_setup_def)

lemma session_ok:
  assumes lin: "linear_crypto cr mul" and s: "up_to_date cr mul s V" and uss: "batches_ok V uss"
    and known: "(\<exists>us \<in> set uss. us \<noteq> []) \<or> bt_get (sr_cache s) 0 = None"
  shows "\<exists>us s'. session cr mul threads uss s = (Ok (flat_root cr mul (fold apply_batch uss V), us), s') \<and>
    up_to_date cr mul s' (fold apply_batch uss V) \<and> sr_store s' = sr_store s \<and>
    (\<forall>l \<le> 3. level_updates cr {0} l (level_el cr mul V l) (level_el cr mul (fold apply_batch uss V) l) (at_level l us))"
proof -
  have "filled cr mul (deferred_levels s) (level_el cr mul V) V = level_el cr mul V"
    by (auto simp: filled_def fun_eq_iff)
  then obtain s1 where s1: "update_all cr mul threads uss s = (Ok (), s1)"
    "holds cr s1 (level_el cr mul V) (filled cr mul (deferred_levels s1) (level_el cr mul V) (fold apply_batch uss V))"
    "sr_store s1 = sr_store s" "dirty s1 \<or> bt_get (sr_cache s1) 0 = None"
    using update_all_ok [OF lin _ uss, of s "level_el cr mul V" "level_el cr mul V" threads] s known
    by (auto simp: up_to_date_def same_setup_def)
  from finalize_ok [OF lin s1(2,4), of threads] show ?thesis
    using s1(1,3) by (auto simp: session_def bind_def up_to_date_def)
qed

section \<open>The state as the trie sees it\<close>

text \<open>A key of a meta bucket that has no entry holds the default metadata.\<close>

definition trie_state :: "(salt_key, salt_value) btree \<Rightarrow> salt_state" where
  "trie_state m k = (case bt_get m k of
     Some v \<Rightarrow> Some v
   | None \<Rightarrow> if is_in_meta_bucket k then Some (meta_sv default_meta) else None)"

section \<open>A concrete scheme\<close>

text \<open>
  A commitment is the scalar at index 1. The root then is the scalar of slot 1 of data bucket 65793;
  the scalar of an entry is the number of bytes it hashes. A default commitment is recognised by
  its first byte.
\<close>

definition word_mul :: "u64 \<Rightarrow> nat \<Rightarrow> u64" where
  "word_mul x i = (if i = 1 then x else 0)"

definition word_el_of_bytes :: "bytes \<Rightarrow> u64" where
  "word_el_of_bytes bs =
     (if length bs = 8 then from_le_bytes bs else if hd bs \<in> {0xb7, 0x9e, 0xe0} then 12 else 32)"

definition word_crypto :: "(u64, u64, unit) crypto" where
  "word_crypto = \<lparr>el_bytes = to_le_bytes 8, el_of_bytes = word_el_of_bytes, el_to_fr = (\<lambda>e. e),
     fr_of_u64 = (\<lambda>x. x), fr_of_le_bytes = (\<lambda>bs. of_nat (length bs)), fr_bytes = to_le_bytes 8,
     blake3 = (\<lambda>bs. bs), mp_open = (\<lambda>_. ()), mp_check = (\<lambda>_ _. True)\<rparr>"

lemma word_linear: "linear_crypto word_crypto word_mul"
  by (simp add: linear_crypto_def word_crypto_def word_mul_def word_el_of_bytes_def)

lemma word_vc: "vc word_mul H b p = H b p 1"
  by (simp add: vc_def word_mul_def)

definition starts :: "string \<Rightarrow> u8 \<Rightarrow> bool" where
  "starts s x \<longleftrightarrow> (case (b512 s :: (bytes, salt_error) res) of Ok c \<Rightarrow> length c = 64 \<and> hd c = x | _ \<Rightarrow> False)"

lemma default_starts:
  "list_all2 (\<lambda>(_, l, r) (x, y). starts l x \<and> starts r y) DEFAULT_COMMITMENT_AT_LEVEL
     [(0xa2, 0xa2), (0xb7, 0x86), (0x9e, 0x1d), (0xe0, 0xda)]"
  unfolding DEFAULT_COMMITMENT_AT_LEVEL_def list.rel_inject prod.case
  by (intro conjI TrueI; code_simp)

text \<open>The first byte of a main trie node's default commitment: left and right of the meta buckets' nodes.\<close>

definition first_byte :: "nat \<Rightarrow> nat \<Rightarrow> u8" where
  "first_byte l p = (case [(0xa2, 0xa2), (0xb7, 0x86), (0x9e, 0x1d), (0xe0, 0xda)] ! l of
     (x, y) \<Rightarrow> if p < [1, 1, 256, 65536] ! l then x else y)"

lemma main_default:
  assumes "l \<le> 3" "node_fits 0 l p"
  shows "\<exists>c. default_commitment (node_at 0 l p) = (Ok c :: (_, salt_error) res) \<and> length c = 64 \<and> hd c = first_byte l p"
proof -
  have lv: "get_bfs_level (node_at 0 l p AND BUCKET_SLOT_ID_MASK) = (Ok l :: (_, salt_error) res)"
    using level_node_at [OF assms(2)] by (simp add: get_local_number_def)
  have "unat (drop_bit 40 (node_at 0 l p)) = 0"
    using local_bound [OF assms(2)] by (simp add: unat_drop_bit unat_node_at [OF assms(2)])
  then have "drop_bit 40 (node_at 0 l p) = 0"
    by (simp add: word_eq_unat)
  then have sub: "is_subtree_node (node_at 0 l p) = (Ok False :: (_, salt_error) res)"
    by (simp add: is_subtree_node_def Let_def)
  have len: "l < length DEFAULT_COMMITMENT_AT_LEVEL"
    using assms(1) by (simp add: DEFAULT_COMMITMENT_AT_LEVEL_def)
  obtain x y z where xyz: "DEFAULT_COMMITMENT_AT_LEVEL ! l = (x, y, z)"
    by (metis prod_cases3)
  obtain u v where uv: "[(0xa2, 0xa2), (0xb7, 0x86), (0x9e, 0x1d), (0xe0, 0xda)] ! l = (u :: u8, v :: u8)"
    by (metis surj_pair)
  have bytes: "starts y u" "starts z v"
    using list_all2_nthD [OF default_starts len] by (simp_all add: xyz uv)
  have "unat x = level_start l + [1, 1, 256, 65536] ! l"
    using assms(1) xyz level_cases [of l] by (auto simp: DEFAULT_COMMITMENT_AT_LEVEL_def salt_consts)
  then have bound: "node_at 0 l p < x \<longleftrightarrow> p < [1, 1, 256, 65536] ! l"
    by (simp add: word_less_nat_alt unat_node_at [OF assms(2)])
  have "\<exists>c. b512 (if node_at 0 l p < x then y else z) = (Ok c :: (_, salt_error) res) \<and> length c = 64 \<and> hd c = first_byte l p"
    using bytes by (auto simp: bound first_byte_def uv starts_def split: res.splits)
  then show ?thesis
    using lv sub len xyz by (cases "node_at 0 l p < x") (auto simp: default_commitment_def)
qed

text \<open>The elements of the empty state.\<close>

definition word_scalar :: "nat \<Rightarrow> nat \<Rightarrow> u64" where
  "word_scalar l p = (if p < [0, 1, 256, 65536] ! l then 12 else 32)"

lemma word_entry:
  assumes "p < 2 ^ 24"
  shows "entry_scalars word_crypto (trie_state []) b p 1 = word_scalar 3 p"
proof -
  have "key_bucket_id (salt_key_from (of_nat p) 1) = of_nat p" "unat (of_nat p :: u32) = p"
    using assms by (simp_all add: key_fits_def unat_of_nat)
  then have "is_in_meta_bucket (salt_key_from (of_nat p) 1) \<longleftrightarrow> p < 65536"
    by (simp add: is_in_meta_bucket_def word_less_nat_alt salt_consts)
  moreover have "plain_key (meta_sv default_meta) @ plain_val (meta_sv default_meta) = meta_to_bytes default_meta"
    by (simp add: meta_sv_def)
  ultimately show ?thesis
    by (simp add: entry_scalars_def trie_state_def kv_scalar_def word_crypto_def word_scalar_def EMPTY_SLOT_HASH_def)
qed

lemma word_levels:
  assumes "l \<le> 3" "node_fits 0 l p"
  shows "level_el word_crypto word_mul (trie_state []) l 0 p = word_scalar l p"
proof -
  have l3: "level_el word_crypto word_mul (trie_state []) 3 0 p = word_scalar 3 p" if "p < 2 ^ 24" for p
    using word_entry [OF that] by (simp only: level_el_leaf word_vc)
  have up: "level_el word_crypto word_mul (trie_state []) l 0 p = level_el word_crypto word_mul (trie_state []) (Suc l) 0 (256 * p + 1)"
    if "l < 3" for l p
    by (simp only: level_el_inner [OF that] word_vc child_scalars_def) (simp add: word_crypto_def)
  have l2: "level_el word_crypto word_mul (trie_state []) 2 0 p = word_scalar 2 p" if "p < 65536" for p
    using up [of 2 p] l3 [of "256 * p + 1"] that by (simp add: word_scalar_def)
  have l1: "level_el word_crypto word_mul (trie_state []) 1 0 p = word_scalar 1 p" if "p < 256" for p
    using up [of 1 p] l2 [of "256 * p + 1"] that by (simp add: word_scalar_def numeral_2_eq_2)
  have l0: "level_el word_crypto word_mul (trie_state []) 0 0 0 = word_scalar 0 0"
    using up [of 0 0] l1 [of 1] by (simp add: word_scalar_def)
  have "l = 0 \<or> l = 1 \<or> l = 2 \<or> l = 3"
    using assms(1) by auto
  then show ?thesis
    using assms(2) l0 l1 l2 l3 by (auto simp: node_fits_def)
qed

lemma word_default:
  assumes "l \<le> 3" "node_fits 0 l p"
  shows "\<exists>c. default_commitment (node_at 0 l p) = (Ok c :: (_, salt_error) res) \<and>
    el_of_bytes word_crypto c = level_el word_crypto word_mul (trie_state []) l 0 p"
proof -
  obtain c where c: "default_commitment (node_at 0 l p) = (Ok c :: (_, salt_error) res)" "length c = 64" "hd c = first_byte l p"
    using main_default [OF assms] by blast
  have "l = 0 \<or> l = 1 \<or> l = 2 \<or> l = 3"
    using assms(1) by auto
  then have "el_of_bytes word_crypto c = word_scalar l p"
    using c(2,3) assms(2) by (auto simp: word_crypto_def word_el_of_bytes_def first_byte_def word_scalar_def node_fits_def
      split: if_splits)
  then show ?thesis
    using c(1) word_levels [OF assms] by simp
qed

lemma word_consistent:
  "consistent word_crypto word_mul empty_store (trie_state [])"
  "consistent word_crypto word_mul (mem_trie_store mem_store_new) (trie_state [])"
proof -
  have root: "subtree_root_level 256 = 4"
    using level_256 by (simp add: word_eq_unat)
  have level: "get_subtree_levels rd b = Ok 1" if "rd_metadata rd b = Ok m" "capacity m = 256" for rd :: "salt_error reader" and b m
    using that by (simp add: get_subtree_levels_def root salt_consts)
  have "get_subtree_levels empty_reader b = Ok 1" for b
    by (rule level [of _ _ "default_meta\<lparr>used := Some 0\<rparr>"])
      (simp_all add: empty_reader_def empty_metadata_def default_meta_def salt_consts)
  then show "consistent word_crypto word_mul empty_store (trie_state [])"
    using word_default by (simp add: consistent_def empty_store_def empty_trie_def empty_commitment_def)
  have "get_subtree_levels (mem_reader mem_store_new) b = Ok 1"
    if "of_nat NUM_META_BUCKETS \<le> b" "unat b < NUM_BUCKETS" for b
  proof -
    have "is_valid_data_bucket b"
      using that by (simp add: is_valid_data_bucket_def word_less_nat_alt salt_consts)
    then show ?thesis
      by (intro level [of _ _ "default_meta\<lparr>used := Some 0\<rparr>"])
        (simp_all add: mem_reader_def mem_metadata_def mem_store_new_def mem_bucket_used_slots_def default_meta_def salt_consts)
  qed
  then show "consistent word_crypto word_mul (mem_trie_store mem_store_new) (trie_state [])"
    using word_default
    by (simp add: consistent_def mem_trie_store_def mem_trie_def mem_commitment_def mem_store_new_def)
qed

subsection \<open>Two batches\<close>

lemma word_top: "level_el word_crypto word_mul V 0 0 0 = kv_scalar word_crypto (V (salt_key_from 65793 1))"
proof -
  have up: "level_el word_crypto word_mul V l 0 p = level_el word_crypto word_mul V (Suc l) 0 (256 * p + 1)" if "l < 3" for l p
    by (simp only: level_el_inner [OF that] word_vc child_scalars_def) (simp add: word_crypto_def)
  have "level_el word_crypto word_mul V 0 0 0 = level_el word_crypto word_mul V 3 0 65793"
    using up [of 0 0] up [of 1 1] up [of 2 257] by (simp add: numeral_2_eq_2 numeral_3_eq_3)
  also have "\<dots> = kv_scalar word_crypto (V (salt_key_from 65793 1))"
    by (simp only: level_el_leaf word_vc) (simp add: entry_scalars_def)
  finally show ?thesis .
qed

lemma word_root: "flat_root word_crypto word_mul V = to_le_bytes 8 (level_el word_crypto word_mul V 0 0 0)"
  by (simp add: flat_root_def word_crypto_def)

lemma flat_batchI:
  assumes "bt_ok us" "\<And>k old new. (k, (old, new)) \<in> set us \<Longrightarrow> unat (key_slot_id k) < 256 \<and> old = V k \<and>
    entry_ok old \<and> entry_ok new \<and> (is_in_meta_bucket k \<longrightarrow> flat_meta old \<and> flat_meta new)"
  shows "flat_batch V us (apply_batch us V)"
  unfolding flat_batch_def
proof (intro conjI allI impI ballI assms(1))
  fix u
  assume u: "u \<in> set us"
  obtain k old new where k: "u = (k, (old, new))"
    by (metis prod.collapse)
  then have "apply_batch us V k = new"
    using bt_get_in [OF assms(1)] u by (simp add: apply_batch_def)
  then show "case u of (k, old, new) \<Rightarrow> unat (key_slot_id k) < 256 \<and> old = V k \<and> new = apply_batch us V k \<and>
      entry_ok old \<and> entry_ok new \<and> (is_in_meta_bucket k \<longrightarrow> flat_meta old \<and> flat_meta new)"
    using assms(2) u k by simp
next
  fix k
  assume "k \<notin> fst ` set us"
  then have "bt_get us k = None"
    using set_keys_dom [of us] by auto
  then show "V k = apply_batch us V k"
    by (simp add: apply_batch_def)
qed

text \<open>A value is inserted at slot 1 of bucket 65793; then it is replaced and the bucket's nonce changes.\<close>

definition word_slot :: salt_key where
  "word_slot = salt_key_from 65793 1"

definition word_meta :: bucket_meta where
  "word_meta = default_meta\<lparr>nonce := 7\<rparr>"

definition word_batches :: "state_updates list" where
  "word_batches =
     [[(word_slot, (None, Some (sv_enc [1, 2, 3] [4])))],
      [(meta_key 65793, (Some (meta_sv default_meta), Some (meta_sv word_meta))),
       (word_slot, (Some (sv_enc [1, 2, 3] [4]), Some (sv_enc [1, 2, 3] [4, 5])))]]"

definition word_entries :: "(salt_key, salt_value) btree" where
  "word_entries = [(meta_key 65793, meta_sv word_meta), (word_slot, sv_enc [1, 2, 3] [4, 5])]"

lemma word_keys:
  "meta_key 65793 < word_slot" "is_in_meta_bucket (meta_key 65793)" "\<not> is_in_meta_bucket word_slot"
  "key_slot_id (meta_key 65793) = 1" "key_slot_id word_slot = 1" "key_bucket_id word_slot = 65793"
  "key_bucket_id (meta_key 65793) = 257" "meta_key 65793 \<noteq> word_slot"
proof -
  have valid: "is_valid_data_bucket 65793" "key_fits 65793 1"
    by (simp_all add: is_valid_data_bucket_unat key_fits_def)
  show keys: "key_slot_id (meta_key 65793) = 1" "key_slot_id word_slot = 1" "key_bucket_id word_slot = 65793"
    "key_bucket_id (meta_key 65793) = 257"
    using valid by (simp_all add: meta_key_parts word_slot_def)
  show "meta_key 65793 < word_slot" "is_in_meta_bucket (meta_key 65793)" "\<not> is_in_meta_bucket word_slot"
    by (simp_all add: meta_key_def word_slot_def salt_key_from_def is_in_meta_bucket_def key_bucket_id_def salt_consts)
  show "meta_key 65793 \<noteq> word_slot"
    using keys by auto
qed

lemma word_values: "entry_ok None" "entry_ok (Some (sv_enc [1, 2, 3] [4]))" "entry_ok (Some (sv_enc [1, 2, 3] [4, 5]))"
  "entry_ok (Some (meta_sv m))" "flat_meta (Some (meta_sv word_meta))" "flat_meta (Some (meta_sv default_meta))"
  by (simp_all add: entry_ok_def kv_fits_def sv_canon_valid flat_meta_def)
    (simp_all add: word_meta_def default_meta_def salt_consts)

lemma word_batches_ok: "batches_ok (trie_state []) word_batches"
  unfolding word_batches_def batches_ok.simps
  by (intro conjI TrueI flat_batchI)
    (auto simp: bt_ok_def word_keys word_values apply_batch_def trie_state_def bt_get_def)

lemma word_batches_end: "fold apply_batch word_batches (trie_state []) = trie_state word_entries"
  using word_keys by (auto simp: word_batches_def word_entries_def apply_batch_def trie_state_def bt_get_def fun_eq_iff)

lemma word_bytes: "to_le_bytes 8 (5 :: u64) = [5, 0, 0, 0, 0, 0, 0, 0]" "to_le_bytes 8 (32 :: u64) = [32, 0, 0, 0, 0, 0, 0, 0]"
  by code_simp+

lemma word_top_after: "level_el word_crypto word_mul (trie_state word_entries) 0 0 0 = 5"
proof -
  have "bt_get word_entries word_slot = Some (sv_enc [1, 2, 3] [4, 5])"
    using word_keys by (simp add: word_entries_def bt_get_def)
  then have "kv_scalar word_crypto (trie_state word_entries word_slot) = 5"
    by (simp add: trie_state_def kv_scalar_def word_crypto_def kv_fits_def)
  then show ?thesis
    by (simp only: word_top word_slot_def)
qed

lemma word_top_before: "level_el word_crypto word_mul (trie_state []) 0 0 0 = 32"
proof -
  have "kv_scalar word_crypto (trie_state [] word_slot) = 32"
    using word_keys by (simp add: trie_state_def kv_scalar_def word_crypto_def EMPTY_SLOT_HASH_def)
  then show ?thesis
    by (simp only: word_top word_slot_def)
qed

lemma word_root_after: "flat_root word_crypto word_mul (trie_state word_entries) = [5, 0, 0, 0, 0, 0, 0, 0]"
  by (simp add: word_root word_top_after word_bytes)

lemma word_root_before: "flat_root word_crypto word_mul (trie_state []) = [32, 0, 0, 0, 0, 0, 0, 0]"
  by (simp add: word_root word_top_before word_bytes)

lemma default_settings:
  "with_deferred_levels 1 (with_min_par_batch_size 64 (state_root_new st)) = Ok (state_root_new st)"
  by (simp add: with_deferred_levels_def with_min_par_batch_size_def state_root_new_def salt_consts)

lemma word_new:
  "up_to_date word_crypto word_mul (state_root_new (mem_trie_store mem_store_new)) (trie_state [])"
  "bt_get (sr_cache (state_root_new (mem_trie_store mem_store_new))) 0 = None"
  using new_up_to_date [OF word_consistent(2) _ default_settings] by simp_all

lemma level_updates_entry:
  assumes "level_updates cr {0} l E E' us" "(n, (old, new)) \<in> set us"
  shows "\<exists>p. node_fits 0 l p \<and> n = node_at 0 l p \<and> el_of_bytes cr old = E 0 p \<and> el_of_bytes cr new = E' 0 p"
  using assms unfolding level_updates_def by fast

end
