(* ===== verification/Trie_Correct.thy ===== *)
theory Trie_Correct
  imports Trie_Session
begin

text \<open>
  The root that \<open>StateRoot\<close> computes, for tries without expanded buckets: it commits to the entries
  after the updates, however these are batched, chunked and split between the two phases, and the
  updates it returns bring the stored trie up to date. What a second \<open>finalize\<close> returns.
\<close>

section \<open>What the sessions compute\<close>

text \<open>C3: A StateRoot of a trie without expanded buckets, whose commitments are those of the entries \<open>V\<close>: batches
  given to \<open>update\<close> and one \<open>finalize\<close> return, without an error or a panic, the hash of the commitment to the
  entries after the batches, whatever the number of batches, the deferred levels, the batch size and the number of
  threads; and the StateRoot then has the commitments of these entries. Either some batch has an update or the root is not
  yet in the cache (an idle \<open>finalize\<close> with a cached root reads the store's root instead: \<open>second_finalize_stale\<close>).
  The commitments are the delta-free reference: every leaf commits to the scalars of its 256 entries, every inner node to
  those of its 256 children.\<close>

theorem incremental_root:
  assumes "linear_crypto cr mul" "up_to_date cr mul s V" "batches_ok V uss"
    and "(\<exists>us \<in> set uss. us \<noteq> []) \<or> bt_get (sr_cache s) 0 = None"
  shows "\<exists>us s'. session cr mul threads uss s = (Ok (flat_root cr mul (fold apply_batch uss V), us), s') \<and>
    up_to_date cr mul s' (fold apply_batch uss V)"
  using session_ok [OF assms, of threads] by auto

theorem incremental_root_witness:
  "\<exists>us s'. session word_crypto word_mul 4 word_batches (state_root_new (mem_trie_store mem_store_new)) =
    (Ok ([5, 0, 0, 0, 0, 0, 0, 0], us), s')"
  using incremental_root [OF word_linear word_new(1) word_batches_ok disjI2 [OF word_new(2)], of 4]
  unfolding word_batches_end word_root_after by blast

text \<open>C5: Batching is irrelevant, for tries without expanded buckets: two new StateRoots over stores that are consistent
  with the same entries, with any two splits of the updates into batches that end in the same entries, any
  deferred levels, batch sizes and numbers of threads, return the same root.\<close>

theorem batching_irrelevant:
  assumes "linear_crypto cr mul" "consistent cr mul st V" "consistent cr mul st' V"
    and "with_deferred_levels d (with_min_par_batch_size n (state_root_new st)) = Ok s" "0 < n"
    and "with_deferred_levels d' (with_min_par_batch_size n' (state_root_new st')) = Ok s'" "0 < n'"
    and "batches_ok V uss" "batches_ok V uss'" "fold apply_batch uss V = fold apply_batch uss' V"
  shows "\<exists>root us us'. fst (session cr mul threads uss s) = Ok (root, us) \<and>
    fst (session cr mul threads' uss' s') = Ok (root, us')"
proof -
  note s = new_up_to_date [OF assms(2,5,4)] and s' = new_up_to_date [OF assms(3,7,6)]
  obtain us us' where
    "fst (session cr mul threads uss s) = Ok (flat_root cr mul (fold apply_batch uss V), us)"
    "fst (session cr mul threads' uss' s') = Ok (flat_root cr mul (fold apply_batch uss' V), us')"
    using session_ok [OF assms(1) s(1) assms(8) disjI2 [OF s(2)], of threads]
      session_ok [OF assms(1) s'(1) assms(9) disjI2 [OF s'(2)], of threads'] by auto
  then show ?thesis
    using assms(10) by auto
qed

theorem batching_irrelevant_witness:
  "\<exists>root us us'. fst (session word_crypto word_mul 4 word_batches (state_root_new (mem_trie_store mem_store_new))) = Ok (root, us) \<and>
    fst (session word_crypto word_mul 1 [[(meta_key 65793, (Some (meta_sv default_meta), Some (meta_sv word_meta))),
        (word_slot, (None, Some (sv_enc [1, 2, 3] [4, 5])))]]
      ((state_root_new (mem_trie_store mem_store_new))\<lparr>min_par_batch_size := 1, deferred_levels := 3\<rparr>)) = Ok (root, us')"
proof -
  let ?one = "[(meta_key 65793, (Some (meta_sv default_meta), Some (meta_sv word_meta))),
    (word_slot, (None, Some (sv_enc [1, 2, 3] [4, 5])))]"
  let ?s = "(state_root_new (mem_trie_store mem_store_new))\<lparr>min_par_batch_size := 1, deferred_levels := 3\<rparr>"
  have "batches_ok (trie_state []) [?one]"
    unfolding batches_ok.simps
    by (intro conjI TrueI flat_batchI) (auto simp: bt_ok_def word_keys word_values trie_state_def)
  moreover have "fold apply_batch word_batches (trie_state []) = fold apply_batch [?one] (trie_state [])"
    unfolding word_batches_end using word_keys
    by (auto simp: word_entries_def apply_batch_def trie_state_def bt_get_def fun_eq_iff)
  moreover have "with_deferred_levels 3 (with_min_par_batch_size 1 (state_root_new (mem_trie_store mem_store_new))) = Ok ?s"
    by (simp add: with_deferred_levels_def with_min_par_batch_size_def salt_consts)
  ultimately show ?thesis
    using batching_irrelevant [OF word_linear word_consistent(2,2) default_settings _ _ _ word_batches_ok, of 3 1 ?s "[?one]" 4 1]
    by simp
qed

lemma persist_get:
  "bt_get (ms_trie (update_trie us ms)) n = (case map_of (rev us) n of Some (_, new) \<Rightarrow> Some new | None \<Rightarrow> bt_get (ms_trie ms) n)"
proof -
  have "bt_get (fold (\<lambda>(node, (_, new_val)). bt_insert node new_val) us m) n =
      (case map_of (rev us) n of Some (_, new) \<Rightarrow> Some new | None \<Rightarrow> bt_get m n)" for m
    by (induction us arbitrary: m) (auto simp: map_add_def split: option.splits)
  then show ?thesis
    by (simp add: update_trie_def)
qed

lemma map_of_at_level:
  assumes "in_level l n" "distinct (map fst (at_level l us))"
  shows "map_of (rev us) n = map_of (at_level l us) n"
proof -
  have "map_of us n = map_of (at_level l us) n" for us :: trie_updates
    using assms(1) by (induction us) (auto simp: at_level_def)
  from this [of "rev us"] have "map_of (rev us) n = map_of (rev (at_level l us)) n"
    by (simp add: at_level_def rev_filter)
  then show ?thesis
    by (simp add: map_of_rev_distinct [OF assms(2)])
qed

lemma persist_node:
  assumes us: "level_updates cr {0} l E E' (at_level l us)" and p: "node_fits 0 l p" "l \<le> 3"
    and old: "\<exists>c. mem_commitment ms (node_at 0 l p) = Ok c \<and> el_of_bytes cr c = E 0 p"
  shows "\<exists>c. mem_commitment (update_trie us ms) (node_at 0 l p) = Ok c \<and> el_of_bytes cr c = E' 0 p"
proof -
  have get: "bt_get (ms_trie (update_trie us ms)) (node_at 0 l p) =
      (case map_of (at_level l us) (node_at 0 l p) of Some (_, new) \<Rightarrow> Some new | None \<Rightarrow> bt_get (ms_trie ms) (node_at 0 l p))"
    using map_of_at_level [OF _ level_updates_distinct [OF us]] main_node_level [OF p(1,2,2)] by (simp add: persist_get)
  show ?thesis
  proof (cases "map_of (at_level l us) (node_at 0 l p)")
    case None
    then have "E 0 p = E' 0 p"
      using us p by (auto simp: level_updates_def map_of_eq_None_iff)
    then show ?thesis
      using old None get by (simp add: mem_commitment_def)
  next
    case (Some c)
    then obtain q where q: "node_fits 0 l q" "node_at 0 l p = node_at 0 l q" "el_of_bytes cr (snd c) = E' 0 q"
      using level_updates_entry [OF us, of _ "fst c" "snd c"] map_of_SomeD [OF Some] by auto
    have "q = p"
      using node_at_inj [OF p(1) q(1,2)] by simp
    then have "el_of_bytes cr (snd c) = E' 0 p"
      using q(3) by simp
    moreover have "bt_get (ms_trie (update_trie us ms)) (node_at 0 l p) = Some (snd c)"
      using Some get by (cases c) simp
    ultimately show ?thesis
      by (simp add: mem_commitment_def)
  qed
qed

lemma finalize_idle:
  assumes "sr_updates s = []" "0 < min_par_batch_size s" "tr_commitment (ts_trie (sr_store s)) 0 = Ok c"
  shows "finalize cr mul threads s = (Ok (hash_commitment cr c, []), s)"
proof -
  let ?t = "s\<lparr>sr_updates := []\<rparr>"
  have batch: "0 < par_batch_size threads ?t 0"
    using assms(2) by (simp add: par_batch_pos)
  then have "add_commitment_deltas cr ?t [] (par_batch_size threads ?t 0) = Ok []"
    using add_commitment_deltas_ok [OF batch, of "[]" ?t] by simp
  then have "update_internal_nodes cr mul threads ?t [] = Ok []"
    using batch by (simp add: update_internal_nodes_def Let_def chunks_of.simps [of _ "[]"])
  then have loop: "main_trie_loop cr mul threads ?t n [] [] = Ok []" for n
    by (induction n) simp_all
  have "update_main_trie cr mul threads ?t [] start = Ok (hash_commitment cr c, [])" for start
    using loop assms(3) by (simp add: update_main_trie_def drop_updates_below_level_def)
  then show ?thesis
    using assms(1) by (simp add: finalize_def bind_def drop_updates_below_level_def)
qed

text \<open>C19: Writing the trie updates of a session to the \<open>MemStore\<close> it read from gives a trie in which
  every commitment of the main trie is that of the new entries, for tries without expanded buckets.\<close>

theorem persisted_updates:
  assumes "linear_crypto cr mul" "consistent cr mul (mem_trie_store ms) V" "batches_ok V uss"
    and "with_deferred_levels d (with_min_par_batch_size n (state_root_new (mem_trie_store ms))) = Ok s" "0 < n"
  shows "\<exists>root us. fst (session cr mul threads uss s) = Ok (root, us) \<and>
    (\<forall>l \<le> 3. \<forall>p. node_fits 0 l p \<longrightarrow> (\<exists>c. mem_commitment (update_trie us ms) (node_at 0 l p) = Ok c \<and>
       el_of_bytes cr c = level_el cr mul (fold apply_batch uss V) l 0 p))"
proof -
  let ?V' = "fold apply_batch uss V"
  note s = new_up_to_date [OF assms(2,5,4)]
  obtain root us where us: "fst (session cr mul threads uss s) = Ok (root, us)"
    "\<forall>l \<le> 3. level_updates cr {0} l (level_el cr mul V l) (level_el cr mul ?V' l) (at_level l us)"
    using session_ok [OF assms(1) s(1) assms(3) disjI2 [OF s(2)], of threads] by auto
  have "\<exists>c. mem_commitment (update_trie us ms) (node_at 0 l p) = Ok c \<and> el_of_bytes cr c = level_el cr mul ?V' l 0 p"
    if l: "l \<le> 3" and p: "node_fits 0 l p" for l p
    using persist_node [OF us(2) [rule_format, OF l] p l] assms(2) l p
    by (simp add: consistent_def mem_trie_store_def mem_trie_def)
  then show ?thesis
    using us(1) by auto
qed

theorem persisted_updates_witness:
  "\<exists>root us. fst (session word_crypto word_mul 4 word_batches (state_root_new (mem_trie_store mem_store_new))) = Ok (root, us) \<and>
    (\<exists>c. mem_commitment (update_trie us mem_store_new) 0 = Ok c \<and> el_of_bytes word_crypto c = 5)"
proof -
  obtain root us where us:
    "fst (session word_crypto word_mul 4 word_batches (state_root_new (mem_trie_store mem_store_new))) = Ok (root, us)"
    "\<forall>l \<le> 3. \<forall>p. node_fits 0 l p \<longrightarrow> (\<exists>c. mem_commitment (update_trie us mem_store_new) (node_at 0 l p) = Ok c \<and>
       el_of_bytes word_crypto c = level_el word_crypto word_mul (trie_state word_entries) l 0 p)"
    using persisted_updates [OF word_linear word_consistent(2) word_batches_ok default_settings, of 4]
    unfolding word_batches_end by auto
  from us(2) [rule_format, of 0 0] have "\<exists>c. mem_commitment (update_trie us mem_store_new) 0 = Ok c \<and> el_of_bytes word_crypto c = 5"
    by (simp add: node_fits_def node_at_def word_top_after)
  then show ?thesis
    using us(1) by blast
qed

text \<open>C20: \<open>finalize\<close> twice, for tries without expanded buckets: after a session whose updates changed entries, the next
  \<open>finalize\<close> of the same StateRoot returns the root of the store, that of the entries before the session, although its
  commitments are those after it.\<close>

theorem second_finalize_stale:
  assumes "linear_crypto cr mul" "consistent cr mul st V" "batches_ok V uss"
    and "with_deferred_levels d (with_min_par_batch_size n (state_root_new st)) = Ok s" "0 < n"
  shows "\<exists>us s'. session cr mul threads uss s = (Ok (flat_root cr mul (fold apply_batch uss V), us), s') \<and>
    up_to_date cr mul s' (fold apply_batch uss V) \<and> fst (finalize cr mul threads s') = Ok (flat_root cr mul V, [])"
proof -
  let ?V' = "fold apply_batch uss V"
  note s = new_up_to_date [OF assms(2,5,4)]
  have store: "sr_store s = st"
    using assms(4) by (auto simp: with_deferred_levels_def with_min_par_batch_size_def state_root_new_def split: if_splits)
  obtain us s' where s': "session cr mul threads uss s = (Ok (flat_root cr mul ?V', us), s')"
    "up_to_date cr mul s' ?V'" "sr_store s' = st"
    using session_ok [OF assms(1) s(1) assms(3) disjI2 [OF s(2)], of threads] store by auto
  have "\<forall>l \<le> 3. \<forall>p. node_fits 0 l p \<longrightarrow>
      (\<exists>c. tr_commitment (ts_trie st) (node_at 0 l p) = Ok c \<and> el_of_bytes cr c = level_el cr mul V l 0 p)"
    using assms(2) by (simp add: consistent_def)
  from this [rule_format, of 0 0] obtain c where
    "tr_commitment (ts_trie st) 0 = Ok c" "el_of_bytes cr c = level_el cr mul V 0 0 0"
    by (auto simp: node_fits_def node_at_def)
  then have "fst (finalize cr mul threads s') = Ok (flat_root cr mul V, [])"
    using finalize_idle [of s' _ cr mul threads] s'(2,3)
    by (simp add: up_to_date_def holds_def hash_commitment_def flat_root_def)
  then show ?thesis
    using s' by blast
qed

theorem second_finalize_stale_witness:
  "\<exists>us s'. session word_crypto word_mul 4 word_batches (state_root_new (mem_trie_store mem_store_new)) =
      (Ok ([5, 0, 0, 0, 0, 0, 0, 0], us), s') \<and>
    fst (finalize word_crypto word_mul 4 s') = Ok ([32, 0, 0, 0, 0, 0, 0, 0], [])"
  using second_finalize_stale [OF word_linear word_consistent(2) word_batches_ok default_settings, of 4]
  unfolding word_batches_end word_root_after word_root_before by auto

end
