(* ===== verification/Trie_Rebuild.thy ===== *)
theory Trie_Rebuild
  imports Trie_Session
begin

text \<open>
  \<open>StateRoot::rebuild\<close> over a \<open>MemStore\<close> without expanded buckets: it returns the root that the
  incremental updates from the empty state arrive at.
\<close>

section \<open>The entries of a store\<close>

text \<open>Only metadata of data buckets is stored, in the meta buckets from 256 on.\<close>

definition flat_entries :: "(salt_key, salt_value) btree \<Rightarrow> bool" where
  "flat_entries m \<longleftrightarrow> bt_ok m \<and> (\<forall>(k, v) \<in> set m. unat (key_slot_id k) < 256 \<and> 256 \<le> unat (key_bucket_id k) \<and>
     sv_valid v \<and> (is_in_meta_bucket k \<longrightarrow> flat_meta (Some v)))"

section \<open>A chunk\<close>

lemma key_le_iff:
  "k \<le> k' \<longleftrightarrow> unat (key_bucket_id k) < unat (key_bucket_id k') \<or>
     unat (key_bucket_id k) = unat (key_bucket_id k') \<and> unat (key_slot_id k) \<le> unat (key_slot_id k')"
proof -
  have "unat k = unat (key_bucket_id k) * 2 ^ 40 + unat (key_slot_id k)" "unat (key_slot_id k) < 2 ^ 40" for k
    by (simp_all add: unat_key_bucket_id unat_key_slot_id)
  moreover have "x * 2 ^ 40 + u \<le> y * 2 ^ 40 + v \<longleftrightarrow> x < y \<or> x = y \<and> u \<le> v"
    if "u < 2 ^ 40" "v < 2 ^ 40" for x y u v :: nat
    using that mult_le_mono1 [of "Suc x" y "2 ^ 40"] mult_le_mono1 [of "Suc y" x "2 ^ 40"]
    by (cases x y rule: linorder_cases) simp_all
  ultimately show ?thesis
    unfolding word_le_nat_alt by metis
qed

lemma in_bucket_range:
  assumes "unat a < 2 ^ 24" "unat b < 2 ^ 24"
  shows "fst (bucket_range a b) \<le> k \<and> k \<le> snd (bucket_range a b) \<longleftrightarrow>
    unat a \<le> unat (key_bucket_id k) \<and> unat (key_bucket_id k) \<le> unat b"
proof -
  have "key_fits a 0" "key_fits b BUCKET_SLOT_ID_MASK" "unat BUCKET_SLOT_ID_MASK = 2 ^ 40 - 1"
    using assms by (simp_all add: key_fits_def BUCKET_SLOT_ID_MASK_mask mask_eq_exp_minus_1)
  moreover have "unat (key_slot_id k) \<le> 2 ^ 40 - 1"
    using key_fits_parts [of k] by (simp add: key_fits_def)
  ultimately show ?thesis
    by (auto simp: bucket_range_def key_le_iff)
qed

lemma bucket_range_le:
  assumes "unat a \<le> unat b" "unat b < 2 ^ 24"
  shows "fst (bucket_range a b) \<le> snd (bucket_range a b)"
proof -
  have "key_bucket_id (fst (bucket_range a b)) = a"
    using assms by (simp add: bucket_range_def key_fits_def)
  then show ?thesis
    using in_bucket_range [of a b "fst (bucket_range a b)"] assms by simp
qed

definition chunk_of :: "nat \<Rightarrow> nat" where
  "chunk_of b = (if b < 65536 then b - 256 else (b - 65536) div 256)"

definition in_chunk :: "nat \<Rightarrow> salt_key \<Rightarrow> bool" where
  "in_chunk i k \<longleftrightarrow> 256 \<le> unat (key_bucket_id k) \<and> chunk_of (unat (key_bucket_id k)) = i"

definition chunk_state :: "(salt_key, salt_value) btree \<Rightarrow> nat \<Rightarrow> salt_state" where
  "chunk_state m i k = (if in_chunk i k then trie_state m k else trie_state [] k)"

lemma chunk_of_iff:
  assumes "i < 65280"
  shows "(256 \<le> b \<and> chunk_of b = i) \<and> b < 65536 \<longleftrightarrow> 256 + i \<le> b \<and> b \<le> 256 + i"
    and "(256 \<le> b \<and> chunk_of b = i) \<and> \<not> b < 65536 \<longleftrightarrow> 65536 + 256 * i \<le> b \<and> b \<le> 65536 + 256 * i + 255"
proof -
  show "(256 \<le> b \<and> chunk_of b = i) \<and> b < 65536 \<longleftrightarrow> 256 + i \<le> b \<and> b \<le> 256 + i"
    using assms by (auto simp: chunk_of_def)
  show "(256 \<le> b \<and> chunk_of b = i) \<and> \<not> b < 65536 \<longleftrightarrow> 65536 + 256 * i \<le> b \<and> b \<le> 65536 + 256 * i + 255"
  proof (cases "b < 65536")
    case False
    then obtain c where c: "b = 65536 + c"
      by (metis le_add_diff_inverse not_less)
    have "c div 256 = i \<longleftrightarrow> 256 * i \<le> c \<and> c \<le> 256 * i + 255"
      using div_nat_eqI [of i 256 c] div_mult_mod_eq [of c 256] mod_less_divisor [of 256 c] by auto
    then show ?thesis
      by (simp add: c chunk_of_def add.commute)
  qed simp
qed

lemma chunk_ranges:
  assumes "i < 65280"
  defines "metas \<equiv> bucket_range (of_nat ((65536 + 256 * i) div 256)) (of_nat ((65536 + 256 * i + 255) div 256))"
    and "datas \<equiv> bucket_range (of_nat (65536 + 256 * i)) (of_nat (65536 + 256 * i + 255))"
  shows "fst metas \<le> k \<and> k \<le> snd metas \<longleftrightarrow> in_chunk i k \<and> is_in_meta_bucket k"
    and "fst datas \<le> k \<and> k \<le> snd datas \<longleftrightarrow> in_chunk i k \<and> \<not> is_in_meta_bucket k"
    and "fst metas \<le> snd metas" "fst datas \<le> snd datas"
proof -
  define A B C D :: u32 where words: "A = of_nat ((65536 + 256 * i) div 256)" "B = of_nat ((65536 + 256 * i + 255) div 256)"
    "C = of_nat (65536 + 256 * i)" "D = of_nat (65536 + 256 * i + 255)"
  have "unat (of_nat n :: u32) = n" if "n < 2 ^ 24" for n
    using that by (simp add: unat_of_nat)
  then have u: "unat A = 256 + i" "unat B = 256 + i" "unat C = 65536 + 256 * i" "unat D = 65536 + 256 * i + 255"
    using assms(1) unfolding words by (simp_all del: of_nat_add of_nat_mult)
  have ranges: "metas = bucket_range A B" "datas = bucket_range C D"
    by (simp_all only: metas_def datas_def words)
  let ?b = "unat (key_bucket_id k)"
  have meta: "is_in_meta_bucket k \<longleftrightarrow> ?b < 65536"
    by (simp add: is_in_meta_bucket_def word_less_nat_alt salt_consts)
  have "fst metas \<le> k \<and> k \<le> snd metas \<longleftrightarrow> 256 + i \<le> ?b \<and> ?b \<le> 256 + i"
    unfolding ranges using in_bucket_range [of A B k] u assms(1) by simp
  then show "fst metas \<le> k \<and> k \<le> snd metas \<longleftrightarrow> in_chunk i k \<and> is_in_meta_bucket k"
    using chunk_of_iff(1) [OF assms(1), of ?b] unfolding in_chunk_def meta by simp
  have "fst datas \<le> k \<and> k \<le> snd datas \<longleftrightarrow> 65536 + 256 * i \<le> ?b \<and> ?b \<le> 65536 + 256 * i + 255"
    unfolding ranges using in_bucket_range [of C D k] u assms(1) by simp
  then show "fst datas \<le> k \<and> k \<le> snd datas \<longleftrightarrow> in_chunk i k \<and> \<not> is_in_meta_bucket k"
    using chunk_of_iff(2) [OF assms(1), of ?b] unfolding in_chunk_def meta by simp
  show "fst metas \<le> snd metas" "fst datas \<le> snd datas"
    unfolding ranges using bucket_range_le [of A B] bucket_range_le [of C D] u assms(1) by simp_all
qed

lemma map_of_rev_values:
  assumes "bt_ok m"
  shows "map_of (rev (map (\<lambda>(k, v). (k, g v)) m)) k = map_option g (bt_get m k)"
proof -
  have "map_of (rev (map (\<lambda>(k, v). (k, g v)) m)) = map_of (map (\<lambda>(k, v). (k, g v)) m)"
    using bt_ok_distinct [OF assms] by (intro map_of_rev_distinct) (simp add: o_def split_def)
  then show ?thesis
    by (simp add: map_of_map bt_get_def)
qed

text \<open>The updates of a chunk, as \<open>rebuild_chunk\<close> collects them.\<close>

definition chunk_updates :: "(salt_key, salt_value) btree \<Rightarrow> (salt_key, salt_value) btree \<Rightarrow> state_updates" where
  "chunk_updates metas datas = fold (\<lambda>(k, v). bt_insert k (None, Some v)) datas
     (bt_collect (map (\<lambda>(k, actual). (k, (Some (meta_sv default_meta), Some actual))) metas))"

lemma chunk_updates_fold:
  "chunk_updates metas datas = fold (\<lambda>(k, v). bt_insert k v) (map (\<lambda>(k, v). (k, (None, Some v))) datas)
     (bt_collect (map (\<lambda>(k, v). (k, (Some (meta_sv default_meta), Some v))) metas))"
  by (simp add: chunk_updates_def fold_map o_def split_def)

lemma chunk_updates_ok: "bt_ok (chunk_updates metas datas)"
  by (simp add: chunk_updates_fold bt_ok_collect_aux)

lemma chunk_updates_get:
  assumes "bt_ok metas" "bt_ok datas"
  shows "bt_get (chunk_updates metas datas) k = (case bt_get datas k of
      Some v \<Rightarrow> Some (None, Some v)
    | None \<Rightarrow> map_option (\<lambda>v. (Some (meta_sv default_meta), Some v)) (bt_get metas k))"
  unfolding chunk_updates_fold bt_get_collect_aux bt_get_collect map_of_rev_values [OF assms(1)]
    map_of_rev_values [OF assms(2)]
  by (simp split: option.split)

lemma meta_sv_valid: "sv_valid (meta_sv m)"
  by (simp add: sv_canon_valid)

lemma flat_meta_default: "flat_meta (Some (meta_sv default_meta))"
  by (simp add: flat_meta_def) (simp add: default_meta_def salt_consts)

lemma chunk_flat:
  assumes m: "flat_entries m" and i: "i < 65280"
  defines "metas \<equiv> bucket_range (of_nat ((65536 + 256 * i) div 256)) (of_nat ((65536 + 256 * i + 255) div 256))"
    and "datas \<equiv> bucket_range (of_nat (65536 + 256 * i)) (of_nat (65536 + 256 * i + 255))"
  defines "us \<equiv> chunk_updates (bt_range (fst metas) (snd metas) m) (bt_range (fst datas) (snd datas) m)"
  shows "flat_batch (trie_state []) us (chunk_state m i)" "\<forall>k \<in> fst ` set us. in_chunk i k"
proof -
  have ok: "bt_ok m"
    using m by (simp add: flat_entries_def)
  have get: "bt_get us k = (if in_chunk i k then map_option (\<lambda>v. (trie_state [] k, Some v)) (bt_get m k) else None)" for k
    using chunk_ranges(1,2) [OF i, of k] chunk_ranges(3,4) [OF i] unfolding us_def
    by (simp add: chunk_updates_get ok bt_get_range metas_def datas_def trie_state_def split: option.split)
  have us_ok: "bt_ok us"
    by (simp add: us_def chunk_updates_ok)
  show "\<forall>k \<in> fst ` set us. in_chunk i k"
  proof
    fix k
    assume "k \<in> fst ` set us"
    then have "bt_get us k \<noteq> None"
      using set_keys_dom [of us] by auto
    then show "in_chunk i k"
      by (simp add: get split: if_splits)
  qed
  show "flat_batch (trie_state []) us (chunk_state m i)"
    unfolding flat_batch_def
  proof (intro conjI allI impI ballI us_ok)
    fix u
    assume "u \<in> set us"
    then obtain k old new where u: "u = (k, (old, new))" "bt_get us k = Some (old, new)"
      using bt_get_in [OF us_ok] by (metis prod.collapse)
    then obtain v where v: "in_chunk i k" "bt_get m k = Some v" "old = trie_state [] k" "new = Some v"
      by (auto simp: get split: if_splits)
    then have "unat (key_slot_id k) < 256 \<and> sv_valid v \<and> (is_in_meta_bucket k \<longrightarrow> flat_meta (Some v))"
      using m bt_get_Some_in unfolding flat_entries_def by fast
    then show "case u of (k, old, new) \<Rightarrow> unat (key_slot_id k) < 256 \<and> old = trie_state [] k \<and> new = chunk_state m i k \<and>
        entry_ok old \<and> entry_ok new \<and> (is_in_meta_bucket k \<longrightarrow> flat_meta old \<and> flat_meta new)"
      using v by (simp add: u(1) chunk_state_def trie_state_def entry_ok_def meta_sv_valid flat_meta_default)
  next
    fix k
    assume "k \<notin> fst ` set us"
    then have "bt_get us k = None"
      using set_keys_dom [of us] by auto
    then show "trie_state [] k = chunk_state m i k"
      by (auto simp: get chunk_state_def trie_state_def split: if_splits)
  qed
qed

lemma consistent_new:
  assumes "consistent cr mul st V"
  shows "flat (state_root_new st)" "0 < min_par_batch_size (state_root_new st)"
    and "l \<le> 3 \<Longrightarrow> committed cr (state_root_new st) {0} l (level_el cr mul V l)"
  using assms
  by (simp_all add: flat_def consistent_def state_root_new_def committed_def root_commitment_of_def)

lemma rebuild_chunk_ok:
  assumes lin: "linear_crypto cr mul" and con: "consistent cr mul empty_store (trie_state [])"
    and m: "flat_entries (kvs (ms_state ms))" and i: "i < 65280"
  shows "\<exists>us. rebuild_chunk cr mul threads (mem_reader ms) (NUM_META_BUCKETS + META_BUCKET_SIZE * i) = Ok us \<and>
    level_updates cr {0} 3 (level_el cr mul (trie_state []) 3) (level_el cr mul (chunk_state (kvs (ms_state ms)) i) 3) us \<and>
    fst ` set us \<subseteq> {node_at 0 3 b | b. 256 \<le> b \<and> b < 2 ^ 24 \<and> chunk_of b = i}"
proof -
  let ?metas = "bucket_range (of_nat ((65536 + 256 * i) div 256)) (of_nat ((65536 + 256 * i + 255) div 256))"
  let ?datas = "bucket_range (of_nat (65536 + 256 * i)) (of_nat (65536 + 256 * i + 255))"
  let ?m = "kvs (ms_state ms)"
  let ?us = "chunk_updates (bt_range (fst ?metas) (snd ?metas) ?m) (bt_range (fst ?datas) (snd ?datas) ?m)"
  have com: "committed cr (state_root_new empty_store) {0} 3 (vc mul (entry_scalars cr (trie_state [])))"
    using consistent_new(3) [OF con, of 3] by (simp add: level_el_leaf)
  obtain us s' where us: "update_bucket_subtrees cr mul threads ?us (state_root_new empty_store) = (Ok us, s')"
    "level_updates cr {0} 3 (level_el cr mul (trie_state []) 3) (level_el cr mul (chunk_state ?m i) 3) us"
    "fst ` set us = (bucket_root_node_id \<circ> key_bucket_id) ` fst ` set ?us"
    using update_bucket_subtrees_flat [OF lin consistent_new(2,1) [OF con] chunk_flat(1) [OF m i] com, of threads,
      folded level_el_leaf] by (elim exE conjE) (rule that)
  have "fst ` set us \<subseteq> {node_at 0 3 b | b. 256 \<le> b \<and> b < 2 ^ 24 \<and> chunk_of b = i}"
  proof
    fix n
    assume "n \<in> fst ` set us"
    then obtain k where k: "k \<in> fst ` set ?us" "n = bucket_root_node_id (key_bucket_id k)"
      unfolding us(3) by auto
    then have "in_chunk i k" "unat (key_bucket_id k) < 2 ^ 24"
      using chunk_flat(2) [OF m i] key_fits_parts [of k] unfolding key_fits_def by blast+
    then show "n \<in> {node_at 0 3 b | b. 256 \<le> b \<and> b < 2 ^ 24 \<and> chunk_of b = i}"
      unfolding k(2) bucket_root_node_at in_chunk_def by blast
  qed
  moreover have "rebuild_chunk cr mul threads (mem_reader ms) (NUM_META_BUCKETS + META_BUCKET_SIZE * i) = Ok us"
  proof -
    have start: "NUM_META_BUCKETS + 256 * i = 65536 + 256 * i"
      by (simp add: salt_consts)
    have stop: "min NUM_BUCKETS (65536 + 256 * i + 256) - 1 = 65536 + 256 * i + 255"
      using i by (simp add: salt_consts)
    have size: "META_BUCKET_SIZE = 256"
      by (simp add: salt_consts)
    have entries: "rd_entries (mem_reader ms) (fst r) (snd r) = Ok (bt_range (fst r) (snd r) ?m)" if "fst r \<le> snd r" for r
      using that by (simp add: mem_reader_def mem_entries_def)
    show ?thesis
      unfolding rebuild_chunk_def Let_def start stop size entries [OF chunk_ranges(3) [OF i]] entries [OF chunk_ranges(4) [OF i]]
        salt_value_of_meta_ok bind_res.simps chunk_updates_def [symmetric] us(1)
      by simp
  qed
  ultimately show ?thesis
    using us(2) by blast
qed

section \<open>All chunks\<close>

lemma level_el_leaf_cong:
  assumes "\<And>k. unat (key_bucket_id k) = b \<Longrightarrow> V k = V' k" "b < 2 ^ 24"
  shows "level_el cr mul V 3 0 b = level_el cr mul V' 3 0 b"
proof -
  have "V (salt_key_from (of_nat b) (of_nat i)) = V' (salt_key_from (of_nat b) (of_nat i))" if "i < 256" for i
    using assms(2) that by (intro assms(1)) (simp add: key_fits_def unat_of_nat)
  then show ?thesis
    by (simp add: level_el_leaf vc_def entry_scalars_def)
qed

lemma chunk_of_less: "256 \<le> b \<Longrightarrow> b < 2 ^ 24 \<Longrightarrow> chunk_of b < 65280"
  by (auto simp: chunk_of_def)

lemma distinct_concat_indexed:
  assumes "\<And>i. i < n \<Longrightarrow> distinct (g i) \<and> (\<forall>x \<in> set (g i). ix x = i)"
  shows "distinct (concat (map g [0..<n]))"
  using assms
proof (induction n)
  case (Suc n)
  have "set (concat (map g [0..<n])) \<inter> set (g n) = {}"
  proof (rule ccontr)
    assume "set (concat (map g [0..<n])) \<inter> set (g n) \<noteq> {}"
    then obtain x i where "i < n" "x \<in> set (g i)" "x \<in> set (g n)"
      by auto
    then show False
      using Suc.prems [of i] Suc.prems [of n] by auto
  qed
  then show ?case
    using Suc by simp
qed simp

lemma level_updates_chunks:
  assumes g: "\<And>i. i < 65280 \<Longrightarrow> level_updates cr {0} 3 E (F i) (g i) \<and>
      fst ` set (g i) \<subseteq> {node_at 0 3 b | b. 256 \<le> b \<and> b < 2 ^ 24 \<and> chunk_of b = i}"
    and same: "\<And>b. 256 \<le> b \<Longrightarrow> b < 2 ^ 24 \<Longrightarrow> F (chunk_of b) 0 b = E' 0 b" "\<And>b. b < 256 \<Longrightarrow> E 0 b = E' 0 b"
  shows "level_updates cr {0} 3 E E' (concat (map g [0..<65280]))"
proof -
  define ix where "ix n = chunk_of (unat n - 65793)" for n :: node_id
  have node: "ix (node_at 0 3 b) = chunk_of b" if "b < 2 ^ 24" for b
    using unat_node_at [of 0 3 b] that by (simp add: ix_def node_fits_def)
  have entry: "\<exists>b. node_fits 0 3 b \<and> n = node_at 0 3 b \<and> el_of_bytes cr old = E 0 b \<and> el_of_bytes cr new = F i 0 b \<and>
      256 \<le> b \<and> chunk_of b = i" if i: "i < 65280" and mem: "(n, (old, new)) \<in> set (g i)" for i n old new
  proof -
    obtain b where b: "node_fits 0 3 b" "n = node_at 0 3 b" "el_of_bytes cr old = E 0 b" "el_of_bytes cr new = F i 0 b"
      using level_updates_entry [OF conjunct1 [OF g [OF i]] mem] by blast
    have "n \<in> fst ` set (g i)"
      using mem by force
    then obtain b' where b': "n = node_at 0 3 b'" "256 \<le> b'" "b' < 2 ^ 24" "chunk_of b' = i"
      using g [OF i] by blast
    then have "b' = b"
      using node_at_inj [OF b(1), of 0 3 b'] b(2) by (simp add: node_fits_def)
    then show ?thesis
      using b b' by blast
  qed
  have "distinct (concat (map (\<lambda>i. map fst (g i)) [0..<65280]))"
  proof (rule distinct_concat_indexed [where ix = ix])
    fix i :: nat
    assume i: "i < 65280"
    then show "distinct (map fst (g i)) \<and> (\<forall>n \<in> set (map fst (g i)). ix n = i)"
      using g [OF i] node by (auto simp: level_updates_def)
  qed
  then have "distinct (map fst (concat (map g [0..<65280])))"
    by (simp add: map_concat o_def)
  moreover have "\<exists>b. node_fits 0 3 b \<and> n = node_at 0 3 b \<and> el_of_bytes cr old = E 0 b \<and> el_of_bytes cr new = E' 0 b"
    if mem: "(n, (old, new)) \<in> set (concat (map g [0..<65280]))" for n old new
  proof -
    obtain i where "i < 65280" "(n, (old, new)) \<in> set (g i)"
      using mem by auto
    then show ?thesis
      using entry [of i n old new] same(1) by (force simp: node_fits_def)
  qed
  moreover have "E 0 b = E' 0 b" if b: "node_fits 0 3 b" "node_at 0 3 b \<notin> fst ` set (concat (map g [0..<65280]))" for b
  proof (cases "256 \<le> b")
    case True
    have lt: "b < 2 ^ 24" "chunk_of b < 65280"
      using b(1) True chunk_of_less by (simp_all add: node_fits_def)
    then have "node_at 0 3 b \<notin> fst ` set (g (chunk_of b))"
      using b(2) by (auto simp: image_iff)
    then have "E 0 b = F (chunk_of b) 0 b"
      using g [OF lt(2)] b(1) by (auto simp: level_updates_def)
    then show ?thesis
      using same(1) True lt(1) by simp
  qed (use same(2) in simp)
  ultimately show ?thesis
    unfolding level_updates_def by fast
qed

lemma map_collect_compose: "map_collect f (map h xs) = map_collect (\<lambda>x. f (h x)) xs"
  by (induction xs) simp_all

lemma sr_rebuild_ok:
  assumes lin: "linear_crypto cr mul" and con: "consistent cr mul empty_store (trie_state [])"
    and m: "flat_entries (kvs (ms_state ms))"
  shows "\<exists>us. sr_rebuild cr mul threads (mem_reader ms) = Ok (flat_root cr mul (trie_state (kvs (ms_state ms))), us)"
proof -
  let ?m = "kvs (ms_state ms)" and ?s = "state_root_new empty_store"
  have "\<forall>i. \<exists>us. i < 65280 \<longrightarrow>
      rebuild_chunk cr mul threads (mem_reader ms) (NUM_META_BUCKETS + META_BUCKET_SIZE * i) = Ok us \<and>
      level_updates cr {0} 3 (level_el cr mul (trie_state []) 3) (level_el cr mul (chunk_state ?m i) 3) us \<and>
      fst ` set us \<subseteq> {node_at 0 3 b | b. 256 \<le> b \<and> b < 2 ^ 24 \<and> chunk_of b = i}"
    using rebuild_chunk_ok [OF lin con m] by blast
  from choice [OF this] obtain g where
    g: "i < 65280 \<Longrightarrow> rebuild_chunk cr mul threads (mem_reader ms) (NUM_META_BUCKETS + META_BUCKET_SIZE * i) = Ok (g i)"
    "i < 65280 \<Longrightarrow> level_updates cr {0} 3 (level_el cr mul (trie_state []) 3) (level_el cr mul (chunk_state ?m i) 3) (g i) \<and>
      fst ` set (g i) \<subseteq> {node_at 0 3 b | b. 256 \<le> b \<and> b < 2 ^ 24 \<and> chunk_of b = i}" for i
    by blast
  let ?all = "concat (map g [0..<65280])"
  have all: "level_updates cr {0} 3 (level_el cr mul (trie_state []) 3) (level_el cr mul (trie_state ?m) 3) ?all"
  proof (rule level_updates_chunks [OF g(2)])
    fix b :: nat
    assume b: "256 \<le> b" "b < 2 ^ 24"
    show "level_el cr mul (chunk_state ?m (chunk_of b)) 3 0 b = level_el cr mul (trie_state ?m) 3 0 b"
      using b by (intro level_el_leaf_cong) (auto simp: chunk_state_def in_chunk_def)
  next
    fix b :: nat
    assume "b < 256"
    moreover have "bt_get ?m k = None" if "unat (key_bucket_id k) = b" for k
      using m that bt_get_Some_in [of ?m k] \<open>b < 256\<close> by (cases "bt_get ?m k") (fastforce simp: flat_entries_def)+
    ultimately show "level_el cr mul (trie_state []) 3 0 b = level_el cr mul (trie_state ?m) 3 0 b"
      by (intro level_el_leaf_cong) (auto simp: trie_state_def)
  qed
  have drop: "drop_updates_below_level ?all (Suc 3) = ?all"
    by (rule level_updates_below [OF all]) simp_all
  have first: "fst (last ?all) \<noteq> 0" if "?all \<noteq> []"
    using root_not_updated [OF all] last_in_set [OF that] by (metis imageI zero_less_numeral)
  have "\<exists>f. update_main_trie cr mul threads ?s ?all (Suc 3) =
      Ok (flat_root cr mul (trie_state ?m), ?all @ concat (map f (rev [0..<3]))) \<and>
    (\<forall>j<3. level_updates cr {0} j (level_el cr mul (trie_state []) j) (level_el cr mul (trie_state ?m) j) (f j))"
  proof (rule update_main_trie_ok [OF lin consistent_new(2) [OF con]])
    show "\<forall>j<3. committed cr ?s {0} j (level_el cr mul (trie_state []) j)"
      using consistent_new(3) [OF con] by simp
    show "drop_updates_below_level ?all (Suc 3) \<noteq> [] \<or> bt_get (sr_cache ?s) 0 = None"
      by (simp add: state_root_new_def)
  qed (use all drop first in simp_all)
  moreover have "MAIN_TRIE_LEVELS = Suc 3"
    by (simp add: salt_consts)
  ultimately obtain us where main: "update_main_trie cr mul threads ?s ?all MAIN_TRIE_LEVELS =
      Ok (flat_root cr mul (trie_state ?m), us)"
    by auto
  have "map_collect (rebuild_chunk cr mul threads (mem_reader ms))
      (map (\<lambda>i. NUM_META_BUCKETS + META_BUCKET_SIZE * i) [0..<65280]) = Ok (map g [0..<65280])"
    unfolding map_collect_compose using g(1) by (intro map_collect_Ok) simp
  moreover have "(NUM_BUCKETS - NUM_META_BUCKETS) div META_BUCKET_SIZE = 65280"
    by (simp add: salt_consts)
  ultimately show ?thesis
    using main by (simp only: sr_rebuild_def bind_res.simps expect.simps) simp
qed

text \<open>C4: The rebuild from scratch over a store without expanded buckets succeeds and returns the root that
  a StateRoot over the empty trie returns after the updates that lead from the empty state to the
  store's entries, in whatever batches.\<close>

theorem rebuild_equals_incremental:
  assumes "linear_crypto cr mul" "consistent cr mul empty_store (trie_state [])" "flat_entries (kvs (ms_state ms))"
    and "batches_ok (trie_state []) uss" "fold apply_batch uss (trie_state []) = trie_state (kvs (ms_state ms))"
  shows "\<exists>root us us'. sr_rebuild cr mul threads (mem_reader ms) = Ok (root, us) \<and>
    fst (session cr mul threads' uss (state_root_new empty_store)) = Ok (root, us')"
proof -
  have new: "up_to_date cr mul (state_root_new empty_store) (trie_state [])"
    using consistent_new(1,2) [OF assms(2)] consistent_new(3) [OF assms(2)]
    by (simp add: up_to_date_def holds_def state_root_new_def at_level_def level_updates_refl)
  have "bt_get (sr_cache (state_root_new empty_store)) 0 = None"
    by (simp add: state_root_new_def)
  then obtain us' where
    "fst (session cr mul threads' uss (state_root_new empty_store)) = Ok (flat_root cr mul (trie_state (kvs (ms_state ms))), us')"
    using session_ok [OF assms(1) new assms(4), of threads'] by (auto simp: assms(5))
  then show ?thesis
    using sr_rebuild_ok [OF assms(1-3), of threads] by blast
qed

theorem rebuild_equals_incremental_witness:
  "\<exists>root us us'. sr_rebuild word_crypto word_mul 4
      (mem_reader (mem_store_new\<lparr>ms_state := \<lparr>kvs = word_entries, used_slots = []\<rparr>\<rparr>)) = Ok (root, us) \<and>
    fst (session word_crypto word_mul 1 word_batches (state_root_new empty_store)) = Ok (root, us')"
proof -
  have "flat_entries word_entries"
    using word_keys word_values by (auto simp: flat_entries_def word_entries_def bt_ok_def entry_ok_def)
  then show ?thesis
    using rebuild_equals_incremental [OF word_linear word_consistent(1) _ word_batches_ok,
        of "mem_store_new\<lparr>ms_state := \<lparr>kvs = word_entries, used_slots = []\<rparr>\<rparr>" 4 1]
    by (simp add: word_batches_end)
qed

end
