(* ===== verification/Ipa_Base.thy ===== *)
theory Ipa_Base
  imports Salt_Prelude Complex_Main "HOL-Library.Log_Nat"
begin

text \<open>
  The ground of the inner-product argument: \<open>ipa-multipoint/src/math_utils.rs\<close>, \<open>transcript.rs\<close> and
  the multi-scalar multiplication of \<open>banderwagon/src/element.rs\<close>. The scalar field \<open>Fr\<close> is a type
  of class \<open>field\<close>, the curve group an abelian group; what else the code calls outside the
  repository is the record \<open>curve\<close>.
\<close>

section \<open>Field and group\<close>

text \<open>
  \<open>Element * Fr\<close>, \<open>Element::to_bytes\<close> and \<open>from_bytes\<close>, \<open>serialize_compressed\<close> and
  \<open>deserialize_compressed\<close> of a scalar, \<open>from_le_bytes_mod_order\<close>, SHA-256. \<open>Fr::from\<close> of an integer is \<open>of_nat\<close>.
\<close>

record ('el, 'fr) curve =
  cv_mul :: "'fr \<Rightarrow> 'el \<Rightarrow> 'el"
  cv_bytes :: "'el \<Rightarrow> bytes"
  cv_of_bytes :: "bytes \<Rightarrow> 'el option"
  cv_fr_bytes :: "'fr \<Rightarrow> bytes"
  cv_fr_of_bytes :: "bytes \<Rightarrow> 'fr option"
  cv_fr_of_le_bytes :: "bytes \<Rightarrow> 'fr"
  cv_sha256 :: "bytes \<Rightarrow> bytes"

datatype serde_error = InvalidData

text \<open>Most functions of the crate return no \<open>Result\<close>: they may only panic.\<close>

type_synonym 'a out = "('a, serde_error) res"

definition multi_scalar_mul :: "('el :: ab_group_add, 'fr) curve \<Rightarrow> 'el list \<Rightarrow> 'fr list \<Rightarrow> 'el out" where
  "multi_scalar_mul cv bases scalars =
     (if length bases = length scalars then Ok (sum_list (map2 (cv_mul cv) scalars bases)) else Panic)"

section \<open>Inner products and powers\<close>

definition inner_product :: "'fr :: field list \<Rightarrow> 'fr list \<Rightarrow> 'fr out" where
  "inner_product a b = (if length a = length b then Ok (sum_list (map2 (*) a b)) else Panic)"

text \<open>The loop of \<open>powers_of\<close> pushes the last power times the point.\<close>

fun powers_loop :: "'fr :: field \<Rightarrow> nat \<Rightarrow> 'fr list \<Rightarrow> 'fr list" where
  "powers_loop point 0 powers = powers"
| "powers_loop point (Suc k) powers = powers_loop point k (powers @ [last powers * point])"

definition powers_of :: "'fr :: field \<Rightarrow> nat \<Rightarrow> 'fr list" where
  "powers_of point n = powers_loop point (n - 1) [1]"

text \<open>\<open>powers_of_par\<close>: the first element of every chunk is set to its base, the others follow.\<close>

fun fill_chunk :: "'fr :: field \<Rightarrow> 'fr \<Rightarrow> 'fr list \<Rightarrow> 'fr list" where
  "fill_chunk point base [] = []"
| "fill_chunk point base (c # chunk) = base # fill_chunk point (base * point) chunk"

fun fill_chunks :: "'fr :: field \<Rightarrow> 'fr list list \<Rightarrow> 'fr list \<Rightarrow> 'fr list list" where
  "fill_chunks point (c # cs) (b # bs) = fill_chunk point b c # fill_chunks point cs bs"
| "fill_chunks point cs [] = cs"
| "fill_chunks point [] bs = []"

definition powers_of_par :: "nat \<Rightarrow> 'fr :: field \<Rightarrow> nat \<Rightarrow> 'fr list out" where
  "powers_of_par threads point n =
     (if threads = 0 then Panic
      else let chunk_size = div_ceil n threads
           in if chunk_size = 0 then Panic
              else let len = div_ceil n chunk_size; base_powers = powers_of (point ^ chunk_size) len
                   in Ok (concat (fill_chunks point (chunks_of chunk_size (replicate n 0)) base_powers)))"

section \<open>Transcript\<close>

type_synonym transcript = bytes

definition label :: "string \<Rightarrow> bytes" where
  "label s = map of_char s"

definition transcript_new :: "bytes \<Rightarrow> transcript" where
  "transcript_new lab = lab"

definition append_message :: "bytes \<Rightarrow> bytes \<Rightarrow> transcript \<Rightarrow> transcript" where
  "append_message message lab tr = tr @ lab @ message"

definition append_u64 :: "bytes \<Rightarrow> u64 \<Rightarrow> transcript \<Rightarrow> transcript" where
  "append_u64 lab number tr = tr @ lab @ rev (to_le_bytes 8 number)"

definition append_raw :: "bytes \<Rightarrow> transcript \<Rightarrow> transcript" where
  "append_raw message tr = tr @ message"

definition domain_sep :: "bytes \<Rightarrow> transcript \<Rightarrow> transcript" where
  "domain_sep lab tr = tr @ lab"

definition append_point :: "('el, 'fr) curve \<Rightarrow> bytes \<Rightarrow> 'el \<Rightarrow> transcript \<Rightarrow> transcript" where
  "append_point cv lab point tr = append_message (cv_bytes cv point) lab tr"

definition append_scalar :: "('el, 'fr) curve \<Rightarrow> bytes \<Rightarrow> 'fr \<Rightarrow> transcript \<Rightarrow> transcript" where
  "append_scalar cv lab scalar tr = append_message (cv_fr_bytes cv scalar) lab tr"

text \<open>The whole state is hashed and cleared; the challenge is the first entry of the next state.\<close>

definition hash_to_scalar :: "('el, 'fr) curve \<Rightarrow> transcript \<Rightarrow> 'fr" where
  "hash_to_scalar cv tr = cv_fr_of_le_bytes cv (cv_sha256 cv tr)"

definition challenge_scalar :: "('el, 'fr) curve \<Rightarrow> bytes \<Rightarrow> transcript \<Rightarrow> 'fr \<times> transcript" where
  "challenge_scalar cv lab tr =
     (let scalar = hash_to_scalar cv (domain_sep lab tr) in (scalar, append_scalar cv lab scalar []))"

section \<open>Powers\<close>

lemma upt_from_0: "[0..<Suc n] = 0 # map Suc [0..<n]"
  by (simp add: map_Suc_upt upt_conv_Cons del: upt_Suc)

lemma powers_loop_eq: "powers_loop point k (map ((^) point) [0..<Suc m]) = map ((^) point) [0..<Suc m + k]"
proof (induction k arbitrary: m)
  case (Suc k)
  have "powers_loop point (Suc k) (map ((^) point) [0..<Suc m]) = powers_loop point k (map ((^) point) [0..<Suc (Suc m)])"
    by (simp add: mult.commute)
  also have "\<dots> = map ((^) point) [0..<Suc m + Suc k]"
    by (subst Suc.IH) simp
  finally show ?case .
qed simp

lemma powers_of_eq: "0 < n \<Longrightarrow> powers_of point n = map ((^) point) [0..<n]"
  using powers_loop_eq [of point "n - 1" 0] by (simp add: powers_of_def)

lemma fill_chunk_eq: "fill_chunk point base chunk = map (\<lambda>i. base * point ^ i) [0..<length chunk]"
proof (induction chunk arbitrary: base)
  case (Cons c chunk)
  have "[0..<length (c # chunk)] = 0 # map Suc [0..<length chunk]"
    by (simp add: upt_from_0 del: upt_Suc)
  then show ?case
    by (simp add: Cons o_def mult.assoc del: upt_Suc)
qed simp

lemma fill_chunks_eq:
  "0 < c \<Longrightarrow> concat (fill_chunks point (chunks_of c xs) (map (\<lambda>i. base * (point ^ c) ^ i) [0..<div_ceil (length xs) c])) =
    map (\<lambda>i. base * point ^ i) [0..<length xs]"
proof (induction "length xs" arbitrary: xs base rule: less_induct)
  case less
  show ?case
  proof (cases "xs = []")
    case True
    then show ?thesis
      using less.prems by (simp add: chunks_of.simps [of c "[]"] div_ceil_def)
  next
    case False
    let ?n = "length xs" let ?ys = "drop c xs"
    have k: "div_ceil ?n c = Suc (div_ceil (length ?ys) c)"
    proof (cases "?n \<le> c")
      case True
      then have "(?n + c - 1) div c = 1"
        using False less.prems by (intro div_nat_eqI) (cases xs; simp)+
      then show ?thesis
        using True less.prems by (simp add: div_ceil_def)
    next
      case long: False
      then have "?n + c - 1 = (?n - 1) + c"
        using less.prems by simp
      then have "(?n + c - 1) div c = Suc ((?n - 1) div c)"
        using less.prems by (simp only: div_add_self2 [OF less_imp_neq [OF less.prems, symmetric]])
      then show ?thesis
        using less.prems long by (simp add: div_ceil_def)
    qed
    have "[0..<Suc (div_ceil (length ?ys) c)] = 0 # map Suc [0..<div_ceil (length ?ys) c]"
      by (rule upt_from_0)
    then have bases: "map (\<lambda>i. base * (point ^ c) ^ i) [0..<div_ceil ?n c] =
        base # map (\<lambda>i. (base * point ^ c) * (point ^ c) ^ i) [0..<div_ceil (length ?ys) c]"
      by (simp add: k o_def mult.assoc del: upt_Suc)
    have "chunks_of c xs = take c xs # chunks_of c ?ys"
      using False less.prems by (simp add: chunks_of.simps [of c xs])
    then have "concat (fill_chunks point (chunks_of c xs) (map (\<lambda>i. base * (point ^ c) ^ i) [0..<div_ceil ?n c])) =
        map (\<lambda>i. base * point ^ i) [0..<min c ?n] @ map (\<lambda>i. (base * point ^ c) * point ^ i) [0..<length ?ys]"
      using less.hyps [of ?ys "base * point ^ c"] False less.prems by (simp add: bases fill_chunk_eq min.commute)
    also have "map (\<lambda>i. (base * point ^ c) * point ^ i) [0..<length ?ys] = map (\<lambda>i. base * point ^ i) [c..<c + length ?ys]"
      by (rule nth_equalityI) (simp_all add: power_add mult.assoc)
    also have "map (\<lambda>i. base * point ^ i) [0..<min c ?n] @ \<dots> = map (\<lambda>i. base * point ^ i) [0..<?n]"
    proof (cases "c \<le> ?n")
      case True
      then have "[0..<?n] = [0..<c] @ [c..<?n]"
        using upt_add_eq_append [of 0 c "?n - c"] by simp
      then show ?thesis
        using True by simp
    next
      case short: False
      then show ?thesis
        by simp
    qed
    finally show ?thesis .
  qed
qed

lemma powers_of_par_eq:
  assumes "0 < threads" "0 < n"
  shows "powers_of_par threads point n = Ok (map ((^) point) [0..<n])"
proof -
  let ?c = "div_ceil n threads"
  have c: "0 < ?c"
    using assms by (simp add: div_ceil_def div_greater_zero_iff)
  have "0 < div_ceil n ?c"
    using assms c by (simp add: div_ceil_def [of n "?c"] div_greater_zero_iff)
  then have "powers_of (point ^ ?c) (div_ceil n ?c) = map (\<lambda>i. 1 * (point ^ ?c) ^ i) [0..<div_ceil n ?c]"
    by (simp add: powers_of_eq)
  then have "concat (fill_chunks point (chunks_of ?c (replicate n 0)) (powers_of (point ^ ?c) (div_ceil n ?c))) =
      map (\<lambda>i. 1 * point ^ i) [0..<n]"
    using fill_chunks_eq [OF c, of point "replicate n 0" 1] by (simp only: length_replicate)
  then show ?thesis
    using assms(1) c by (simp add: powers_of_par_def Let_def)
qed

end
