(* ===== verification/Lagrange.thy ===== *)
theory Lagrange
  imports Ipa_Base
begin

text \<open>
  \<open>ipa-multipoint/src/lagrange_basis.rs\<close>: polynomials given by their values on \<open>0, \<dots>, n - 1\<close>, the
  precomputed weights, division by a linear factor and evaluation outside the domain. Shown
  against interpolation: \<open>lagrange_at\<close> agrees with every polynomial of degree below \<open>n\<close>.
\<close>

section \<open>The operations\<close>

record 'fr lagrange =
  lb_domain :: nat
  lb_values :: "'fr list"

definition lagrange_new :: "'fr list \<Rightarrow> 'fr lagrange" where
  "lagrange_new values = \<lparr>lb_domain = length values, lb_values = values\<rparr>"

definition lagrange_zero :: "'fr lagrange" where
  "lagrange_zero = \<lparr>lb_domain = 0, lb_values = []\<rparr>"

definition lagrange_add :: "'fr :: field lagrange \<Rightarrow> 'fr lagrange \<Rightarrow> 'fr lagrange out" where
  "lagrange_add a b =
     (if lb_domain a = 0 then Ok b
      else if lb_domain b = 0 then Ok a
      else if length (lb_values a) = length (lb_values b)
           then Ok (a\<lparr>lb_values := map2 (+) (lb_values a) (lb_values b)\<rparr>) else Panic)"

definition lagrange_neg :: "'fr :: field lagrange \<Rightarrow> 'fr lagrange" where
  "lagrange_neg a = lagrange_new (map uminus (lb_values a))"

definition lagrange_sub :: "'fr :: field lagrange \<Rightarrow> 'fr lagrange \<Rightarrow> 'fr lagrange out" where
  "lagrange_sub a b = lagrange_add a (lagrange_neg b)"

definition lagrange_scale :: "'fr :: field lagrange \<Rightarrow> 'fr \<Rightarrow> 'fr lagrange" where
  "lagrange_scale a c = a\<lparr>lb_values := map (\<lambda>v. v * c) (lb_values a)\<rparr>"

definition lagrange_sub_scalar :: "'fr :: field lagrange \<Rightarrow> 'fr \<Rightarrow> 'fr lagrange" where
  "lagrange_sub_scalar a c = a\<lparr>lb_values := map (\<lambda>v. v - c) (lb_values a)\<rparr>"

definition index_res :: "'a list \<Rightarrow> nat \<Rightarrow> ('a, 'e) res" where
  "index_res xs i = (if i < length xs then Ok (xs ! i) else Panic)"

definition evaluate_in_domain :: "'fr lagrange \<Rightarrow> nat \<Rightarrow> 'fr out" where
  "evaluate_in_domain a i = index_res (lb_values a) i"

text \<open>The weights \<open>A'(x_i)\<close> and then their inverses, \<open>1/k\<close> and then \<open>-1/k\<close> for \<open>0 < k < n\<close>.\<close>

record 'fr weights =
  barycentric_weights :: "'fr list"
  inverted_domain :: "'fr list"

definition compute_barycentric_weight_for :: "nat \<Rightarrow> nat \<Rightarrow> 'fr :: field" where
  "compute_barycentric_weight_for domain_element domain_size =
     prod_list (map (\<lambda>e. of_nat domain_element - of_nat e) (filter (\<lambda>e. e \<noteq> domain_element) [0..<domain_size]))"

definition weights_new :: "nat \<Rightarrow> 'fr :: field weights out" where
  "weights_new domain_size =
     (let ws = map (\<lambda>i. compute_barycentric_weight_for i domain_size) [0..<domain_size];
          ks = map of_nat [1..<domain_size]
      in if domain_size = 0 \<or> 0 \<in> set ws \<or> 0 \<in> set ks then Panic
         else Ok \<lparr>barycentric_weights = ws @ map inverse ws,
                  inverted_domain = map inverse ks @ map (\<lambda>k. - inverse k) ks\<rparr>)"

text \<open>The index is a \<open>usize\<close>, computed with wrap-around.\<close>

definition get_inverted_element :: "'fr weights \<Rightarrow> nat \<Rightarrow> bool \<Rightarrow> 'fr out" where
  "get_inverted_element w domain_element is_negative =
     (let index = (domain_element + 2 ^ 64 - 1) mod 2 ^ 64
      in index_res (inverted_domain w)
           (if is_negative then (index + length (inverted_domain w) div 2) mod 2 ^ 64 else index))"

definition get_ratio_of_barycentric_weights :: "'fr :: field weights \<Rightarrow> nat \<Rightarrow> nat \<Rightarrow> 'fr out" where
  "get_ratio_of_barycentric_weights w m i =
     bind_res (index_res (barycentric_weights w) m) (\<lambda>a.
     bind_res (index_res (barycentric_weights w) (i + length (barycentric_weights w) div 2)) (\<lambda>b. Ok (a * b)))"

definition get_barycentric_weight :: "'fr weights \<Rightarrow> nat \<Rightarrow> 'fr out" where
  "get_barycentric_weight w i = index_res (barycentric_weights w) i"

definition get_inverse_barycentric_weight :: "'fr weights \<Rightarrow> nat \<Rightarrow> 'fr out" where
  "get_inverse_barycentric_weight w i = index_res (barycentric_weights w) (i + length (barycentric_weights w) div 2)"

text \<open>The loop of the division; \<open>i32::try_from\<close> fails from \<open>2^31\<close> on.\<close>

fun divide_loop ::
  "'fr :: field weights \<Rightarrow> 'fr list \<Rightarrow> nat \<Rightarrow> 'fr \<Rightarrow> nat list \<Rightarrow> 'fr list \<Rightarrow> 'fr list out"
where
  "divide_loop w values index y [] q = Ok q"
| "divide_loop w values index y (i # is) q =
     (if i = index then divide_loop w values index y is q
      else if 2 ^ 31 \<le> i \<or> 2 ^ 31 \<le> index then Panic
      else
        bind_res (get_inverted_element w (if i < index then index - i else i - index) (i < index)) (\<lambda>den_inv.
        bind_res (index_res values i) (\<lambda>v.
        bind_res (get_ratio_of_barycentric_weights w index i) (\<lambda>weight_ratio.
        let q_i = (v - y) * den_inv; q = q[i := q_i]
        in bind_res (index_res q index) (\<lambda>q_m.
           divide_loop w values index y is (q[index := q_m - weight_ratio * q_i]))))))"

definition divide_by_linear_vanishing :: "'fr :: field lagrange \<Rightarrow> 'fr weights \<Rightarrow> nat \<Rightarrow> 'fr lagrange out" where
  "divide_by_linear_vanishing a w index =
     bind_res (index_res (lb_values a) index) (\<lambda>y.
     map_res lagrange_new
       (divide_loop w (lb_values a) index y [0..<lb_domain a] (replicate (lb_domain a) 0)))"

text \<open>\<open>batch_inversion_and_mul\<close> leaves zeros alone, which is \<open>inverse 0 = 0\<close>.\<close>

definition evaluate_lagrange_coefficients :: "'fr :: field weights \<Rightarrow> nat \<Rightarrow> 'fr \<Rightarrow> 'fr list out" where
  "evaluate_lagrange_coefficients w domain_size point =
     bind_res (map_collect (\<lambda>i. map_res (\<lambda>b. b * (point - of_nat i)) (get_barycentric_weight w i)) [0..<domain_size])
       (\<lambda>evals. let a_z = prod_list (map (\<lambda>i. point - of_nat i) [0..<domain_size])
                 in Ok (map (\<lambda>e. a_z * inverse e) evals))"

section \<open>Interpolation\<close>

definition vanishing :: "nat \<Rightarrow> 'fr :: field \<Rightarrow> 'fr" where
  "vanishing n t = (\<Prod>j<n. t - of_nat j)"

definition weight :: "nat \<Rightarrow> nat \<Rightarrow> 'fr :: field" where
  "weight n i = (\<Prod>j \<in> {..<n} - {i}. of_nat i - of_nat j)"

text \<open>The domain has \<open>n\<close> distinct elements.\<close>

definition distinct_domain :: "'fr :: field itself \<Rightarrow> nat \<Rightarrow> bool" where
  "distinct_domain ty n \<longleftrightarrow> (\<forall>k. 0 < k \<and> k < n \<longrightarrow> (of_nat k :: 'fr) \<noteq> 0)"

definition lagrange_basis :: "nat \<Rightarrow> nat \<Rightarrow> 'fr :: field \<Rightarrow> 'fr" where
  "lagrange_basis n i t = vanishing n t * inverse (weight n i * (t - of_nat i))"

definition lagrange_at :: "'fr :: field list \<Rightarrow> 'fr \<Rightarrow> 'fr" where
  "lagrange_at f t = (\<Sum>i<length f. f ! i * lagrange_basis (length f) i t)"

definition outside :: "nat \<Rightarrow> 'fr :: field \<Rightarrow> bool" where
  "outside n t \<longleftrightarrow> t \<notin> of_nat ` {..<n}"

lemma outside_neq [simp]: "outside n t \<Longrightarrow> i < n \<Longrightarrow> t \<noteq> of_nat i"
  by (auto simp: outside_def)

lemma distinct_domain_neq:
  assumes "distinct_domain TYPE('fr :: field) n" "i < n" "j < n" "i \<noteq> j"
  shows "(of_nat i :: 'fr) \<noteq> of_nat j"
  using assms
proof (induction i j rule: linorder_wlog)
  case (le i j)
  have "(of_nat (j - i) :: 'fr) \<noteq> 0"
    using le(2) [unfolded distinct_domain_def, rule_format, of "j - i"] le(1,4,5) by linarith
  moreover have "(of_nat j :: 'fr) = of_nat (j - i) + of_nat i"
    using le(1) by (simp flip: of_nat_add)
  ultimately show ?case
    by auto
next
  case (sym i j)
  then show ?case
    by metis
qed

lemma weight_nonzero: "distinct_domain TYPE('fr :: field) n \<Longrightarrow> i < n \<Longrightarrow> (weight n i :: 'fr) \<noteq> 0"
  by (auto simp: weight_def dest: distinct_domain_neq)

lemma vanishing_nonzero: "outside n t \<Longrightarrow> vanishing n t \<noteq> 0"
  by (auto simp: vanishing_def)

lemma weight_Suc: "i < n \<Longrightarrow> weight (Suc n) i = weight n i * (of_nat i - of_nat n)"
proof -
  assume "i < n"
  then have "{..<Suc n} - {i} = insert n ({..<n} - {i})"
    by auto
  then show ?thesis
    by (simp add: weight_def mult.commute)
qed

lemma weight_last: "weight (Suc n) n = vanishing n (of_nat n)"
proof -
  have "{..<Suc n} - {n} = {..<n}"
    by auto
  then show ?thesis
    by (simp add: weight_def vanishing_def)
qed

text \<open>The partial fractions of \<open>1 / A(t)\<close>.\<close>

lemma partial_fractions:
  assumes "distinct_domain TYPE('fr :: field) n" "outside n (t :: 'fr)" "0 < n"
  shows "inverse (vanishing n t) = (\<Sum>i<n. inverse (weight n i * (t - of_nat i)))"
  using assms
proof (induction n arbitrary: t)
  case (Suc n)
  show ?case
  proof (cases "n = 0")
    case True
    then show ?thesis
      by (simp add: vanishing_def weight_def)
  next
    case False
    have dom: "distinct_domain TYPE('fr) n"
      using Suc.prems(1) by (simp add: distinct_domain_def)
    let ?x = "of_nat :: nat \<Rightarrow> 'fr"
    have out: "outside n t" "outside n (?x n)" and last: "t \<noteq> ?x n"
      using Suc.prems(2) distinct_domain_neq [OF Suc.prems(1)] by (auto simp: outside_def less_Suc_eq)
    have split: "inverse (weight n i * (t - ?x i)) * inverse (t - ?x n) =
        inverse (weight (Suc n) i * (t - ?x i)) + inverse (weight n i * (?x n - ?x i)) * inverse (t - ?x n)"
      if "i < n" for i
    proof -
      have nz: "?x i \<noteq> ?x n" "t \<noteq> ?x i" "weight n i \<noteq> (0 :: 'fr)"
        using that distinct_domain_neq [OF Suc.prems(1), of i n] out(1) weight_nonzero [OF dom] by simp_all
      then show ?thesis
        using last by (simp add: weight_Suc that divide_simps) (simp add: algebra_simps)
    qed
    have "inverse (vanishing (Suc n) t) = (\<Sum>i<n. inverse (weight n i * (t - ?x i)) * inverse (t - ?x n))"
      using Suc.IH [OF dom out(1)] False by (simp add: vanishing_def sum_distrib_right)
    also have "\<dots> = (\<Sum>i<n. inverse (weight (Suc n) i * (t - ?x i))) +
        (\<Sum>i<n. inverse (weight n i * (?x n - ?x i))) * inverse (t - ?x n)"
      unfolding sum_distrib_right sum.distrib [symmetric] by (rule sum.cong) (simp_all only: split lessThan_iff)
    also have "(\<Sum>i<n. inverse (weight n i * (?x n - ?x i))) = inverse (weight (Suc n) n)"
      using Suc.IH [OF dom out(2)] False by (simp add: weight_last)
    finally show ?thesis
      by simp
  qed
qed simp

lemma basis_sum:
  assumes "distinct_domain TYPE('fr :: field) n" "outside n (t :: 'fr)" "0 < n"
  shows "(\<Sum>i<n. lagrange_basis n i t) = 1"
proof -
  have "(\<Sum>i<n. lagrange_basis n i t) = vanishing n t * inverse (vanishing n t)"
    unfolding partial_fractions [OF assms] by (simp only: lagrange_basis_def sum_distrib_left)
  then show ?thesis
    using vanishing_nonzero [OF assms(2)] by simp
qed

text \<open>The power sums \<open>\<Sum> x_i^k / A'(x_i)\<close> below the top power vanish: interpolation is exact.\<close>

lemma power_sums:
  assumes "distinct_domain TYPE('fr :: field) n" "Suc k < n"
  shows "(\<Sum>i<n. of_nat i ^ k * inverse (weight n i)) = (0 :: 'fr)"
  using assms
proof (induction n arbitrary: k)
  case (Suc n)
  let ?x = "of_nat :: nat \<Rightarrow> 'fr"
  have dom: "distinct_domain TYPE('fr) n" and n: "0 < n"
    using Suc.prems by (simp_all add: distinct_domain_def)
  have neq: "?x i \<noteq> ?x n" if "i < n" for i
    using that distinct_domain_neq [OF Suc.prems(1), of i n] by simp
  then have out: "outside n (?x n)"
    unfolding outside_def by force
  note IH = Suc.IH [OF dom]
  have flip: "inverse (weight (Suc n) i) = - inverse (weight n i * (?x n - ?x i))" if "i < n" for i
  proof -
    have "weight (Suc n) i = - (weight n i * (?x n - ?x i))"
      by (simp add: weight_Suc that algebra_simps)
    then show ?thesis
      by simp
  qed
  have zero: "(\<Sum>i<Suc n. inverse (weight (Suc n) i)) = (0 :: 'fr)"
  proof -
    have "(\<Sum>i<n. inverse (weight (Suc n) i)) = - (\<Sum>i<n. inverse (weight n i * (?x n - ?x i)))"
      unfolding sum_negf [symmetric] by (rule sum.cong) (simp_all only: flip lessThan_iff)
    also have "\<dots> = - inverse (weight (Suc n) n)"
      using partial_fractions [OF dom out n] by (simp only: weight_last)
    finally show ?thesis
      by simp
  qed
  have step: "(\<Sum>i<Suc n. ?x i ^ Suc j * inverse (weight (Suc n) i)) =
      (\<Sum>i<n. ?x i ^ j * inverse (weight n i)) + ?x n * (\<Sum>i<Suc n. ?x i ^ j * inverse (weight (Suc n) i))" for j
  proof -
    have "?x i ^ Suc j * inverse (weight (Suc n) i) =
        ?x i ^ j * inverse (weight n i) + ?x n * (?x i ^ j * inverse (weight (Suc n) i))" if "i < n" for i
    proof -
      have w: "weight (Suc n) i = (weight n i * (?x i - ?x n) :: 'fr)" and nz: "?x i - ?x n \<noteq> 0" "weight n i \<noteq> (0 :: 'fr)"
        using weight_Suc [OF that] neq [OF that] weight_nonzero [OF dom that] by simp_all
      have "inverse (weight n i) = (?x i - ?x n) * inverse (weight (Suc n) i)"
        unfolding w using nz by (simp add: field_simps)
      moreover have "?x i ^ Suc j * W = ?x i ^ j * ((?x i - ?x n) * W) + ?x n * (?x i ^ j * W)" for W
        by (simp add: algebra_simps)
      ultimately show ?thesis
        by (simp only:)
    qed
    then have "(\<Sum>i<n. ?x i ^ Suc j * inverse (weight (Suc n) i)) =
        (\<Sum>i<n. ?x i ^ j * inverse (weight n i) + ?x n * (?x i ^ j * inverse (weight (Suc n) i)))"
      by (intro sum.cong) (simp_all del: power_Suc)
    then show ?thesis
      by (simp add: sum.distrib sum_distrib_left algebra_simps)
  qed
  have "(\<Sum>i<Suc n. ?x i ^ j * inverse (weight (Suc n) i)) = 0" if "j < n" for j
    using that
  proof (induction j)
    case 0
    then show ?case
      using zero by simp
  next
    case (Suc j)
    then show ?case
      using step [of j] IH [of j] by simp
  qed
  then show ?case
    using Suc.prems(2) by simp
qed simp

lemma basis_shift:
  assumes "distinct_domain TYPE('fr :: field) n" "outside n (t :: 'fr)" "i < n"
  shows "of_nat i * lagrange_basis n i t = t * lagrange_basis n i t - vanishing n t * inverse (weight n i)"
  using weight_nonzero [OF assms(1,3)] outside_neq [OF assms(2,3)]
  by (simp add: lagrange_basis_def field_simps)

lemma basis_power:
  assumes dom: "distinct_domain TYPE('fr :: field) n" and t: "outside n (t :: 'fr)" and "k < n"
  shows "(\<Sum>i<n. of_nat i ^ k * lagrange_basis n i t) = t ^ k"
  using assms(3)
proof (induction k)
  case 0
  then show ?case
    using basis_sum [OF dom t] by simp
next
  case (Suc k)
  have "of_nat i ^ Suc k * lagrange_basis n i t =
      t * (of_nat i ^ k * lagrange_basis n i t) - vanishing n t * (of_nat i ^ k * inverse (weight n i))" if "i < n" for i
  proof -
    have "of_nat i ^ Suc k * lagrange_basis n i t = of_nat i ^ k * (of_nat i * lagrange_basis n i t)"
      by (simp add: mult.assoc mult.left_commute)
    then show ?thesis
      unfolding basis_shift [OF dom t that] by (simp add: algebra_simps)
  qed
  then have "(\<Sum>i<n. of_nat i ^ Suc k * lagrange_basis n i t) =
      (\<Sum>i<n. t * (of_nat i ^ k * lagrange_basis n i t) - vanishing n t * (of_nat i ^ k * inverse (weight n i)))"
    by (intro sum.cong) (simp_all del: power_Suc)
  also have "\<dots> = t * (\<Sum>i<n. of_nat i ^ k * lagrange_basis n i t) -
      vanishing n t * (\<Sum>i<n. of_nat i ^ k * inverse (weight n i))"
    by (simp only: sum_subtractf sum_distrib_left)
  also have "\<dots> = t ^ Suc k"
    using Suc power_sums [OF dom Suc.prems] by simp
  finally show ?case .
qed

definition poly_at :: "'fr :: field list \<Rightarrow> 'fr \<Rightarrow> 'fr" where
  "poly_at cs t = (\<Sum>k<length cs. cs ! k * t ^ k)"

lemma lagrange_exact:
  assumes "distinct_domain TYPE('fr :: field) n" "outside n (t :: 'fr)" "length cs \<le> n"
  shows "lagrange_at (map (\<lambda>i. poly_at cs (of_nat i)) [0..<n]) t = poly_at cs t"
proof -
  have "lagrange_at (map (\<lambda>i. poly_at cs (of_nat i)) [0..<n]) t =
      (\<Sum>i<n. \<Sum>k<length cs. cs ! k * (of_nat i ^ k * lagrange_basis n i t))"
    by (simp add: lagrange_at_def poly_at_def sum_distrib_right mult.assoc)
  also have "\<dots> = (\<Sum>k<length cs. cs ! k * (\<Sum>i<n. of_nat i ^ k * lagrange_basis n i t))"
    by (subst sum.swap) (simp only: sum_distrib_left)
  also have "\<dots> = poly_at cs t"
    using assms by (auto simp: poly_at_def basis_power intro!: sum.cong)
  finally show ?thesis .
qed

section \<open>The quotient\<close>

text \<open>The values of the quotient by \<open>X - x_m\<close> that the loop computes.\<close>

definition quotient_at :: "'fr :: field list \<Rightarrow> nat \<Rightarrow> nat \<Rightarrow> 'fr" where
  "quotient_at f m i = (f ! i - f ! m) * inverse (of_nat i - of_nat m)"

definition lin_quotient :: "'fr :: field list \<Rightarrow> nat \<Rightarrow> 'fr list" where
  "lin_quotient f m = map (\<lambda>i. if i = m
     then - (\<Sum>j \<in> {..<length f} - {m}. weight (length f) m * inverse (weight (length f) j) * quotient_at f m j)
     else quotient_at f m i) [0..<length f]"

lemma length_lin_quotient [simp]: "length (lin_quotient f m) = length f"
  by (simp add: lin_quotient_def)

lemma lin_quotient_eval:
  assumes dom: "distinct_domain TYPE('fr :: field) (length f)" and t: "outside (length f) (t :: 'fr)" and m: "m < length f"
  shows "lagrange_at (lin_quotient f m) t = (lagrange_at f t - f ! m) * inverse (t - of_nat m)"
proof -
  let ?n = "length f" let ?x = "of_nat :: nat \<Rightarrow> 'fr" let ?L = "\<lambda>i. lagrange_basis ?n i t" let ?w = "weight ?n :: nat \<Rightarrow> 'fr"
  let ?D = "{..<?n} - {m}"
  have split: "(\<Sum>i<?n. h i) = h m + (\<Sum>i \<in> ?D. h i)" for h :: "nat \<Rightarrow> 'fr"
    using m by (simp add: sum.remove)
  have nz: "?w m \<noteq> 0" "t \<noteq> ?x m"
    using weight_nonzero [OF dom m] outside_neq [OF t m] by simp_all
  have summand: "?w m * inverse (?w j) * quotient_at f m j * ?L m =
      quotient_at f m j * ?L j - (f ! j - f ! m) * ?L j * inverse (t - ?x m)" if j: "j \<in> ?D" for j
  proof -
    have j': "?w j \<noteq> 0" "t \<noteq> ?x j" "?x j \<noteq> ?x m"
      using j m weight_nonzero [OF dom, of j] outside_neq [OF t, of j] distinct_domain_neq [OF dom, of j m] by simp_all
    have "?w m * inverse (?w j) * ?L m = ?L j - (?x j - ?x m) * ?L j * inverse (t - ?x m)"
      using nz j' by (simp add: lagrange_basis_def divide_simps) (simp add: algebra_simps)
    then have "?w m * inverse (?w j) * quotient_at f m j * ?L m =
        quotient_at f m j * (?L j - (?x j - ?x m) * ?L j * inverse (t - ?x m))"
      by (simp only: mult.assoc mult.left_commute mult.commute)
    also have "\<dots> = quotient_at f m j * ?L j - quotient_at f m j * (?x j - ?x m) * ?L j * inverse (t - ?x m)"
      by (simp add: algebra_simps)
    also have "quotient_at f m j * (?x j - ?x m) = f ! j - f ! m"
      using j'(3) by (simp add: quotient_at_def)
    finally show ?thesis .
  qed
  have "lagrange_at (lin_quotient f m) t =
      - ((\<Sum>j \<in> ?D. ?w m * inverse (?w j) * quotient_at f m j) * ?L m) + (\<Sum>j \<in> ?D. quotient_at f m j * ?L j)"
    unfolding lagrange_at_def length_lin_quotient split using m by (simp add: lin_quotient_def)
  also have "(\<Sum>j \<in> ?D. ?w m * inverse (?w j) * quotient_at f m j) * ?L m =
      (\<Sum>j \<in> ?D. quotient_at f m j * ?L j) - (\<Sum>j \<in> ?D. (f ! j - f ! m) * ?L j) * inverse (t - ?x m)"
    unfolding sum_distrib_right sum_subtractf [symmetric] by (rule sum.cong) (simp_all only: summand)
  also have "(\<Sum>j \<in> ?D. (f ! j - f ! m) * ?L j) = lagrange_at f t - f ! m"
  proof -
    have "lagrange_at f t - f ! m = (\<Sum>i<?n. f ! i * ?L i) - f ! m * (\<Sum>i<?n. ?L i)"
      using basis_sum [OF dom t order.strict_trans1 [OF zero_le m]] by (simp add: lagrange_at_def)
    also have "\<dots> = (\<Sum>i<?n. (f ! i - f ! m) * ?L i)"
      by (simp add: sum_subtractf sum_distrib_left left_diff_distrib)
    finally show ?thesis
      unfolding split by simp
  qed
  finally show ?thesis
    by simp
qed

section \<open>What the operations compute\<close>

lemma index_res_Ok [simp]: "i < length xs \<Longrightarrow> index_res xs i = Ok (xs ! i)"
  by (simp add: index_res_def)

lemma barycentric_weight: "compute_barycentric_weight_for i n = weight n i"
proof -
  have "set (filter (\<lambda>e. e \<noteq> i) [0..<n]) = {..<n} - {i}"
    by auto
  moreover have "distinct (filter (\<lambda>e. e \<noteq> i) [0..<n])"
    by simp
  ultimately show ?thesis
    unfolding compute_barycentric_weight_for_def weight_def
    by (metis prod.distinct_set_conv_list)
qed

text \<open>What \<open>PrecomputedWeights::new\<close> returns, and that it returns.\<close>

definition weights_of :: "nat \<Rightarrow> 'fr :: field weights" where
  "weights_of n = \<lparr>barycentric_weights = map (weight n) [0..<n] @ map (\<lambda>i. inverse (weight n i)) [0..<n],
     inverted_domain = map (\<lambda>k. inverse (of_nat k)) [1..<n] @ map (\<lambda>k. - inverse (of_nat k)) [1..<n]\<rparr>"

lemma weights_new_ok:
  assumes "distinct_domain TYPE('fr :: field) n" "0 < n"
  shows "(weights_new n :: 'fr weights out) = Ok (weights_of n)"
proof -
  have "(0 :: 'fr) \<notin> weight n ` {0..<n}" "(0 :: 'fr) \<notin> of_nat ` {1..<n}"
    using weight_nonzero [OF assms(1)] assms(1) by (force simp: distinct_domain_def)+
  then show ?thesis
    using assms(2) by (simp add: weights_new_def weights_of_def barycentric_weight o_def)
qed

lemma weights_of_barycentric [simp]:
  "i < n \<Longrightarrow> get_barycentric_weight (weights_of n) i = Ok (weight n i)"
  "i < n \<Longrightarrow> get_inverse_barycentric_weight (weights_of n) i = Ok (inverse (weight n i))"
  "m < n \<Longrightarrow> i < n \<Longrightarrow> get_ratio_of_barycentric_weights (weights_of n) m i = Ok (weight n m * inverse (weight n i))"
  by (simp_all add: get_barycentric_weight_def get_inverse_barycentric_weight_def
      get_ratio_of_barycentric_weights_def index_res_def weights_of_def nth_append)

lemma weights_of_inverted:
  assumes "i < n" "m < n" "i \<noteq> m" "n < 2 ^ 62"
  shows "get_inverted_element (weights_of n :: 'fr :: field weights) (if i < m then m - i else i - m) (i < m) =
    Ok (inverse (of_nat i - of_nat m))"
proof -
  have ix: "(d + 2 ^ 64 - 1) mod 2 ^ 64 = d - 1" if "0 < d" "d < n" for d :: nat
  proof -
    have "d + 2 ^ 64 - 1 = (d - 1) + 2 ^ 64"
      using that by simp
    then show ?thesis
      using that assms(4) by (simp only: mod_add_self2) simp
  qed
  let ?w = "weights_of n :: 'fr weights"
  have half: "length (inverted_domain ?w) = (n - 1) + (n - 1)" "length (inverted_domain ?w) div 2 = n - 1"
    by (simp_all add: weights_of_def)
  have val: "inverted_domain ?w ! k = inverse (of_nat (Suc k))" "inverted_domain ?w ! (k + (n - 1)) = - inverse (of_nat (Suc k))"
    if "k < n - 1" for k
  proof -
    show "inverted_domain ?w ! k = inverse (of_nat (Suc k))"
      using that by (simp add: weights_of_def nth_append)
    have "inverted_domain ?w ! (length (map (\<lambda>k. inverse (of_nat k) :: 'fr) [1..<n]) + k) = - inverse (of_nat (Suc k))"
      using that by (simp only: weights_of_def weights.simps nth_append_length_plus) simp
    then show "inverted_domain ?w ! (k + (n - 1)) = - inverse (of_nat (Suc k))"
      by (simp add: add.commute)
  qed
  show ?thesis
  proof (cases "i < m")
    case True
    let ?k = "m - i - 1"
    have k: "?k < n - 1" "Suc ?k = m - i"
      using True assms(2) by auto
    then have "?k + (n - 1) < 2 ^ 64"
      using assms(4) by simp
    then have small: "(?k + (n - 1)) mod 2 ^ 64 = ?k + (n - 1)"
      by (rule mod_less)
    have ix': "(m - i + 2 ^ 64 - 1) mod 2 ^ 64 = ?k"
      using True assms(2) by (intro ix) auto
    have "?k + (n - 1) < length (inverted_domain ?w)"
      unfolding half using k(1) by linarith
    then have "get_inverted_element ?w (m - i) True = Ok (- inverse (of_nat (Suc ?k)))"
      unfolding get_inverted_element_def Let_def half(2) if_True ix' small
      by (simp only: index_res_Ok val(2) [OF k(1)])
    moreover have "(of_nat i :: 'fr) - of_nat m = - of_nat (m - i)"
      using True by (simp add: of_nat_diff)
    ultimately show ?thesis
      unfolding k(2) using True by (simp del: of_nat_diff)
  next
    case False
    let ?k = "i - m - 1"
    have k: "?k < n - 1" "Suc ?k = i - m"
      using False assms(1,3) by auto
    have ix': "(i - m + 2 ^ 64 - 1) mod 2 ^ 64 = ?k"
      using False assms(1,3) by (intro ix) auto
    have "?k < length (inverted_domain ?w)"
      unfolding half using k(1) by linarith
    then have "get_inverted_element ?w (i - m) False = Ok (inverse (of_nat (Suc ?k)))"
      unfolding get_inverted_element_def Let_def if_False ix'
      by (simp only: index_res_Ok val(1) [OF k(1)] if_False)
    moreover have "(of_nat i :: 'fr) - of_nat m = of_nat (i - m)"
      using False assms(3) by (simp add: of_nat_diff)
    ultimately show ?thesis
      unfolding k(2) using False by (simp del: of_nat_diff)
  qed
qed

lemma evaluate_lagrange_coefficients_ok:
  assumes dom: "distinct_domain TYPE('fr :: field) n" and t: "outside n (t :: 'fr)"
  shows "evaluate_lagrange_coefficients (weights_of n) n t = Ok (map (\<lambda>i. lagrange_basis n i t) [0..<n])"
proof -
  have "map_collect (\<lambda>i. map_res (\<lambda>b. b * (t - of_nat i)) (get_barycentric_weight (weights_of n) i)) [0..<n] =
      (Ok (map (\<lambda>i. weight n i * (t - of_nat i)) [0..<n]) :: 'fr list out)"
    by (rule map_collect_Ok) simp
  moreover have "prod_list (map (\<lambda>i. t - of_nat i) [0..<n]) = vanishing n t"
    using prod.distinct_set_conv_list [of "[0..<n]" "\<lambda>i. t - of_nat i"] by (simp add: vanishing_def atLeast0LessThan)
  ultimately show ?thesis
    by (simp add: evaluate_lagrange_coefficients_def lagrange_basis_def o_def)
qed

lemma lagrange_at_inner:
  "length f = n \<Longrightarrow> inner_product f (map (\<lambda>i. lagrange_basis n i t) [0..<n]) = Ok (lagrange_at f t)"
  by (simp add: inner_product_def lagrange_at_def sum_list_sum_nth atLeast0LessThan)

lemma divide_loop_ok:
  assumes len: "length f = n" and m: "m < n" and n: "n \<le> 2 ^ 31"
    and k: "k \<le> n" "q = map (\<lambda>i. if i = m then - (\<Sum>j \<in> {..<k} - {m}. weight n m * inverse (weight n j) * quotient_at f m j)
      else if i < k then quotient_at f m i else 0) [0..<n]"
  shows "divide_loop (weights_of n) f m (f ! m) [k..<n] q = Ok (lin_quotient f m)"
  using k
proof (induction "n - k" arbitrary: k q)
  case 0
  then have "k = n"
    by simp
  then show ?case
    using 0 len by (simp add: lin_quotient_def cong: if_cong)
next
  case (Suc d)
  then have k: "k < n"
    by simp
  let ?q = "\<lambda>k. map (\<lambda>i. if i = m then - (\<Sum>j \<in> {..<k} - {m}. weight n m * inverse (weight n j) * quotient_at f m j)
      else if i < k then quotient_at f m i else 0) [0..<n]"
  have rest: "divide_loop (weights_of n) f m (f ! m) [Suc k..<n] (?q (Suc k)) = Ok (lin_quotient f m)"
    using Suc.hyps(1) [of "Suc k"] Suc.hyps(2) k by simp
  have upt: "[k..<n] = k # [Suc k..<n]"
    using k by (simp add: upt_conv_Cons)
  show ?case
  proof (cases "k = m")
    case True
    then have "{..<Suc k} - {m} = {..<k} - {m}"
      by auto
    then have eq: "?q (Suc k) = ?q k"
      using True by (auto simp: less_Suc_eq)
    show ?thesis
      using rest unfolding upt Suc.prems(2) eq divide_loop.simps(2) if_P [OF True] .
  next
    case False
    have "{..<Suc k} - {m} = insert k ({..<k} - {m})"
      using False by auto
    then have "(?q k)[k := quotient_at f m k, m := ?q k ! m - weight n m * inverse (weight n k) * quotient_at f m k] = ?q (Suc k)"
      using m k False by (intro nth_equalityI) (auto simp: nth_list_update less_Suc_eq)
    then have upd: "(?q k)[k := (f ! k - f ! m) * inverse (of_nat k - of_nat m),
        m := ?q k ! m - weight n m * inverse (weight n k) * ((f ! k - f ! m) * inverse (of_nat k - of_nat m))] = ?q (Suc k)"
      by (simp only: quotient_at_def)
    have guard: "\<not> (2 ^ 31 \<le> k \<or> 2 ^ 31 \<le> m)" and n': "n < 2 ^ 62"
      using k m n by simp_all
    have at: "index_res ((?q k)[k := v]) m = (Ok (?q k ! m) :: _ out)" "index_res f k = (Ok (f ! k) :: _ out)" for v
      using m k len False by simp_all
    show ?thesis
      using rest
      unfolding upt Suc.prems(2) divide_loop.simps(2) if_not_P [OF False] if_not_P [OF guard]
        weights_of_inverted [OF k m False n'] weights_of_barycentric(3) [OF m k] at bind_res.simps Let_def upd .
  qed
qed

lemma divide_by_linear_vanishing_ok:
  assumes "length f = n" "m < n" "n \<le> 2 ^ 31"
  shows "divide_by_linear_vanishing (lagrange_new f) (weights_of n) m = Ok (lagrange_new (lin_quotient f m))"
proof -
  have "map (\<lambda>i. if i = m then - (\<Sum>j \<in> {..<0} - {m}. weight n m * inverse (weight n j) * quotient_at f m j)
      else if i < 0 then quotient_at f m i else 0) [0..<n] = replicate n 0"
    by (rule nth_equalityI) simp_all
  then show ?thesis
    using divide_loop_ok [OF assms, of 0] assms(1,2) by (simp add: divide_by_linear_vanishing_def lagrange_new_def)
qed

end
