(* ===== verification/Ipa_Complete.thy ===== *)
theory Ipa_Complete
  imports Ipa
begin

text \<open>
  The prover and the verifier of the inner-product argument run the same transcript, and the
  verifier's one equation telescopes over the rounds of the prover.
\<close>

section \<open>Linear combinations\<close>

definition comb :: "('s \<Rightarrow> 'v \<Rightarrow> 'v :: ab_group_add) \<Rightarrow> 's list \<Rightarrow> 'v list \<Rightarrow> 'v" where
  "comb mul xs ps = sum_list (map2 mul xs ps)"

lemma comb_simps [simp]:
  "comb mul [] ps = 0" "comb mul xs [] = 0" "comb mul (x # xs) (p # ps) = mul x p + comb mul xs ps"
  by (simp_all add: comb_def)

lemma comb_append:
  "length xs = length ps \<Longrightarrow> comb mul (xs @ ys) (ps @ qs) = comb mul xs ps + comb mul ys qs"
  by (simp add: comb_def)

text \<open>
  What the argument needs of the scalar multiplication of a group. The field itself is an instance:
  inner products are combinations of scalars.
\<close>

locale scalar_mult =
  fixes mul :: "'s :: field \<Rightarrow> 'v \<Rightarrow> 'v :: ab_group_add"
  assumes mul_add_right: "mul a (p + q) = mul a p + mul a q"
    and mul_add_left: "mul (a + b) p = mul a p + mul b p"
    and mul_mul: "mul a (mul b p) = mul (a * b) p"
    and mul_one: "mul 1 p = p"
begin

lemma mul_zero_left: "mul 0 p = 0"
  using mul_add_left [of 0 0 p] by simp

lemma mul_zero_right: "mul a 0 = 0"
  using mul_add_right [of a 0 0] by simp

lemma mul_uminus: "mul (- a) p = - mul a p"
  using mul_add_left [of "- a" a p] by (simp add: mul_zero_left eq_neg_iff_add_eq_0)

lemma mul_uminus_right: "mul a (- p) = - mul a p"
  using mul_add_right [of a "- p" p] by (simp add: mul_zero_right eq_neg_iff_add_eq_0)

lemma mul_diff: "mul (a - b) p = mul a p - mul b p"
  using mul_add_left [of a "- b" p] by (simp add: mul_uminus)

lemma mul_diff_right: "mul a (p - q) = mul a p - mul a q"
  using mul_add_right [of a p "- q"] by (simp add: mul_uminus_right)

lemmas mul_simps = mul_add_right mul_add_left mul_mul mul_one mul_zero_left mul_zero_right mul_uminus
  mul_uminus_right mul_diff mul_diff_right

lemma comb_scale: "comb mul (map ((*) c) xs) ps = mul c (comb mul xs ps)"
  by (induction xs ps rule: list_induct2') (simp_all add: mul_simps)

lemma comb_uminus: "comb mul (map uminus xs) ps = - comb mul xs ps"
  by (induction xs ps rule: list_induct2') (simp_all add: mul_simps)

lemma comb_fold_scalars:
  assumes "length xs = length ys"
  shows "comb mul (map2 (\<lambda>a b. a + c * b) xs ys) ps = comb mul xs ps + mul c (comb mul ys ps)"
  using assms
proof (induction xs ys arbitrary: ps rule: list_induct2)
  case (Cons x xs y ys)
  then show ?case
    by (cases ps) (simp_all add: mul_simps)
qed (simp add: mul_simps)

lemma comb_fold_points:
  assumes "length ps = length qs"
  shows "comb mul xs (map2 (\<lambda>p q. p + mul c q) ps qs) = comb mul xs ps + mul c (comb mul xs qs)"
  using assms
proof (induction ps qs arbitrary: xs rule: list_induct2)
  case (Cons p ps q qs)
  then show ?case
    by (cases xs) (simp_all add: mul_simps mult.commute)
qed (simp add: mul_simps)

text \<open>Both kinds of folding at once: the cross terms are the two points of a round.\<close>

lemma comb_fold:
  assumes "length a_L = h" "length a_R = h" "length p_L = h" "length p_R = h" "x \<noteq> 0"
  shows "comb mul (map2 (\<lambda>a b. a + x * b) a_L a_R) (map2 (\<lambda>p q. p + mul (inverse x) q) p_L p_R) =
    comb mul (a_L @ a_R) (p_L @ p_R) + mul x (comb mul a_R p_L) + mul (inverse x) (comb mul a_L p_R)"
  using assms by (simp add: comb_fold_scalars comb_fold_points comb_append mul_simps)

end

interpretation ip: scalar_mult "(*) :: 'a :: field \<Rightarrow> 'a \<Rightarrow> 'a"
  by unfold_locales (simp_all add: algebra_simps)

lemma inner_product_ok: "length a = length b \<Longrightarrow> inner_product a b = Ok (comb (*) a b)"
  by (simp add: inner_product_def comb_def)

lemma multi_scalar_mul_ok: "length ps = length xs \<Longrightarrow> multi_scalar_mul cv ps xs = Ok (comb (cv_mul cv) xs ps)"
  by (simp add: multi_scalar_mul_def comb_def)

lemma inner_product_commute: "comb (*) a b = comb (*) b (a :: 'a :: field list)"
  by (induction a b rule: list_induct2') (simp_all add: mult.commute)

section \<open>A round\<close>

lemma length_halve: "halve xs = (l, r) \<Longrightarrow> length xs = 2 * h \<Longrightarrow> length l = h \<and> length r = h \<and> xs = l @ r"
  by (auto simp: halve_def)

lemma fold_scalars_ok:
  "length l = n \<Longrightarrow> length r = n \<Longrightarrow> fold_scalars x l r n = Ok (map2 (\<lambda>a b. a + x * b) l r)"
  by (simp add: fold_scalars_def)

lemma fold_point_chunks_eq:
  "length l = length r \<Longrightarrow> 0 < c \<Longrightarrow>
    concat (fold_point_chunks cv x (chunks_of c l) (chunks_of c r)) = map2 (\<lambda>p q. p + cv_mul cv x q) l r"
proof (induction c l arbitrary: r rule: chunks_of.induct)
  case (1 c l)
  show ?case
  proof (cases "l = []")
    case True
    then show ?thesis
      using 1 by (simp add: chunks_of.simps)
  next
    case False
    then have r: "r \<noteq> []"
      using 1 by auto
    have rest: "concat (fold_point_chunks cv x (chunks_of c (drop c l)) (chunks_of c (drop c r))) =
        map2 (\<lambda>p q. p + cv_mul cv x q) (drop c l) (drop c r)"
      using 1 False by simp
    have "map2 (\<lambda>p q. p + cv_mul cv x q) (take c l) (take c r) @ map2 (\<lambda>p q. p + cv_mul cv x q) (drop c l) (drop c r) =
        map2 (\<lambda>p q. p + cv_mul cv x q) l r"
      using 1(2) by (simp flip: map_append take_zip drop_zip)
    then show ?thesis
      using rest 1(2,3) False r by (simp add: chunks_of.simps [of c l] chunks_of.simps [of c r])
  qed
qed

lemma fold_points_ok:
  "length l = length r \<Longrightarrow> l \<noteq> [] \<Longrightarrow> 0 < threads \<Longrightarrow>
    fold_points cv threads x l r = Ok (map2 (\<lambda>p q. p + cv_mul cv x q) l r)"
  by (cases l) (simp_all add: fold_points_def div_ceil_def div_greater_zero_iff fold_point_chunks_eq Let_def)

text \<open>The coefficients with which the verifier weighs the points: a product of inverses per index.\<close>

fun coeffs :: "'fr :: field list \<Rightarrow> 'fr list" where
  "coeffs [] = [1]"
| "coeffs (y # ys) = coeffs ys @ map ((*) y) (coeffs ys)"

lemma length_coeffs [simp]: "length (coeffs ys) = 2 ^ length ys"
  by (induction ys) simp_all

context scalar_mult
begin

lemma comb_coeffs:
  assumes "length p_L = 2 ^ length ys" "length p_R = 2 ^ length ys"
  shows "comb mul (coeffs ys) (map2 (\<lambda>p q. p + mul y q) p_L p_R) = comb mul (coeffs (y # ys)) (p_L @ p_R)"
  using assms by (simp add: comb_fold_points comb_append comb_scale)

end

section \<open>All rounds\<close>

text \<open>No transcript hashes to zero, where the prover would have no inverse of its challenge.\<close>

definition nonzero_challenges :: "('el, 'fr :: field) curve \<Rightarrow> bool" where
  "nonzero_challenges cv \<longleftrightarrow> (\<forall>tr. hash_to_scalar cv tr \<noteq> 0)"

lemma challenge_nonzero: "nonzero_challenges cv \<Longrightarrow> challenge_scalar cv lab tr = (x, tr') \<Longrightarrow> x \<noteq> 0"
  by (auto simp: nonzero_challenges_def challenge_scalar_def Let_def)

text \<open>The commitment that a round leaves to prove.\<close>

definition claim ::
  "('el :: ab_group_add, 'fr :: field) curve \<Rightarrow> 'el \<Rightarrow> 'fr list \<Rightarrow> 'fr list \<Rightarrow> 'el list \<Rightarrow> 'el"
where
  "claim cv Q a b G = comb (cv_mul cv) a G + cv_mul cv (comb (*) a b) Q"

lemma round_ok:
  assumes m: "scalar_mult (cv_mul cv)" and t: "0 < threads" "nonzero_challenges cv"
    and len: "length a = 2 * 2 ^ k" "length b = 2 * 2 ^ k" "length G = 2 * 2 ^ k"
  shows "\<exists>L R x tr' a' b' G_L G_R b_L b_R.
    create_loop cv threads Q (Suc k) a b G tr Ls Rs =
      create_loop cv threads Q k a' b' (map2 (\<lambda>p q. p + cv_mul cv (inverse x) q) G_L G_R) tr' (Ls @ [L]) (Rs @ [R]) \<and>
    challenge_scalar cv (label ''x'') (append_point cv (label ''R'') R (append_point cv (label ''L'') L tr)) = (x, tr') \<and>
    length a' = 2 ^ k \<and> b' = map2 (\<lambda>p q. p + inverse x * q) b_L b_R \<and>
    G = G_L @ G_R \<and> b = b_L @ b_R \<and> length G_L = 2 ^ k \<and> length G_R = 2 ^ k \<and> length b_L = 2 ^ k \<and> length b_R = 2 ^ k \<and>
    claim cv Q a' b' (map2 (\<lambda>p q. p + cv_mul cv (inverse x) q) G_L G_R) =
      claim cv Q a b G + cv_mul cv x L + cv_mul cv (inverse x) R"
proof -
  obtain a_L a_R b_L b_R G_L G_R where h: "halve a = (a_L, a_R)" "halve b = (b_L, b_R)" "halve G = (G_L, G_R)"
    by (metis surj_pair)
  note l = length_halve [OF h(1) len(1)] length_halve [OF h(2) len(2)] length_halve [OF h(3) len(3)]
  define L where "L = comb (cv_mul cv) a_R G_L + cv_mul cv (comb (*) a_R b_L) Q"
  define R where "R = comb (cv_mul cv) a_L G_R + cv_mul cv (comb (*) a_L b_R) Q"
  have LR: "multi_scalar_mul cv (G_L @ [Q]) (a_R @ [comb (*) a_R b_L]) = Ok L"
    "multi_scalar_mul cv (G_R @ [Q]) (a_L @ [comb (*) a_L b_R]) = Ok R"
    using l by (simp_all add: multi_scalar_mul_ok comb_append L_def R_def)
  obtain x tr' where x: "challenge_scalar cv (label ''x'') (append_point cv (label ''R'') R (append_point cv (label ''L'') L tr)) = (x, tr')"
    by (metis surj_pair)
  have nz: "x \<noteq> 0"
    by (rule challenge_nonzero [OF t(2) x])
  let ?a = "map2 (\<lambda>p q. p + x * q) a_L a_R" let ?b = "map2 (\<lambda>p q. p + inverse x * q) b_L b_R"
  let ?G = "map2 (\<lambda>p q. p + cv_mul cv (inverse x) q) G_L G_R"
  have lens: "length a_L = 2 ^ k" "length a_R = 2 ^ k" "length b_L = 2 ^ k" "length b_R = 2 ^ k" "length G_L = 2 ^ k" "length G_R = 2 ^ k"
    using l by simp_all
  then have ne: "G_L \<noteq> []"
    by auto
  have step: "create_loop cv threads Q (Suc k) a b G tr Ls Rs = create_loop cv threads Q k ?a ?b ?G tr' (Ls @ [L]) (Rs @ [R])"
    using lens ne t(1) nz by (simp add: h inner_product_ok LR x invert_def fold_points_ok fold_scalars_ok)
  have "claim cv Q ?a ?b ?G = claim cv Q a b G + cv_mul cv x L + cv_mul cv (inverse x) R"
  proof -
    have "comb (cv_mul cv) ?a ?G =
        comb (cv_mul cv) a G + cv_mul cv x (comb (cv_mul cv) a_R G_L) + cv_mul cv (inverse x) (comb (cv_mul cv) a_L G_R)"
      using scalar_mult.comb_fold [OF m, of a_L "2 ^ k" a_R G_L G_R x] l nz by simp
    moreover have "comb (*) ?a ?b =
        comb (*) a b + x * comb (*) a_R b_L + inverse x * comb (*) a_L b_R"
      using ip.comb_fold [of a_L "2 ^ k" a_R b_L b_R x] l nz by simp
    ultimately show ?thesis
      by (simp add: claim_def L_def R_def scalar_mult.mul_simps [OF m])
  qed
  then show ?thesis
    using step x l by (intro exI [of _ L] exI [of _ R] exI [of _ x] exI [of _ tr'] exI [of _ ?a] exI [of _ ?b]
        exI [of _ G_L] exI [of _ G_R] exI [of _ b_L] exI [of _ b_R]) simp
qed

lemma create_loop_ok:
  assumes m: "scalar_mult (cv_mul cv)" and t: "0 < threads" "nonzero_challenges cv"
    and len: "length a = 2 ^ k" "length b = 2 ^ k" "length G = 2 ^ k"
  shows "\<exists>ls rs a0 tr' xs. create_loop cv threads Q k a b G tr Ls Rs = Ok (\<lparr>L_vec = Ls @ ls, R_vec = Rs @ rs, ipa_a = a0\<rparr>, tr') \<and>
    length ls = k \<and> length rs = k \<and> length xs = k \<and> generate_challenges cv ls rs tr = (xs, tr') \<and>
    claim cv Q a b G + comb (cv_mul cv) xs ls + comb (cv_mul cv) (map inverse xs) rs =
      cv_mul cv a0 (comb (cv_mul cv) (coeffs (map inverse xs)) G) + cv_mul cv (a0 * comb (*) (coeffs (map inverse xs)) b) Q"
  using len
proof (induction k arbitrary: a b G tr Ls Rs)
  case 0
  then obtain a0 b0 g where "a = [a0]" "b = [b0]" "G = [g]"
    by (auto simp: length_Suc_conv)
  then show ?case
    by (intro exI [of _ "[]"] exI [of _ a0] exI [of _ tr]) (simp add: claim_def scalar_mult.mul_simps [OF m])
next
  case (Suc k)
  have len: "length a = 2 * 2 ^ k" "length b = 2 * 2 ^ k" "length G = 2 * 2 ^ k"
    using Suc.prems by simp_all
  obtain L R x tr1 a' b' G_L G_R b_L b_R where r:
    "create_loop cv threads Q (Suc k) a b G tr Ls Rs =
      create_loop cv threads Q k a' b' (map2 (\<lambda>p q. p + cv_mul cv (inverse x) q) G_L G_R) tr1 (Ls @ [L]) (Rs @ [R])"
    "challenge_scalar cv (label ''x'') (append_point cv (label ''R'') R (append_point cv (label ''L'') L tr)) = (x, tr1)"
    "length a' = 2 ^ k" "b' = map2 (\<lambda>p q. p + inverse x * q) b_L b_R"
    "G = G_L @ G_R" "b = b_L @ b_R" "length G_L = 2 ^ k" "length G_R = 2 ^ k" "length b_L = 2 ^ k" "length b_R = 2 ^ k"
    "claim cv Q a' b' (map2 (\<lambda>p q. p + cv_mul cv (inverse x) q) G_L G_R) =
      claim cv Q a b G + cv_mul cv x L + cv_mul cv (inverse x) R"
    using round_ok [OF m t len] by metis
  let ?G = "map2 (\<lambda>p q. p + cv_mul cv (inverse x) q) G_L G_R"
  have "length b' = 2 ^ k" "length ?G = 2 ^ k"
    using r by simp_all
  from Suc.IH [OF r(3) this, of tr1 "Ls @ [L]" "Rs @ [R]"] obtain ls rs a0 tr' xs where IH:
    "create_loop cv threads Q k a' b' ?G tr1 (Ls @ [L]) (Rs @ [R]) = Ok (\<lparr>L_vec = Ls @ L # ls, R_vec = Rs @ R # rs, ipa_a = a0\<rparr>, tr')"
    "length ls = k" "length rs = k" "length xs = k" "generate_challenges cv ls rs tr1 = (xs, tr')"
    "claim cv Q a' b' ?G + comb (cv_mul cv) xs ls + comb (cv_mul cv) (map inverse xs) rs =
      cv_mul cv a0 (comb (cv_mul cv) (coeffs (map inverse xs)) ?G) + cv_mul cv (a0 * comb (*) (coeffs (map inverse xs)) b') Q"
    by auto
  let ?c = "coeffs (map inverse (x # xs))"
  have G: "comb (cv_mul cv) (coeffs (map inverse xs)) ?G = comb (cv_mul cv) ?c G"
    using scalar_mult.comb_coeffs [OF m, of G_L "map inverse xs" G_R "inverse x"] r IH(4) by simp
  have b: "comb (*) (coeffs (map inverse xs)) b' = comb (*) ?c b"
    using ip.comb_coeffs [of b_L "map inverse xs" b_R "inverse x"] r IH(4) by simp
  have "claim cv Q a b G + comb (cv_mul cv) (x # xs) (L # ls) + comb (cv_mul cv) (map inverse (x # xs)) (R # rs) =
      claim cv Q a' b' ?G + comb (cv_mul cv) xs ls + comb (cv_mul cv) (map inverse xs) rs"
    unfolding r(11) by (simp add: algebra_simps)
  also have "\<dots> = cv_mul cv a0 (comb (cv_mul cv) ?c G) + cv_mul cv (a0 * comb (*) ?c b) Q"
    unfolding IH(6) G b ..
  finally have eq: "claim cv Q a b G + comb (cv_mul cv) (x # xs) (L # ls) + comb (cv_mul cv) (map inverse (x # xs)) (R # rs) =
      cv_mul cv a0 (comb (cv_mul cv) ?c G) + cv_mul cv (a0 * comb (*) ?c b) Q" .
  have "generate_challenges cv (L # ls) (R # rs) tr = (x # xs, tr')"
    using r(2) IH(5) by simp
  then show ?case
    using r(1) IH(1-4) eq by (intro exI [of _ "L # ls"] exI [of _ "R # rs"] exI [of _ a0] exI [of _ tr'] exI [of _ "x # xs"]) simp
qed

section \<open>The verifier's equation\<close>

lemma to_bits_Suc: "k < 64 \<Longrightarrow> to_bits i (Suc k) = i div 2 ^ k mod 2 # to_bits i k"
  by (simp add: to_bits_def)

lemma to_bits_high:
  assumes "k \<le> 64"
  shows "to_bits (i + 2 ^ k) k = to_bits i k"
proof -
  have "(i + 2 ^ k) div 2 ^ j mod 2 = i div 2 ^ j mod 2" if "j < k" for j
  proof -
    have "(2 :: nat) ^ k = 2 ^ j * (2 * 2 ^ (k - Suc j))"
      using that by (simp flip: power_Suc power_add)
    then have "(i + 2 ^ k) div 2 ^ j = i div 2 ^ j + 2 * 2 ^ (k - Suc j)"
      by simp
    then show ?thesis
      by simp
  qed
  then show ?thesis
    using assms by (simp add: to_bits_def)
qed

lemma challenge_product_eq:
  assumes "length ys = k" "i < 2 ^ k" "k \<le> 64"
  shows "challenge_product ys (to_bits i k) b = b * coeffs ys ! i"
  using assms
proof (induction ys arbitrary: k i b)
  case Nil
  then show ?case
    by (simp add: challenge_product_def to_bits_def)
next
  case (Cons y ys)
  let ?k = "length ys"
  have k: "k = Suc ?k" "?k < 64"
    using Cons.prems by simp_all
  have step: "challenge_product (y # ys) (bit # bits) b = challenge_product ys bits (if bit = 1 then b * y else b)" for bit bits
    by (simp add: challenge_product_def)
  show ?case
  proof (cases "i < 2 ^ ?k")
    case True
    then show ?thesis
      using Cons.IH [of ?k i b] k(2) by (simp add: k(1) to_bits_Suc step nth_append)
  next
    case False
    then obtain j where j: "i = j + 2 ^ ?k"
      using less_eqE [of "2 ^ ?k" i] by (auto simp: add.commute)
    have "j < 2 ^ ?k"
      using Cons.prems(2) by (simp add: j k(1))
    then show ?thesis
      using Cons.IH [of ?k j "b * y"] k(2) by (simp add: j k(1) to_bits_Suc to_bits_high step nth_append)
  qed
qed

lemma verifier_coefficients:
  assumes "length ys = k" "k \<le> 64"
  shows "map (\<lambda>i. challenge_product ys (to_bits i k) (- 1)) [0..<2 ^ k] = map uminus (coeffs ys)"
  using assms by (intro nth_equalityI) (simp_all add: challenge_product_eq)

text \<open>The proof made for a vector is accepted exactly when the commitment is that of the vector.\<close>

lemma ipa_ok:
  assumes m: "scalar_mult (cv_mul cv)" and t: "0 < threads" "nonzero_challenges cv"
    and len: "crs_n crs = 2 ^ k" "k < 64" "length (crs_G crs) = 2 ^ k" "length a = 2 ^ k" "length b = 2 ^ k"
  shows "\<exists>proof tr'. ipa_create cv threads tr crs a a_comm b z = Ok (proof, tr') \<and>
    verify_multiexp cv proof tr crs b a_comm z (comb (*) a b) = Ok (a_comm = comb (cv_mul cv) a (crs_G crs))"
proof -
  let ?mul = "cv_mul cv" let ?G = "crs_G crs" let ?out = "comb (*) a b"
  obtain w tr1 where w: "challenge_scalar cv (label ''w'') (ipa_start cv a_comm z ?out (domain_sep (label ''ipa'') tr)) = (w, tr1)"
    by (metis surj_pair)
  let ?Q = "?mul w (crs_Q crs)"
  obtain ls rs a0 tr' xs where r: "create_loop cv threads ?Q k a b ?G tr1 [] [] = Ok (\<lparr>L_vec = ls, R_vec = rs, ipa_a = a0\<rparr>, tr')"
    "length ls = k" "length rs = k" "length xs = k" "generate_challenges cv ls rs tr1 = (xs, tr')"
    "claim cv ?Q a b ?G + comb ?mul xs ls + comb ?mul (map inverse xs) rs =
      ?mul a0 (comb ?mul (coeffs (map inverse xs)) ?G) + ?mul (a0 * comb (*) (coeffs (map inverse xs)) b) ?Q"
    using create_loop_ok [OF m t len(4,5,3), of ?Q tr1 "[]" "[]"] by auto
  let ?proof = "\<lparr>L_vec = ls, R_vec = rs, ipa_a = a0\<rparr>" let ?c = "coeffs (map inverse xs)"
  have create: "ipa_create cv threads tr crs a a_comm b z = Ok (?proof, tr')"
    using len r(1) by (simp add: ipa_create_def Let_def is_power_of_two_def log2_def inner_product_ok w)
  have b_i: "map (\<lambda>i. challenge_product (map inverse xs) (to_bits i k) (- 1)) [0..<2 ^ k] = map uminus ?c"
    using r(4) len(2) by (intro verifier_coefficients) simp_all
  have b_0: "inner_product b (map uminus ?c) = Ok (- comb (*) ?c b)"
    using len r(4) by (simp add: inner_product_ok ip.comb_uminus inner_product_commute [of b "map uminus ?c"])
  let ?q = "w * (?out + a0 * - comb (*) ?c b)"
  have "multi_scalar_mul cv (ls @ rs @ [a_comm, crs_Q crs] @ ?G)
      (xs @ map inverse xs @ [1, ?q] @ map ((*) a0) (map uminus ?c)) =
    Ok (comb ?mul xs ls + (comb ?mul (map inverse xs) rs + (a_comm + (?mul ?q (crs_Q crs) - ?mul a0 (comb ?mul ?c ?G)))))"
    using r(2-4) len(3)
    by (simp add: multi_scalar_mul_ok comb_append scalar_mult.comb_scale [OF m] scalar_mult.comb_uminus [OF m]
        scalar_mult.mul_simps [OF m] del: map_map)
  moreover have "comb ?mul xs ls + (comb ?mul (map inverse xs) rs + (a_comm + (?mul ?q (crs_Q crs) - ?mul a0 (comb ?mul ?c ?G)))) =
      a_comm - comb ?mul a ?G"
  proof -
    have q: "?mul ?q (crs_Q crs) = ?mul ?out ?Q - ?mul (a0 * comb (*) ?c b) ?Q"
    proof -
      have "?q = ?out * w - a0 * comb (*) ?c b * w"
        by (simp add: algebra_simps)
      then show ?thesis
        by (simp only: scalar_mult.mul_diff [OF m] scalar_mult.mul_mul [OF m])
    qed
    have "comb ?mul xs ls + comb ?mul (map inverse xs) rs =
        ?mul a0 (comb ?mul ?c ?G) + ?mul (a0 * comb (*) ?c b) ?Q - claim cv ?Q a b ?G"
      unfolding r(6) [symmetric] by simp
    then show ?thesis
      unfolding q claim_def by (simp only: add.assoc [symmetric]) (simp only: add_diff_eq diff_diff_eq2, simp)
  qed
  ultimately have "multi_scalar_mul cv (ls @ rs @ [a_comm, crs_Q crs] @ ?G)
      (xs @ map inverse xs @ [1, ?q] @ map ((*) a0) (map uminus ?c)) = Ok (a_comm - comb ?mul a ?G)"
    by (simp only:)
  then have "verify_multiexp cv ?proof tr crs b a_comm z ?out = Ok (a_comm = comb ?mul a ?G)"
    using r(2,4) len(1,2) by (simp add: verify_multiexp_def Let_def w r(5) b_i b_0 del: map_map)
  then show ?thesis
    using create by blast
qed

end
