(* ===== verification/Multiproof.thy ===== *)
theory Multiproof
  imports Ipa_Complete Verifier "HOL-Library.Multiset"
begin

text \<open>
  \<open>ipa-multipoint/src/multiproof.rs\<close>: one proof for many openings of committed polynomials, its prover and
  its verifier. A \<open>LagrangeBasis\<close> in a query is the list of its evaluations (\<open>Verifier\<close>).
\<close>

section \<open>Prover and verifier\<close>

definition verifier_query_of :: "('el, 'fr :: field) prover_query \<Rightarrow> ('el, 'fr) verifier_query" where
  "verifier_query_of pq = \<lparr>vq_commitment = pq_commitment pq, vq_point = of_nat (pq_point pq), vq_result = pq_result pq\<rparr>"

text \<open>
  The trait \<open>QueryData\<close>: commitment, point and result. Every encoding is 32 bytes long, so the 99 bytes
  of a query are filled exactly.
\<close>

type_synonym ('el, 'fr) query_data = "'el \<times> 'fr \<times> 'fr"

definition prover_data :: "('el, 'fr :: field) prover_query \<Rightarrow> ('el, 'fr) query_data" where
  "prover_data q = (pq_commitment q, of_nat (pq_point q), pq_result q)"

definition verifier_data :: "('el, 'fr) verifier_query \<Rightarrow> ('el, 'fr) query_data" where
  "verifier_data q = (vq_commitment q, vq_point q, vq_result q)"

definition record_query :: "('el, 'fr) curve \<Rightarrow> ('el, 'fr) query_data \<Rightarrow> bytes" where
  "record_query cv = (\<lambda>(c, z, y).
     label ''C'' @ cv_bytes cv c @ label ''z'' @ cv_fr_bytes cv z @ label ''y'' @ cv_fr_bytes cv y)"

definition record_query_transcript :: "('el, 'fr) curve \<Rightarrow> ('el, 'fr) query_data list \<Rightarrow> transcript \<Rightarrow> transcript" where
  "record_query_transcript cv queries tr = tr @ concat (map (record_query cv) queries)"

text \<open>
  The queries by point. The iteration order of the hash map is a parameter \<open>ord\<close>, applied to the
  groups in the order of their first query.
\<close>

type_synonym ('el, 'fr) groups = "(nat \<times> (('el, 'fr) prover_query \<times> 'fr) list) list"

fun group_insert :: "nat \<Rightarrow> 'q \<Rightarrow> (nat \<times> 'q list) list \<Rightarrow> (nat \<times> 'q list) list" where
  "group_insert p x [] = [(p, [x])]"
| "group_insert p x ((p', xs) # gs) = (if p' = p then (p', xs @ [x]) # gs else (p', xs) # group_insert p x gs)"

definition group_prover_queries :: "('el, 'fr) prover_query list \<Rightarrow> 'fr list \<Rightarrow> ('el, 'fr) groups" where
  "group_prover_queries prover_queries challenges =
     fold (\<lambda>(q, c). group_insert (pq_point q) (q, c)) (zip prover_queries challenges) []"

fun lagrange_sum :: "'fr :: field lagrange list \<Rightarrow> 'fr lagrange \<Rightarrow> 'fr lagrange out" where
  "lagrange_sum [] acc = Ok acc"
| "lagrange_sum (x # xs) acc = bind_res (lagrange_add acc x) (lagrange_sum xs)"

definition aggregate :: "nat \<times> (('el, 'fr :: field) prover_query \<times> 'fr) list \<Rightarrow> (nat \<times> 'fr lagrange) out" where
  "aggregate = (\<lambda>(point, queries_challenges).
     case map (\<lambda>(q, c). lagrange_scale (lagrange_new (pq_poly q)) c) queries_challenges of
       [] \<Rightarrow> Panic
     | p # ps \<Rightarrow> map_res (\<lambda>aggregated. (point, aggregated)) (lagrange_sum ps p))"

definition open_point_outside_of_domain ::
  "('el :: ab_group_add, 'fr :: field) curve \<Rightarrow> nat \<Rightarrow> 'el crs \<Rightarrow> 'fr weights \<Rightarrow> transcript \<Rightarrow> 'fr lagrange \<Rightarrow> 'el \<Rightarrow> 'fr \<Rightarrow>
   (('el, 'fr) ipa_proof \<times> transcript) out"
where
  "open_point_outside_of_domain cv threads crs w tr polynomial commitment z =
     bind_res (evaluate_lagrange_coefficients w (crs_n crs) z) (\<lambda>b.
     ipa_create cv threads tr crs (lb_values polynomial) commitment b z)"

record ('el, 'fr) multi_point_proof =
  open_proof :: "('el, 'fr) ipa_proof"
  g_x_comm :: 'el

text \<open>Step 1: the challenge \<open>r\<close> and one aggregated polynomial for every point.\<close>

definition aggregate_queries ::
  "('el :: ab_group_add, 'fr :: field) curve \<Rightarrow> nat \<Rightarrow> (('el, 'fr) groups \<Rightarrow> ('el, 'fr) groups) \<Rightarrow>
   ('el, 'fr) prover_query list \<Rightarrow> transcript \<Rightarrow> ((nat \<times> 'fr lagrange) list \<times> transcript) out"
where
  "aggregate_queries cv threads ord queries tr =
     (let (r, tr) = challenge_scalar cv (label ''r'') (record_query_transcript cv (map prover_data queries) tr) in
      bind_res (powers_of_par threads r (length queries)) (\<lambda>powers_of_r.
      bind_res (par_chunks threads (ord (group_prover_queries queries powers_of_r))) (\<lambda>chunks.
      map_res (\<lambda>aggregated. (concat aggregated, tr)) (map_collect (map_collect aggregate) chunks))))"

definition multipoint_open ::
  "('el :: ab_group_add, 'fr :: field) curve \<Rightarrow> nat \<Rightarrow> (('el, 'fr) groups \<Rightarrow> ('el, 'fr) groups) \<Rightarrow> 'el crs \<Rightarrow> 'fr weights \<Rightarrow>
   transcript \<Rightarrow> ('el, 'fr) prover_query list \<Rightarrow> ('el, 'fr) multi_point_proof out"
where
  "multipoint_open cv threads ord crs w tr queries =
     bind_res (aggregate_queries cv threads ord queries (domain_sep (label ''multiproof'') tr)) (\<lambda>(aggregated, tr).
     bind_res (map_collect (\<lambda>(point, agg_f_x). divide_by_linear_vanishing agg_f_x w point) aggregated) (\<lambda>quotients.
     bind_res (lagrange_sum quotients lagrange_zero) (\<lambda>g_x.
     bind_res (commit_lagrange_poly cv crs g_x) (\<lambda>g_x_comm.
     let (t, tr) = challenge_scalar cv (label ''t'') (append_point cv (label ''D'') g_x_comm tr);
         g1_den = map (\<lambda>(z, _). inverse (t - of_nat z)) aggregated;
         terms = map2 (\<lambda>(_, agg_f_x) den_inv. lagrange_new (map (\<lambda>coeff. den_inv * coeff) (lb_values agg_f_x))) aggregated g1_den
     in bind_res (lagrange_sum terms lagrange_zero) (\<lambda>g1_x.
        bind_res (commit_lagrange_poly cv crs g1_x) (\<lambda>g1_comm.
        bind_res (lagrange_sub g1_x g_x) (\<lambda>g_3_x.
        map_res (\<lambda>(g_3_ipa, _). \<lparr>open_proof = g_3_ipa, g_x_comm = g_x_comm\<rparr>)
          (open_point_outside_of_domain cv threads crs w (append_point cv (label ''E'') g1_comm tr) g_3_x
             (g1_comm - g_x_comm) t))))))))"

definition multi_scalar_mul_par ::
  "('el :: ab_group_add, 'fr :: field) curve \<Rightarrow> nat \<Rightarrow> 'el list \<Rightarrow> 'fr list \<Rightarrow> 'el out"
where
  "multi_scalar_mul_par cv threads bases scalars =
     (let chunk_size = div_ceil (length bases) threads
      in if threads = 0 \<or> chunk_size = 0 then Panic
         else map_res sum_list (map_collect (\<lambda>(bs, ss). multi_scalar_mul cv bs ss)
                (zip (chunks_of chunk_size bases) (chunks_of chunk_size scalars))))"

definition multipoint_check ::
  "('el :: ab_group_add, 'fr :: field) curve \<Rightarrow> nat \<Rightarrow> 'el crs \<Rightarrow> 'fr weights \<Rightarrow> ('el, 'fr) multi_point_proof \<Rightarrow>
   ('el, 'fr) verifier_query list \<Rightarrow> transcript \<Rightarrow> bool out"
where
  "multipoint_check cv threads crs w proof queries tr =
     (let tr = record_query_transcript cv (map verifier_data queries) (domain_sep (label ''multiproof'') tr);
          (r, tr) = challenge_scalar cv (label ''r'') tr
      in bind_res (powers_of_par threads r (length queries)) (\<lambda>powers_of_r.
         let (t, tr) = challenge_scalar cv (label ''t'') (append_point cv (label ''D'') (g_x_comm proof) tr);
             g2_den = map (\<lambda>q. inverse (t - vq_point q)) queries;
             helper_scalars = map2 (\<lambda>r_i den_inv. den_inv * r_i) powers_of_r g2_den;
             g2_t = sum_list (map2 (\<lambda>h q. h * vq_result q) helper_scalars queries)
         in bind_res (multi_scalar_mul_par cv threads (map vq_commitment queries) helper_scalars) (\<lambda>g1_comm.
            let tr = append_point cv (label ''E'') g1_comm tr
            in bind_res (evaluate_lagrange_coefficients w (crs_n crs) t) (\<lambda>b.
               verify_multiexp cv (open_proof proof) tr crs b (g1_comm - g_x_comm proof) t g2_t))))"

section \<open>Sums of vectors\<close>

definition vec_sum :: "nat \<Rightarrow> 'fr :: field list list \<Rightarrow> 'fr list" where
  "vec_sum n vs = map (\<lambda>i. \<Sum>v\<leftarrow>vs. v ! i) [0..<n]"

lemma length_vec_sum [simp]: "length (vec_sum n vs) = n"
  by (simp add: vec_sum_def)

lemma nth_vec_sum [simp]: "i < n \<Longrightarrow> vec_sum n vs ! i = (\<Sum>v\<leftarrow>vs. v ! i)"
  by (simp add: vec_sum_def)

lemma vec_sum_Cons: "length v = n \<Longrightarrow> vec_sum n (v # vs) = map2 (+) v (vec_sum n vs)"
  by (rule nth_equalityI) simp_all

lemma vec_sum_one: "length v = n \<Longrightarrow> vec_sum n [v] = v"
  by (rule nth_equalityI) simp_all

context scalar_mult
begin

lemma comb_add: "length xs = length ys \<Longrightarrow> comb mul (map2 (+) xs ys) ps = comb mul xs ps + comb mul ys ps"
  using comb_fold_scalars [of xs ys 1 ps] by (simp add: mul_one)

lemma comb_vec_sum:
  "(\<And>v. v \<in> set vs \<Longrightarrow> length v = n) \<Longrightarrow> comb mul (vec_sum n vs) ps = (\<Sum>v\<leftarrow>vs. comb mul v ps)"
proof (induction vs)
  case Nil
  have "comb mul (replicate n 0) ps = 0"
  proof (induction n arbitrary: ps)
    case (Suc n)
    then show ?case
      by (cases ps) (simp_all add: mul_simps)
  qed simp
  then show ?case
    by (simp add: vec_sum_def map_replicate_const)
next
  case (Cons v vs)
  then show ?case
    by (simp add: vec_sum_Cons comb_add)
qed

end

lemma lagrange_at_comb:
  "length f = n \<Longrightarrow> lagrange_at f t = comb (*) f (map (\<lambda>i. lagrange_basis n i t) [0..<n])"
  by (simp add: lagrange_at_def comb_def sum_list_sum_nth atLeast0LessThan)

lemma lagrange_sum_ok:
  assumes "0 < n" "length v = n" "\<And>u. u \<in> set us \<Longrightarrow> length u = n"
  shows "lagrange_sum (map lagrange_new us) (lagrange_new v) = Ok (lagrange_new (vec_sum n (v # us)))"
  using assms
proof (induction us arbitrary: v)
  case Nil
  then show ?case
    by (simp add: vec_sum_one)
next
  case (Cons u us)
  have "lagrange_add (lagrange_new v) (lagrange_new u) = Ok (lagrange_new (map2 (+) v u))"
    using Cons.prems by (simp add: lagrange_add_def lagrange_new_def)
  moreover have "vec_sum n (map2 (+) v u # us) = vec_sum n (v # u # us)"
    using Cons.prems by (intro nth_equalityI) (simp_all add: add.assoc)
  ultimately show ?case
    using Cons.IH [of "map2 (+) v u"] Cons.prems by simp
qed

lemma lagrange_sum_zero:
  assumes "0 < n" "us \<noteq> []" "\<And>u. u \<in> set us \<Longrightarrow> length u = n"
  shows "lagrange_sum (map lagrange_new us) lagrange_zero = Ok (lagrange_new (vec_sum n us))"
  using assms lagrange_sum_ok [of n "hd us" "tl us"]
  by (cases us) (simp_all add: lagrange_add_def lagrange_zero_def)

section \<open>Groups\<close>

text \<open>A sum over the groups is the sum over the queries.\<close>

definition group_sum :: "(nat \<Rightarrow> 'q \<Rightarrow> 'v :: comm_monoid_add) \<Rightarrow> (nat \<times> 'q list) list \<Rightarrow> 'v" where
  "group_sum h gs = (\<Sum>(p, xs)\<leftarrow>gs. \<Sum>x\<leftarrow>xs. h p x)"

lemma group_sum_insert: "group_sum h (group_insert p x gs) = group_sum h gs + h p x"
  by (induction p x gs rule: group_insert.induct) (simp_all add: group_sum_def ac_simps)

lemma group_sum_queries:
  fixes qs :: "('el, 'fr) prover_query list" and cs :: "'fr list"
  shows "group_sum h (group_prover_queries qs cs) = (\<Sum>(q, c)\<leftarrow>zip qs cs. h (pq_point q) (q, c))"
proof -
  have "group_sum h (fold (\<lambda>(q, c). group_insert (pq_point q) (q, c)) xs gs) =
      group_sum h gs + (\<Sum>(q, c)\<leftarrow>xs. h (pq_point q) (q, c))" for xs :: "(('el, 'fr) prover_query \<times> 'fr) list" and gs
    by (induction xs arbitrary: gs) (auto simp: group_sum_insert ac_simps)
  then show ?thesis
    by (simp add: group_prover_queries_def group_sum_def)
qed

text \<open>Every group is one of queries, and not empty.\<close>

definition groups_ok :: "(('el, 'fr) prover_query \<times> 'fr) set \<Rightarrow> ('el, 'fr) groups \<Rightarrow> bool" where
  "groups_ok Q gs \<longleftrightarrow> (\<forall>(p, xs) \<in> set gs. xs \<noteq> [] \<and> set xs \<subseteq> Q \<and> (\<forall>(q, c) \<in> set xs. pq_point q = p))"

lemma groups_ok_insert:
  "groups_ok Q gs \<Longrightarrow> x \<in> Q \<Longrightarrow> pq_point (fst x) = p \<Longrightarrow> groups_ok Q (group_insert p x gs)"
proof (induction p x gs rule: group_insert.induct)
  case (1 p x)
  then show ?case
    by (simp add: groups_ok_def case_prod_unfold)
next
  case (2 p x p' xs gs)
  then show ?case
    by (simp add: groups_ok_def case_prod_unfold)
qed

lemma group_insert_not_Nil [simp]: "group_insert p x gs \<noteq> []"
  by (cases "(p, x, gs)" rule: group_insert.cases) auto

lemma groups_ok_queries:
  fixes qs :: "('el, 'fr) prover_query list" and cs :: "'fr list"
  shows "groups_ok (set (zip qs cs)) (group_prover_queries qs cs)" "zip qs cs \<noteq> [] \<Longrightarrow> group_prover_queries qs cs \<noteq> []"
proof -
  define f where "f = (\<lambda>(q :: ('el, 'fr) prover_query, c :: 'fr). group_insert (pq_point q) (q, c))"
  have ok: "groups_ok Q (fold f xs gs)" if "groups_ok Q gs" "set xs \<subseteq> Q" for Q gs xs
    using that
  proof (induction xs arbitrary: gs)
    case (Cons x xs)
    have "groups_ok Q (f x gs)"
      using groups_ok_insert [OF Cons.prems(1), of x "pq_point (fst x)"] Cons.prems(2) by (simp add: f_def case_prod_unfold)
    then show ?case
      using Cons by simp
  qed simp
  have ne: "fold f xs gs \<noteq> []" if "gs \<noteq> [] \<or> xs \<noteq> []" for gs xs
    using that
  proof (induction xs arbitrary: gs)
    case (Cons x xs)
    have "f x gs \<noteq> []"
      by (simp add: f_def case_prod_unfold)
    then show ?case
      using Cons.IH by simp
  qed simp
  have eq: "group_prover_queries qs cs = fold f (zip qs cs) []"
    by (simp add: group_prover_queries_def f_def)
  show "groups_ok (set (zip qs cs)) (group_prover_queries qs cs)"
    unfolding eq by (rule ok) (simp_all add: groups_ok_def)
  show "zip qs cs \<noteq> [] \<Longrightarrow> group_prover_queries qs cs \<noteq> []"
    unfolding eq by (rule ne) simp
qed

lemma sum_list_mset:
  fixes f :: "'a \<Rightarrow> 'b :: comm_monoid_add"
  shows "mset xs = mset ys \<Longrightarrow> (\<Sum>x\<leftarrow>xs. f x) = (\<Sum>x\<leftarrow>ys. f x)"
proof -
  have "(\<Sum>z\<leftarrow>zs. f z) = \<Sum>\<^sub># (image_mset f (mset zs))" for zs
    by (simp only: mset_map [symmetric] sum_mset_sum_list)
  then show "mset xs = mset ys \<Longrightarrow> (\<Sum>x\<leftarrow>xs. f x) = (\<Sum>x\<leftarrow>ys. f x)"
    by (simp only:)
qed

definition shuffles :: "('a list \<Rightarrow> 'a list) \<Rightarrow> bool" where
  "shuffles ord \<longleftrightarrow> (\<forall>xs. mset (ord xs) = mset xs)"

lemma shuffles_set: "shuffles ord \<Longrightarrow> set (ord xs) = set xs"
  by (metis shuffles_def set_mset_mset)

lemma shuffles_sum:
  fixes f :: "'a \<Rightarrow> 'b :: comm_monoid_add"
  shows "shuffles ord \<Longrightarrow> (\<Sum>x\<leftarrow>ord xs. f x) = (\<Sum>x\<leftarrow>xs. f x)"
  unfolding shuffles_def by (blast intro: sum_list_mset)

text \<open>The aggregated polynomial of a group.\<close>

definition group_poly :: "nat \<Rightarrow> (('el, 'fr :: field) prover_query \<times> 'fr) list \<Rightarrow> 'fr list" where
  "group_poly n xs = vec_sum n (map (\<lambda>(q, c). map (\<lambda>v. v * c) (pq_poly q)) xs)"

lemma length_group_poly [simp]: "length (group_poly n xs) = n"
  by (simp add: group_poly_def)

lemma aggregate_ok:
  assumes "0 < n" "xs \<noteq> []" "\<And>q c. (q, c) \<in> set xs \<Longrightarrow> length (pq_poly q) = n"
  shows "aggregate (p, xs) = Ok (p, lagrange_new (group_poly n xs))"
proof -
  let ?vs = "map (\<lambda>(q, c). map (\<lambda>v. v * c) (pq_poly q)) xs"
  have scaled: "map (\<lambda>(q, c). lagrange_scale (lagrange_new (pq_poly q)) c) xs = map lagrange_new ?vs"
    by (auto simp: lagrange_scale_def lagrange_new_def)
  obtain v us where vs: "?vs = v # us"
    using assms(2) by (cases xs) auto
  have len: "length u = n" if "u \<in> set (v # us)" for u
    using that assms(3) unfolding vs [symmetric] by auto
  have "lagrange_sum (map lagrange_new us) (lagrange_new v) = Ok (lagrange_new (vec_sum n (v # us)))"
    using assms(1) len by (intro lagrange_sum_ok) auto
  then show ?thesis
    unfolding aggregate_def prod.case scaled group_poly_def by (simp only: vs list.map list.case map_res.simps)
qed

lemma map_collect_par_chunks:
  assumes "0 < threads" "xs \<noteq> []" "\<And>x. x \<in> set xs \<Longrightarrow> f x = Ok (g x)"
  shows "\<exists>chunks. (par_chunks threads xs :: (_, 'e) res) = Ok chunks \<and>
    (\<exists>ys. (map_collect (map_collect f) chunks :: (_, 'e) res) = Ok ys \<and> concat ys = map g xs)"
proof -
  obtain cs where cs: "(par_chunks threads xs :: (_, 'e) res) = Ok cs" "concat cs = xs"
    using par_chunks_ok [OF assms(1,2)] by blast
  have "map_collect f c = Ok (map g c)" if "c \<in> set cs" for c
    using that assms(3) unfolding cs(2) [symmetric] by (intro map_collect_Ok) auto
  then have "map_collect (map_collect f) cs = Ok (map (map g) cs)"
    by (rule map_collect_Ok)
  moreover have "concat (map (map g) cs) = map g xs"
    unfolding cs(2) [symmetric] by (simp add: map_concat)
  ultimately show ?thesis
    using cs(1) by blast
qed

end
