(* ===== verification/Multiproof_Complete.thy ===== *)
theory Multiproof_Complete
  imports Multiproof
begin

text \<open>
  Completeness of the multipoint argument: whatever the order of the groups and the numbers of
  threads on both sides, the proof of openings that are true is accepted.
\<close>

section \<open>Honest queries\<close>

definition crs_ok :: "'el crs \<Rightarrow> nat \<Rightarrow> bool" where
  "crs_ok crs k \<longleftrightarrow> crs_n crs = 2 ^ k \<and> length (crs_G crs) = 2 ^ k \<and> k \<le> 31"

definition honest_query :: "('el :: ab_group_add, 'fr :: field) curve \<Rightarrow> 'el crs \<Rightarrow> ('el, 'fr) prover_query \<Rightarrow> bool" where
  "honest_query cv crs q \<longleftrightarrow> length (pq_poly q) = crs_n crs \<and> pq_point q < crs_n crs \<and>
     pq_commitment q = comb (cv_mul cv) (pq_poly q) (crs_G crs) \<and> pq_result q = pq_poly q ! pq_point q"

text \<open>No transcript hashes to a point of the domain, where the prover divides by zero.\<close>

definition fair_challenges :: "('el, 'fr :: field) curve \<Rightarrow> nat \<Rightarrow> bool" where
  "fair_challenges cv n \<longleftrightarrow> (\<forall>tr. outside n (hash_to_scalar cv tr))"

lemma fair_nonzero: "fair_challenges cv n \<Longrightarrow> 0 < n \<Longrightarrow> nonzero_challenges cv"
  unfolding fair_challenges_def nonzero_challenges_def outside_def by force

lemma fair_challenge: "fair_challenges cv n \<Longrightarrow> challenge_scalar cv lab tr = (t, tr') \<Longrightarrow> outside n t"
  by (auto simp: fair_challenges_def challenge_scalar_def Let_def)

lemma lagrange_new_values [simp]: "lb_values (lagrange_new f) = f"
  by (simp add: lagrange_new_def)

section \<open>Sums over the groups\<close>

context scalar_mult
begin

lemma mul_sum_list: "mul a (\<Sum>x\<leftarrow>xs. f x) = (\<Sum>x\<leftarrow>xs. mul a (f x))"
  by (induction xs) (simp_all add: mul_simps)

lemma comb_group_poly:
  assumes "\<And>q c. (q, c) \<in> set xs \<Longrightarrow> length (pq_poly q) = n"
  shows "comb mul (group_poly n xs) ps = (\<Sum>(q, c)\<leftarrow>xs. mul c (comb mul (pq_poly q) ps))"
proof -
  have "comb mul (map (\<lambda>v. v * c) f) ps = mul c (comb mul f ps)" for c f
  proof -
    have "(\<lambda>v. v * c) = (*) c"
      by (simp add: fun_eq_iff mult.commute)
    then show ?thesis
      by (simp only: comb_scale)
  qed
  moreover have "comb mul (group_poly n xs) ps = (\<Sum>v\<leftarrow>map (\<lambda>(q, c). map (\<lambda>v. v * c) (pq_poly q)) xs. comb mul v ps)"
    unfolding group_poly_def using assms by (intro comb_vec_sum) auto
  ultimately show ?thesis
    by (simp add: o_def case_prod_unfold)
qed

text \<open>A sum over the groups, each weighed by a factor of its point.\<close>

lemma comb_groups:
  assumes "\<And>p xs q c. (p, xs) \<in> set gs \<Longrightarrow> (q, c) \<in> set xs \<Longrightarrow> length (pq_poly q) = n"
  shows "comb mul (vec_sum n (map (\<lambda>(p, xs). map ((*) (d p)) (group_poly n xs)) gs)) ps =
    group_sum (\<lambda>p (q, c). mul (d p * c) (comb mul (pq_poly q) ps)) gs"
proof -
  have "comb mul (vec_sum n (map (\<lambda>(p, xs). map ((*) (d p)) (group_poly n xs)) gs)) ps =
      (\<Sum>(p, xs)\<leftarrow>gs. mul (d p) (comb mul (group_poly n xs) ps))"
    by (subst comb_vec_sum) (auto simp: o_def case_prod_unfold comb_scale)
  also have "\<dots> = group_sum (\<lambda>p (q, c). mul (d p * c) (comb mul (pq_poly q) ps)) gs"
    unfolding group_sum_def
    by (intro arg_cong [where f = sum_list] map_cong refl)
       (use assms in \<open>auto simp: comb_group_poly mul_sum_list mul_mul case_prod_unfold intro!: arg_cong [where f = sum_list]\<close>)
  finally show ?thesis .
qed

end

lemma nth_group_poly:
  assumes "\<And>q c. (q, c) \<in> set xs \<Longrightarrow> length (pq_poly q) = n" "i < n"
  shows "group_poly n xs ! i = (\<Sum>(q, c)\<leftarrow>xs. pq_poly q ! i * c)"
proof -
  have "group_poly n xs ! i = (\<Sum>x\<leftarrow>xs. map (\<lambda>v. v * snd x) (pq_poly (fst x)) ! i)"
    using assms(2) by (simp add: group_poly_def o_def case_prod_unfold)
  also have "\<dots> = (\<Sum>(q, c)\<leftarrow>xs. pq_poly q ! i * c)"
    using assms by (intro arg_cong [where f = sum_list] map_cong refl) (auto simp: case_prod_unfold)
  finally show ?thesis .
qed

lemma sum_list_diff: "(\<Sum>x\<leftarrow>xs. f x - g x :: 'a :: ab_group_add) = (\<Sum>x\<leftarrow>xs. f x) - (\<Sum>x\<leftarrow>xs. g x)"
  by (induction xs) simp_all

text \<open>What is left of the two aggregates at \<open>t\<close>: the values at the points.\<close>

lemma aggregates_at:
  fixes t :: "'fr :: field" and gs :: "('el, 'fr) groups"
  assumes dom: "distinct_domain TYPE('fr) n" and t: "outside n t"
    and gs: "\<And>p xs. (p, xs) \<in> set gs \<Longrightarrow> p < n" "\<And>p xs q c. (p, xs) \<in> set gs \<Longrightarrow> (q, c) \<in> set xs \<Longrightarrow> length (pq_poly q) = n"
  shows "lagrange_at (vec_sum n (map (\<lambda>(p, xs). map ((*) (inverse (t - of_nat p))) (group_poly n xs)) gs)) t -
      lagrange_at (vec_sum n (map (\<lambda>(p, xs). lin_quotient (group_poly n xs) p) gs)) t =
    group_sum (\<lambda>p (q, c). inverse (t - of_nat p) * c * pq_poly q ! p) gs"
proof -
  have at: "lagrange_at (vec_sum n vs) t = (\<Sum>v\<leftarrow>vs. lagrange_at v t)" if "\<And>v. v \<in> set vs \<Longrightarrow> length v = n" for vs
  proof -
    have "lagrange_at (vec_sum n vs) t = (\<Sum>v\<leftarrow>vs. comb (*) v (map (\<lambda>i. lagrange_basis n i t) [0..<n]))"
      using that by (simp add: lagrange_at_comb ip.comb_vec_sum)
    also have "\<dots> = (\<Sum>v\<leftarrow>vs. lagrange_at v t)"
      using that by (intro arg_cong [where f = sum_list] map_cong refl) (simp add: lagrange_at_comb)
    finally show ?thesis .
  qed
  have scale: "lagrange_at (map ((*) c) f) t = c * lagrange_at f t" for c f
    by (simp add: lagrange_at_def sum_distrib_left mult.assoc)
  let ?d = "\<lambda>p. inverse (t - of_nat p)"
  have "lagrange_at (vec_sum n (map (\<lambda>(p, xs). map ((*) (?d p)) (group_poly n xs)) gs)) t -
      lagrange_at (vec_sum n (map (\<lambda>(p, xs). lin_quotient (group_poly n xs) p) gs)) t =
      (\<Sum>(p, xs)\<leftarrow>gs. ?d p * lagrange_at (group_poly n xs) t - lagrange_at (lin_quotient (group_poly n xs) p) t)"
    by (subst (1 2) at) (auto simp: o_def case_prod_unfold scale sum_list_diff)
  also have "\<dots> = (\<Sum>(p, xs)\<leftarrow>gs. \<Sum>(q, c)\<leftarrow>xs. ?d p * c * pq_poly q ! p)"
  proof (intro arg_cong [where f = sum_list] map_cong refl, clarify)
    fix p xs
    assume g: "(p, xs) \<in> set gs"
    have "?d p * lagrange_at (group_poly n xs) t - lagrange_at (lin_quotient (group_poly n xs) p) t = ?d p * group_poly n xs ! p"
      using lin_quotient_eval [of "group_poly n xs" t p] dom t gs(1) [OF g] by (simp add: algebra_simps)
    also have "\<dots> = ?d p * (\<Sum>(q, c)\<leftarrow>xs. pq_poly q ! p * c)"
      using nth_group_poly [of xs n p] gs g by metis
    also have "\<dots> = (\<Sum>(q, c)\<leftarrow>xs. ?d p * c * pq_poly q ! p)"
      by (simp add: sum_list_const_mult [symmetric] case_prod_unfold ac_simps)
    finally show "?d p * lagrange_at (group_poly n xs) t - lagrange_at (lin_quotient (group_poly n xs) p) t =
        (\<Sum>(q, c)\<leftarrow>xs. ?d p * c * pq_poly q ! p)" .
  qed
  finally show ?thesis
    by (simp add: group_sum_def)
qed

section \<open>The verifier's side\<close>

lemma length_chunks_of: "length xs = length ys \<Longrightarrow> length (chunks_of c xs) = length (chunks_of c ys)"
proof (induction c xs arbitrary: ys rule: chunks_of.induct)
  case (1 c xs)
  then show ?case
    by (cases "xs = [] \<or> c = 0") (auto simp: chunks_of.simps [of c xs] chunks_of.simps [of c ys])
qed

lemma comb_chunks:
  "length ps = length xs \<Longrightarrow> 0 < c \<Longrightarrow>
    map_collect (\<lambda>(bs, ss). multi_scalar_mul cv bs ss) (zip (chunks_of c ps) (chunks_of c xs)) =
      Ok (map2 (\<lambda>bs ss. comb (cv_mul cv) ss bs) (chunks_of c ps) (chunks_of c xs)) \<and>
    sum_list (map2 (\<lambda>bs ss. comb (cv_mul cv) ss bs) (chunks_of c ps) (chunks_of c xs)) = comb (cv_mul cv) xs ps"
proof (induction c ps arbitrary: xs rule: chunks_of.induct)
  case (1 c ps)
  show ?case
  proof (cases "ps = []")
    case True
    then show ?thesis
      using 1 by (simp add: chunks_of.simps)
  next
    case False
    then have "xs \<noteq> []"
      using 1 by auto
    have "comb (cv_mul cv) (take c xs) (take c ps) + comb (cv_mul cv) (drop c xs) (drop c ps) = comb (cv_mul cv) xs ps"
      using comb_append [of "take c xs" "take c ps" "cv_mul cv" "drop c xs" "drop c ps"] 1(2) by simp
    then show ?thesis
      using 1 False \<open>xs \<noteq> []\<close> by (simp add: chunks_of.simps [of c ps] chunks_of.simps [of c xs] multi_scalar_mul_ok)
  qed
qed

lemma multi_scalar_mul_par_ok:
  assumes "length ps = length xs" "ps \<noteq> []" "0 < threads"
  shows "multi_scalar_mul_par cv threads ps xs = Ok (comb (cv_mul cv) xs ps)"
proof -
  have "0 < div_ceil (length ps) threads"
    using assms(2,3) by (cases ps) (simp_all add: div_ceil_def div_greater_zero_iff)
  then show ?thesis
    using comb_chunks [OF assms(1), of "div_ceil (length ps) threads" cv] assms(3) by (simp add: multi_scalar_mul_par_def)
qed

lemma sum_list_map2:
  assumes "length qs = length cs"
  shows "(\<Sum>(q, c)\<leftarrow>zip qs cs. f q c) = sum_list (map2 f qs cs)"
  by (simp add: case_prod_unfold)

text \<open>The helper scalars of the verifier, per query.\<close>

lemma verifier_sums:
  fixes qs :: "('el :: ab_group_add, 'fr :: field) prover_query list" and cs :: "'fr list"
  assumes "length cs = length qs"
  shows "sum_list (map2 (\<lambda>h q. h * vq_result q)
      (map2 (\<lambda>r_i den_inv. den_inv * r_i) cs (map (\<lambda>q. inverse (t - vq_point q)) (map verifier_query_of qs))) (map verifier_query_of qs)) =
    (\<Sum>(q, c)\<leftarrow>zip qs cs. inverse (t - of_nat (pq_point q)) * c * pq_result q)"
    and "comb mul (map2 (\<lambda>r_i den_inv. den_inv * r_i) cs (map (\<lambda>q. inverse (t - vq_point q)) (map verifier_query_of qs)))
      (map vq_commitment (map verifier_query_of qs)) =
    (\<Sum>(q, c)\<leftarrow>zip qs cs. mul (inverse (t - of_nat (pq_point q)) * c) (pq_commitment q))"
  using assms by (induction cs qs rule: list_induct2) (simp_all add: verifier_query_of_def)

section \<open>The prover's side\<close>

lemma aggregate_queries_ok:
  assumes "0 < threads" "shuffles ord" "qs \<noteq> []" "0 < n" "\<And>q. q \<in> set qs \<Longrightarrow> length (pq_poly q) = n"
    and r: "challenge_scalar cv (label ''r'') (record_query_transcript cv (map prover_data qs) tr) = (r, tr')"
  shows "aggregate_queries cv threads ord qs tr =
    Ok (map (\<lambda>(p, xs). (p, lagrange_new (group_poly n xs))) (ord (group_prover_queries qs (map ((^) r) [0..<length qs]))), tr')"
proof -
  let ?cs = "map ((^) r) [0..<length qs]" let ?gs = "ord (group_prover_queries qs ?cs)"
  have set: "set ?gs = set (group_prover_queries qs ?cs)"
    by (rule shuffles_set [OF assms(2)])
  have "zip qs ?cs \<noteq> []"
    using assms(3) by (cases qs) (simp_all add: upt_conv_Cons)
  then have "group_prover_queries qs ?cs \<noteq> []"
    by (rule groups_ok_queries(2))
  then have ne: "?gs \<noteq> []"
    using set by auto
  have agg: "aggregate g = Ok ((\<lambda>(p, xs). (p, lagrange_new (group_poly n xs))) g)" if g: "g \<in> set ?gs" for g
  proof -
    obtain p xs where g': "g = (p, xs)" "(p, xs) \<in> set (group_prover_queries qs ?cs)"
      using g unfolding set by (metis surj_pair)
    then have xs: "xs \<noteq> []" "set xs \<subseteq> set (zip qs ?cs)"
      using groups_ok_queries(1) [of qs ?cs] unfolding groups_ok_def by auto
    have "length (pq_poly q) = n" if "(q, c) \<in> set xs" for q c
      using that xs(2) assms(5) by (auto dest: set_zip_leftD)
    then show ?thesis
      using aggregate_ok [OF assms(4) xs(1), of p] g'(1) by simp
  qed
  have powers: "powers_of_par threads r (length qs) = Ok ?cs"
    using assms(1,3) by (intro powers_of_par_eq) simp_all
  obtain chunks ys where "par_chunks threads ?gs = (Ok chunks :: _ out)" "map_collect (map_collect aggregate) chunks = (Ok ys :: _ out)"
    "concat ys = map (\<lambda>(p, xs). (p, lagrange_new (group_poly n xs))) ?gs"
    using map_collect_par_chunks [OF assms(1) ne, of aggregate "\<lambda>(p, xs). (p, lagrange_new (group_poly n xs))"] agg by blast
  then show ?thesis
    by (simp add: aggregate_queries_def r powers)
qed

text \<open>The groups of honest queries.\<close>

lemma honest_groups:
  assumes "shuffles ord" "\<And>q. q \<in> set qs \<Longrightarrow> honest_query cv crs q" "(p, xs) \<in> set (ord (group_prover_queries qs cs))"
  shows "p < crs_n crs" "xs \<noteq> []" "\<And>q c. (q, c) \<in> set xs \<Longrightarrow> q \<in> set qs \<and> honest_query cv crs q \<and> pq_point q = p \<and> length (pq_poly q) = crs_n crs"
proof -
  have g: "(p, xs) \<in> set (group_prover_queries qs cs)"
    using assms(3) shuffles_set [OF assms(1)] by metis
  then have xs: "xs \<noteq> []" "set xs \<subseteq> set (zip qs cs)" "\<And>q c. (q, c) \<in> set xs \<Longrightarrow> pq_point q = p"
    using groups_ok_queries(1) [of qs cs] unfolding groups_ok_def by auto
  show all: "q \<in> set qs \<and> honest_query cv crs q \<and> pq_point q = p \<and> length (pq_poly q) = crs_n crs" if "(q, c) \<in> set xs" for q c
  proof -
    have "q \<in> set qs"
      using that xs(2) by (auto dest: set_zip_leftD)
    then show ?thesis
      using assms(2) [of q] xs(3) [OF that] by (auto simp: honest_query_def)
  qed
  show "xs \<noteq> []"
    by (rule xs(1))
  obtain q c where "(q, c) \<in> set xs"
    using xs(1) by (cases xs) auto
  then have "honest_query cv crs q" "pq_point q = p"
    using all by blast+
  then show "p < crs_n crs"
    by (auto simp: honest_query_def)
qed

section \<open>Completeness\<close>

lemma record_same: "map verifier_data (map verifier_query_of qs) = map prover_data qs"
  by (simp add: verifier_data_def verifier_query_of_def prover_data_def)

lemma multipoint_ok:
  fixes qs :: "('el :: ab_group_add, 'fr :: field) prover_query list"
  assumes m: "scalar_mult (cv_mul cv)" and fair: "fair_challenges cv (2 ^ k)" and dom: "distinct_domain TYPE('fr) (2 ^ k)"
    and crs: "crs_ok crs k" and t: "0 < threads" "0 < threads'" and ord: "shuffles ord"
    and qs: "qs \<noteq> []" "\<And>q. q \<in> set qs \<Longrightarrow> honest_query cv crs q"
  shows "\<exists>proof. multipoint_open cv threads ord crs (weights_of (2 ^ k)) tr qs = Ok proof \<and>
    multipoint_check cv threads' crs (weights_of (2 ^ k)) proof (map verifier_query_of qs) tr = Ok True"
proof -
  let ?n = "2 ^ k :: nat" and ?mul = "cv_mul cv" and ?G = "crs_G crs" and ?w = "weights_of (2 ^ k) :: 'fr weights"
  let ?com = "\<lambda>f. comb ?mul f ?G"
  have n: "crs_n crs = ?n" "length ?G = ?n" "0 < ?n" "?n \<le> 2 ^ 31" "k < 64"
    using crs power_increasing [of k 31 "2 :: nat"] by (simp_all add: crs_ok_def)
  have len: "length (pq_poly q) = ?n" if "q \<in> set qs" for q
    using qs(2) [OF that] n by (simp add: honest_query_def)
  define tr0 where "tr0 = domain_sep (label ''multiproof'') tr"
  obtain r tr1 where r: "challenge_scalar cv (label ''r'') (record_query_transcript cv (map prover_data qs) tr0) = (r, tr1)"
    by (metis surj_pair)
  define cs where "cs = map ((^) r) [0..<length qs]"
  define gs where "gs = ord (group_prover_queries qs cs)"
  have ne: "gs \<noteq> []"
  proof -
    have "zip qs cs \<noteq> []"
      using qs(1) by (cases qs) (simp_all add: cs_def upt_conv_Cons)
    then have "group_prover_queries qs cs \<noteq> []"
      by (rule groups_ok_queries(2))
    then show ?thesis
      using shuffles_set [OF ord, of "group_prover_queries qs cs"] by (auto simp: gs_def)
  qed
  have gs: "p < ?n" "\<And>q c. (q, c) \<in> set xs \<Longrightarrow> q \<in> set qs \<and> honest_query cv crs q \<and> pq_point q = p \<and> length (pq_poly q) = ?n"
    if "(p, xs) \<in> set gs" for p xs
    using honest_groups [OF ord qs(2), where p = p and xs = xs and cs = cs] that n by (simp_all add: gs_def)
  let ?agg = "map (\<lambda>(p, xs). (p, lagrange_new (group_poly ?n xs))) gs"
  have agg: "aggregate_queries cv threads ord qs tr0 = Ok (?agg, tr1)"
    using aggregate_queries_ok [OF t(1) ord qs(1) n(3) len r] by (simp add: gs_def cs_def)
  define qv where "qv = map (\<lambda>(p, xs). lin_quotient (group_poly ?n xs) p) gs"
  have div: "map_collect (\<lambda>(p, f). divide_by_linear_vanishing f ?w p) ?agg = Ok (map lagrange_new qv)"
  proof -
    have "map_collect (\<lambda>(p, f). divide_by_linear_vanishing f ?w p) ?agg =
        Ok (map (\<lambda>(p, f). lagrange_new (lin_quotient (lb_values f) p)) ?agg)"
      using gs(1) n(4) by (intro map_collect_Ok) (auto simp: divide_by_linear_vanishing_ok)
    then show ?thesis
      by (simp add: qv_def o_def case_prod_unfold)
  qed
  have qv: "qv \<noteq> []" "\<And>v. v \<in> set qv \<Longrightarrow> length v = ?n"
    using ne by (auto simp: qv_def)
  define g where "g = vec_sum ?n qv"
  have g: "lagrange_sum (map lagrange_new qv) lagrange_zero = Ok (lagrange_new g)"
    unfolding g_def by (rule lagrange_sum_zero [OF n(3) qv])
  have com: "commit_lagrange_poly cv crs (lagrange_new f) = Ok (?com f)" if "length f = ?n" for f
    using that n by (simp add: commit_lagrange_poly_def multi_scalar_mul_ok lagrange_new_def)
  obtain z tr2 where z: "challenge_scalar cv (label ''t'') (append_point cv (label ''D'') (?com g) tr1) = (z, tr2)"
    by (metis surj_pair)
  have out: "outside ?n z"
    by (rule fair_challenge [OF fair z])
  let ?d = "\<lambda>p. inverse (z - of_nat p)"
  define tv where "tv = map (\<lambda>(p, xs). map ((*) (?d p)) (group_poly ?n xs)) gs"
  have tv: "tv \<noteq> []" "\<And>v. v \<in> set tv \<Longrightarrow> length v = ?n"
    using ne by (auto simp: tv_def)
  have terms: "map2 (\<lambda>(_, f) den_inv. lagrange_new (map (\<lambda>coeff. den_inv * coeff) (lb_values f))) ?agg
      (map (\<lambda>(p, _). ?d p) ?agg) = map lagrange_new tv"
    by (intro nth_equalityI) (auto simp: tv_def case_prod_unfold lagrange_new_def)
  define g1 where "g1 = vec_sum ?n tv"
  have g1: "lagrange_sum (map lagrange_new tv) lagrange_zero = Ok (lagrange_new g1)"
    unfolding g1_def by (rule lagrange_sum_zero [OF n(3) tv])
  define g3 where "g3 = map2 (+) g1 (map uminus g)"
  have lens: "length g = ?n" "length g1 = ?n" "length g3 = ?n"
    by (simp_all add: g_def g1_def g3_def)
  have sub: "lagrange_sub (lagrange_new g1) (lagrange_new g) = Ok (lagrange_new g3)"
    using lens n(3) by (simp add: lagrange_sub_def lagrange_neg_def lagrange_add_def lagrange_new_def g3_def)
  let ?b = "map (\<lambda>i. lagrange_basis ?n i z) [0..<?n]"
  have b: "evaluate_lagrange_coefficients ?w ?n z = Ok ?b"
    by (rule evaluate_lagrange_coefficients_ok [OF dom out])
  let ?tr = "append_point cv (label ''E'') (?com g1) tr2"
  obtain ipa tr3 where ipa: "ipa_create cv threads ?tr crs g3 (?com g1 - ?com g) ?b z = Ok (ipa, tr3)"
    "verify_multiexp cv ipa ?tr crs ?b (?com g1 - ?com g) z (comb (*) g3 ?b) = Ok (?com g1 - ?com g = ?com g3)"
    using ipa_ok [OF m t(1) fair_nonzero [OF fair n(3)] n(1,5,2) lens(3), where b = ?b and tr = ?tr and a_comm = "?com g1 - ?com g" and z = z] by auto
  have "?com g3 = ?com g1 - ?com g"
    using lens unfolding g3_def by (simp add: scalar_mult.comb_add [OF m] scalar_mult.comb_uminus [OF m])
  then have verified: "verify_multiexp cv ipa ?tr crs ?b (?com g1 - ?com g) z (comb (*) g3 ?b) = Ok True"
    using ipa(2) by simp
  let ?proof = "\<lparr>open_proof = ipa, g_x_comm = ?com g\<rparr>"
  have opened: "multipoint_open cv threads ord crs ?w tr qs = Ok ?proof"
    unfolding multipoint_open_def tr0_def [symmetric] agg bind_res.simps prod.case div g com [OF lens(1)] z Let_def
      terms g1 com [OF lens(2)] sub open_point_outside_of_domain_def n(1) b
    using ipa(1) by (simp add: lagrange_new_def)
  let ?vqs = "map verifier_query_of qs"
  let ?h = "map2 (\<lambda>r_i den_inv. den_inv * r_i) cs (map (\<lambda>q. inverse (z - vq_point q)) ?vqs)"
  have lcs: "length cs = length qs"
    by (simp add: cs_def)
  have powers: "powers_of_par threads' r (length ?vqs) = Ok cs"
    using t(2) qs(1) by (simp add: powers_of_par_eq cs_def)
  have over_queries: "group_sum h gs = (\<Sum>(q, c)\<leftarrow>zip qs cs. h (pq_point q) (q, c))" for h :: "nat \<Rightarrow> ('el, 'fr) prover_query \<times> 'fr \<Rightarrow> 'a :: comm_monoid_add"
    using group_sum_queries [of h qs cs] shuffles_sum [OF ord, of "\<lambda>(p, xs). \<Sum>x\<leftarrow>xs. h p x" "group_prover_queries qs cs"]
    by (simp add: group_sum_def gs_def)
  have member: "honest_query cv crs q" if "(q, c) \<in> set (zip qs cs)" for q c
    using that qs(2) by (auto dest: set_zip_leftD)
  have comm: "multi_scalar_mul_par cv threads' (map vq_commitment ?vqs) ?h = Ok (?com g1)"
  proof -
    have "?com g1 = group_sum (\<lambda>p (q, c). ?mul (?d p * c) (comb ?mul (pq_poly q) ?G)) gs"
      unfolding g1_def tv_def using gs(2) by (intro scalar_mult.comb_groups [OF m]) blast
    also have "\<dots> = (\<Sum>(q, c)\<leftarrow>zip qs cs. ?mul (?d (pq_point q) * c) (pq_commitment q))"
      unfolding over_queries by (intro arg_cong [where f = sum_list] map_cong refl) (auto dest!: member simp: honest_query_def)
    also have "\<dots> = comb ?mul ?h (map vq_commitment ?vqs)"
      by (rule verifier_sums(2) [OF lcs, symmetric])
    finally show ?thesis
      using multi_scalar_mul_par_ok [of "map vq_commitment ?vqs" ?h threads' cv] lcs qs(1) t(2) by simp
  qed
  have result: "sum_list (map2 (\<lambda>h q. h * vq_result q) ?h ?vqs) = comb (*) g3 ?b"
  proof -
    have "comb (*) g3 ?b = lagrange_at g1 z - lagrange_at g z"
      using lens unfolding g3_def by (simp add: ip.comb_add ip.comb_uminus lagrange_at_comb)
    also have "\<dots> = group_sum (\<lambda>p (q, c). ?d p * c * pq_poly q ! p) gs"
      unfolding g1_def tv_def g_def qv_def using gs by (intro aggregates_at [OF dom out]) blast+
    also have "\<dots> = (\<Sum>(q, c)\<leftarrow>zip qs cs. ?d (pq_point q) * c * pq_result q)"
      unfolding over_queries by (intro arg_cong [where f = sum_list] map_cong refl) (auto dest!: member simp: honest_query_def)
    finally show ?thesis
      unfolding verifier_sums(1) [OF lcs] ..
  qed
  have "multipoint_check cv threads' crs ?w ?proof ?vqs tr = Ok True"
    unfolding multipoint_check_def tr0_def [symmetric] record_same r Let_def prod.case powers bind_res.simps
      multi_point_proof.simps z comm result n(1) b verified ..
  then show ?thesis
    using opened by blast
qed

end
