(* ===== verification/Ipa_Bytes.thy ===== *)
theory Ipa_Bytes
  imports Multiproof_Complete
begin

text \<open>
  The encodings of \<open>ipa.rs\<close>, \<open>multiproof.rs\<close> and \<open>crs.rs\<close>, and the generation of a reference string.
\<close>

section \<open>Proofs as bytes\<close>

definition serialized_size :: "('el, 'fr) ipa_proof \<Rightarrow> nat" where
  "serialized_size proof = (length (L_vec proof) * 2 + 1) * 32"

definition decode_point :: "('el, 'fr) curve \<Rightarrow> bytes \<Rightarrow> 'el out" where
  "decode_point cv chunk = (case cv_of_bytes cv chunk of Some p \<Rightarrow> Ok p | None \<Rightarrow> Err InvalidData)"

definition decode_scalar :: "('el, 'fr) curve \<Rightarrow> bytes \<Rightarrow> 'fr out" where
  "decode_scalar cv chunk = (case cv_fr_of_bytes cv chunk of Some a \<Rightarrow> Ok a | None \<Rightarrow> Err InvalidData)"

text \<open>The length is compared as a \<open>u32\<close>; with the two assertions there are enough chunks for every \<open>unwrap\<close>.\<close>

definition ipa_from_bytes :: "('el, 'fr) curve \<Rightarrow> bytes \<Rightarrow> nat \<Rightarrow> ('el, 'fr) ipa_proof out" where
  "ipa_from_bytes cv bytes poly_degree =
     (let num_points = log2 poly_degree; chunks = chunks_of 32 bytes
      in if (num_points * 2 + 1) * 32 \<noteq> length bytes mod 2 ^ 32 \<or> length bytes mod 32 \<noteq> 0 then Panic
         else bind_res (map_collect (decode_point cv) (take num_points chunks)) (\<lambda>Ls.
              bind_res (map_collect (decode_point cv) (take num_points (drop num_points chunks))) (\<lambda>Rs.
              bind_res (decode_scalar cv (chunks ! (2 * num_points))) (\<lambda>a.
              Ok \<lparr>L_vec = Ls, R_vec = Rs, ipa_a = a\<rparr>))))"

definition ipa_to_bytes :: "('el, 'fr) curve \<Rightarrow> ('el, 'fr) ipa_proof \<Rightarrow> bytes out" where
  "ipa_to_bytes cv proof =
     Ok (concat (map (cv_bytes cv) (L_vec proof)) @ concat (map (cv_bytes cv) (R_vec proof)) @ cv_fr_bytes cv (ipa_a proof))"

definition mp_from_bytes :: "('el, 'fr) curve \<Rightarrow> bytes \<Rightarrow> nat \<Rightarrow> ('el, 'fr) multi_point_proof out" where
  "mp_from_bytes cv bytes poly_degree =
     (if length bytes < 32 then Panic
      else bind_res (decode_point cv (take 32 bytes)) (\<lambda>c.
           bind_res (ipa_from_bytes cv (drop 32 bytes) poly_degree) (\<lambda>proof.
           Ok \<lparr>open_proof = proof, g_x_comm = c\<rparr>)))"

definition mp_to_bytes :: "('el, 'fr) curve \<Rightarrow> ('el, 'fr) multi_point_proof \<Rightarrow> bytes out" where
  "mp_to_bytes cv proof = map_res (\<lambda>bs. cv_bytes cv (g_x_comm proof) @ bs) (ipa_to_bytes cv (open_proof proof))"

section \<open>Reference strings\<close>

datatype crs_error = EmptyInput | HexDecode | InvalidLength nat | Deserialization

definition decode_crs_point :: "('el, 'fr) curve \<Rightarrow> bytes \<Rightarrow> ('el, crs_error) res" where
  "decode_crs_point cv bs = (case cv_of_bytes cv bs of Some p \<Rightarrow> Ok p | None \<Rightarrow> Err Deserialization)"

definition crs_from_bytes :: "('el, 'fr) curve \<Rightarrow> bytes list \<Rightarrow> ('el crs, crs_error) res" where
  "crs_from_bytes cv bss =
     (if bss = [] then Err EmptyInput
      else bind_res (decode_crs_point cv (last bss)) (\<lambda>Q.
           bind_res (map_collect (decode_crs_point cv) (butlast bss)) (\<lambda>G.
           Ok \<lparr>crs_n = length G, crs_G = G, crs_Q = Q\<rparr>)))"

text \<open>\<open>hex::decode\<close> is a parameter.\<close>

definition crs_from_hex :: "('el, 'fr) curve \<Rightarrow> (string \<Rightarrow> bytes option) \<Rightarrow> string list \<Rightarrow> ('el crs, crs_error) res" where
  "crs_from_hex cv hex_decode hexes =
     bind_res (map_collect (\<lambda>hex. case hex_decode hex of
         None \<Rightarrow> Err HexDecode
       | Some v \<Rightarrow> if length v = 32 then Ok v else Err (InvalidLength (length v))) hexes) (crs_from_bytes cv)"

definition crs_to_bytes :: "('el, 'fr) curve \<Rightarrow> 'el crs \<Rightarrow> bytes list" where
  "crs_to_bytes cv crs = map (cv_bytes cv) (crs_G crs @ [crs_Q crs])"

text \<open>
  Candidates are tried for the indices \<open>0, 1, \<dots>\<close> until there are enough points; the search may not
  end. \<open>try_reduce_to_element\<close> is the parameter \<open>try_reduce\<close>.
\<close>

partial_function (option) generate_loop :: "(u64 \<Rightarrow> 'el option) \<Rightarrow> nat \<Rightarrow> u64 \<Rightarrow> 'el list \<Rightarrow> 'el list option" where
  "generate_loop candidate need index acc =
     (if need = 0 then Some acc
      else case candidate index of
        Some p \<Rightarrow> generate_loop candidate (need - 1) (index + 1) (acc @ [p])
      | None \<Rightarrow> generate_loop candidate need (index + 1) acc)"

definition generate_random_elements :: "('el, 'fr) curve \<Rightarrow> (bytes \<Rightarrow> 'el option) \<Rightarrow> nat \<Rightarrow> bytes \<Rightarrow> ('el list, 'e) res" where
  "generate_random_elements cv try_reduce num_required_points seed =
     (case generate_loop (\<lambda>index. try_reduce (cv_sha256 cv (seed @ rev (to_le_bytes 8 index)))) num_required_points 0 [] of
        Some ps \<Rightarrow> Ok ps | None \<Rightarrow> Diverge)"

definition assert_dedup :: "('el, 'fr) curve \<Rightarrow> 'el list \<Rightarrow> bool" where
  "assert_dedup cv points \<longleftrightarrow> card (set (map (cv_bytes cv) points)) = length points"

definition crs_new :: "('el, 'fr) curve \<Rightarrow> (bytes \<Rightarrow> 'el option) \<Rightarrow> nat \<Rightarrow> bytes \<Rightarrow> ('el crs, 'e) res" where
  "crs_new cv try_reduce n seed =
     bind_res (generate_random_elements cv try_reduce (n + 1) seed) (\<lambda>all_points.
     if assert_dedup cv all_points
     then Ok \<lparr>crs_n = n, crs_G = take n all_points, crs_Q = all_points ! n\<rparr> else Panic)"

section \<open>Round trips\<close>

text \<open>Points and scalars have encodings of 32 bytes that are read back.\<close>

definition encodings_ok :: "('el, 'fr) curve \<Rightarrow> bool" where
  "encodings_ok cv \<longleftrightarrow> (\<forall>p. length (cv_bytes cv p) = 32 \<and> cv_of_bytes cv (cv_bytes cv p) = Some p) \<and>
     (\<forall>a. length (cv_fr_bytes cv a) = 32 \<and> cv_fr_of_bytes cv (cv_fr_bytes cv a) = Some a)"

lemma chunks_of_concat:
  assumes "0 < n" "\<And>c. c \<in> set cs \<Longrightarrow> length c = n"
  shows "chunks_of n (concat cs) = cs"
  using assms
proof (induction cs)
  case (Cons c cs)
  then have "c \<noteq> []"
    by auto
  then show ?case
    using Cons by (simp add: chunks_of.simps [of n "c @ concat cs"])
qed (simp add: chunks_of.simps)

lemma decode_points:
  "encodings_ok cv \<Longrightarrow> map_collect (decode_point cv) (map (cv_bytes cv) ps) = Ok ps"
  by (induction ps) (simp_all add: decode_point_def encodings_ok_def)

lemma ipa_bytes_ok:
  assumes enc: "encodings_ok cv" and len: "length (L_vec proof) = log2 d" "length (R_vec proof) = log2 d" "log2 d < 64"
  shows "\<exists>bs. ipa_to_bytes cv proof = Ok bs \<and> length bs = serialized_size proof \<and> ipa_from_bytes cv bs d = Ok proof"
proof -
  let ?n = "log2 d"
  let ?cs = "map (cv_bytes cv) (L_vec proof) @ map (cv_bytes cv) (R_vec proof) @ [cv_fr_bytes cv (ipa_a proof)]"
  have c: "length c = 32" if "c \<in> set ?cs" for c
    using that enc by (auto simp: encodings_ok_def)
  have total: "length (concat ?cs) = (?n * 2 + 1) * 32"
  proof -
    have "length (concat ?cs) = (\<Sum>c\<leftarrow>?cs. 32)"
      unfolding length_concat using c by (intro arg_cong [where f = sum_list] map_cong refl)
    then show ?thesis
      using len by (simp add: o_def map_replicate_const sum_list_replicate)
  qed
  have chunks: "chunks_of 32 (concat ?cs) = ?cs"
    by (rule chunks_of_concat [OF _ c]) simp
  have "ipa_from_bytes cv (concat ?cs) d = Ok proof"
    unfolding ipa_from_bytes_def Let_def total chunks
    using len enc by (simp add: decode_points nth_append decode_scalar_def encodings_ok_def)
  moreover have "ipa_to_bytes cv proof = Ok (concat ?cs)"
    by (simp add: ipa_to_bytes_def)
  moreover have "length (concat ?cs) = serialized_size proof"
    unfolding total by (simp add: serialized_size_def len)
  ultimately show ?thesis
    by blast
qed

lemma crs_roundtrip:
  "encodings_ok cv \<Longrightarrow> crs_n crs = length (crs_G crs) \<Longrightarrow> crs_from_bytes cv (crs_to_bytes cv crs) = Ok crs"
proof -
  assume enc: "encodings_ok cv" and n: "crs_n crs = length (crs_G crs)"
  have "map_collect (decode_crs_point cv) (map (cv_bytes cv) ps) = Ok ps" for ps
    using enc by (induction ps) (simp_all add: decode_crs_point_def encodings_ok_def)
  then show ?thesis
    using enc n by (simp add: crs_from_bytes_def crs_to_bytes_def decode_crs_point_def encodings_ok_def butlast_append)
qed

text \<open>A search that finds enough points within the first \<open>N\<close> candidates ends with the first of them.\<close>

lemma generate_loop_ok:
  assumes "need \<le> length (List.map_filter candidate (map (\<lambda>i. index + of_nat i) [0..<N]))"
  shows "generate_loop candidate need index acc =
    Some (acc @ take need (List.map_filter candidate (map (\<lambda>i. index + of_nat i) [0..<N])))"
  using assms
proof (induction N arbitrary: need index acc)
  case 0
  then show ?case
    by (simp add: generate_loop.simps List.map_filter_def)
next
  case (Suc N)
  have cs: "map (\<lambda>i. index + of_nat i) [0..<Suc N] = index # map (\<lambda>i. index + 1 + of_nat i) [0..<N]"
    unfolding upt_from_0 by (simp add: o_def add.assoc)
  note step = generate_loop.simps [of candidate need index acc]
  show ?case
  proof (cases "need = 0")
    case True
    then show ?thesis
      by (simp add: generate_loop.simps [of candidate 0 index acc])
  next
    case need: False
    show ?thesis
    proof (cases "candidate index")
      case None
      then show ?thesis
        using Suc.IH [of need "index + 1" acc] Suc.prems need unfolding cs by (simp add: step map_filter_simps)
    next
      case (Some p)
      then have "need - 1 \<le> length (List.map_filter candidate (map (\<lambda>i. index + 1 + of_nat i) [0..<N]))"
        using Suc.prems unfolding cs by (simp add: map_filter_simps)
      from Suc.IH [OF this, of "acc @ [p]"] show ?thesis
        using Some need unfolding cs by (simp add: step map_filter_simps take_Cons')
    qed
  qed
qed

end
