(* ===== verification/Ipa_Correct.thy ===== *)
theory Ipa_Correct
  imports Ipa_Bytes
begin

text \<open>The properties of \<open>ipa-multipoint\<close>, with a small curve for the witnesses.\<close>

section \<open>An instance\<close>

text \<open>The rationals over themselves; every transcript hashes to 7.\<close>

definition rat_curve :: "(rat, rat) curve" where
  "rat_curve = \<lparr>cv_mul = (*), cv_bytes = \<lambda>_. [], cv_of_bytes = \<lambda>_. None, cv_fr_bytes = \<lambda>_. [],
     cv_fr_of_bytes = \<lambda>_. None, cv_fr_of_le_bytes = \<lambda>_. 7, cv_sha256 = \<lambda>bs. bs\<rparr>"

definition rat_crs :: "rat crs" where
  "rat_crs = \<lparr>crs_n = 2, crs_G = [3, 5], crs_Q = 11\<rparr>"

lemma rat_scalar_mult: "scalar_mult (cv_mul rat_curve)"
  using ip.scalar_mult_axioms by (simp add: rat_curve_def)

lemma rat_hash [simp]: "hash_to_scalar rat_curve tr = 7"
  by (simp add: hash_to_scalar_def rat_curve_def)

lemma rat_fair: "fair_challenges rat_curve (2 ^ 1)" "nonzero_challenges rat_curve"
  by (auto simp: fair_challenges_def outside_def nonzero_challenges_def lessThan_Suc numeral_2_eq_2)

lemma rat_domain: "distinct_domain TYPE(rat) n"
  by (auto simp: distinct_domain_def)

lemma rat_crs_ok: "crs_ok rat_crs 1"
  by (simp add: crs_ok_def rat_crs_def)

definition rat_queries :: "(rat, rat) prover_query list" where
  "rat_queries = [\<lparr>pq_commitment = 13, pq_poly = [1, 2], pq_point = 1, pq_result = 2\<rparr>,
     \<lparr>pq_commitment = 21, pq_poly = [7, 0], pq_point = 0, pq_result = 7\<rparr>,
     \<lparr>pq_commitment = 13, pq_poly = [1, 2], pq_point = 0, pq_result = 1\<rparr>]"

lemma rat_queries_honest: "q \<in> set rat_queries \<Longrightarrow> honest_query rat_curve rat_crs q"
  by (auto simp: rat_queries_def honest_query_def rat_crs_def rat_curve_def)

text \<open>Points and scalars that are 64-bit words, encoded in 32 bytes.\<close>

definition word_curve :: "(u64, u64) curve" where
  "word_curve = \<lparr>cv_mul = (*), cv_bytes = \<lambda>w. to_le_bytes 8 w @ replicate 24 0, cv_of_bytes = \<lambda>bs. Some (from_le_bytes (take 8 bs)),
     cv_fr_bytes = \<lambda>w. to_le_bytes 8 w @ replicate 24 0, cv_fr_of_bytes = \<lambda>bs. Some (from_le_bytes (take 8 bs)),
     cv_fr_of_le_bytes = \<lambda>bs. from_le_bytes (take 8 bs), cv_sha256 = \<lambda>bs. bs\<rparr>"

lemma word_encodings: "encodings_ok word_curve"
  by (simp add: encodings_ok_def word_curve_def)

section \<open>Properties\<close>

text \<open>C21: Completeness of the multipoint argument: for queries whose commitments are those of their
  polynomials and whose results are the values at their points, \<open>MultiPoint::open\<close> returns a proof and
  \<open>MultiPointProof::check\<close> accepts it for the corresponding verifier queries, whatever the iteration
  order of the hash map and the numbers of threads of the two sides.\<close>

theorem multipoint_complete:
  fixes qs :: "('el :: ab_group_add, 'fr :: field) prover_query list"
  assumes "scalar_mult (cv_mul cv)" "fair_challenges cv (2 ^ k)" "distinct_domain TYPE('fr) (2 ^ k)" "crs_ok crs k"
    and "0 < threads" "0 < threads'" "shuffles ord" "qs \<noteq> []" "\<And>q. q \<in> set qs \<Longrightarrow> honest_query cv crs q"
  shows "\<exists>w proof. weights_new (2 ^ k) = Ok w \<and> multipoint_open cv threads ord crs w tr qs = Ok proof \<and>
    multipoint_check cv threads' crs w proof (map verifier_query_of qs) tr = Ok True"
  using multipoint_ok [OF assms, of tr] weights_new_ok [OF assms(3)] by auto

theorem multipoint_complete_witness:
  "\<exists>w proof. weights_new (2 ^ 1) = Ok w \<and> multipoint_open rat_curve 2 rev rat_crs w [] rat_queries = Ok proof \<and>
    multipoint_check rat_curve 3 rat_crs w proof (map verifier_query_of rat_queries) [] = Ok True"
proof (rule multipoint_complete [OF rat_scalar_mult rat_fair(1) rat_domain rat_crs_ok])
  show "shuffles (rev :: (rat, rat) groups \<Rightarrow> (rat, rat) groups)"
    by (simp add: shuffles_def)
qed (simp_all add: rat_queries_honest, simp add: rat_queries_def)

text \<open>C22: The inner-product argument: the prover returns a proof for every vector, and the verifier, given
  the inner product as the claimed value, accepts it exactly when the commitment is that of the vector.\<close>

theorem ipa_decides:
  assumes "scalar_mult (cv_mul cv)" "0 < threads" "nonzero_challenges cv"
    and "crs_n crs = 2 ^ k" "k < 64" "length (crs_G crs) = 2 ^ k" "length a = 2 ^ k" "length b = 2 ^ k"
  shows "\<exists>value proof tr'. inner_product a b = Ok value \<and> ipa_create cv threads tr crs a a_comm b z = Ok (proof, tr') \<and>
    verify_multiexp cv proof tr crs b a_comm z value = Ok (multi_scalar_mul cv (crs_G crs) a = Ok a_comm)"
proof -
  have "multi_scalar_mul cv (crs_G crs) a = Ok a_comm \<longleftrightarrow> a_comm = comb (cv_mul cv) a (crs_G crs)"
    using assms(6,7) by (auto simp: multi_scalar_mul_ok)
  then show ?thesis
    using ipa_ok [OF assms, of tr a_comm z] assms(7,8) by (auto simp: inner_product_ok)
qed

theorem ipa_decides_witness:
  "(\<exists>proof tr'. ipa_create rat_curve 1 [] rat_crs [1, 2] 13 [1, 1] 5 = Ok (proof, tr') \<and>
      verify_multiexp rat_curve proof [] rat_crs [1, 1] 13 5 3 = Ok True) \<and>
    (\<exists>proof tr'. ipa_create rat_curve 1 [] rat_crs [1, 2] 12 [1, 1] 5 = Ok (proof, tr') \<and>
      verify_multiexp rat_curve proof [] rat_crs [1, 1] 12 5 3 = Ok False)"
proof -
  have com: "multi_scalar_mul rat_curve (crs_G rat_crs) [1, 2] = Ok 13"
    by (simp add: multi_scalar_mul_def rat_curve_def rat_crs_def)
  have v3: "inner_product [1, 2] [1, 1 :: rat] = Ok 3"
    by (simp add: inner_product_def)
  have n: "crs_n rat_crs = 2 ^ 1" "length (crs_G rat_crs) = 2 ^ 1"
    by (simp_all add: rat_crs_def)
  show ?thesis
    using ipa_decides [OF rat_scalar_mult zero_less_one rat_fair(2) n(1) _ n(2), of "[1, 2]" "[1, 1]" "[]" 13 5]
      ipa_decides [OF rat_scalar_mult zero_less_one rat_fair(2) n(1) _ n(2), of "[1, 2]" "[1, 1]" "[]" 12 5]
    by (simp add: com v3)
qed

text \<open>C31: Polynomials in the Lagrange basis: for the values of a polynomial of degree below the size of the
  domain, the weights are computed, the coefficients at a point outside the domain give its value there,
  and the division by \<open>X - m\<close> gives values whose value there is the difference quotient.\<close>

theorem lagrange_correct:
  fixes t :: "'fr :: field"
  assumes "distinct_domain TYPE('fr) n" "outside n t" "length p \<le> n" "m < n" "n \<le> 2 ^ 31"
  shows "\<exists>w b g. weights_new n = Ok w \<and> evaluate_lagrange_coefficients w n t = Ok b \<and>
    inner_product (map (\<lambda>i. poly_at p (of_nat i)) [0..<n]) b = Ok (poly_at p t) \<and>
    divide_by_linear_vanishing (lagrange_new (map (\<lambda>i. poly_at p (of_nat i)) [0..<n])) w m = Ok (lagrange_new g) \<and>
    inner_product g b = Ok ((poly_at p t - poly_at p (of_nat m)) / (t - of_nat m))"
proof -
  let ?f = "map (\<lambda>i. poly_at p (of_nat i)) [0..<n] :: 'fr list" let ?b = "map (\<lambda>i. lagrange_basis n i t) [0..<n]"
  have f: "length ?f = n"
    by simp
  have "inner_product (lin_quotient ?f m) ?b = Ok ((poly_at p t - poly_at p (of_nat m)) / (t - of_nat m))"
    using lin_quotient_eval [of ?f t m] assms lagrange_exact [OF assms(1-3)]
    by (simp add: lagrange_at_inner divide_inverse)
  moreover have "inner_product ?f ?b = Ok (poly_at p t)"
    using lagrange_exact [OF assms(1-3)] by (simp add: lagrange_at_inner [OF f])
  ultimately show ?thesis
    using weights_new_ok [OF assms(1)] evaluate_lagrange_coefficients_ok [OF assms(1,2)]
      divide_by_linear_vanishing_ok [OF f assms(4,5)] assms(4) by auto
qed

theorem lagrange_correct_witness:
  "\<exists>w b g. weights_new 4 = Ok w \<and> evaluate_lagrange_coefficients w 4 (300 :: rat) = Ok b \<and>
    inner_product [-2, 0, 12, 40] b = Ok (299 * 301 * 302) \<and>
    divide_by_linear_vanishing (lagrange_new [-2, 0, 12, 40]) w 1 = Ok (lagrange_new g) \<and>
    inner_product g b = Ok (301 * 302)"
proof -
  have "map (\<lambda>i. poly_at [-2, -1, 2, 1] (of_nat i)) [0..<4] = [-2, 0, 12, 40 :: rat]"
    by (simp add: poly_at_def lessThan_Suc numeral_eq_Suc upt_rec)
  moreover have "poly_at [-2, -1, 2, 1] 300 = (299 * 301 * 302 :: rat)" "poly_at [-2, -1, 2, 1] (of_nat 1) = (0 :: rat)"
    by (simp_all add: poly_at_def lessThan_Suc eval_nat_numeral)
  moreover have "outside 4 (300 :: rat)"
    by (auto simp: outside_def lessThan_Suc eval_nat_numeral)
  ultimately show ?thesis
    using lagrange_correct [OF rat_domain, of 4 300 "[-2, -1, 2, 1]" 1] by simp
qed

text \<open>\<open>powers_of_par\<close> returns what \<open>powers_of\<close> returns, whatever the number of threads: the powers of
  the point.\<close>

theorem parallel_powers:
  assumes "0 < threads" "0 < n"
  shows "powers_of_par threads point n = Ok (powers_of point n) \<and> powers_of point n = map (\<lambda>i. point ^ i) [0..<n]"
  using powers_of_par_eq [OF assms, of point] powers_of_eq [OF assms(2), of point] by simp

theorem parallel_powers_witness: "powers_of_par 3 (2 :: rat) 5 = Ok [1, 2, 4, 8, 16]"
proof -
  have "powers_of (2 :: rat) 5 = [1, 2, 4, 8, 16]"
    by (simp add: powers_of_def numeral_eq_Suc)
  then show ?thesis
    using parallel_powers [of 3 5 "2 :: rat"] by simp
qed

text \<open>C32: Encoding a multipoint proof with the number of rounds of the domain gives the expected number of
  bytes, and decoding them gives the proof back.\<close>

theorem proof_bytes_roundtrip:
  assumes "encodings_ok cv" "length (L_vec (open_proof proof)) = log2 d" "length (R_vec (open_proof proof)) = log2 d"
    and "log2 d < 64"
  shows "\<exists>bs. mp_to_bytes cv proof = Ok bs \<and> length bs = 32 + serialized_size (open_proof proof) \<and>
    mp_from_bytes cv bs d = Ok proof"
proof -
  obtain bs where "ipa_to_bytes cv (open_proof proof) = Ok bs" "length bs = serialized_size (open_proof proof)"
    "ipa_from_bytes cv bs d = Ok (open_proof proof)"
    using ipa_bytes_ok [OF assms] by blast
  then show ?thesis
    using assms(1) by (simp add: mp_to_bytes_def mp_from_bytes_def encodings_ok_def decode_point_def)
qed

theorem proof_bytes_roundtrip_witness:
  "\<exists>bs. mp_to_bytes word_curve \<lparr>open_proof = \<lparr>L_vec = [1, 2], R_vec = [3, 4], ipa_a = 5\<rparr>, g_x_comm = 6\<rparr> = Ok bs \<and>
    length bs = 192 \<and>
    mp_from_bytes word_curve bs 4 = Ok \<lparr>open_proof = \<lparr>L_vec = [1, 2], R_vec = [3, 4], ipa_a = 5\<rparr>, g_x_comm = 6\<rparr>"
proof -
  have "log2 4 = 2"
    using ceillog2_2_power [of 2] by (simp add: log2_def)
  then show ?thesis
    using proof_bytes_roundtrip [OF word_encodings, of "\<lparr>open_proof = \<lparr>L_vec = [1, 2], R_vec = [3, 4], ipa_a = 5\<rparr>, g_x_comm = 6\<rparr>" 4]
    by (simp add: serialized_size_def)
qed

text \<open>C34: Decoding bytes of any other length panics, when their first point is valid or missing: a
  received proof of a wrong length stops the program instead of being rejected.\<close>

theorem wrong_length_panics:
  assumes "length bs < 2 ^ 32" "length bs \<noteq> 32 * (2 * log2 d + 2)"
    and "length bs < 32 \<or> cv_of_bytes cv (take 32 bs) \<noteq> None"
  shows "mp_from_bytes cv bs d = Panic"
proof (cases "length bs < 32")
  case True
  then show ?thesis
    by (simp add: mp_from_bytes_def)
next
  case False
  then have "(log2 d * 2 + 1) * 32 \<noteq> length (drop 32 bs) mod 2 ^ 32"
    using assms(1,2) by simp
  then have "ipa_from_bytes cv (drop 32 bs) d = Panic"
    by (simp add: ipa_from_bytes_def Let_def)
  then show ?thesis
    using False assms(3) by (auto simp: mp_from_bytes_def decode_point_def)
qed

theorem wrong_length_panics_witness:
  "mp_from_bytes word_curve [] 256 = Panic \<and> mp_from_bytes word_curve (replicate 64 0) 256 = Panic"
proof -
  have "log2 256 = 8"
    using ceillog2_2_power [of 8] by (simp add: log2_def)
  then show ?thesis
    using wrong_length_panics [of "[]" 256 word_curve] wrong_length_panics [of "replicate 64 0" 256 word_curve]
    by (simp add: word_curve_def)
qed

text \<open>C35: \<open>CRS::new\<close> makes a well-formed reference string or none: when the search for points finds enough of them
  within some number of candidates, the string is the first \<open>n + 1\<close> points found, all of them with different
  encodings, the last one as \<open>Q\<close>, and its bytes are read back; when two of these points are the same, the call
  panics.\<close>

theorem crs_well_formed:
  fixes cv :: "('el, 'fr) curve" and try_reduce :: "bytes \<Rightarrow> 'el option" and seed :: bytes and candidates :: "u64 \<Rightarrow> 'el option"
  defines "candidates \<equiv> \<lambda>index. try_reduce (cv_sha256 cv (seed @ rev (to_le_bytes 8 index)))"
  assumes "encodings_ok cv" "n + 1 \<le> length (List.map_filter candidates (map of_nat [0..<N]))"
    and "found = take (n + 1) (List.map_filter candidates (map of_nat [0..<N]))"
  shows "if distinct found
    then \<exists>crs. (crs_new cv try_reduce n seed :: (_, unit) res) = Ok crs \<and> crs_n crs = n \<and> crs_G crs @ [crs_Q crs] = found \<and>
      distinct (crs_to_bytes cv crs) \<and> crs_from_bytes cv (crs_to_bytes cv crs) = Ok crs
    else (crs_new cv try_reduce n seed :: (_, unit) res) = Panic"
proof -
  have len: "length found = n + 1"
    using assms(3,4) by simp
  have "inj (cv_bytes cv)"
    using assms(2) by (intro injI) (metis encodings_ok_def option.inject)
  then have bytes: "distinct (map (cv_bytes cv) found) \<longleftrightarrow> distinct found"
    by (simp add: distinct_map inj_on_def inj_def)
  have run: "(generate_random_elements cv try_reduce (n + 1) seed :: (_, unit) res) = Ok found"
    using generate_loop_ok [of "n + 1" candidates 0 N "[]"] assms(3,4)
    by (simp add: generate_random_elements_def candidates_def)
  have dedup: "assert_dedup cv found \<longleftrightarrow> distinct found"
    using distinct_card [of "map (cv_bytes cv) found"] card_distinct [of "map (cv_bytes cv) found"] bytes
    by (auto simp: assert_dedup_def)
  show ?thesis
  proof (cases "distinct found")
    case True
    have split: "take n found @ [found ! n] = found"
      using take_Suc_conv_app_nth [of n found] len by simp
    let ?crs = "\<lparr>crs_n = n, crs_G = take n found, crs_Q = found ! n\<rparr>"
    have enc: "crs_to_bytes cv ?crs = map (cv_bytes cv) found"
      by (simp only: crs_to_bytes_def crs.simps split)
    have "(crs_new cv try_reduce n seed :: (_, unit) res) = Ok ?crs"
      using True dedup run by (simp add: crs_new_def)
    moreover have "crs_from_bytes cv (crs_to_bytes cv ?crs) = Ok ?crs"
      using len by (intro crs_roundtrip [OF assms(2)]) simp
    ultimately show ?thesis
      using True bytes split unfolding enc [symmetric] by auto
  next
    case False
    then show ?thesis
      using dedup run by (simp add: crs_new_def)
  qed
qed

definition odd_candidate :: "bytes \<Rightarrow> u64 option" where
  "odd_candidate bs = (let w = from_le_bytes (rev bs) in if odd w then Some w else None)"

definition same_candidate :: "bytes \<Rightarrow> u64 option" where
  "same_candidate bs = Some 7"

theorem crs_well_formed_witness:
  "(\<exists>crs. (crs_new word_curve odd_candidate 1 [] :: (_, unit) res) = Ok crs \<and> crs_n crs = 1 \<and> crs_G crs @ [crs_Q crs] = [1, 3] \<and>
    distinct (crs_to_bytes word_curve crs) \<and> crs_from_bytes word_curve (crs_to_bytes word_curve crs) = Ok crs) \<and>
   (crs_new word_curve same_candidate 1 [] :: (_, unit) res) = Panic"
proof -
  have odds: "(\<lambda>index. odd_candidate (cv_sha256 word_curve ([] @ rev (to_le_bytes 8 index)))) =
      (\<lambda>index. if odd index then Some index else None)"
    by (simp add: odd_candidate_def word_curve_def)
  have "List.map_filter (\<lambda>index. odd_candidate (cv_sha256 word_curve ([] @ rev (to_le_bytes 8 index)))) (map (of_nat :: nat \<Rightarrow> u64) [0..<4]) = [1, 3]"
    unfolding odds by (simp add: upt_rec map_filter_simps)
  note odd_found = this
  have "List.map_filter (\<lambda>index. same_candidate (cv_sha256 word_curve ([] @ rev (to_le_bytes 8 index)))) (map (of_nat :: nat \<Rightarrow> u64) [0..<2]) = [7, 7]"
    by (simp add: same_candidate_def upt_rec map_filter_simps)
  note same_found = this
  have 1: "1 + 1 \<le> length [1, 3 :: u64]" "[1, 3 :: u64] = take (1 + 1) [1, 3]" "distinct [1, 3 :: u64]"
      and 2: "1 + 1 \<le> length [7, 7 :: u64]" "[7, 7 :: u64] = take (1 + 1) [7, 7]" "\<not> distinct [7, 7 :: u64]"
    by simp_all
  show ?thesis
    using crs_well_formed [OF word_encodings, of 1 odd_candidate "[]" 4, unfolded odd_found, OF 1(1,2)]
      crs_well_formed [OF word_encodings, of 1 same_candidate "[]" 2, unfolded same_found, OF 2(1,2)]
    unfolding if_P [OF 1(3)] if_not_P [OF 2(3)] by (rule conjI)
qed

end
