(* ===== verification/Committer.thy ===== *)
theory Committer
  imports Lagrange
begin

text \<open>
  \<open>banderwagon/src/salt_committer.rs\<close>: the tables of multiples of the base points, the windows of a scalar,
  both variants of \<open>mul_index\<close> and the addition of an affine point, down to the coordinates.

  The points of the curve (\<open>EdwardsProjective\<close> with the addition of the external crate) are the type
  \<open>'pt\<close>, its base field \<open>'fq\<close>, its scalars \<open>'fr\<close>. \<open>to_affine\<close> is \<open>normalize_batch\<close> on one point,
  \<open>new_unchecked\<close> reads limbs in Montgomery form, \<open>into_bigint\<close> gives the limbs of a scalar.
\<close>

section \<open>Points\<close>

record 'fq affine =
  af_x :: 'fq
  af_y :: 'fq

record 'fq projective =
  pr_x :: 'fq
  pr_y :: 'fq
  pr_t :: 'fq
  pr_z :: 'fq

record ('pt, 'fq, 'fr) edwards =
  to_affine :: "'pt \<Rightarrow> 'fq affine"
  new_unchecked :: "u64 list \<Rightarrow> 'fq"
  into_bigint :: "'fr \<Rightarrow> u64 list"

text \<open>\<open>EdwardsProjective::default()\<close>.\<close>

definition projective_default :: "'fq :: field projective" where
  "projective_default = \<lparr>pr_x = 0, pr_y = 1, pr_t = 0, pr_z = 1\<rparr>"

definition curve_d_limbs :: "u64 list" where
  "curve_d_limbs = [12167860994669987632, 4043113551995129031, 6052647550941614584, 3904213385886034240]"

definition add_affine_point :: "('pt, 'fq :: comm_ring_1, 'fr) edwards \<Rightarrow> 'fq projective \<Rightarrow> 'fq \<Rightarrow> 'fq \<Rightarrow> 'fq projective" where
  "add_affine_point ed result p2_x p2_y =
     (let a = pr_x result * p2_x;
          b = pr_y result * p2_y;
          c = p2_x * p2_y;
          d = pr_t result * c;
          c = d * new_unchecked ed curve_d_limbs;
          d = (pr_x result + pr_y result) * (p2_x + p2_y);
          e = d - a - b;
          f = pr_z result - c;
          g = pr_z result + c;
          a = a * 5;
          h = b + a
      in \<lparr>pr_x = e * f, pr_y = g * h, pr_t = e * h, pr_z = f * g\<rparr>)"

section \<open>Tables\<close>

record 'fq committer =
  window_size :: nat
  tables :: "'fq affine list list"

text \<open>The inner loop: the rounds left, the base of the window, the running element and the table.\<close>

fun multiples_loop :: "nat \<Rightarrow> 'pt :: ab_group_add \<Rightarrow> 'pt \<Rightarrow> 'pt list \<Rightarrow> 'pt \<times> 'pt list" where
  "multiples_loop 0 base element table = (element, table)"
| "multiples_loop (Suc k) base element table =
     (let element = element + base in multiples_loop k base element (table @ [element]))"

fun windows_loop :: "nat \<Rightarrow> nat \<Rightarrow> 'pt :: ab_group_add \<Rightarrow> 'pt list \<Rightarrow> 'pt list" where
  "windows_loop 0 half element table = table"
| "windows_loop (Suc k) half element table =
     (let (element, table) = multiples_loop (half - 1) element element (table @ [0, element])
      in windows_loop k half (element + element) table)"

text \<open>
  The bound of the inner loop, \<open>1 << (window_size - 1)\<close>, is an \<open>i32\<close>: nothing fixes the type of the
  unused loop variable. The shift takes its amount modulo 32, and the bound is negative for a window size of 32.
  \<open>253 / 0\<close> panics. The allocation of the tables is not modelled.
\<close>

definition inner_bound :: "nat \<Rightarrow> int" where
  "inner_bound w = sint (push_bit ((w - 1) mod 32) 1 :: 32 word)"

definition committer_new :: "('pt :: ab_group_add, 'fq, 'fr) edwards \<Rightarrow> 'pt list \<Rightarrow> nat \<Rightarrow> 'fq committer out" where
  "committer_new ed bases w =
     (if w = 0 then Panic
      else let win_num = 253 div w + 1
           in Ok \<lparr>window_size = w,
                  tables = map (\<lambda>base. map (to_affine ed) (windows_loop win_num (nat (inner_bound w)) base [])) bases\<rparr>)"

section \<open>The windows of a scalar\<close>

definition shift_left :: "u64 \<Rightarrow> nat \<Rightarrow> u64" where
  "shift_left x n = push_bit (n mod 64) x"

definition window_at :: "u64 list \<Rightarrow> nat \<Rightarrow> nat \<Rightarrow> u64 out" where
  "window_at source_vec w start_bit =
     (let source_i = start_bit div 64; offset_in_i = start_bit mod 64
      in bind_res (index_res source_vec source_i) (\<lambda>s.
         let d = drop_bit offset_in_i s AND (shift_left 1 w - 1)
         in if 64 < offset_in_i + w \<and> source_i < length source_vec - 1
            then let left = w - (64 - offset_in_i)
                 in bind_res (index_res source_vec (source_i + 1)) (\<lambda>s'.
                    Ok (d OR shift_left (s' AND (shift_left 1 left - 1)) (64 - offset_in_i)))
            else Ok d))"

text \<open>\<open>(0..254).step_by(w)\<close> panics for \<open>w = 0\<close>.\<close>

definition calculate_prefetch_index :: "u64 list \<Rightarrow> nat \<Rightarrow> u64 list out" where
  "calculate_prefetch_index source_vec w =
     (if w = 0 then Panic else map_collect (window_at source_vec w) (map (\<lambda>i. i * w) [0..<div_ceil 254 w]))"

section \<open>Multiplication\<close>

text \<open>
  The variant for \<open>x86_64\<close>. An unchecked access outside of the table is undefined behaviour; the model
  panics there, and the theorems show that it does not happen. The prefetch instructions have no effect
  on the state.
\<close>

definition add_entry :: "('pt, 'fq :: field, 'fr) edwards \<Rightarrow> 'fq affine list \<Rightarrow> nat \<Rightarrow> nat \<Rightarrow> 'fq projective \<Rightarrow> 'fq projective out" where
  "add_entry ed table carry idx result =
     bind_res (index_res table idx) (\<lambda>p.
     Ok (if carry > 0 then add_affine_point ed result (- af_x p) (af_y p)
         else add_affine_point ed result (af_x p) (af_y p)))"

fun prefetch_loop ::
  "('pt, 'fq :: field, 'fr) edwards \<Rightarrow> 'fq affine list \<Rightarrow> nat \<Rightarrow> u64 list \<Rightarrow> nat \<Rightarrow> nat \<Rightarrow> nat \<Rightarrow> 'fq projective \<Rightarrow> 'fq projective out"
where
  "prefetch_loop ed table w [] i idx c_next result = add_entry ed table c_next idx result"
| "prefetch_loop ed table w (chunk # chunks) i idx c_next result =
     (let half_wnd = 2 ^ (w - 1) + 1; wnd_size = 2 ^ w; idx_next = unat chunk + c_next; carry = c_next;
          (c_next, idx_next) = (if half_wnd \<le> idx_next then (1, wnd_size - idx_next + i * half_wnd) else (0, idx_next + i * half_wnd))
      in bind_res (add_entry ed table carry idx result) (prefetch_loop ed table w chunks (i + 1) idx_next c_next))"

definition mul_index_prefetch :: "('pt, 'fq :: field, 'fr) edwards \<Rightarrow> 'fq committer \<Rightarrow> 'fr \<Rightarrow> nat \<Rightarrow> 'fq projective out" where
  "mul_index_prefetch ed co scalar g_i =
     (let w = window_size co in
      bind_res (calculate_prefetch_index (into_bigint ed scalar) w) (\<lambda>chunks.
      bind_res (index_res (tables co) g_i) (\<lambda>precomp_table.
      bind_res (index_res chunks 0) (\<lambda>data_0.
      let (c_next, idx_next) = (if 2 ^ (w - 1) + 1 \<le> unat data_0 then (1, 2 ^ w - unat data_0) else (0, unat data_0))
      in prefetch_loop ed precomp_table w (drop 1 chunks) 1 idx_next c_next projective_default))))"

text \<open>The portable variant collects the points first.\<close>

fun points_loop :: "'fq :: field affine list \<Rightarrow> nat \<Rightarrow> u64 list \<Rightarrow> nat \<Rightarrow> u64 \<Rightarrow> 'fq affine list \<Rightarrow> 'fq affine list out" where
  "points_loop precom_table w [] i carry points = Ok points"
| "points_loop precom_table w (chunk # chunks) i carry points =
     (let half_win = 2 ^ (w - 1); index = unat (chunk + carry)
      in if index = 0 then points_loop precom_table w chunks (i + 1) carry points
         else if half_win < index
              then let index = 2 ^ w - index
                   in if index \<noteq> 0
                      then bind_res (index_res precom_table (index + i * (half_win + 1))) (\<lambda>p.
                           points_loop precom_table w chunks (i + 1) 1 (points @ [p\<lparr>af_x := - af_x p\<rparr>]))
                      else points_loop precom_table w chunks (i + 1) 1 points
              else bind_res (index_res precom_table (index + i * (half_win + 1))) (\<lambda>p.
                   points_loop precom_table w chunks (i + 1) 0 (points @ [p])))"

definition mul_index_portable :: "('pt, 'fq :: field, 'fr) edwards \<Rightarrow> 'fq committer \<Rightarrow> 'fr \<Rightarrow> nat \<Rightarrow> 'fq projective out" where
  "mul_index_portable ed co scalar g_i =
     bind_res (calculate_prefetch_index (into_bigint ed scalar) (window_size co)) (\<lambda>chunks.
     bind_res (index_res (tables co) g_i) (\<lambda>precom_table.
     bind_res (points_loop precom_table (window_size co) chunks 0 0 []) (\<lambda>points.
     Ok (fold (\<lambda>p result. add_affine_point ed result (af_x p) (af_y p)) points projective_default))))"

end
