(* ===== verification/Mont_Asm.thy ===== *)
theory Mont_Asm
  imports Salt_Prelude
begin

text \<open>
  \<open>banderwagon/src/scalar_multi_asm.rs\<close>: the two assembly routines of the base field, instruction by
  instruction, over a machine with the registers, the two carry flags, the memory and the stack that they use.
  Instructions are written in the order of the source (AT&T: sources before destinations).
\<close>

section \<open>The machine\<close>

datatype reg = RAX | RBX | RCX | RDX | RSI | RDI | RBP | R8 | R9 | R10 | R11 | R12 | R13 | R14 | R15

text \<open>The memory is read and written in cells of 64 bits.\<close>

record machine =
  regs :: "reg \<Rightarrow> u64"
  carry_flag :: bool
  overflow_flag :: bool
  memory :: "u64 \<Rightarrow> u64"
  stack :: "u64 list"

text \<open>\<open>%r\<close>, \<open>k(%r)\<close> and \<open>$k\<close>.\<close>

datatype operand = Reg reg | Mem u64 reg | Imm u64

fun operand_value :: "machine \<Rightarrow> operand \<Rightarrow> u64" where
  "operand_value s (Reg r) = regs s r"
| "operand_value s (Mem k r) = memory s (regs s r + k)"
| "operand_value s (Imm k) = k"

datatype instr =
    Movq operand reg
  | Store reg u64 reg
  | Addq operand reg
  | Adcq operand reg
  | Subq operand reg
  | Sbbq operand reg
  | Xorq operand reg
  | Imulq operand reg
  | Mulxq operand reg reg
  | Adcxq operand reg
  | Adoxq operand reg
  | Cmovc operand reg
  | Push reg
  | Pop reg

text \<open>Addition and subtraction with a carry, and the two halves of a product.\<close>

definition adc :: "u64 \<Rightarrow> u64 \<Rightarrow> bool \<Rightarrow> u64 \<times> bool" where
  "adc a b c = (a + b + of_bool c, 2 ^ 64 \<le> unat a + unat b + of_bool c)"

definition sbb :: "u64 \<Rightarrow> u64 \<Rightarrow> bool \<Rightarrow> u64 \<times> bool" where
  "sbb a b c = (a - b - of_bool c, unat a < unat b + of_bool c)"

definition mul_low :: "u64 \<Rightarrow> u64 \<Rightarrow> u64" where
  "mul_low a b = a * b"

definition mul_high :: "u64 \<Rightarrow> u64 \<Rightarrow> u64" where
  "mul_high a b = of_nat (unat a * unat b div 2 ^ 64)"

text \<open>The overflow flag of a signed result.\<close>

definition signed_overflow :: "int \<Rightarrow> bool" where
  "signed_overflow k \<longleftrightarrow> k < - (2 ^ 63) \<or> 2 ^ 63 \<le> k"

definition set_reg :: "reg \<Rightarrow> u64 \<Rightarrow> machine \<Rightarrow> machine" where
  "set_reg r v s = s\<lparr>regs := (regs s)(r := v)\<rparr>"

definition set_flags :: "bool \<Rightarrow> bool \<Rightarrow> machine \<Rightarrow> machine" where
  "set_flags c v s = s\<lparr>carry_flag := c, overflow_flag := v\<rparr>"

definition add_to :: "u64 \<Rightarrow> reg \<Rightarrow> bool \<Rightarrow> machine \<Rightarrow> machine" where
  "add_to v r c s =
     (let d = regs s r in set_flags (snd (adc d v c)) (signed_overflow (sint d + sint v + of_bool c)) (set_reg r (fst (adc d v c)) s))"

definition sub_from :: "u64 \<Rightarrow> reg \<Rightarrow> bool \<Rightarrow> machine \<Rightarrow> machine" where
  "sub_from v r c s =
     (let d = regs s r in set_flags (snd (sbb d v c)) (signed_overflow (sint d - sint v - of_bool c)) (set_reg r (fst (sbb d v c)) s))"

fun step :: "instr \<Rightarrow> machine \<Rightarrow> machine" where
  "step (Movq src r) s = set_reg r (operand_value s src) s"
| "step (Store r k b) s = s\<lparr>memory := (memory s)(regs s b + k := regs s r)\<rparr>"
| "step (Addq src r) s = add_to (operand_value s src) r False s"
| "step (Adcq src r) s = add_to (operand_value s src) r (carry_flag s) s"
| "step (Subq src r) s = sub_from (operand_value s src) r False s"
| "step (Sbbq src r) s = sub_from (operand_value s src) r (carry_flag s) s"
| "step (Xorq src r) s = set_flags False False (set_reg r (regs s r XOR operand_value s src) s)"
| "step (Imulq src r) s =
     (let v = operand_value s src; d = regs s r; far = signed_overflow (sint d * sint v)
      in set_flags far far (set_reg r (mul_low d v) s))"
| "step (Mulxq src lo hi) s =
     (let v = operand_value s src; d = regs s RDX in set_reg hi (mul_high d v) (set_reg lo (mul_low d v) s))"
| "step (Adcxq src r) s =
     (let vc = adc (regs s r) (operand_value s src) (carry_flag s) in (set_reg r (fst vc) s)\<lparr>carry_flag := snd vc\<rparr>)"
| "step (Adoxq src r) s =
     (let vc = adc (regs s r) (operand_value s src) (overflow_flag s) in (set_reg r (fst vc) s)\<lparr>overflow_flag := snd vc\<rparr>)"
| "step (Cmovc src r) s = (if carry_flag s then set_reg r (operand_value s src) s else s)"
| "step (Push r) s = s\<lparr>stack := regs s r # stack s\<rparr>"
| "step (Pop r) s = (case stack s of [] \<Rightarrow> s | v # vs \<Rightarrow> (set_reg r v s)\<lparr>stack := vs\<rparr>)"

fun run :: "instr list \<Rightarrow> machine \<Rightarrow> machine" where
  "run [] s = s"
| "run (i # is) s = run is (step i s)"

section \<open>The programs\<close>

text \<open>\<open>reduce_macro\<close>: subtracts the modulus and puts the old value back when that borrows.\<close>

definition reduce_macro :: "reg \<Rightarrow> reg \<Rightarrow> reg \<Rightarrow> reg \<Rightarrow> reg \<Rightarrow> reg \<Rightarrow> reg \<Rightarrow> reg \<Rightarrow> instr list" where
  "reduce_macro a b c d a' b' c' d' =
    [Movq (Reg a) a', Movq (Imm 0xffffffff00000001) R15, Subq (Reg R15) a,
     Movq (Reg b) b', Movq (Imm 0x53bda402fffe5bfe) R15, Sbbq (Reg R15) b,
     Movq (Reg c) c', Movq (Imm 0x3339d80809a1d805) R15, Sbbq (Reg R15) c,
     Movq (Reg d) d', Movq (Imm 0x73eda753299d7d48) R15, Sbbq (Reg R15) d,
     Cmovc (Reg a') a, Cmovc (Reg b') b, Cmovc (Reg c') c, Cmovc (Reg d') d]"

definition double_macro :: "instr list" where
  "double_macro = [Addq (Reg RDX) RDX, Adcq (Reg RCX) RCX, Adcq (Reg RBX) RBX, Adcq (Reg RSI) RSI]"

definition mont_mul_by5_asm :: "instr list" where
  "mont_mul_by5_asm =
    [Push RDX, Push RCX, Push RBX, Push RSI, Push R15,
     Movq (Mem 0 RDI) RDX, Movq (Mem 8 RDI) RCX, Movq (Mem 16 RDI) RBX, Movq (Mem 24 RDI) RSI] @
    double_macro @ reduce_macro RDX RCX RBX RSI RAX R8 R9 R10 @
    double_macro @ reduce_macro RDX RCX RBX RSI RAX R8 R9 R10 @
    [Addq (Mem 0 RDI) RDX, Adcq (Mem 8 RDI) RCX, Adcq (Mem 16 RDI) RBX, Adcq (Mem 24 RDI) RSI] @
    reduce_macro RDX RCX RBX RSI RAX R8 R9 R10 @
    [Store RDX 0 RDI, Store RCX 8 RDI, Store RBX 16 RDI, Store RSI 24 RDI,
     Pop R15, Pop RSI, Pop RBX, Pop RCX, Pop RDX]"

text \<open>The first row: \<open>x * y[0]\<close>.\<close>

definition first_row :: "instr list" where
  "first_row =
    [Xorq (Reg RAX) RAX, Movq (Mem 0 R11) RDX,
     Mulxq (Reg R12) R14 R13,
     Mulxq (Reg R8) RAX RCX, Adoxq (Reg RAX) R13,
     Mulxq (Reg R9) RAX RBX, Adoxq (Reg RAX) RCX,
     Mulxq (Reg R10) RAX RBP, Adoxq (Reg RAX) RBX,
     Movq (Imm 0) RAX, Adoxq (Reg RAX) RBP]"

text \<open>The other rows: \<open>t + x * y[i]\<close>.\<close>

definition next_row :: "u64 \<Rightarrow> instr list" where
  "next_row k =
    [Xorq (Reg RAX) RAX, Movq (Mem k R11) RDX,
     Mulxq (Reg R12) RAX RBP, Adoxq (Reg RAX) R14,
     Adcxq (Reg RBP) R13, Mulxq (Reg R8) RAX RBP, Adoxq (Reg RAX) R13,
     Adcxq (Reg RBP) RCX, Mulxq (Reg R9) RAX RBP, Adoxq (Reg RAX) RCX,
     Adcxq (Reg RBP) RBX, Mulxq (Reg R10) RAX RBP, Adoxq (Reg RAX) RBX,
     Movq (Imm 0) RAX, Adcxq (Reg RAX) RBP, Adoxq (Reg RAX) RBP]"

text \<open>The reduction of a row: \<open>(t + m * p) / 2^64\<close> with \<open>m = t[0] * q' mod 2^64\<close>.\<close>

definition reduce_row :: "instr list" where
  "reduce_row =
    [Movq (Imm 0xfffffffeffffffff) RDX, Imulq (Reg R14) RDX,
     Xorq (Reg RAX) RAX,
     Movq (Imm 0xffffffff00000001) R15, Mulxq (Reg R15) RAX RSI, Adcxq (Reg R14) RAX, Movq (Reg RSI) R14,
     Adcxq (Reg R13) R14, Movq (Imm 0x53bda402fffe5bfe) R15, Mulxq (Reg R15) RAX R13, Adoxq (Reg RAX) R14,
     Adcxq (Reg RCX) R13, Movq (Imm 0x3339d80809a1d805) R15, Mulxq (Reg R15) RAX RCX, Adoxq (Reg RAX) R13,
     Adcxq (Reg RBX) RCX, Movq (Imm 0x73eda753299d7d48) R15, Mulxq (Reg R15) RAX RBX, Adoxq (Reg RAX) RCX,
     Movq (Imm 0) RAX, Adcxq (Reg RAX) RBX, Adoxq (Reg RBP) RBX]"

definition mont_mul_asm :: "instr list" where
  "mont_mul_asm =
    [Push R15, Push R14, Push R13, Push R12, Push RBP, Push RCX, Push RBX,
     Movq (Mem 0 RSI) R12, Movq (Mem 8 RSI) R8, Movq (Mem 16 RSI) R9, Movq (Mem 24 RSI) R10,
     Movq (Reg RDX) R11] @
    first_row @ reduce_row @ next_row 8 @ reduce_row @ next_row 16 @ reduce_row @ next_row 24 @ reduce_row @
    reduce_macro R14 R13 RCX RBX RSI R12 R11 RAX @
    [Store R14 0 RDI, Store R13 8 RDI, Store RCX 16 RDI, Store RBX 24 RDI,
     Pop RBX, Pop RCX, Pop RBP, Pop R12, Pop R13, Pop R14, Pop R15]"


section \<open>Arithmetic\<close>

lemma adc_eq: "unat (fst (adc a b c)) + 2 ^ 64 * of_bool (snd (adc a b c)) = unat a + unat b + of_bool c"
proof -
  have "unat (a + b + of_bool c) = (unat a + unat b + of_bool c) mod 2 ^ 64"
    by (simp add: unat_word_ariths mod_simps)
  moreover have "unat a + unat b + of_bool c < 2 * 2 ^ 64"
    using unat_u64_less [of a] unat_u64_less [of b] by (cases c) simp_all
  ultimately show ?thesis
    by (auto simp: adc_def mod_if le_mod_geq not_less)
qed

lemma mod_borrow: "- m \<le> k \<Longrightarrow> k < m \<Longrightarrow> k mod m = (if k < 0 then k + m else (k :: int))"
  using mod_pos_pos_trivial [of "k + m" m] by (auto simp: mod_pos_pos_trivial)

lemma sub_borrow:
  fixes x y m :: int
  assumes "0 \<le> x" "x < m" "0 \<le> y" "y < m"
  shows "(x - y - of_bool c) mod m = x - y - of_bool c + m * of_bool (x < y + of_bool c)"
  using assms by (subst mod_borrow) (cases c; auto)+

lemma sbb_eq: "unat (fst (sbb a b c)) + unat b + of_bool c = unat a + 2 ^ 64 * of_bool (snd (sbb a b c))"
proof -
  have "uint a < 2 ^ 64" "uint b < 2 ^ 64"
    by (rule order_less_le_trans [OF unsigned_less]; simp)+
  then have "uint (a - b - of_bool c) = uint a - uint b - of_bool c + 2 ^ 64 * of_bool (uint a < uint b + of_bool c)"
    using sub_borrow [of "uint a" "2 ^ 64" "uint b" c] by (cases c) (auto simp: uint_word_ariths mod_simps)
  moreover have "uint a < uint b + of_bool c \<longleftrightarrow> unat a < unat b + of_bool c"
    by (cases c) (simp_all add: less_Suc_eq_le flip: word_less_nat_alt word_less_def word_le_nat_alt word_le_def)
  ultimately have "int (unat (a - b - of_bool c) + unat b + of_bool c) = int (unat a + 2 ^ 64 * of_bool (unat a < unat b + of_bool c))"
    by (simp del: of_bool_eq_iff)
  then show ?thesis
    unfolding sbb_def of_nat_eq_iff by simp
qed

lemma mul_eq: "unat (mul_low a b) + 2 ^ 64 * unat (mul_high a b) = unat a * unat b"
proof -
  have "unat a * unat b < 2 ^ 64 * 2 ^ 64"
    using unat_u64_less [of a] unat_u64_less [of b] by (intro mult_strict_mono) simp_all
  then have "unat a * unat b div 2 ^ 64 < 2 ^ 64"
    by (simp add: less_mult_imp_div_less)
  then have "unat (mul_high a b) = unat a * unat b div 2 ^ 64"
    by (simp add: mul_high_def unsigned_of_nat take_bit_nat_eq_self_iff)
  then show ?thesis
    by (simp add: mul_low_def unat_word_ariths)
qed

section \<open>Runs\<close>

lemma run_append [simp]: "run (p @ q) s = run q (run p s)"
  by (induction p arbitrary: s) simp_all

lemmas execute = set_reg_def set_flags_def add_to_def sub_from_def Let_def

text \<open>
  In the integers, where the carries telescope: a sum is rewritten to its summands and its carry, the
  lower half of a product to the product and its upper half.
\<close>

lemma uint_adc: "uint (fst (adc a b c)) = uint a + uint b + of_bool c - 2 ^ 64 * of_bool (snd (adc a b c))"
  using arg_cong [OF adc_eq [of a b c], of int] by (simp add: algebra_simps)

lemma uint_sbb: "uint (fst (sbb a b c)) = uint a - uint b - of_bool c + 2 ^ 64 * of_bool (snd (sbb a b c))"
  using arg_cong [OF sbb_eq [of a b c], of int] by (simp add: algebra_simps)

lemma uint_mul_low: "uint (mul_low a b) = uint a * uint b - 2 ^ 64 * uint (mul_high a b)"
  using arg_cong [OF mul_eq [of a b], of int] by (simp add: algebra_simps)

lemmas carries = uint_adc uint_sbb uint_mul_low

definition val4 :: "u64 \<Rightarrow> u64 \<Rightarrow> u64 \<Rightarrow> u64 \<Rightarrow> int" where
  "val4 a b c d = uint a + 2 ^ 64 * uint b + 2 ^ 128 * uint c + 2 ^ 192 * uint d"

lemma val4_bounds: "0 \<le> val4 a b c d" "val4 a b c d < 2 ^ 256"
proof -
  have "uint w < 2 ^ 64" for w :: u64
    by (rule order_less_le_trans [OF unsigned_less]) simp
  from this [of a] this [of b] this [of c] this [of d] show "val4 a b c d < 2 ^ 256"
    unfolding val4_def by simp
qed (simp add: val4_def)

definition fq_modulus :: int where
  "fq_modulus = 0x73eda753299d7d483339d80809a1d80553bda402fffe5bfeffffffff00000001"

lemma fq_modulus_val4: "fq_modulus = val4 0xffffffff00000001 0x53bda402fffe5bfe 0x3339d80809a1d805 0x73eda753299d7d48"
  by (simp add: fq_modulus_def val4_def)

text \<open>The operand, the accumulator of four limbs and the limb above it.\<close>

definition operand_x :: "machine \<Rightarrow> int" where
  "operand_x s = val4 (regs s R12) (regs s R8) (regs s R9) (regs s R10)"

definition accum :: "machine \<Rightarrow> int" where
  "accum s = val4 (regs s R14) (regs s R13) (regs s RCX) (regs s RBX)"

definition top_limb :: "machine \<Rightarrow> int" where
  "top_limb s = uint (regs s RBP)"

definition same_frame :: "machine \<Rightarrow> machine \<Rightarrow> bool" where
  "same_frame s s' \<longleftrightarrow> memory s' = memory s \<and> stack s' = stack s \<and>
     (\<forall>r \<in> {R8, R9, R10, R11, R12, RDI}. regs s' r = regs s r)"

lemma carry_zero:
  fixes v w m :: int
  assumes "v + m * of_bool c = w" "w < m" "0 \<le> v" "0 \<le> m"
  shows "\<not> c" "v = w"
  using assms by (cases c; simp)+

lemma uint_u64_less: "uint (w :: u64) < 2 ^ 64"
  by (rule order_less_le_trans [OF unsigned_less]) simp

lemma product_bound: "val4 a b c d * uint (w :: u64) \<le> (2 ^ 256 - 1) * (2 ^ 64 - 1)"
  using val4_bounds [of a b c d] uint_u64_less [of w] by (intro mult_mono) auto

lemma accum_bounds: "0 \<le> accum s" "accum s < 2 ^ 256" "0 \<le> top_limb s" "top_limb s < 2 ^ 64"
  unfolding accum_def top_limb_def using uint_u64_less by (simp_all only: val4_bounds unsigned_greater_eq)

lemma first_row_run:
  "same_frame s (run first_row s)"
  "accum (run first_row s) + 2 ^ 256 * top_limb (run first_row s) = operand_x s * uint (memory s (regs s R11))"
proof -
  let ?s = "run first_row s" let ?xy = "operand_x s * uint (memory s (regs s R11))"
  show "same_frame s ?s"
    by (simp add: same_frame_def first_row_def execute)
  obtain c where eq: "accum ?s + 2 ^ 256 * top_limb ?s + 2 ^ 320 * of_bool c = ?xy"
    unfolding accum_def top_limb_def operand_x_def val4_def first_row_def
    by (simp add: execute carries algebra_simps)
  have "?xy < 2 ^ 320"
    unfolding operand_x_def by (rule le_less_trans [OF product_bound]) simp
  moreover have "0 \<le> accum ?s + 2 ^ 256 * top_limb ?s"
    using accum_bounds [of ?s] by simp
  ultimately show "accum ?s + 2 ^ 256 * top_limb ?s = ?xy"
    using carry_zero(2) [OF eq] by simp
qed

lemma next_row_run:
  "same_frame s (run (next_row k) s)"
  "accum (run (next_row k) s) + 2 ^ 256 * top_limb (run (next_row k) s) = accum s + operand_x s * uint (memory s (regs s R11 + k))"
proof -
  let ?s = "run (next_row k) s" let ?xy = "operand_x s * uint (memory s (regs s R11 + k))"
  show "same_frame s ?s"
    by (simp add: same_frame_def next_row_def execute)
  obtain c c' where eq: "accum ?s + 2 ^ 256 * top_limb ?s + 2 ^ 320 * of_bool c + 2 ^ 320 * of_bool c' = accum s + ?xy"
    unfolding accum_def top_limb_def operand_x_def val4_def next_row_def
    by (simp add: execute carries algebra_simps)
  have sum: "accum s + ?xy < 2 ^ 320"
    using accum_bounds(2) [of s] product_bound unfolding operand_x_def by (rule order.strict_trans2 [OF add_less_le_mono]) simp
  have pos: "0 \<le> accum ?s + 2 ^ 256 * top_limb ?s"
    using accum_bounds [of ?s] by simp
  have first: "accum ?s + 2 ^ 256 * top_limb ?s + 2 ^ 320 * of_bool c = accum s + ?xy"
    using carry_zero(2) [OF eq sum] pos by simp
  show "accum ?s + 2 ^ 256 * top_limb ?s = accum s + ?xy"
    using carry_zero(2) [OF first sum] pos by simp
qed

lemma low_word_zero: "fst (adc (mul_low (mul_low 0xfffffffeffffffff t) 0xffffffff00000001) t False) = 0"
proof -
  have "0xfffffffeffffffff * t * 0xffffffff00000001 + t = (0xfffffffeffffffff * 0xffffffff00000001 + 1) * t"
    by (simp only: distrib_left mult_ac mult_1_right mult_1)
  also have "(0xfffffffeffffffff * 0xffffffff00000001 + 1 :: u64) = 0"
    by simp
  finally show ?thesis
    by (simp add: adc_def mul_low_def)
qed

lemma reduce_row_run:
  assumes "accum s + 2 ^ 256 * top_limb s < 2 ^ 320 - 2 ^ 64 * fq_modulus"
  shows "same_frame s (run reduce_row s)"
    and "\<exists>m. 0 \<le> m \<and> m < 2 ^ 64 \<and> 2 ^ 64 * accum (run reduce_row s) = accum s + 2 ^ 256 * top_limb s + m * fq_modulus"
proof -
  let ?s = "run reduce_row s"
  show "same_frame s ?s"
    by (simp add: same_frame_def reduce_row_def execute)
  define m where "m = mul_low 0xfffffffeffffffff (regs s R14)"
  have m: "mul_low 0xfffffffeffffffff (regs s R14) = m"
    by (simp add: m_def)
  obtain c c' where "2 ^ 64 * accum ?s + 2 ^ 320 * of_bool c + 2 ^ 320 * of_bool c' +
      uint (fst (adc (mul_low m 0xffffffff00000001) (regs s R14) False)) = accum s + 2 ^ 256 * top_limb s + uint m * fq_modulus"
    unfolding accum_def top_limb_def operand_x_def val4_def reduce_row_def fq_modulus_val4
    by (simp add: execute carries m algebra_simps) (metis mult.commute)
  then have eq: "2 ^ 64 * accum ?s + 2 ^ 320 * of_bool c + 2 ^ 320 * of_bool c' = accum s + 2 ^ 256 * top_limb s + uint m * fq_modulus"
    by (simp add: m_def low_word_zero)
  have "uint m * fq_modulus \<le> 2 ^ 64 * fq_modulus"
    using uint_u64_less [of m] by (intro mult_right_mono) (simp_all add: fq_modulus_def)
  then have sum: "accum s + 2 ^ 256 * top_limb s + uint m * fq_modulus < 2 ^ 320"
    using assms by linarith
  have pos: "0 \<le> 2 ^ 64 * accum ?s"
    using accum_bounds [of ?s] by simp
  have first: "2 ^ 64 * accum ?s + 2 ^ 320 * of_bool c = accum s + 2 ^ 256 * top_limb s + uint m * fq_modulus"
    using carry_zero(2) [OF eq sum] pos by simp
  have "2 ^ 64 * accum ?s = accum s + 2 ^ 256 * top_limb s + uint m * fq_modulus"
    using carry_zero(2) [OF first sum] pos by simp
  then show "\<exists>m. 0 \<le> m \<and> m < 2 ^ 64 \<and> 2 ^ 64 * accum ?s = accum s + 2 ^ 256 * top_limb s + m * fq_modulus"
    using uint_u64_less [of m] by (intro exI [of _ "uint m"]) simp
qed

lemma next_row_reduced:
  fixes k :: u64
  assumes "accum s < 2 * fq_modulus" "operand_x s < fq_modulus"
  defines "s' \<equiv> run (next_row k @ reduce_row) s"
  shows "same_frame s s'" "accum s' < 2 * fq_modulus"
    and "\<exists>m. 2 ^ 64 * accum s' = accum s + operand_x s * uint (memory s (regs s R11 + k)) + m * fq_modulus"
proof -
  let ?s = "run (next_row k) s" let ?xy = "operand_x s * uint (memory s (regs s R11 + k))"
  have "?xy \<le> (fq_modulus - 1) * (2 ^ 64 - 1)"
    using assms(2) uint_u64_less [of "memory s (regs s R11 + k)"]
    by (intro mult_mono) (simp_all add: operand_x_def val4_bounds fq_modulus_def)
  moreover from this have "accum ?s + 2 ^ 256 * top_limb ?s < 2 ^ 320 - 2 ^ 64 * fq_modulus"
    using assms(1) unfolding next_row_run(2) fq_modulus_def by simp
  note red = reduce_row_run [OF this]
  show "same_frame s s'"
    using next_row_run(1) red(1) by (simp add: same_frame_def s'_def)
  obtain m where m: "m < 2 ^ 64" "2 ^ 64 * accum s' = accum s + ?xy + m * fq_modulus"
    using red(2) unfolding next_row_run(2) s'_def run_append by blast
  moreover from m(1) have "m * fq_modulus \<le> (2 ^ 64 - 1) * fq_modulus"
    by (intro mult_right_mono) (simp_all add: fq_modulus_def)
  ultimately show "accum s' < 2 * fq_modulus"
    using assms(1) unfolding fq_modulus_def by simp
  show "\<exists>m. 2 ^ 64 * accum s' = accum s + ?xy + m * fq_modulus"
    using m by blast
qed

lemma first_row_reduced:
  assumes "operand_x s < fq_modulus"
  defines "s' \<equiv> run (first_row @ reduce_row) s"
  shows "same_frame s s'" "accum s' < 2 * fq_modulus"
    and "\<exists>m. 2 ^ 64 * accum s' = operand_x s * uint (memory s (regs s R11)) + m * fq_modulus"
proof -
  let ?s = "run first_row s" let ?xy = "operand_x s * uint (memory s (regs s R11))"
  have "?xy \<le> (fq_modulus - 1) * (2 ^ 64 - 1)"
    using assms(1) uint_u64_less [of "memory s (regs s R11)"]
    by (intro mult_mono) (simp_all add: operand_x_def val4_bounds fq_modulus_def)
  moreover from this have "accum ?s + 2 ^ 256 * top_limb ?s < 2 ^ 320 - 2 ^ 64 * fq_modulus"
    unfolding first_row_run(2) fq_modulus_def by simp
  note red = reduce_row_run [OF this]
  show "same_frame s s'"
    using first_row_run(1) red(1) by (simp add: same_frame_def s'_def)
  obtain m where m: "m < 2 ^ 64" "2 ^ 64 * accum s' = ?xy + m * fq_modulus"
    using red(2) unfolding first_row_run(2) s'_def run_append by blast
  moreover from m(1) have "m * fq_modulus \<le> (2 ^ 64 - 1) * fq_modulus"
    by (intro mult_right_mono) (simp_all add: fq_modulus_def)
  ultimately show "accum s' < 2 * fq_modulus"
    unfolding fq_modulus_def by simp
  show "\<exists>m. 2 ^ 64 * accum s' = ?xy + m * fq_modulus"
    using m by blast
qed

section \<open>The conditional subtraction\<close>

definition sub_modulus :: "u64 \<Rightarrow> u64 \<Rightarrow> u64 \<Rightarrow> u64 \<Rightarrow> u64 \<times> u64 \<times> u64 \<times> u64 \<times> bool" where
  "sub_modulus a b c d =
     (let s0 = sbb a 0xffffffff00000001 False; s1 = sbb b 0x53bda402fffe5bfe (snd s0);
          s2 = sbb c 0x3339d80809a1d805 (snd s1); s3 = sbb d 0x73eda753299d7d48 (snd s2)
      in if snd s3 then (a, b, c, d, True) else (fst s0, fst s1, fst s2, fst s3, False))"

lemma sub_modulus_eq:
  assumes "sub_modulus a b c d = (a', b', c', d', t)"
  shows "val4 a' b' c' d' = (if val4 a b c d < fq_modulus then val4 a b c d else val4 a b c d - fq_modulus)"
proof -
  define s0 where "s0 = sbb a 0xffffffff00000001 False"
  define s1 where "s1 = sbb b 0x53bda402fffe5bfe (snd s0)"
  define s2 where "s2 = sbb c 0x3339d80809a1d805 (snd s1)"
  define s3 where "s3 = sbb d 0x73eda753299d7d48 (snd s2)"
  have eq: "val4 (fst s0) (fst s1) (fst s2) (fst s3) = val4 a b c d - fq_modulus + 2 ^ 256 * of_bool (snd s3)"
    unfolding val4_def fq_modulus_val4 s0_def s1_def s2_def s3_def by (simp add: carries algebra_simps)
  then have "snd s3 \<longleftrightarrow> val4 a b c d < fq_modulus"
    using val4_bounds [of "fst s0" "fst s1" "fst s2" "fst s3"] val4_bounds [of a b c d]
    by (cases "snd s3") (simp_all add: fq_modulus_def)
  then show ?thesis
    using assms eq by (auto simp: sub_modulus_def Let_def s0_def s1_def s2_def s3_def split: if_splits)
qed

definition borrow :: "u64 \<Rightarrow> u64 \<Rightarrow> u64 \<Rightarrow> u64 \<Rightarrow> bool" where
  "borrow a b c d \<longleftrightarrow> snd (sbb d 0x73eda753299d7d48 (snd (sbb c 0x3339d80809a1d805
     (snd (sbb b 0x53bda402fffe5bfe (snd (sbb a 0xffffffff00000001 False)))))))"

lemma reduce_mul_run:
  defines "s' \<equiv> \<lambda>s. run (reduce_macro R14 R13 RCX RBX RSI R12 R11 RAX) s"
  shows "\<exists>t. sub_modulus (regs s R14) (regs s R13) (regs s RCX) (regs s RBX) =
      (regs (s' s) R14, regs (s' s) R13, regs (s' s) RCX, regs (s' s) RBX, t)"
    and "memory (s' s) = memory s" "stack (s' s) = stack s"
    and "r \<in> {RDX, RDI, RBP, R8, R9, R10} \<Longrightarrow> regs (s' s) r = regs s r"
  unfolding s'_def by (cases "borrow (regs s R14) (regs s R13) (regs s RCX) (regs s RBX)";
    auto simp: borrow_def reduce_macro_def sub_modulus_def execute)+

lemma reduce_by5_run:
  defines "s' \<equiv> \<lambda>s. run (reduce_macro RDX RCX RBX RSI RAX R8 R9 R10) s"
  shows "\<exists>t. sub_modulus (regs s RDX) (regs s RCX) (regs s RBX) (regs s RSI) =
      (regs (s' s) RDX, regs (s' s) RCX, regs (s' s) RBX, regs (s' s) RSI, t)"
    and "memory (s' s) = memory s" "stack (s' s) = stack s"
    and "r \<in> {RDI, RBP, R11, R12, R13, R14} \<Longrightarrow> regs (s' s) r = regs s r"
  unfolding s'_def by (cases "borrow (regs s RDX) (regs s RCX) (regs s RBX) (regs s RSI)";
    auto simp: borrow_def reduce_macro_def sub_modulus_def execute)+

section \<open>Whole programs\<close>

text \<open>The number in four cells of the memory.\<close>

definition cells :: "machine \<Rightarrow> u64 \<Rightarrow> int" where
  "cells s q = val4 (memory s q) (memory s (q + 8)) (memory s (q + 16)) (memory s (q + 24))"

definition cell_set :: "u64 \<Rightarrow> u64 set" where
  "cell_set q = {q, q + 8, q + 16, q + 24}"

lemma store_cells:
  fixes a b c d q :: u64 and m :: "u64 \<Rightarrow> u64"
  defines "m' \<equiv> m(q := a, q + 8 := b, q + 16 := c, q + 24 := (d :: u64))"
  shows "m' q = a" "m' (q + 8) = b" "m' (q + 16) = c" "m' (q + 24) = d" "z \<notin> cell_set q \<Longrightarrow> m' z = m z"
  by (auto simp: m'_def cell_set_def)

definition accumulated :: "machine \<Rightarrow> machine" where
  "accumulated s = run (next_row 24 @ reduce_row) (run (next_row 16 @ reduce_row) (run (next_row 8 @ reduce_row) (run (first_row @ reduce_row) s)))"

lemma accumulated_ok:
  assumes "operand_x s < fq_modulus"
  shows "same_frame s (accumulated s)" "accum (accumulated s) < 2 * fq_modulus"
    and "2 ^ 256 * accum (accumulated s) mod fq_modulus = operand_x s * cells s (regs s R11) mod fq_modulus"
proof -
  define s1 where "s1 = run (first_row @ reduce_row) s"
  define s2 where "s2 = run (next_row 8 @ reduce_row) s1"
  define s3 where "s3 = run (next_row 16 @ reduce_row) s2"
  define s4 where "s4 = run (next_row 24 @ reduce_row) s3"
  have s4: "accumulated s = s4"
    by (simp only: accumulated_def s1_def s2_def s3_def s4_def)
  note r1 = first_row_reduced [OF assms, folded s1_def]
  have f1: "operand_x s1 = operand_x s" "memory s1 = memory s" "regs s1 R11 = regs s R11"
    using r1(1) by (simp_all add: same_frame_def operand_x_def)
  note r2 = next_row_reduced [OF r1(2), unfolded f1, OF assms, where k = 8, folded s2_def]
  have f2: "operand_x s2 = operand_x s" "memory s2 = memory s" "regs s2 R11 = regs s R11"
    using r2(1) f1 by (simp_all add: same_frame_def operand_x_def)
  note r3 = next_row_reduced [OF r2(2), unfolded f2, OF assms, where k = 16, folded s3_def]
  have f3: "operand_x s3 = operand_x s" "memory s3 = memory s" "regs s3 R11 = regs s R11"
    using r3(1) f2 by (simp_all add: same_frame_def operand_x_def)
  note r4 = next_row_reduced [OF r3(2), unfolded f3, OF assms, where k = 24, folded s4_def]
  show "same_frame s (accumulated s)" "accum (accumulated s) < 2 * fq_modulus"
    using r1(1) r2(1) r3(1) r4(1,2) unfolding s4 same_frame_def by simp_all
  obtain m1 m2 m3 m4 where
    m1: "2 ^ 64 * accum s1 = operand_x s * uint (memory s (regs s R11)) + m1 * fq_modulus" and
    m2: "2 ^ 64 * accum s2 = accum s1 + operand_x s * uint (memory s (regs s R11 + 8)) + m2 * fq_modulus" and
    m3: "2 ^ 64 * accum s3 = accum s2 + operand_x s * uint (memory s (regs s R11 + 16)) + m3 * fq_modulus" and
    m4: "2 ^ 64 * accum s4 = accum s3 + operand_x s * uint (memory s (regs s R11 + 24)) + m4 * fq_modulus"
    using r1(3) r2(3) r3(3) r4(3) by blast
  have "2 ^ 256 * accum s4 = 2 ^ 192 * (2 ^ 64 * accum s4)" "2 ^ 192 * accum s3 = 2 ^ 128 * (2 ^ 64 * accum s3)"
    "2 ^ 128 * accum s2 = 2 ^ 64 * (2 ^ 64 * accum s2)"
    by simp_all
  then have "2 ^ 256 * accum s4 = operand_x s * cells s (regs s R11) +
      (m1 + 2 ^ 64 * m2 + 2 ^ 128 * m3 + 2 ^ 192 * m4) * fq_modulus"
    unfolding m1 m2 m3 m4 cells_def val4_def by (simp only: ring_distribs) (use m1 in simp)
  then show "2 ^ 256 * accum (accumulated s) mod fq_modulus = operand_x s * cells s (regs s R11) mod fq_modulus"
    unfolding s4 by simp
qed

lemma reduced_value:
  assumes "sub_modulus a b c d = (a', b', c', d', t)" "val4 a b c d < 2 * fq_modulus"
  shows "0 \<le> val4 a' b' c' d'" "val4 a' b' c' d' < fq_modulus" "val4 a' b' c' d' mod fq_modulus = val4 a b c d mod fq_modulus"
  unfolding sub_modulus_eq [OF assms(1)] using assms(2) val4_bounds(1) [of a b c d]
    mod_pos_pos_trivial [of "val4 a b c d - fq_modulus" fq_modulus]
  by (auto split: if_splits)

lemma mont_mul_asm_run:
  assumes "cells s (regs s RSI) < fq_modulus"
  shows "cells (run mont_mul_asm s) (regs s RDI) < fq_modulus \<and>
    2 ^ 256 * cells (run mont_mul_asm s) (regs s RDI) mod fq_modulus =
      cells s (regs s RSI) * cells s (regs s RDX) mod fq_modulus \<and>
    (\<forall>q. q \<notin> cell_set (regs s RDI) \<longrightarrow> memory (run mont_mul_asm s) q = memory s q) \<and>
    stack (run mont_mul_asm s) = stack s \<and>
    (\<forall>r \<in> {RBX, RCX, RBP, RDI, R12, R13, R14, R15}. regs (run mont_mul_asm s) r = regs s r)"
proof -
  define s0 where "s0 = run (take 12 mont_mul_asm) s"
  have s0: "operand_x s0 = cells s (regs s RSI)" "regs s0 R11 = regs s RDX" "regs s0 RDI = regs s RDI" "memory s0 = memory s"
    "stack s0 = [regs s RBX, regs s RCX, regs s RBP, regs s R12, regs s R13, regs s R14, regs s R15] @ stack s"
    by (simp_all add: s0_def mont_mul_asm_def operand_x_def cells_def execute)
  define s1 where "s1 = accumulated s0"
  have s1: "same_frame s0 s1" "accum s1 < 2 * fq_modulus" "2 ^ 256 * accum s1 mod fq_modulus = cells s (regs s RSI) * cells s (regs s RDX) mod fq_modulus"
    using accumulated_ok [of s0] assms s0(1,2,4) unfolding s1_def by (simp_all add: cells_def)
  define s2 where "s2 = run (reduce_macro R14 R13 RCX RBX RSI R12 R11 RAX) s1"
  obtain t where "sub_modulus (regs s1 R14) (regs s1 R13) (regs s1 RCX) (regs s1 RBX) =
      (regs s2 R14, regs s2 R13, regs s2 RCX, regs s2 RBX, t)"
    using reduce_mul_run(1) [of s1] unfolding s2_def by blast
  note red = reduced_value [OF this, folded accum_def, OF s1(2)]
  have s2: "memory s2 = memory s" "stack s2 = stack s0" "regs s2 RDI = regs s RDI"
    using s1(1) s0 reduce_mul_run(2,3) [of s1] reduce_mul_run(4) [of RDI s1] by (simp_all add: s2_def same_frame_def)
  define ep where "ep = [Store R14 0 RDI, Store R13 8 RDI, Store RCX 16 RDI, Store RBX 24 RDI,
     Pop RBX, Pop RCX, Pop RBP, Pop R12, Pop R13, Pop R14, Pop R15]"
  have "mont_mul_asm = take 12 mont_mul_asm @ first_row @ reduce_row @ next_row 8 @ reduce_row @ next_row 16 @ reduce_row @
      next_row 24 @ reduce_row @ reduce_macro R14 R13 RCX RBX RSI R12 R11 RAX @ ep"
    by (simp add: mont_mul_asm_def ep_def)
  from arg_cong [OF this, of "\<lambda>p. run p s"] have run: "run mont_mul_asm s = run ep s2"
    by (simp only: run_append s2_def s1_def accumulated_def s0_def)
  have mem: "memory (run ep s2) = (memory s)(regs s RDI := regs s2 R14, regs s RDI + 8 := regs s2 R13,
      regs s RDI + 16 := regs s2 RCX, regs s RDI + 24 := regs s2 RBX)"
    using s2 s0(5) by (simp add: ep_def execute)
  have "cells (run ep s2) (regs s RDI) = accum s2"
    unfolding cells_def mem store_cells accum_def by (rule refl)
  moreover have "2 ^ 256 * accum s2 mod fq_modulus = 2 ^ 256 * accum s1 mod fq_modulus"
    using red(3) by (metis mod_mult_right_eq)
  moreover have "\<forall>q. q \<notin> cell_set (regs s RDI) \<longrightarrow> memory (run ep s2) q = memory s q"
    unfolding mem using store_cells(5) by blast
  moreover have "stack (run ep s2) = stack s" "\<forall>r \<in> {RBX, RCX, RBP, RDI, R12, R13, R14, R15}. regs (run ep s2) r = regs s r"
    using s2 s0(5) by (simp_all add: ep_def execute)
  ultimately show ?thesis
    unfolding run using red(2) s1(3) by (simp add: accum_def)
qed

text \<open>C24: The assembly of the multiplication is Montgomery's: for an operand \<open>x\<close> below the modulus it
  leaves in the result cells a number below the modulus that is \<open>x * y / 2^256\<close> modulo it; it writes no other
  cell and restores the stack and every register that it does not declare as clobbered.\<close>

theorem mont_mul_asm_correct:
  assumes "cells s (regs s RSI) < fq_modulus"
  shows "cells (run mont_mul_asm s) (regs s RDI) < fq_modulus \<and>
    2 ^ 256 * cells (run mont_mul_asm s) (regs s RDI) mod fq_modulus =
      cells s (regs s RSI) * cells s (regs s RDX) mod fq_modulus \<and>
    (\<forall>q. q \<notin> cell_set (regs s RDI) \<longrightarrow> memory (run mont_mul_asm s) q = memory s q) \<and>
    stack (run mont_mul_asm s) = stack s \<and>
    (\<forall>r \<in> {RBX, RCX, RBP, RDI, R12, R13, R14, R15}. regs (run mont_mul_asm s) r = regs s r)"
  using assms by (rule mont_mul_asm_run)

definition small_machine :: machine where
  "small_machine = \<lparr>regs = (\<lambda>_. 0)(RDI := 1000, RSI := 2000, RDX := 3000), carry_flag = True, overflow_flag = True,
     memory = (\<lambda>_. 0)(1000 := 9, 2000 := 3, 3008 := 7), stack = []\<rparr>"

theorem mont_mul_asm_correct_witness:
  "cells (run mont_mul_asm small_machine) 1000 < fq_modulus \<and>
    2 ^ 256 * cells (run mont_mul_asm small_machine) 1000 mod fq_modulus = 21 * 2 ^ 64 mod fq_modulus \<and>
    memory (run mont_mul_asm small_machine) 2000 = 3"
  using mont_mul_asm_correct [of small_machine]
  by (simp add: small_machine_def cells_def val4_def fq_modulus_def cell_set_def)

section \<open>The multiplication by 5\<close>

definition quad :: "machine \<Rightarrow> int" where
  "quad s = val4 (regs s RDX) (regs s RCX) (regs s RBX) (regs s RSI)"

definition quad_frame :: "machine \<Rightarrow> machine \<Rightarrow> bool" where
  "quad_frame s s' \<longleftrightarrow> memory s' = memory s \<and> stack s' = stack s \<and> (\<forall>r \<in> {RDI, RBP, R11, R12, R13, R14}. regs s' r = regs s r)"

lemma double_run:
  assumes "quad s < fq_modulus"
  shows "quad (run double_macro s) = 2 * quad s" "quad_frame s (run double_macro s)"
proof -
  obtain c where eq: "quad (run double_macro s) + 2 ^ 256 * of_bool c = 2 * quad s"
    unfolding val4_def double_macro_def quad_def by (simp add: execute carries algebra_simps)
  show "quad (run double_macro s) = 2 * quad s"
    using assms val4_bounds(1) by (intro carry_zero(2) [OF eq]) (simp_all add: fq_modulus_def quad_def)
  show "quad_frame s (run double_macro s)"
    unfolding quad_frame_def double_macro_def by (simp add: execute)
qed

definition add_cells :: "instr list" where
  "add_cells = [Addq (Mem 0 RDI) RDX, Adcq (Mem 8 RDI) RCX, Adcq (Mem 16 RDI) RBX, Adcq (Mem 24 RDI) RSI]"

lemma add_cells_run:
  assumes "quad s < fq_modulus" "cells s (regs s RDI) < fq_modulus"
  shows "quad (run add_cells s) = quad s + cells s (regs s RDI)" "quad_frame s (run add_cells s)"
proof -
  obtain c where eq: "quad (run add_cells s) + 2 ^ 256 * of_bool c = quad s + cells s (regs s RDI)"
    unfolding val4_def quad_def cells_def add_cells_def by (simp add: execute carries algebra_simps)
  show "quad (run add_cells s) = quad s + cells s (regs s RDI)"
    using assms val4_bounds(1) by (intro carry_zero(2) [OF eq]) (simp_all add: fq_modulus_def quad_def)
  show "quad_frame s (run add_cells s)"
    unfolding quad_frame_def add_cells_def by (simp add: execute)
qed

lemma reduce_quad:
  assumes "quad s < 2 * fq_modulus"
  defines "s' \<equiv> run (reduce_macro RDX RCX RBX RSI RAX R8 R9 R10) s"
  shows "quad s' < fq_modulus" "quad s' mod fq_modulus = quad s mod fq_modulus" "quad_frame s s'"
proof -
  obtain t where "sub_modulus (regs s RDX) (regs s RCX) (regs s RBX) (regs s RSI) =
      (regs s' RDX, regs s' RCX, regs s' RBX, regs s' RSI, t)"
    using reduce_by5_run(1) [of s] unfolding s'_def by blast
  from reduced_value [OF this] assms(1) show "quad s' < fq_modulus" "quad s' mod fq_modulus = quad s mod fq_modulus"
    by (simp_all add: quad_def)
  show "quad_frame s s'"
    using reduce_by5_run(2,3) [of s] reduce_by5_run(4) [of _ s] unfolding s'_def by (simp add: quad_frame_def)
qed

lemma quad_frame_trans: "quad_frame s s' \<Longrightarrow> quad_frame s' s'' \<Longrightarrow> quad_frame s s''"
  by (simp add: quad_frame_def)

lemma double_reduced:
  assumes "quad s < fq_modulus"
  defines "s' \<equiv> run (reduce_macro RDX RCX RBX RSI RAX R8 R9 R10) (run double_macro s)"
  shows "quad s' < fq_modulus" "quad s' mod fq_modulus = 2 * quad s mod fq_modulus" "quad_frame s s'"
proof -
  note d = double_run [OF assms(1)]
  have "quad (run double_macro s) < 2 * fq_modulus"
    unfolding d(1) using assms(1) by simp
  note r = reduce_quad [OF this, folded s'_def]
  show "quad s' < fq_modulus" "quad s' mod fq_modulus = 2 * quad s mod fq_modulus"
    using r(1,2) unfolding d(1) .
  show "quad_frame s s'"
    by (rule quad_frame_trans [OF d(2) r(3)])
qed

lemma add_reduced:
  assumes "quad s < fq_modulus" "cells s (regs s RDI) < fq_modulus"
  defines "s' \<equiv> run (reduce_macro RDX RCX RBX RSI RAX R8 R9 R10) (run add_cells s)"
  shows "quad s' < fq_modulus" "quad s' mod fq_modulus = (quad s + cells s (regs s RDI)) mod fq_modulus" "quad_frame s s'"
proof -
  note d = add_cells_run [OF assms(1,2)]
  have "quad (run add_cells s) < 2 * fq_modulus"
    unfolding d(1) using assms(1,2) by simp
  note r = reduce_quad [OF this, folded s'_def]
  show "quad s' < fq_modulus" "quad s' mod fq_modulus = (quad s + cells s (regs s RDI)) mod fq_modulus"
    using r(1,2) unfolding d(1) .
  show "quad_frame s s'"
    by (rule quad_frame_trans [OF d(2) r(3)])
qed

lemma mont_mul_by5_asm_run:
  assumes "cells s (regs s RDI) < fq_modulus"
  shows "cells (run mont_mul_by5_asm s) (regs s RDI) = 5 * cells s (regs s RDI) mod fq_modulus \<and>
    (\<forall>q. q \<notin> cell_set (regs s RDI) \<longrightarrow> memory (run mont_mul_by5_asm s) q = memory s q) \<and>
    stack (run mont_mul_by5_asm s) = stack s \<and>
    (\<forall>r \<in> {RBX, RCX, RDX, RSI, RDI, RBP, R11, R12, R13, R14, R15}. regs (run mont_mul_by5_asm s) r = regs s r)"
proof -
  define s0 where "s0 = run (take 9 mont_mul_by5_asm) s"
  let ?v = "cells s (regs s RDI)"
  have s0: "quad s0 = ?v" "memory s0 = memory s" "regs s0 RDI = regs s RDI"
      "\<forall>r \<in> {RBP, R11, R12, R13, R14}. regs s0 r = regs s r"
      "stack s0 = [regs s R15, regs s RSI, regs s RBX, regs s RCX, regs s RDX] @ stack s"
    by (simp_all add: s0_def mont_mul_by5_asm_def quad_def cells_def execute)
  let ?red = "reduce_macro RDX RCX RBX RSI RAX R8 R9 R10"
  define s1 where "s1 = run ?red (run double_macro s0)"
  have "quad s0 < fq_modulus"
    using assms s0(1) by simp
  note q1 = double_reduced [OF this, folded s1_def]
  define s2 where "s2 = run ?red (run double_macro s1)"
  note q2 = double_reduced [OF q1(1), folded s2_def]
  have frame: "quad_frame s0 s2"
    by (rule quad_frame_trans [OF q1(3) q2(3)])
  then have c2: "cells s2 (regs s2 RDI) = ?v"
    using s0(2,3) by (simp add: quad_frame_def cells_def)
  define s3 where "s3 = run ?red (run add_cells s2)"
  have "cells s2 (regs s2 RDI) < fq_modulus"
    using assms c2 by simp
  note q3 = add_reduced [OF q2(1) this, folded s3_def, unfolded c2]
  have "quad s3 = (quad s2 + ?v) mod fq_modulus"
    using q3(1,2) val4_bounds(1) by (simp add: quad_def)
  also have "\<dots> = (2 * (2 * ?v) + ?v) mod fq_modulus"
    using q2(2) q1(2) unfolding s0(1) by (metis mod_add_left_eq mod_mult_right_eq)
  finally have five: "quad s3 = 5 * ?v mod fq_modulus"
    by simp
  define ep where "ep = [Store RDX 0 RDI, Store RCX 8 RDI, Store RBX 16 RDI, Store RSI 24 RDI,
     Pop R15, Pop RSI, Pop RBX, Pop RCX, Pop RDX]"
  have "mont_mul_by5_asm = take 9 mont_mul_by5_asm @ double_macro @ ?red @ double_macro @ ?red @ add_cells @ ?red @ ep"
    by (simp add: mont_mul_by5_asm_def add_cells_def ep_def)
  from arg_cong [OF this, of "\<lambda>p. run p s"] have run: "run mont_mul_by5_asm s = run ep s3"
    by (simp only: run_append s3_def s2_def s1_def s0_def)
  have s3: "memory s3 = memory s" "stack s3 = stack s0" "\<forall>r \<in> {RDI, RBP, R11, R12, R13, R14}. regs s3 r = regs s r"
    using quad_frame_trans [OF frame q3(3)] s0 by (simp_all add: quad_frame_def)
  have mem: "memory (run ep s3) = (memory s)(regs s RDI := regs s3 RDX, regs s RDI + 8 := regs s3 RCX,
      regs s RDI + 16 := regs s3 RBX, regs s RDI + 24 := regs s3 RSI)"
    using s3 s0(5) by (simp add: ep_def execute)
  have "cells (run ep s3) (regs s RDI) = quad s3"
    unfolding cells_def mem store_cells quad_def by (rule refl)
  moreover have "\<forall>q. q \<notin> cell_set (regs s RDI) \<longrightarrow> memory (run ep s3) q = memory s q"
    unfolding mem using store_cells(5) by blast
  moreover have "stack (run ep s3) = stack s"
      "\<forall>r \<in> {RBX, RCX, RDX, RSI, RDI, RBP, R11, R12, R13, R14, R15}. regs (run ep s3) r = regs s r"
    using s3 s0(5) by (simp_all add: ep_def execute)
  ultimately show ?thesis
    unfolding run using five by simp
qed

text \<open>C26: The assembly of the multiplication by 5: for a number below the modulus it leaves in the same cells
  the number below the modulus that is 5 times it modulo it; it writes no other cell and restores the stack
  and every register that it does not declare as clobbered.\<close>

theorem mont_mul_by5_asm_correct:
  assumes "cells s (regs s RDI) < fq_modulus"
  shows "cells (run mont_mul_by5_asm s) (regs s RDI) = 5 * cells s (regs s RDI) mod fq_modulus \<and>
    (\<forall>q. q \<notin> cell_set (regs s RDI) \<longrightarrow> memory (run mont_mul_by5_asm s) q = memory s q) \<and>
    stack (run mont_mul_by5_asm s) = stack s \<and>
    (\<forall>r \<in> {RBX, RCX, RDX, RSI, RDI, RBP, R11, R12, R13, R14, R15}. regs (run mont_mul_by5_asm s) r = regs s r)"
  using assms by (rule mont_mul_by5_asm_run)

theorem mont_mul_by5_asm_correct_witness:
  "cells (run mont_mul_by5_asm small_machine) 1000 = 45 \<and> memory (run mont_mul_by5_asm small_machine) 2000 = 3"
  using mont_mul_by5_asm_correct [of small_machine]
  by (simp add: small_machine_def cells_def val4_def fq_modulus_def cell_set_def)

end
