(* ===== verification/Committer_Correct.thy ===== *)
theory Committer_Correct
  imports Committer Mont_Asm Complex_Main
begin

text \<open>
  The precomputed multiplication is the multiplication: what the tables hold, the windows of a scalar,
  the signed digits of both loops, the coordinates of a sum.
\<close>

section \<open>Multiples of a point\<close>

definition int_mul :: "int \<Rightarrow> 'a :: ab_group_add \<Rightarrow> 'a" where
  "int_mul k p = (if 0 \<le> k then (((+) p) ^^ nat k) 0 else - (((+) p) ^^ nat (- k)) 0)"

lemma int_mul_0 [simp]: "int_mul 0 p = 0"
  by (simp add: int_mul_def)

lemma int_mul_1 [simp]: "int_mul 1 p = p"
  by (simp add: int_mul_def)

lemma int_mul_zero [simp]: "int_mul k (0 :: 'a :: ab_group_add) = 0"
proof -
  have "((+) (0 :: 'a) ^^ n) 0 = 0" for n
    by (induction n) auto
  then show ?thesis
    by (simp add: int_mul_def)
qed

lemma int_mul_minus [simp]: "int_mul (- k) p = - int_mul k p"
  by (simp add: int_mul_def)

lemma int_mul_Suc: "int_mul (int n + 1) p = p + int_mul (int n) p"
  by (simp add: int_mul_def nat_add_distrib)

lemma int_mul_plus1: "int_mul (k + 1) p = int_mul k p + p"
proof (cases "0 \<le> k")
  case True
  then show ?thesis
    using int_mul_Suc [of "nat k" p] by (simp add: add.commute)
next
  case False
  then have "int_mul (- k) p = p + int_mul (- k - 1) p"
    using int_mul_Suc [of "nat (- k - 1)" p] by simp
  then have "- int_mul k p = p - int_mul (k + 1) p"
    using int_mul_minus [of k p] int_mul_minus [of "k + 1" p] by simp
  then show ?thesis
    by (simp add: algebra_simps)
qed

lemma int_mul_minus1: "int_mul (k - 1) p = int_mul k p - p"
  using int_mul_plus1 [of "k - 1" p] by (simp add: algebra_simps)

lemma int_mul_add: "int_mul (a + b) p = int_mul a p + int_mul b p"
proof (induction b rule: int_induct [where k = 0])
  case (step1 i)
  then show ?case
    using int_mul_plus1 [of "a + i" p] int_mul_plus1 [of i p] by (simp add: algebra_simps)
next
  case (step2 i)
  have "a + (i - 1) = a + i - 1"
    by simp
  then show ?case
    by (simp only: int_mul_minus1 step2.IH add_diff_eq)
qed simp

lemma int_mul_diff: "int_mul (a - b) p = int_mul a p - int_mul b p"
  using int_mul_add [of a "- b" p] by simp

lemma int_mul_mult: "int_mul (a * b) p = int_mul a (int_mul b p)"
proof (induction a rule: int_induct [where k = 0])
  case (step1 i)
  then show ?case
    by (simp add: distrib_right int_mul_add int_mul_plus1)
next
  case (step2 i)
  then show ?case
    by (simp add: left_diff_distrib int_mul_diff int_mul_minus1)
qed simp

section \<open>Coordinates\<close>

text \<open>
  What is used of the curve \<open>-5 x^2 + y^2 = 1 + d x^2 y^2\<close>: neutral element and negation in affine
  coordinates, and the addition law, whose denominators do not vanish on the points considered.
\<close>

definition curve_d :: "('pt, 'fq, 'fr) edwards \<Rightarrow> 'fq" where
  "curve_d ed = new_unchecked ed curve_d_limbs"

definition edwards_sum :: "'fq :: field \<Rightarrow> 'fq affine \<Rightarrow> 'fq affine \<Rightarrow> 'fq affine" where
  "edwards_sum d p q =
     (let k = d * af_x p * af_x q * af_y p * af_y q
      in \<lparr>af_x = (af_x p * af_y q + af_y p * af_x q) / (1 + k), af_y = (af_y p * af_y q + 5 * af_x p * af_x q) / (1 - k)\<rparr>)"

definition edwards_ok :: "('pt :: ab_group_add, 'fq :: field, 'fr) edwards \<Rightarrow> bool" where
  "edwards_ok ed \<longleftrightarrow> to_affine ed 0 = \<lparr>af_x = 0, af_y = 1\<rparr> \<and>
     (\<forall>p. to_affine ed (- p) = (to_affine ed p)\<lparr>af_x := - af_x (to_affine ed p)\<rparr>) \<and>
     (\<forall>p q. let P = to_affine ed p; Q = to_affine ed q; k = curve_d ed * af_x P * af_x Q * af_y P * af_y Q
            in 1 + k \<noteq> 0 \<and> 1 - k \<noteq> 0 \<and> to_affine ed (p + q) = edwards_sum (curve_d ed) P Q)"

definition represents :: "'fq :: field projective \<Rightarrow> 'fq affine \<Rightarrow> bool" where
  "represents R P \<longleftrightarrow> pr_z R \<noteq> 0 \<and> pr_x R = af_x P * pr_z R \<and> pr_y R = af_y P * pr_z R \<and>
     pr_t R = af_x P * af_y P * pr_z R"

lemma represents_default: "edwards_ok ed \<Longrightarrow> represents projective_default (to_affine ed 0)"
  by (simp add: edwards_ok_def represents_def projective_default_def)

lemma edwards_fractions:
  fixes s t u v z :: "'fq :: field"
  assumes "s \<noteq> 0" "t \<noteq> 0"
  shows "z * u * (z * t) = u / s * (z * t * (z * s))" "z * s * (z * v) = v / t * (z * t * (z * s))"
    "z * u * (z * v) = u / s * (v / t) * (z * t * (z * s))"
  using assms by (simp_all add: field_simps)

lemma add_affine_represents:
  assumes "represents R P" "1 + k \<noteq> 0" "1 - k \<noteq> 0"
    and k: "k = curve_d ed * af_x P * af_x Q * af_y P * af_y Q"
  shows "represents (add_affine_point ed R (af_x Q) (af_y Q)) (edwards_sum (curve_d ed) P Q)"
proof -
  let ?x1 = "af_x P" let ?y1 = "af_y P" let ?x2 = "af_x Q" let ?y2 = "af_y Q" let ?z = "pr_z R"
  have R: "pr_x R = ?x1 * ?z" "pr_y R = ?y1 * ?z" "pr_t R = ?x1 * ?y1 * ?z" "?z \<noteq> 0"
    using assms(1) by (simp_all add: represents_def)
  let ?e = "?z * (?x1 * ?y2 + ?y1 * ?x2)" let ?h = "?z * (?y1 * ?y2 + 5 * ?x1 * ?x2)"
  let ?f = "?z * (1 - k)" let ?g = "?z * (1 + k)"
  have e: "(?x1 * ?z + ?y1 * ?z) * (?x2 + ?y2) - ?x1 * ?z * ?x2 - ?y1 * ?z * ?y2 = ?e"
    by (simp add: algebra_simps)
  have h: "?y1 * ?z * ?y2 + ?x1 * ?z * ?x2 * 5 = ?h"
    by (simp add: algebra_simps)
  have c: "?x1 * ?y1 * ?z * (?x2 * ?y2) * curve_d ed = ?z * k"
    by (simp add: k algebra_simps)
  have f: "?z - ?z * k = ?f" and g: "?z + ?z * k = ?g"
    by (simp_all add: algebra_simps)
  have new: "add_affine_point ed R ?x2 ?y2 = \<lparr>pr_x = ?e * ?f, pr_y = ?g * ?h, pr_t = ?e * ?h, pr_z = ?f * ?g\<rparr>"
    unfolding add_affine_point_def Let_def R(1,2,3) curve_d_def [symmetric] e h c f g by (rule refl)
  have "?f \<noteq> 0" "?g \<noteq> 0"
    using R(4) assms(2,3) by auto
  then show ?thesis
    unfolding new edwards_sum_def k [symmetric] Let_def represents_def affine.simps projective.simps
    by (intro conjI edwards_fractions assms(2,3)) simp
qed

lemma add_point:
  assumes "edwards_ok ed" "represents R (to_affine ed p)"
  shows "represents (add_affine_point ed R (af_x (to_affine ed q)) (af_y (to_affine ed q))) (to_affine ed (p + q))"
proof -
  let ?k = "curve_d ed * af_x (to_affine ed p) * af_x (to_affine ed q) * af_y (to_affine ed p) * af_y (to_affine ed q)"
  have "1 + ?k \<noteq> 0 \<and> 1 - ?k \<noteq> 0 \<and> to_affine ed (p + q) = edwards_sum (curve_d ed) (to_affine ed p) (to_affine ed q)"
    using assms(1) by (simp add: edwards_ok_def Let_def)
  then show ?thesis
    using add_affine_represents [OF assms(2) _ _ refl, of ed "to_affine ed q"] by simp
qed

lemma add_neg_point:
  assumes "edwards_ok ed" "represents R (to_affine ed p)"
  shows "represents (add_affine_point ed R (- af_x (to_affine ed q)) (af_y (to_affine ed q))) (to_affine ed (p - q))"
  using add_point [OF assms, of "- q"] assms(1) by (simp add: edwards_ok_def)

section \<open>The tables\<close>

lemma int_mul_int_Suc: "int_mul (int (Suc n)) p = p + int_mul (int n) p"
  using int_mul_Suc [of n p] by (simp add: add.commute)

lemma multiples_loop_eq:
  "multiples_loop k base element table =
     (element + int_mul (int k) base, table @ map (\<lambda>i. element + int_mul (int i) base) [1..<Suc k])"
proof (induction k arbitrary: element table)
  case (Suc k)
  have upt: "[1..<Suc (Suc k)] = 1 # map Suc [1..<Suc k]"
    by (simp only: map_Suc_upt One_nat_def) (simp add: upt_rec)
  have "map (\<lambda>i. element + base + int_mul (int i) base) xs = map (\<lambda>i. element + int_mul (int i) base) (map Suc xs)" for xs
    unfolding map_map o_def int_mul_int_Suc by (simp only: add.assoc)
  then show ?case
    unfolding upt multiples_loop.simps Let_def Suc.IH by (simp add: int_mul_int_Suc add.assoc del: of_nat_Suc)
qed simp

definition window_entries :: "nat \<Rightarrow> 'a :: ab_group_add \<Rightarrow> nat \<Rightarrow> 'a list" where
  "window_entries half G i = map (\<lambda>j. int_mul (int (j * (2 * half) ^ i)) G) [0..<half + 1]"

lemma windows_loop_eq:
  assumes "0 < half"
  shows "windows_loop n half element table = table @ concat (map (window_entries half element) [0..<n])"
proof (induction n arbitrary: element table)
  case (Suc n)
  have "[0..<half + 1] = 0 # map Suc (0 # [1..<half])"
    using assms map_Suc_upt [of 0 half] by (simp add: upt_conv_Cons del: upt_Suc)
  then have first: "[0, element] @ map (\<lambda>i. element + int_mul (int i) element) [1..<half] = window_entries half element 0"
    by (simp add: window_entries_def int_mul_int_Suc del: of_nat_Suc)
  have "element + int_mul (int (half - 1)) element = int_mul (int half) element"
    using int_mul_int_Suc [of "half - 1" element] assms by simp
  then have next_base: "element + int_mul (int (half - 1)) element + (element + int_mul (int (half - 1)) element) =
      int_mul (int (2 * half)) element"
    by (simp add: int_mul_add [symmetric])
  have "window_entries half (int_mul (int (2 * half)) element) = (\<lambda>i. window_entries half element (Suc i))"
    by (simp add: window_entries_def fun_eq_iff mult.commute mult.left_commute flip: int_mul_mult)
  moreover have "[0..<Suc n] = 0 # map Suc [0..<n]"
    by (simp add: map_Suc_upt upt_conv_Cons)
  ultimately show ?case
    using assms unfolding windows_loop.simps Let_def multiples_loop_eq case_prod_conv next_base Suc.IH
    by (simp add: first [symmetric] o_def)
qed simp

lemma blocks:
  assumes "\<And>i. i < n \<Longrightarrow> length (f i) = m"
  shows "length (concat (map f [0..<n])) = n * m"
    and "\<lbrakk>i < n; j < m\<rbrakk> \<Longrightarrow> concat (map f [0..<n]) ! (i * m + j) = f i ! j"
  using assms
proof (induction n)
  case (Suc n)
  {
    case 1
    then show ?case
      using Suc by simp
  next
    case 2
    have "length (concat (map f [0..<n])) = n * m"
      using 2 Suc(1) by simp
    moreover have "i * m + j < n * m" if "i < n"
    proof -
      have "i * m + j < Suc i * m"
        using 2(2) by simp
      also have "\<dots> \<le> n * m"
        using that by (intro mult_right_mono) auto
      finally show ?thesis .
    qed
    ultimately show ?case
      using 2 Suc(2) by (auto simp: nth_append less_Suc_eq)
  }
qed simp_all

section \<open>The windows\<close>

fun limbs_value :: "u64 list \<Rightarrow> nat" where
  "limbs_value [] = 0"
| "limbs_value (x # xs) = unat x + 2 ^ 64 * limbs_value xs"

lemma bit_limbs: "bit (limbs_value xs) n \<longleftrightarrow> n div 64 < length xs \<and> bit (xs ! (n div 64)) (n mod 64)"
proof (induction xs arbitrary: n)
  case (Cons x xs)
  have "limbs_value (x # xs) = unat x OR push_bit 64 (limbs_value xs)"
  proof -
    have "unat x AND push_bit 64 (limbs_value xs) = 0"
      by (auto simp: bit_eq_iff bit_simps dest: bit_imp_le_length)
    then show ?thesis
      by (simp add: disjunctive_add_eq_or [symmetric] push_bit_eq_mult mult.commute)
  qed
  then have "bit (limbs_value (x # xs)) n \<longleftrightarrow> (n < 64 \<and> bit x n) \<or> (64 \<le> n \<and> bit (limbs_value xs) (n - 64))"
    by (auto simp: bit_simps dest: bit_imp_le_length simp del: limbs_value.simps)
  moreover have "n div 64 = Suc ((n - 64) div 64) \<and> n mod 64 = (n - 64) mod 64" if "64 \<le> n"
    using that by (simp add: le_div_geq le_mod_geq)
  ultimately show ?case
    using Cons.IH [of "n - 64"] by (cases "n < 64") auto
qed simp

lemma bit_shift_left: "bit (shift_left x n) k \<longleftrightarrow> n mod 64 \<le> k \<and> k < 64 \<and> bit x (k - n mod 64)"
  by (auto simp: shift_left_def bit_simps)

lemma bit_ones: "n < 64 \<Longrightarrow> bit (shift_left 1 n - 1) k \<longleftrightarrow> k < n"
proof -
  assume n: "n < 64"
  have "shift_left 1 n - 1 = (mask n :: u64)"
    using n by (simp add: shift_left_def mask_eq_exp_minus_1 push_bit_of_1)
  then show ?thesis
    using n by (auto simp: bit_simps)
qed

definition digit :: "nat \<Rightarrow> nat \<Rightarrow> nat \<Rightarrow> nat" where
  "digit N w i = N div 2 ^ (w * i) mod 2 ^ w"

lemma window_at_ok:
  assumes "0 < w" "w < 64" "length src = 4" "s < 256"
  shows "\<exists>d. (window_at src w s :: _ out) = Ok d \<and> unat d = limbs_value src div 2 ^ s mod 2 ^ w"
proof -
  let ?q = "s div 64" let ?o = "s mod 64"
  define d1 where "d1 = drop_bit ?o (src ! ?q) AND (shift_left 1 w - 1)"
  define d2 where "d2 = shift_left (src ! (?q + 1) AND (shift_left 1 (w - (64 - ?o)) - 1)) (64 - ?o)"
  let ?more = "64 < ?o + w \<and> ?q < length src - 1"
  let ?d = "if ?more then d1 OR d2 else d1"
  have "(window_at src w s :: _ out) = Ok ?d"
    using assms by (auto simp: window_at_def d1_def d2_def Let_def)
  moreover have "bit (unat ?d) k \<longleftrightarrow> bit (limbs_value src div 2 ^ s mod 2 ^ w) k" for k
  proof -
    have d1: "bit d1 k \<longleftrightarrow> k < w \<and> bit (src ! ?q) (?o + k)"
      using assms by (auto simp: d1_def bit_simps bit_ones)
    have d2: "bit d2 k \<longleftrightarrow> 64 - ?o \<le> k \<and> k < w \<and> bit (src ! (?q + 1)) (?o + k - 64)" if ?more
      using that assms by (auto simp: d2_def bit_shift_left bit_simps bit_ones add.commute)
    have N: "bit (limbs_value src div 2 ^ s mod 2 ^ w) k \<longleftrightarrow> k < w \<and> bit (limbs_value src) (s + k)"
      by (simp add: bit_simps flip: drop_bit_eq_div take_bit_eq_mod)
    have split: "(64 * a + r) div 64 = a \<and> (64 * a + r) mod 64 = r" if "r < 64" for a r :: nat
      using that by simp
    have q: "?q < 4"
      using assms(4) by simp
    show ?thesis
    proof (cases "?o + k < 64")
      case True
      have "64 * ?q + (?o + k) = s + k"
        by simp
      then have "(s + k) div 64 = ?q" "(s + k) mod 64 = ?o + k"
        using split [of "?o + k" ?q] True by simp_all
      moreover have "\<not> bit d2 k" if ?more
        using True d2 [OF that] by linarith
      ultimately show ?thesis
        using q assms(3) by (auto simp: N d1 bit_limbs bit_simps)
    next
      case False
      then have "64 * (?q + 1) + (?o + k - 64) = 64 * ?q + ?o + k"
        by simp
      then have far: "64 * (?q + 1) + (?o + k - 64) = s + k"
        by simp
      have no: "\<not> bit (src ! ?q) (?o + k)"
        using False bit_imp_le_length [of "src ! ?q" "?o + k"] by auto
      show ?thesis
      proof (cases "k < w")
        case True
        have "?o < 64"
          by simp
        then have "?o + k - 64 < 64"
          using True assms(2) by linarith
        then have "(s + k) div 64 = ?q + 1" "(s + k) mod 64 = ?o + k - 64"
          using split [of "?o + k - 64" "?q + 1"] unfolding far by blast+
        moreover have "64 < ?o + w" "64 - ?o \<le> k"
          using True False by linarith+
        ultimately show ?thesis
          using True no q assms(3) d2 by (auto simp: N d1 bit_limbs bit_simps)
      next
        case False
        then show ?thesis
          using d2 by (auto simp: N d1 bit_simps)
      qed
    qed
  qed
  ultimately show ?thesis
    by (intro exI [of _ ?d]) (simp add: bit_eq_iff)
qed

lemma calculate_prefetch_index_ok:
  assumes "0 < w" "w < 64" "length src = 4"
  shows "\<exists>chunks. (calculate_prefetch_index src w :: _ out) = Ok chunks \<and> length chunks = 253 div w + 1 \<and>
    map unat chunks = map (digit (limbs_value src) w) [0..<253 div w + 1]"
proof -
  have n: "div_ceil 254 w = 253 div w + 1"
    using assms(1) by (simp add: div_ceil_def)
  define d where "d s = (THE d. (window_at src w s :: _ out) = Ok d)" for s
  have d: "(window_at src w (i * w) :: _ out) = Ok (d (i * w)) \<and> unat (d (i * w)) = digit (limbs_value src) w i" if "i < 253 div w + 1" for i
  proof -
    have "i * w \<le> 253 div w * w"
      using that by (intro mult_right_mono) auto
    then have "i * w < 256"
      using div_times_less_eq_dividend [of 253 w] by linarith
    from window_at_ok [OF assms this] show ?thesis
      by (auto simp: d_def digit_def mult.commute)
  qed
  have "(map_collect (window_at src w) (map (\<lambda>i. i * w) [0..<253 div w + 1]) :: _ out) = Ok (map d (map (\<lambda>i. i * w) [0..<253 div w + 1]))"
    using d by (intro map_collect_Ok) auto
  then show ?thesis
    using assms(1) d by (simp add: calculate_prefetch_index_def n del: upt_Suc)
qed

section \<open>Signed digits\<close>

definition table_ok :: "('pt :: ab_group_add, 'fq, 'fr) edwards \<Rightarrow> 'pt \<Rightarrow> nat \<Rightarrow> nat \<Rightarrow> 'fq affine list \<Rightarrow> bool" where
  "table_ok ed G w n table \<longleftrightarrow> length table = n * (2 ^ (w - 1) + 1) \<and>
     (\<forall>i < n. \<forall>j \<le> 2 ^ (w - 1). table ! (j + i * (2 ^ (w - 1) + 1)) = to_affine ed (int_mul (int (j * 2 ^ (w * i))) G))"

lemma table_ok_new:
  assumes "0 < w"
  shows "table_ok ed G w n (map (to_affine ed) (windows_loop n (2 ^ (w - 1)) G []))"
proof -
  let ?half = "2 ^ (w - 1) :: nat"
  have two: "2 * ?half = 2 ^ w"
    using assms by (simp flip: power_Suc)
  have len: "length (window_entries ?half G i) = ?half + 1" for i
    by (simp add: window_entries_def)
  have eq: "windows_loop n ?half G [] = concat (map (window_entries ?half G) [0..<n])"
    by (subst windows_loop_eq) simp_all
  have all: "length (windows_loop n ?half G []) = n * (?half + 1)"
    unfolding eq by (rule blocks(1)) (rule len)
  have "windows_loop n ?half G [] ! (j + i * (?half + 1)) = int_mul (int (j * 2 ^ (w * i))) G" if "i < n" "j \<le> ?half" for i j
  proof -
    have "windows_loop n ?half G [] ! (i * (?half + 1) + j) = window_entries ?half G i ! j"
      unfolding eq using that len by (intro blocks(2)) auto
    also have "\<dots> = int_mul (int (j * (2 * ?half) ^ i)) G"
      unfolding window_entries_def using that by (subst nth_map) (simp_all del: upt_Suc power_mult_distrib)
    finally show ?thesis
      unfolding two power_mult [symmetric] by (simp only: add.commute)
  qed
  moreover have "j + i * (?half + 1) < n * (?half + 1)" if "i < n" "j \<le> ?half" for i j
  proof -
    have "j + i * (?half + 1) < Suc i * (?half + 1)"
      using that(2) by simp
    also have "\<dots> \<le> n * (?half + 1)"
      using that(1) by (intro mult_right_mono) auto
    finally show ?thesis .
  qed
  ultimately show ?thesis
    unfolding table_ok_def using all by simp
qed

lemma table_lookup:
  assumes "table_ok ed G w n table" "i < n" "j \<le> 2 ^ (w - 1)"
  shows "(index_res table (j + i * (2 ^ (w - 1) + 1)) :: (_, 'e) res) = Ok (to_affine ed (int_mul (int (j * 2 ^ (w * i))) G))"
proof -
  have "j + i * (2 ^ (w - 1) + 1) < Suc i * (2 ^ (w - 1) + 1)"
    using assms(3) by simp
  also have "\<dots> \<le> n * (2 ^ (w - 1) + 1)"
    using assms(2) by (intro mult_right_mono) auto
  finally show ?thesis
    using assms by (simp add: table_ok_def)
qed

definition sgn_digit :: "nat \<Rightarrow> nat \<Rightarrow> int" where
  "sgn_digit c j = (if 0 < c then - int j else int j)"

lemma add_entry_ok:
  assumes "edwards_ok ed" "table_ok ed G w n table" "i < n" "j \<le> 2 ^ (w - 1)" "represents R (to_affine ed (int_mul m G))"
  shows "\<exists>R'. add_entry ed table c (j + i * (2 ^ (w - 1) + 1)) R = Ok R' \<and>
    represents R' (to_affine ed (int_mul (m + sgn_digit c j * 2 ^ (w * i)) G))"
proof -
  let ?q = "int_mul (int (j * 2 ^ (w * i))) G"
  have "int_mul (m + sgn_digit c j * 2 ^ (w * i)) G = (if 0 < c then int_mul m G - ?q else int_mul m G + ?q)"
    by (simp add: sgn_digit_def int_mul_diff int_mul_add)
  then show ?thesis
    using add_point [OF assms(1,5), of ?q] add_neg_point [OF assms(1,5), of ?q]
    unfolding add_entry_def table_lookup [OF assms(2-4)] bind_res.simps by auto
qed

text \<open>The digit \<open>v\<close> (with the carry) as a signed digit and a new carry.\<close>

definition recode :: "nat \<Rightarrow> nat \<Rightarrow> nat \<times> nat" where
  "recode w v = (if 2 ^ (w - 1) + 1 \<le> v then (1, 2 ^ w - v) else (0, v))"

lemma recode_ok:
  assumes "recode w v = (c, j)" "v \<le> 2 ^ w" "0 < w"
  shows "j \<le> 2 ^ (w - 1)" "c \<le> 1" "sgn_digit c j + int c * 2 ^ w = int v" "v \<le> 2 ^ (w - 1) \<Longrightarrow> c = 0"
proof -
  have "2 * 2 ^ (w - 1) = (2 ^ w :: nat)"
    using assms(3) by (simp flip: power_Suc)
  then show "j \<le> 2 ^ (w - 1)"
    using assms by (auto simp: recode_def split: if_splits)
  show "c \<le> 1" "sgn_digit c j + int c * 2 ^ w = int v" "v \<le> 2 ^ (w - 1) \<Longrightarrow> c = 0"
    using assms by (auto simp: recode_def sgn_digit_def of_nat_diff split: if_splits)
qed

lemma digit_less: "digit N w i < 2 ^ w"
  by (simp add: digit_def)

lemma mod_digit: "N mod 2 ^ (w * Suc i) = N mod 2 ^ (w * i) + digit N w i * 2 ^ (w * i)"
  using mod_mult2_eq [of N "2 ^ (w * i)" "2 ^ w"] by (simp add: digit_def power_add mult.commute)

lemma digit_step:
  assumes "recode w (digit N w i + c) = (c', j)" "c \<le> 1" "0 < w" "m + int c * 2 ^ (w * i) = int (N mod 2 ^ (w * i))"
  shows "m + sgn_digit c' j * 2 ^ (w * i) + int c' * 2 ^ (w * Suc i) = int (N mod 2 ^ (w * Suc i))"
proof -
  have "digit N w i + c \<le> 2 ^ w"
    using digit_less [of N w i] assms(2) by simp
  then have "sgn_digit c' j + int c' * 2 ^ w = int (digit N w i) + int c"
    using recode_ok(3) [OF assms(1) _ assms(3)] by simp
  then have "(sgn_digit c' j + int c' * 2 ^ w) * 2 ^ (w * i) = int (digit N w i) * 2 ^ (w * i) + int c * 2 ^ (w * i)"
    by (simp add: distrib_right)
  moreover have "(2 :: int) ^ (w * Suc i) = 2 ^ w * 2 ^ (w * i)"
    by (simp add: power_add)
  ultimately show ?thesis
    using assms(4) unfolding mod_digit of_nat_add of_nat_mult of_nat_power of_nat_numeral
    by (simp only: distrib_right)
qed

section \<open>The loops\<close>

lemma prefetch_loop_ok:
  assumes ok: "edwards_ok ed" "table_ok ed G w n table" "0 < w" "digit N w (n - 1) < 2 ^ (w - 1)"
  shows "\<lbrakk>map unat chunks = map (digit N w) [i..<n]; 0 < i; i \<le> n; j \<le> 2 ^ (w - 1); c \<le> 1; i = n \<longrightarrow> c = 0;
      represents R (to_affine ed (int_mul m G));
      m + sgn_digit c j * 2 ^ (w * (i - 1)) + int c * 2 ^ (w * i) = int (N mod 2 ^ (w * i))\<rbrakk>
    \<Longrightarrow> \<exists>R'. prefetch_loop ed table w chunks i (j + (i - 1) * (2 ^ (w - 1) + 1)) c R = Ok R' \<and>
      represents R' (to_affine ed (int_mul (int (N mod 2 ^ (w * n))) G))"
proof (induction chunks arbitrary: i j c m R)
  case Nil
  then have i: "i = n" "c = 0" "i - 1 < n"
    by auto
  then show ?case
    using add_entry_ok [OF ok(1,2) i(3) Nil(4,7), of c] Nil(8) by simp
next
  case (Cons chunk chunks)
  have i: "i < n" "i - 1 < n"
    using Cons.prems(1,3) by (cases "i = n"; simp)+
  then have "[i..<n] = i # [Suc i..<n]"
    by (simp add: upt_conv_Cons)
  then have d: "unat chunk = digit N w i" "map unat chunks = map (digit N w) [Suc i..<n]"
    using Cons.prems(1) by auto
  obtain c' j' where rc: "recode w (digit N w i + c) = (c', j')"
    by (cases "recode w (digit N w i + c)")
  have v: "digit N w i + c \<le> 2 ^ w"
    using digit_less [of N w i] Cons.prems(5) by simp
  note r = recode_ok [OF rc v ok(3)]
  obtain R' where R': "add_entry ed table c (j + (i - 1) * (2 ^ (w - 1) + 1)) R = Ok R'"
      "represents R' (to_affine ed (int_mul (m + sgn_digit c j * 2 ^ (w * (i - 1))) G))"
    using add_entry_ok [OF ok(1,2) i(2) Cons.prems(4,7)] by blast
  have last: "Suc i = n \<longrightarrow> c' = 0"
    using ok(4) r(4) Cons.prems(5) by auto
  have step: "m + sgn_digit c j * 2 ^ (w * (i - 1)) + sgn_digit c' j' * 2 ^ (w * (Suc i - 1)) + int c' * 2 ^ (w * Suc i) =
      int (N mod 2 ^ (w * Suc i))"
    using digit_step [OF rc Cons.prems(5) ok(3) Cons.prems(8)] by simp
  have "prefetch_loop ed table w (chunk # chunks) i (j + (i - 1) * (2 ^ (w - 1) + 1)) c R =
      prefetch_loop ed table w chunks (Suc i) (j' + (Suc i - 1) * (2 ^ (w - 1) + 1)) c' R'"
    using rc R'(1) by (auto simp: recode_def Let_def d(1) split: if_splits)
  then show ?case
    using Cons.IH [OF d(2) _ _ r(1,2) last R'(2) step] i(1) by simp
qed

lemma points_loop_ok:
  assumes ok: "edwards_ok ed" "table_ok ed G w n table" "0 < w" "w < 64" "digit N w (n - 1) < 2 ^ (w - 1)"
  defines "acc ps \<equiv> fold (\<lambda>p result. add_affine_point ed result (af_x p) (af_y p)) ps projective_default"
  shows "\<lbrakk>map unat chunks = map (digit N w) [i..<n]; i \<le> n; unat carry \<le> 1; i = n \<longrightarrow> carry = 0;
      represents (acc points) (to_affine ed (int_mul m G)); m + int (unat carry) * 2 ^ (w * i) = int (N mod 2 ^ (w * i))\<rbrakk>
    \<Longrightarrow> \<exists>ps. points_loop table w chunks i carry points = Ok ps \<and>
      represents (acc ps) (to_affine ed (int_mul (int (N mod 2 ^ (w * n))) G))"
proof (induction chunks arbitrary: i carry points m)
  case Nil
  then have "i = n" "carry = 0"
    by auto
  then show ?case
    using Nil by simp
next
  case (Cons chunk chunks)
  have i: "i < n"
    using Cons.prems(1,2) by (cases "i = n"; simp)
  then have "[i..<n] = i # [Suc i..<n]"
    by (simp add: upt_conv_Cons)
  then have d: "unat chunk = digit N w i" "map unat chunks = map (digit N w) [Suc i..<n]"
    using Cons.prems(1) by auto
  let ?v = "digit N w i + unat carry"
  obtain c' j' where rc: "recode w ?v = (c', j')"
    by (cases "recode w ?v")
  have v: "?v \<le> 2 ^ w"
    using digit_less [of N w i] Cons.prems(3) by simp
  note r = recode_ok [OF rc v ok(3)]
  have "(2 :: nat) ^ w < 2 ^ 64"
    using ok(4) by (intro power_strict_increasing) auto
  then have idx: "unat (chunk + carry) = ?v"
    using v d(1) by (simp add: unat_add_small)
  have last: "Suc i = n \<longrightarrow> c' = 0"
    using ok(5) r(4) Cons.prems(3) by auto
  have step: "m + sgn_digit c' j' * 2 ^ (w * i) + int c' * 2 ^ (w * Suc i) = int (N mod 2 ^ (w * Suc i))"
    using digit_step [OF rc Cons.prems(3) ok(3) Cons.prems(6)] .
  let ?q = "int_mul (int (j' * 2 ^ (w * i))) G"
  have next_ok: "\<exists>ps. points_loop table w chunks (Suc i) (of_nat c') points' = Ok ps \<and>
      represents (acc ps) (to_affine ed (int_mul (int (N mod 2 ^ (w * n))) G))"
    if "represents (acc points') (to_affine ed (int_mul (m + sgn_digit c' j' * 2 ^ (w * i)) G))" for points'
  proof -
    have "c' = 0 \<or> c' = 1"
      using r(2) by linarith
    then have u: "unat (of_nat c' :: u64) = c'"
      by auto
    show ?thesis
      using Cons.IH [OF d(2) _ _ _ that, of "of_nat c'"] i r(2) last step unfolding u by simp
  qed
  show ?case
  proof (cases "j' = 0")
    case True
    moreover have "carry = 0" if "unat carry = 0"
      using that by (simp add: word_unat_eq_iff)
    ultimately have "points_loop table w (chunk # chunks) i carry points = points_loop table w chunks (Suc i) (of_nat c') points"
      using rc idx v Cons.prems(3) ok(3) by (auto simp: recode_def Let_def split: if_splits)
    then show ?thesis
      using next_ok [of points] Cons.prems(5) True by (simp add: sgn_digit_def)
  next
    case False
    have half: "Suc (2 ^ (w - Suc 0)) \<le> (2 :: nat) ^ w"
      using ok(3) by (simp add: Suc_leI)
    let ?P = "to_affine ed ?q" let ?P' = "if 0 < c' then ?P\<lparr>af_x := - af_x ?P\<rparr> else ?P"
    have "points_loop table w (chunk # chunks) i carry points = points_loop table w chunks (Suc i) (of_nat c') (points @ [?P'])"
      using rc idx v False half table_lookup [OF ok(2) i r(1), where 'e = serde_error]
      by (auto simp: recode_def Let_def split: if_splits)
    moreover have "represents (acc (points @ [?P'])) (to_affine ed (int_mul (m + sgn_digit c' j' * 2 ^ (w * i)) G))"
      using add_point [OF ok(1) Cons.prems(5), of ?q] add_neg_point [OF ok(1) Cons.prems(5), of ?q]
      by (simp add: acc_def sgn_digit_def int_mul_add int_mul_diff)
    ultimately show ?thesis
      using next_ok by simp
  qed
qed

section \<open>The multiplication\<close>

lemma last_digit:
  assumes "0 < w" "N < 2 ^ 253"
  shows "digit N w (253 div w) < 2 ^ (w - 1)" "N mod 2 ^ (w * (253 div w + 1)) = N"
proof -
  have bits: "253 \<le> w * (253 div w) + (w - 1)"
    using assms(1) mult_div_mod_eq [of w 253] mod_less_divisor [of w 253] by linarith
  have "N < 2 ^ (w * (253 div w) + (w - 1))"
    by (rule order_less_le_trans [OF assms(2)]) (rule power_increasing [OF bits], simp)
  then have "N div 2 ^ (w * (253 div w)) < 2 ^ (w - 1)"
    by (simp add: power_add less_mult_imp_div_less mult.commute)
  then show "digit N w (253 div w) < 2 ^ (w - 1)"
    using le_less_trans [OF mod_less_eq_dividend] by (simp add: digit_def)
  have "253 \<le> w * (253 div w + 1)"
    using bits by simp
  then have "N < 2 ^ (w * (253 div w + 1))"
    by (intro order_less_le_trans [OF assms(2)] power_increasing) auto
  then show "N mod 2 ^ (w * (253 div w + 1)) = N"
    by (rule mod_less)
qed

lemma inner_bound_eq:
  assumes "0 < w" "w < 32"
  shows "nat (inner_bound w) = 2 ^ (w - 1)"
proof -
  have w: "w - 1 < 31"
    using assms by simp
  have "push_bit ((w - 1) mod 32) 1 = (word_of_int (2 ^ (w - 1)) :: 32 word)"
    using w by (simp add: push_bit_of_1)
  then have bound: "inner_bound w = signed_take_bit 31 (2 ^ (w - 1))"
    unfolding inner_bound_def by (simp only: sint_sbintrunc') simp
  have "(2 :: int) ^ (w - 1) < 2 ^ 31"
    using w by (intro power_strict_increasing) simp_all
  then have "signed_take_bit 31 ((2 :: int) ^ (w - 1)) = 2 ^ (w - 1)"
    by (intro signed_take_bit_int_eq_self) (simp_all add: order.trans [of _ 0])
  then show ?thesis
    by (simp add: bound nat_power_eq)
qed

text \<open>A window size of 32 leaves two entries for a window: the bound is the least \<open>i32\<close>.\<close>

lemma wide_windows:
  fixes bases :: "'a :: ab_group_add list"
  assumes "committer_new ed bases 32 = Ok co" "g < length bases"
  shows "length (tables co ! g) = 16"
proof -
  have "nat (inner_bound 32) = 0"
    by (simp add: inner_bound_def)
  moreover have "length (windows_loop n 0 element table) = 2 * n + length table" for n and element :: "'a :: ab_group_add" and table
    by (induction n arbitrary: element table) simp_all
  ultimately show ?thesis
    using assms by (auto simp: committer_new_def)
qed

lemma committer_new_ok:
  assumes "0 < w" "w < 32"
  shows "\<exists>co. committer_new ed bases w = Ok co \<and> window_size co = w \<and> length (tables co) = length bases \<and>
    (\<forall>g < length bases. table_ok ed (bases ! g) w (253 div w + 1) (tables co ! g))"
  using assms table_ok_new [OF assms(1), of ed _ "253 div w + 1"] by (simp add: committer_new_def inner_bound_eq Let_def)

lemma mul_index_ok:
  assumes "edwards_ok ed" "0 < w" "w < 32" "committer_new ed bases w = Ok co" "g < length bases"
    and "length (into_bigint ed k) = 4" "limbs_value (into_bigint ed k) < 2 ^ 253"
  shows "\<exists>R. mul_index_prefetch ed co k g = Ok R \<and> represents R (to_affine ed (int_mul (int (limbs_value (into_bigint ed k))) (bases ! g)))"
    and "\<exists>R. mul_index_portable ed co k g = Ok R \<and> represents R (to_affine ed (int_mul (int (limbs_value (into_bigint ed k))) (bases ! g)))"
proof -
  have w64: "w < 64"
    using assms(3) by simp
  let ?N = "limbs_value (into_bigint ed k)" let ?n = "253 div w + 1" let ?G = "bases ! g"
  obtain chunks where ch: "(calculate_prefetch_index (into_bigint ed k) w :: _ out) = Ok chunks" "length chunks = ?n"
      "map unat chunks = map (digit ?N w) [0..<?n]"
    using calculate_prefetch_index_ok [OF assms(2) w64 assms(6)] by blast
  have co: "window_size co = w" "g < length (tables co)" "table_ok ed ?G w ?n (tables co ! g)"
    using committer_new_ok [OF assms(2,3), of ed bases] assms(4,5) by auto
  have top: "digit ?N w (?n - 1) < 2 ^ (w - 1)"
    using last_digit(1) [OF assms(2,7)] by simp
  note all = last_digit(2) [OF assms(2,7)]
  have start: "represents projective_default (to_affine ed (int_mul 0 ?G))"
    using represents_default [OF assms(1)] by simp
  show "\<exists>R. mul_index_portable ed co k g = Ok R \<and> represents R (to_affine ed (int_mul (int ?N) ?G))"
    using points_loop_ok [OF assms(1) co(3) assms(2) w64 top ch(3), of 0 "[]" 0] ch(1) co(1,2) start all
    by (auto simp: mul_index_portable_def)
  obtain d chunks' where cs: "chunks = d # chunks'"
    using ch(2) by (cases chunks) auto
  have "[0..<?n] = 0 # [1..<?n]"
    by (simp add: upt_conv_Cons)
  then have d: "unat d = digit ?N w 0" "map unat chunks' = map (digit ?N w) [1..<?n]"
    using ch(3) unfolding cs by simp_all
  obtain c j where rc: "recode w (digit ?N w 0) = (c, j)"
    by (cases "recode w (digit ?N w 0)")
  note r = recode_ok [OF rc less_imp_le [OF digit_less] assms(2)]
  have m: "0 + sgn_digit c j * 2 ^ (w * (1 - 1)) + int c * 2 ^ (w * 1) = int (?N mod 2 ^ (w * 1))"
    using r(3) by (simp add: digit_def)
  have c: "1 = ?n \<longrightarrow> c = 0"
    using top r(4) by auto
  have "mul_index_prefetch ed co k g = prefetch_loop ed (tables co ! g) w chunks' 1 (j + (1 - 1) * (2 ^ (w - 1) + 1)) c projective_default"
    using ch(1) co(1,2) d(1) rc unfolding cs
    by (auto simp: mul_index_prefetch_def recode_def Let_def split: if_splits)
  then show "\<exists>R. mul_index_prefetch ed co k g = Ok R \<and> represents R (to_affine ed (int_mul (int ?N) ?G))"
    using prefetch_loop_ok [OF assms(1) co(3) assms(2) top d(2) _ _ r(1,2) c start m] all by simp
qed

section \<open>The curve constant\<close>

text \<open>
  The constant is the Montgomery form of the parameter
  \<open>d = 138827208126141220649022263972958607803 / 171449701953573178309673572579671231137\<close> of Bandersnatch,
  and not of \<open>-5\<close>, as the comment beside it says (\<open>-5\<close> is the other parameter, \<open>a\<close>).
\<close>

lemma curve_d_constant:
  "int (limbs_value curve_d_limbs) * 171449701953573178309673572579671231137 mod fq_modulus =
     138827208126141220649022263972958607803 * 2 ^ 256 mod fq_modulus"
  "int (limbs_value curve_d_limbs) mod fq_modulus \<noteq> (fq_modulus - 5) * 2 ^ 256 mod fq_modulus"
proof -
  have "138827208126141220649022263972958607803 * 2 ^ 256 = int (limbs_value curve_d_limbs) * 171449701953573178309673572579671231137 + 226435618580710502414230314866144238288 * fq_modulus"
    by (simp add: curve_d_limbs_def fq_modulus_def)
  then show "int (limbs_value curve_d_limbs) * 171449701953573178309673572579671231137 mod fq_modulus = 138827208126141220649022263972958607803 * 2 ^ 256 mod fq_modulus"
    by (metis mod_mult_self1)
  have five: "(fq_modulus - 5) * 2 ^ 256 = 50270055914933308635517961054792050785936706678128833673955984359697326014476 + 115792089237316195423570985008687907853269984665640564039457584007913129639924 * fq_modulus"
    by (simp add: fq_modulus_def)
  have "int (limbs_value curve_d_limbs) < fq_modulus" "int (limbs_value curve_d_limbs) \<noteq> 50270055914933308635517961054792050785936706678128833673955984359697326014476" "50270055914933308635517961054792050785936706678128833673955984359697326014476 < fq_modulus"
    by (simp_all add: curve_d_limbs_def fq_modulus_def)
  then show "int (limbs_value curve_d_limbs) mod fq_modulus \<noteq> (fq_modulus - 5) * 2 ^ 256 mod fq_modulus"
    unfolding five mod_mult_self1 by (simp add: mod_pos_pos_trivial)
qed

section \<open>An instance\<close>

text \<open>
  Over the complex numbers the curve has the four points with a zero coordinate, the multiples of
  \<open>(x, 0)\<close> with \<open>5 x^2 = -1\<close>.
\<close>

definition quarter_x :: complex where
  "quarter_x = \<i> / complex_of_real (sqrt 5)"

definition quarter_at :: "int \<Rightarrow> complex affine" where
  "quarter_at r =
     (if r = 0 then \<lparr>af_x = 0, af_y = 1\<rparr> else if r = 1 then \<lparr>af_x = quarter_x, af_y = 0\<rparr>
      else if r = 2 then \<lparr>af_x = 0, af_y = - 1\<rparr> else \<lparr>af_x = - quarter_x, af_y = 0\<rparr>)"

definition quarter :: "int \<Rightarrow> complex affine" where
  "quarter n = quarter_at (n mod 4)"

definition quarter_curve :: "(int, complex, nat) edwards" where
  "quarter_curve = \<lparr>to_affine = quarter, new_unchecked = \<lambda>_. 3, into_bigint = \<lambda>n. [of_nat (n mod 4), 0, 0, 0]\<rparr>"

lemma quarter_x_square: "5 * quarter_x * quarter_x = - 1"
  by (simp add: quarter_x_def flip: of_real_mult)

lemma quarter_at_add:
  assumes "r \<in> {0, 1, 2, 3}" "s \<in> {0, 1, 2, 3}"
  shows "quarter_at (if r + s < 4 then r + s else r + s - 4) =
    \<lparr>af_x = af_x (quarter_at r) * af_y (quarter_at s) + af_y (quarter_at r) * af_x (quarter_at s),
     af_y = af_y (quarter_at r) * af_y (quarter_at s) + 5 * af_x (quarter_at r) * af_x (quarter_at s)\<rparr>"
  using assms by (elim insertE emptyE) (simp_all add: quarter_at_def quarter_x_square)

lemma quarter_at_minus:
  "r \<in> {0, 1, 2, 3} \<Longrightarrow> quarter_at (if r = 0 then 0 else 4 - r) = (quarter_at r)\<lparr>af_x := - af_x (quarter_at r)\<rparr>"
  by (auto simp: quarter_at_def)

lemma mod_4_cases: "(n :: int) mod 4 \<in> {0, 1, 2, 3}"
  using pos_mod_sign [of 4 n] pos_mod_bound [of 4 n] by auto

lemma mod_4_small:
  assumes "0 \<le> (x :: int)" "x < 8"
  shows "x mod 4 = (if x < 4 then x else x - 4)"
proof (cases "x < 4")
  case False
  then have "(x - 4) mod 4 = x - 4"
    using assms by (intro mod_pos_pos_trivial) auto
  then show ?thesis
    using False by simp
qed (use assms in simp)

lemma quarter_ok: "edwards_ok quarter_curve"
proof -
  have neg: "quarter (- p) = (quarter p)\<lparr>af_x := - af_x (quarter p)\<rparr>" for p
  proof -
    have "(- p) mod 4 = (if p mod 4 = 0 then 0 else 4 - p mod 4)"
      by (rule zmod_zminus1_eq_if)
    then show ?thesis
      unfolding quarter_def by (simp only: quarter_at_minus [OF mod_4_cases])
  qed
  have zero: "d * af_x (quarter p) * af_x (quarter q) * af_y (quarter p) * af_y (quarter q) = 0" for d p q
  proof -
    have "af_x (quarter p) * af_y (quarter p) = 0"
      by (simp add: quarter_def quarter_at_def)
    then show ?thesis
      by auto
  qed
  have add: "quarter (p + q) = edwards_sum d (quarter p) (quarter q)" for p q d
  proof -
    have sum: "edwards_sum d (quarter p) (quarter q) =
        \<lparr>af_x = af_x (quarter p) * af_y (quarter q) + af_y (quarter p) * af_x (quarter q),
         af_y = af_y (quarter p) * af_y (quarter q) + 5 * af_x (quarter p) * af_x (quarter q)\<rparr>"
      unfolding edwards_sum_def Let_def zero by simp
    have res: "(p + q) mod 4 = (if p mod 4 + q mod 4 < 4 then p mod 4 + q mod 4 else p mod 4 + q mod 4 - 4)"
      using pos_mod_sign [of 4 p] pos_mod_bound [of 4 p] pos_mod_sign [of 4 q] pos_mod_bound [of 4 q]
      by (subst mod_add_eq [symmetric]) (rule mod_4_small; linarith)
    show ?thesis
      unfolding sum unfolding quarter_def res by (rule quarter_at_add [OF mod_4_cases mod_4_cases])
  qed
  have q: "to_affine quarter_curve = quarter"
    by (simp add: quarter_curve_def)
  show ?thesis
    unfolding edwards_ok_def Let_def q zero
    by (intro conjI allI neg add) (simp_all add: quarter_def quarter_at_def)
qed

lemma int_mul_int: "int_mul k (n :: int) = k * n"
proof (induction k rule: int_induct [where k = 0])
  case (step1 i)
  then show ?case
    by (simp add: int_mul_plus1 distrib_right)
next
  case (step2 i)
  then show ?case
    by (simp add: int_mul_minus1 left_diff_distrib)
qed simp

section \<open>Properties\<close>

text \<open>C23: A committer multiplies: for every window size from 1 to 31, the tables are built, and both
  variants of \<open>mul_index\<close>, the one with prefetching and unchecked accesses and the portable one, stay
  inside them and return the multiple of the base point, down to its coordinates.\<close>

theorem committer_multiplies:
  assumes "edwards_ok ed" "0 < w" "w < 32" "g < length bases"
    and "length (into_bigint ed k) = 4" "limbs_value (into_bigint ed k) < 2 ^ 253"
  shows "\<exists>co R R'. committer_new ed bases w = Ok co \<and> mul_index_prefetch ed co k g = Ok R \<and> mul_index_portable ed co k g = Ok R' \<and>
    represents R (to_affine ed (int_mul (int (limbs_value (into_bigint ed k))) (bases ! g))) \<and>
    represents R' (to_affine ed (int_mul (int (limbs_value (into_bigint ed k))) (bases ! g)))"
proof -
  obtain co where co: "committer_new ed bases w = Ok co"
    using committer_new_ok [OF assms(2,3)] by blast
  show ?thesis
    using mul_index_ok [OF assms(1-3) co assms(4-6)] co by blast
qed

theorem committer_multiplies_witness:
  "\<exists>co R R'. committer_new quarter_curve [1, 2] 3 = Ok co \<and> mul_index_prefetch quarter_curve co 7 1 = Ok R \<and>
    mul_index_portable quarter_curve co 7 1 = Ok R' \<and> represents R \<lparr>af_x = 0, af_y = - 1\<rparr> \<and> represents R' \<lparr>af_x = 0, af_y = - 1\<rparr>"
proof -
  have "to_affine quarter_curve (int_mul 3 2) = \<lparr>af_x = 0, af_y = - 1\<rparr>"
    by (simp add: quarter_curve_def quarter_def quarter_at_def int_mul_int)
  then show ?thesis
    using committer_multiplies [OF quarter_ok, of 3 1 "[1, 2]" 7] by (simp add: quarter_curve_def)
qed

lemma int_mul_period:
  assumes "\<And>m. to_affine ed (int_mul (m + r) G) = to_affine ed (int_mul m G)"
  shows "to_affine ed (int_mul (q * r + n) G) = to_affine ed (int_mul n G)"
proof (induction q rule: int_induct [where k = 0])
  case (step1 q)
  then show ?case
    using assms [of "q * r + n"] by (simp add: algebra_simps)
next
  case (step2 q)
  then show ?case
    using assms [of "(q - 1) * r + n"] by (simp add: algebra_simps)
qed simp

text \<open>The multiplication by a committer, in both variants of \<open>mul_index\<close> and for window sizes from 1 to 31,
  is additive in the scalar, when the scalars are reduced modulo a number after which the multiples of the base
  point repeat: what the incremental commitments of the trie rely on.\<close>

theorem committer_additive:
  fixes a b :: "'fr :: plus"
  defines "val \<equiv> \<lambda>ed k. int (limbs_value (into_bigint ed k))"
  assumes "edwards_ok ed" "0 < w" "w < 32" "g < length bases"
    and "\<And>k. length (into_bigint ed k) = 4 \<and> limbs_value (into_bigint ed k) < 2 ^ 253"
    and "\<And>m. to_affine ed (int_mul (m + r) (bases ! g)) = to_affine ed (int_mul m (bases ! g))" "val ed (a + b) = (val ed a + val ed b) mod r"
  shows "\<exists>co. committer_new ed bases w = Ok co \<and> (\<forall>mul \<in> {mul_index_prefetch ed co, mul_index_portable ed co}. \<exists>Ra Rb R.
    mul a g = Ok Ra \<and> mul b g = Ok Rb \<and> mul (a + b) g = Ok R \<and>
    represents Ra (to_affine ed (int_mul (val ed a) (bases ! g))) \<and>
    represents Rb (to_affine ed (int_mul (val ed b) (bases ! g))) \<and>
    represents R (to_affine ed (int_mul (val ed a) (bases ! g) + int_mul (val ed b) (bases ! g))))"
proof -
  obtain co where co: "committer_new ed bases w = Ok co"
    using committer_new_ok [OF assms(3,4)] by blast
  have "val ed a + val ed b = (val ed a + val ed b) div r * r + val ed (a + b)"
    unfolding assms(8) by (rule div_mult_mod_eq [symmetric])
  then have "to_affine ed (int_mul (val ed a + val ed b) (bases ! g)) = to_affine ed (int_mul (val ed (a + b)) (bases ! g))"
    using int_mul_period [of ed r "bases ! g", OF assms(7)] by metis
  moreover have "\<exists>R. mul k g = Ok R \<and> represents R (to_affine ed (int_mul (val ed k) (bases ! g)))"
    if "mul \<in> {mul_index_prefetch ed co, mul_index_portable ed co}" for mul k
    using mul_index_ok [OF assms(2-4) co assms(5)] assms(6) that by (auto simp: val_def)
  ultimately show ?thesis
    using co by (metis int_mul_add)
qed

theorem committer_additive_witness:
  "\<exists>co. committer_new quarter_curve [1] 2 = Ok co \<and>
    (\<forall>mul \<in> {mul_index_prefetch quarter_curve co, mul_index_portable quarter_curve co}. \<exists>Ra Rb R.
    mul 3 0 = Ok Ra \<and> mul 2 0 = Ok Rb \<and> mul 5 0 = Ok R \<and>
    represents Ra \<lparr>af_x = - quarter_x, af_y = 0\<rparr> \<and> represents Rb \<lparr>af_x = 0, af_y = - 1\<rparr> \<and>
    represents R \<lparr>af_x = quarter_x, af_y = 0\<rparr>)"
proof -
  have val: "limbs_value (into_bigint quarter_curve k) = k mod 4" for k
    using mod_less_divisor [of 4 k] by (simp add: quarter_curve_def unsigned_of_nat take_bit_nat_eq_self_iff)
  then have size: "length (into_bigint quarter_curve k) = 4 \<and> limbs_value (into_bigint quarter_curve k) < 2 ^ 253" for k
    using mod_less_divisor [of 4 k] by (simp add: quarter_curve_def)
  have "to_affine quarter_curve n = quarter n" for n
    by (simp add: quarter_curve_def)
  then show ?thesis
    using committer_additive [OF quarter_ok _ _ _ size, of 2 0 "[1]" 4 3 2]
    by (simp add: val quarter_def quarter_at_def int_mul_int)
qed

text \<open>C33: The windows of a scalar are digits in base \<open>2^w\<close>: each fits the window, and together they give
  the scalar back.\<close>

theorem windows_recompose:
  assumes "0 < w" "w < 64" "length source_vec = 4" "limbs_value source_vec < 2 ^ 253"
  shows "\<exists>chunks. (calculate_prefetch_index source_vec w :: _ out) = Ok chunks \<and> length chunks = 253 div w + 1 \<and>
    (\<forall>chunk \<in> set chunks. unat chunk < 2 ^ w) \<and>
    (\<Sum>i < length chunks. unat (chunks ! i) * 2 ^ (w * i)) = limbs_value source_vec"
proof -
  let ?N = "limbs_value source_vec"
  obtain chunks where ch: "(calculate_prefetch_index source_vec w :: _ out) = Ok chunks" "length chunks = 253 div w + 1"
      "map unat chunks = map (digit ?N w) [0..<253 div w + 1]"
    using calculate_prefetch_index_ok [OF assms(1-3)] by blast
  have nth: "unat (chunks ! i) = digit ?N w i" if "i < length chunks" for i
    using arg_cong [OF ch(3), of "\<lambda>xs. xs ! i"] that ch(2) by (simp del: upt_Suc)
  have "(\<Sum>i < n. digit ?N w i * 2 ^ (w * i)) = ?N mod 2 ^ (w * n)" for n
    by (induction n) (simp_all add: mod_digit del: mult_Suc_right)
  then have "(\<Sum>i < length chunks. unat (chunks ! i) * 2 ^ (w * i)) = ?N"
    using last_digit(2) [OF assms(1,4)] ch(2) nth by simp
  moreover have "\<forall>chunk \<in> set chunks. unat chunk < 2 ^ w"
    using nth digit_less by (auto simp: in_set_conv_nth)
  ultimately show ?thesis
    using ch(1,2) by blast
qed

theorem windows_recompose_witness:
  "\<exists>chunks. (calculate_prefetch_index [77, 0, 0, 1] 11 :: _ out) = Ok chunks \<and> length chunks = 24 \<and>
    (\<forall>chunk \<in> set chunks. unat chunk < 2 ^ 11) \<and> (\<Sum>i < 24. unat (chunks ! i) * 2 ^ (11 * i)) = 77 + 2 ^ 192"
  using windows_recompose [of 11 "[77, 0, 0, 1]"] by auto

end
