(* ===== verification/Committer_Asm.thy ===== *)
theory Committer_Asm
  imports Committer_Correct "HOL-Library.Numeral_Type"
begin

text \<open>
  The addition of an affine point on \<open>x86_64\<close> (\<open>salt_committer.rs\<close>), whose products are made by the assembly
  of \<open>Mont_Asm\<close> on limbs in Montgomery form. The sums and differences of the external crate are the parameters
  \<open>add\<close> and \<open>sub\<close> on limbs.
\<close>

section \<open>Calls of the assembly\<close>

type_synonym limbs = "u64 list"

definition place :: "u64 \<Rightarrow> limbs \<Rightarrow> (u64 \<Rightarrow> u64) \<Rightarrow> u64 \<Rightarrow> u64" where
  "place q l m = m(q := l ! 0, q + 8 := l ! 1, q + 16 := l ! 2, q + 24 := l ! 3)"

definition fetch :: "u64 \<Rightarrow> (u64 \<Rightarrow> u64) \<Rightarrow> limbs" where
  "fetch q m = [m q, m (q + 8), m (q + 16), m (q + 24)]"

text \<open>The arguments are pointers to the result (at 64) and to the operands (at 0 and 32).\<close>

definition call_machine :: "limbs \<Rightarrow> limbs \<Rightarrow> machine" where
  "call_machine x y = \<lparr>regs = (\<lambda>_. 0)(RDI := 64, RSI := 0, RDX := 32), carry_flag = False, overflow_flag = False,
     memory = place 0 x (place 32 y (\<lambda>_. 0)), stack = []\<rparr>"

definition mont_mul :: "limbs \<Rightarrow> limbs \<Rightarrow> limbs" where
  "mont_mul x y = fetch 64 (memory (run mont_mul_asm (call_machine x y)))"

definition mont_mul_by5 :: "limbs \<Rightarrow> limbs" where
  "mont_mul_by5 x = fetch 64 (memory (run mont_mul_by5_asm
     ((call_machine x x)\<lparr>memory := place 64 x (\<lambda>_. 0)\<rparr>)))"

definition add_affine_point_asm ::
  "(limbs \<Rightarrow> limbs \<Rightarrow> limbs) \<Rightarrow> (limbs \<Rightarrow> limbs \<Rightarrow> limbs) \<Rightarrow> limbs projective \<Rightarrow> limbs \<Rightarrow> limbs \<Rightarrow> limbs projective"
where
  "add_affine_point_asm add sub result p2_x p2_y =
     (let a = mont_mul (pr_x result) p2_x;
          b = mont_mul (pr_y result) p2_y;
          c = mont_mul p2_x p2_y;
          d = mont_mul (pr_t result) c;
          c = mont_mul d curve_d_limbs;
          d = mont_mul (add (pr_x result) (pr_y result)) (add p2_x p2_y);
          e = sub (sub d a) b;
          f = sub (pr_z result) c;
          g = add (pr_z result) c;
          a = mont_mul_by5 a;
          h = add b a
      in \<lparr>pr_x = mont_mul e f, pr_y = mont_mul g h, pr_t = mont_mul e h, pr_z = mont_mul f g\<rparr>)"

section \<open>Montgomery form\<close>

definition limbs_ok :: "limbs \<Rightarrow> bool" where
  "limbs_ok l \<longleftrightarrow> length l = 4 \<and> int (limbs_value l) < fq_modulus"

text \<open>The limbs hold \<open>v * 2^256\<close> modulo the modulus.\<close>

definition mont_form :: "limbs \<Rightarrow> int \<Rightarrow> bool" where
  "mont_form l v \<longleftrightarrow> limbs_ok l \<and> int (limbs_value l) mod fq_modulus = v * 2 ^ 256 mod fq_modulus"

lemma length_4: "length l = 4 \<Longrightarrow> l = [l ! 0, l ! 1, l ! 2, l ! 3]"
  by (rule nth_equalityI) (auto simp: less_Suc_eq numeral_eq_Suc)

lemma limbs_value_4: "length l = 4 \<Longrightarrow> int (limbs_value l) = val4 (l ! 0) (l ! 1) (l ! 2) (l ! 3)"
  by (subst length_4) (simp_all add: val4_def)

lemma fetch_cells: "int (limbs_value (fetch q (memory s))) = cells s q"
  by (simp add: fetch_def cells_def val4_def)

lemma mont_mul_value:
  assumes "limbs_ok x" "limbs_ok y"
  shows "limbs_ok (mont_mul x y)"
    and "2 ^ 256 * int (limbs_value (mont_mul x y)) mod fq_modulus = int (limbs_value x) * int (limbs_value y) mod fq_modulus"
proof -
  have x: "cells (call_machine x y) 0 = int (limbs_value x)" "cells (call_machine x y) 32 = int (limbs_value y)"
    using assms by (simp_all add: limbs_ok_def limbs_value_4 cells_def call_machine_def place_def)
  have r: "regs (call_machine x y) RSI = 0" "regs (call_machine x y) RDX = 32" "regs (call_machine x y) RDI = 64"
    by (simp_all add: call_machine_def)
  have "cells (run mont_mul_asm (call_machine x y)) 64 < fq_modulus \<and>
      2 ^ 256 * cells (run mont_mul_asm (call_machine x y)) 64 mod fq_modulus = int (limbs_value x) * int (limbs_value y) mod fq_modulus"
    using mont_mul_asm_run [of "call_machine x y", unfolded r x] assms(1) by (simp add: limbs_ok_def)
  then show "limbs_ok (mont_mul x y)"
      "2 ^ 256 * int (limbs_value (mont_mul x y)) mod fq_modulus = int (limbs_value x) * int (limbs_value y) mod fq_modulus"
    by (simp_all add: mont_mul_def limbs_ok_def fetch_cells) (simp add: fetch_def)
qed

lemma mont_mul_by5_value:
  assumes "limbs_ok x"
  shows "limbs_ok (mont_mul_by5 x)" "int (limbs_value (mont_mul_by5 x)) = 5 * int (limbs_value x) mod fq_modulus"
proof -
  let ?s = "(call_machine x x)\<lparr>memory := place 64 x (\<lambda>_. 0)\<rparr>"
  have x: "cells ?s 64 = int (limbs_value x)"
    using assms by (simp add: limbs_ok_def limbs_value_4 cells_def place_def)
  have r: "regs ?s RDI = 64"
    by (simp add: call_machine_def)
  have "cells (run mont_mul_by5_asm ?s) 64 = 5 * int (limbs_value x) mod fq_modulus"
    using mont_mul_by5_asm_run [of ?s, unfolded r x] assms by (simp add: limbs_ok_def)
  then show "int (limbs_value (mont_mul_by5 x)) = 5 * int (limbs_value x) mod fq_modulus"
    by (simp add: mont_mul_by5_def fetch_cells)
  then show "limbs_ok (mont_mul_by5 x)"
    by (simp add: limbs_ok_def fq_modulus_def) (simp add: mont_mul_by5_def fetch_def)
qed

lemma cancel_radix:
  assumes "2 ^ 256 * a mod fq_modulus = 2 ^ 256 * b mod fq_modulus"
  shows "a mod fq_modulus = b mod fq_modulus"
proof -
  have "odd fq_modulus"
    by (simp add: fq_modulus_def)
  then have "coprime fq_modulus (2 ^ 256)"
    by (simp only: coprime_power_right_iff coprime_right_2_iff_odd simp_thms)
  moreover have "fq_modulus dvd 2 ^ 256 * (a - b)"
    using assms by (simp add: mod_eq_dvd_iff right_diff_distrib)
  ultimately show ?thesis
    using coprime_dvd_mult_right_iff by (simp only: mod_eq_dvd_iff) blast
qed

lemma mont_form_mul:
  assumes "mont_form x u" "mont_form y v"
  shows "mont_form (mont_mul x y) (u * v)"
proof -
  have ok: "limbs_ok x" "limbs_ok y"
    using assms by (simp_all add: mont_form_def)
  have "int (limbs_value x) * int (limbs_value y) mod fq_modulus = (u * 2 ^ 256) * (v * 2 ^ 256) mod fq_modulus"
    using assms unfolding mont_form_def by (metis mod_mult_cong)
  then have "2 ^ 256 * int (limbs_value (mont_mul x y)) mod fq_modulus = 2 ^ 256 * (u * v * 2 ^ 256) mod fq_modulus"
    unfolding mont_mul_value(2) [OF ok] by (simp only: mult_ac)
  then show ?thesis
    using mont_mul_value(1) [OF ok] cancel_radix unfolding mont_form_def by blast
qed

lemma mont_form_by5: "mont_form x u \<Longrightarrow> mont_form (mont_mul_by5 x) (u * 5)"
  using mont_mul_by5_value [of x] unfolding mont_form_def
  by (metis (no_types, opaque_lifting) mod_mod_trivial mod_mult_right_eq mult.assoc mult.commute)

definition add_ok :: "(limbs \<Rightarrow> limbs \<Rightarrow> limbs) \<Rightarrow> bool" where
  "add_ok add \<longleftrightarrow> (\<forall>x y. limbs_ok x \<and> limbs_ok y \<longrightarrow>
     limbs_ok (add x y) \<and> int (limbs_value (add x y)) = (int (limbs_value x) + int (limbs_value y)) mod fq_modulus)"

definition sub_ok :: "(limbs \<Rightarrow> limbs \<Rightarrow> limbs) \<Rightarrow> bool" where
  "sub_ok sub \<longleftrightarrow> (\<forall>x y. limbs_ok x \<and> limbs_ok y \<longrightarrow>
     limbs_ok (sub x y) \<and> int (limbs_value (sub x y)) = (int (limbs_value x) - int (limbs_value y)) mod fq_modulus)"

lemma mont_form_add: "add_ok add \<Longrightarrow> mont_form x u \<Longrightarrow> mont_form y v \<Longrightarrow> mont_form (add x y) (u + v)"
  unfolding add_ok_def mont_form_def by (auto simp: distrib_right intro: mod_add_cong)

lemma mont_form_sub: "sub_ok sub \<Longrightarrow> mont_form x u \<Longrightarrow> mont_form y v \<Longrightarrow> mont_form (sub x y) (u - v)"
  unfolding sub_ok_def mont_form_def by (auto simp: left_diff_distrib intro: mod_diff_cong)

section \<open>The formula\<close>

definition curve_d_value :: int where
  "curve_d_value = 45022363124591815672509500913686876175488063829319466900776701791074614335719"

lemma mont_form_curve_d: "mont_form curve_d_limbs curve_d_value"
proof -
  have "curve_d_value * 2 ^ 256 = int (limbs_value curve_d_limbs) + 99421120963202146760161212838739286281570203087395728494720167122695553366224 * fq_modulus"
    by (simp add: curve_d_value_def curve_d_limbs_def fq_modulus_def)
  then have "curve_d_value * 2 ^ 256 mod fq_modulus = int (limbs_value curve_d_limbs) mod fq_modulus"
    by (metis mod_mult_self1)
  then show ?thesis
    by (simp add: mont_form_def) (simp add: limbs_ok_def curve_d_limbs_def fq_modulus_def)
qed

text \<open>The sum of the points over any ring, with the curve parameter \<open>d\<close>.\<close>

definition sum_formula :: "'r :: comm_ring_1 \<Rightarrow> 'r projective \<Rightarrow> 'r \<Rightarrow> 'r \<Rightarrow> 'r projective" where
  "sum_formula d R x y =
     (let a = pr_x R * x; b = pr_y R * y; c = pr_t R * (x * y) * d; e = (pr_x R + pr_y R) * (x + y) - a - b;
          f = pr_z R - c; g = pr_z R + c; h = b + a * 5
      in \<lparr>pr_x = e * f, pr_y = g * h, pr_t = e * h, pr_z = f * g\<rparr>)"

definition mont_point :: "limbs projective \<Rightarrow> int projective \<Rightarrow> bool" where
  "mont_point P S \<longleftrightarrow> mont_form (pr_x P) (pr_x S) \<and> mont_form (pr_y P) (pr_y S) \<and>
     mont_form (pr_t P) (pr_t S) \<and> mont_form (pr_z P) (pr_z S)"

lemma asm_point:
  assumes "add_ok add" "sub_ok sub" "mont_point P S" "mont_form p2_x x" "mont_form p2_y y"
  shows "mont_point (add_affine_point_asm add sub P p2_x p2_y) (sum_formula curve_d_value S x y)"
proof -
  note forms = mont_form_mul mont_form_by5 mont_form_add [OF assms(1)] mont_form_sub [OF assms(2)] mont_form_curve_d
  show ?thesis
    using assms(3-5) unfolding mont_point_def add_affine_point_asm_def sum_formula_def Let_def projective.simps
    by (elim conjE) (intro conjI forms; assumption)
qed

section \<open>Reading limbs\<close>

text \<open>
  \<open>Fq::new_unchecked\<close> reads limbs in Montgomery form: what it returns, times \<open>2^256\<close>, is the number the
  limbs hold, in a ring where the modulus is zero.
\<close>

definition montgomery_reader :: "('pt, 'fq :: comm_ring_1, 'fr) edwards \<Rightarrow> bool" where
  "montgomery_reader ed \<longleftrightarrow> of_int fq_modulus = (0 :: 'fq) \<and>
     (\<forall>l. limbs_ok l \<longrightarrow> new_unchecked ed l * 2 ^ 256 = of_int (int (limbs_value l)))"

definition read_point :: "('pt, 'fq, 'fr) edwards \<Rightarrow> limbs projective \<Rightarrow> 'fq projective" where
  "read_point ed P = \<lparr>pr_x = new_unchecked ed (pr_x P), pr_y = new_unchecked ed (pr_y P),
     pr_t = new_unchecked ed (pr_t P), pr_z = new_unchecked ed (pr_z P)\<rparr>"

definition limbs_point :: "limbs projective \<Rightarrow> bool" where
  "limbs_point P \<longleftrightarrow> limbs_ok (pr_x P) \<and> limbs_ok (pr_y P) \<and> limbs_ok (pr_t P) \<and> limbs_ok (pr_z P)"

definition radix_inverse :: int where
  "radix_inverse = 12549076656233958353659347336803947287922716146853412054870763148006372261952"

lemma radix_inverse: "2 ^ 256 * radix_inverse = 1 + 27711634432943687283656245953990505159342029877880134060146103271536583507967 * fq_modulus"
  by (simp add: radix_inverse_def fq_modulus_def)

lemma radix_cancel:
  assumes "of_int fq_modulus = (0 :: 'fq :: comm_ring_1)"
  shows "2 ^ 256 * of_int radix_inverse = (1 :: 'fq)"
proof -
  have "of_int (2 ^ 256 * radix_inverse) = (1 :: 'fq)"
    unfolding radix_inverse of_int_add of_int_mult assms by simp
  then show ?thesis
    by (simp only: of_int_mult of_int_power of_int_numeral)
qed

lemma of_int_mod_modulus:
  assumes "of_int fq_modulus = (0 :: 'fq :: comm_ring_1)"
  shows "of_int (v mod fq_modulus) = (of_int v :: 'fq)"
proof -
  have "of_int v = (of_int (v div fq_modulus * fq_modulus + v mod fq_modulus) :: 'fq)"
    by simp
  then show ?thesis
    unfolding of_int_add of_int_mult assms by simp
qed

lemma reads_mont_form:
  fixes ed :: "('pt, 'fq :: comm_ring_1, 'fr) edwards"
  assumes "montgomery_reader ed" "mont_form l v"
  shows "new_unchecked ed l = of_int v"
proof -
  have p: "of_int fq_modulus = (0 :: 'fq)"
    using assms(1) by (simp add: montgomery_reader_def)
  have "new_unchecked ed l * 2 ^ 256 = of_int (v * 2 ^ 256)"
    using assms of_int_mod_modulus [OF p] unfolding montgomery_reader_def mont_form_def by metis
  then have "new_unchecked ed l * (2 ^ 256 * of_int radix_inverse) = of_int v * (2 ^ 256 * of_int radix_inverse)"
    by (simp only: of_int_mult of_int_power of_int_numeral mult.assoc [symmetric])
  then show ?thesis
    unfolding radix_cancel [OF p] by simp
qed

lemma limbs_mont_form: "limbs_ok l \<Longrightarrow> mont_form l (int (limbs_value l) * radix_inverse)"
proof -
  assume l: "limbs_ok l"
  have "int (limbs_value l) * radix_inverse * 2 ^ 256 = int (limbs_value l) +
      int (limbs_value l) * 27711634432943687283656245953990505159342029877880134060146103271536583507967 * fq_modulus"
    using arg_cong [OF radix_inverse, of "\<lambda>x. int (limbs_value l) * x"] by (simp only: distrib_left mult_ac mult_1_right)
  then have "int (limbs_value l) * radix_inverse * 2 ^ 256 mod fq_modulus = int (limbs_value l) mod fq_modulus"
    by (simp only: mod_mult_self1)
  then show ?thesis
    using l by (simp add: mont_form_def)
qed

text \<open>C25: The two variants of \<open>add_affine_point\<close> compute the same sum: what \<open>new_unchecked\<close> reads from the limbs that
  the variant for \<open>x86_64\<close> computes, through the assembly, is what the portable variant computes in the field from what it
  reads from the operands. The sums and differences of the external crate are on reduced limbs.\<close>

theorem add_affine_point_variants:
  fixes ed :: "('pt, 'fq :: comm_ring_1, 'fr) edwards"
  assumes "add_ok add" "sub_ok sub" "montgomery_reader ed" "limbs_point P" "limbs_ok p2_x" "limbs_ok p2_y"
  shows "read_point ed (add_affine_point_asm add sub P p2_x p2_y) =
    add_affine_point ed (read_point ed P) (new_unchecked ed p2_x) (new_unchecked ed p2_y)"
proof -
  let ?v = "\<lambda>l. int (limbs_value l) * radix_inverse"
  let ?S = "\<lparr>pr_x = ?v (pr_x P), pr_y = ?v (pr_y P), pr_t = ?v (pr_t P), pr_z = ?v (pr_z P)\<rparr>"
  have P: "mont_point P ?S"
    using assms(4) by (simp add: limbs_point_def mont_point_def limbs_mont_form)
  note reads = reads_mont_form [OF assms(3)] and form = limbs_mont_form
  have "mont_point (add_affine_point_asm add sub P p2_x p2_y) (sum_formula curve_d_value ?S (?v p2_x) (?v p2_y))"
    by (rule asm_point [OF assms(1,2) P form [OF assms(5)] form [OF assms(6)]])
  then have "read_point ed (add_affine_point_asm add sub P p2_x p2_y) =
      (let R = sum_formula curve_d_value ?S (?v p2_x) (?v p2_y)
       in \<lparr>pr_x = of_int (pr_x R), pr_y = of_int (pr_y R), pr_t = of_int (pr_t R), pr_z = of_int (pr_z R)\<rparr>)"
    by (simp add: read_point_def mont_point_def reads Let_def)
  moreover have "read_point ed P = \<lparr>pr_x = of_int (pr_x ?S), pr_y = of_int (pr_y ?S), pr_t = of_int (pr_t ?S), pr_z = of_int (pr_z ?S)\<rparr>"
    using P by (simp add: read_point_def mont_point_def reads del: of_int_mult)
  moreover have "new_unchecked ed p2_x = of_int (?v p2_x)" "new_unchecked ed p2_y = of_int (?v p2_y)"
      "new_unchecked ed curve_d_limbs = of_int curve_d_value"
    by (rule reads, rule form, rule assms(5), rule reads, rule form, rule assms(6), rule reads, rule mont_form_curve_d)
  ultimately show ?thesis
    by (simp add: add_affine_point_def sum_formula_def Let_def)
qed

text \<open>Sums and differences on limbs, and numbers in Montgomery form, for the witness.\<close>

definition int_limbs :: "int \<Rightarrow> limbs" where
  "int_limbs v = map (\<lambda>i. of_int (v div 2 ^ (64 * i))) [0..<4]"

definition to_mont :: "int \<Rightarrow> limbs" where
  "to_mont v = int_limbs (v * 2 ^ 256 mod fq_modulus)"

definition add_limbs :: "limbs \<Rightarrow> limbs \<Rightarrow> limbs" where
  "add_limbs x y = int_limbs ((int (limbs_value x) + int (limbs_value y)) mod fq_modulus)"

definition sub_limbs :: "limbs \<Rightarrow> limbs \<Rightarrow> limbs" where
  "sub_limbs x y = int_limbs ((int (limbs_value x) - int (limbs_value y)) mod fq_modulus)"

lemma four_digits:
  fixes v b :: int
  shows "v mod b + b * (v div b mod b) + b * b * (v div b div b mod b) + b * b * b * (v div b div b div b) = v"
proof -
  have "v mod b + b * (v div b mod b) + b * b * (v div b div b mod b) + b * b * b * (v div b div b div b) =
      v mod b + b * (v div b mod b + b * (v div b div b mod b + b * (v div b div b div b)))"
    by (simp only: distrib_left mult.assoc add.assoc)
  then show ?thesis
    by simp
qed

lemma int_limbs_value:
  "int (limbs_value (int_limbs w)) = w mod 2 ^ 64 + 2 ^ 64 * (w div 2 ^ 64 mod 2 ^ 64) + 2 ^ 128 * (w div 2 ^ 128 mod 2 ^ 64) +
     2 ^ 192 * (w div 2 ^ 192 mod 2 ^ 64)"
proof -
  have "int_limbs w = [of_int w, of_int (w div 2 ^ 64), of_int (w div 2 ^ 128), of_int (w div 2 ^ 192)]"
    by (simp add: int_limbs_def upt_rec)
  moreover have "uint (of_int k :: u64) = k mod 2 ^ 64" for k
    by (simp add: uint_word_of_int)
  ultimately show ?thesis
    by (simp only: limbs_value_4 val4_def length_Cons list.size nth_Cons_0 nth_Cons_Suc) (simp add: val4_def)
qed

lemma int_limbs_mod: "limbs_ok (int_limbs (v mod fq_modulus))" "int (limbs_value (int_limbs (v mod fq_modulus))) = v mod fq_modulus"
proof -
  let ?v = "v mod fq_modulus"
  have v: "0 \<le> ?v" "?v < fq_modulus"
    by (simp_all add: fq_modulus_def)
  have "?v \<le> 2 ^ 256 - 1"
    using v(2) by (simp add: fq_modulus_def)
  then have "?v div 2 ^ 192 \<le> (2 ^ 256 - 1) div 2 ^ 192"
    by (rule zdiv_mono1) simp
  then have top: "?v div 2 ^ 192 mod 2 ^ 64 = ?v div 2 ^ 192"
    using v(1) by (intro mod_pos_pos_trivial) (simp_all add: pos_imp_zdiv_nonneg_iff)
  have pow: "(2 :: int) ^ 64 * 2 ^ 64 = 2 ^ 128" "(2 :: int) ^ 128 * 2 ^ 64 = 2 ^ 192"
    by simp_all
  have "?v div 2 ^ 64 div 2 ^ 64 = ?v div 2 ^ 128" "?v div 2 ^ 128 div 2 ^ 64 = ?v div 2 ^ 192"
    unfolding pow [symmetric] by (rule zdiv_zmult2_eq [symmetric], simp)+
  then have "?v mod 2 ^ 64 + 2 ^ 64 * (?v div 2 ^ 64 mod 2 ^ 64) + 2 ^ 128 * (?v div 2 ^ 128 mod 2 ^ 64) + 2 ^ 192 * (?v div 2 ^ 192 mod 2 ^ 64) = ?v"
    using four_digits [of ?v "2 ^ 64"] unfolding top by (simp only: pow)
  then show val: "int (limbs_value (int_limbs ?v)) = ?v"
    by (simp only: int_limbs_value)
  show "limbs_ok (int_limbs ?v)"
    unfolding limbs_ok_def val using v(2) by (simp add: int_limbs_def)
qed

text \<open>The integers modulo the modulus, with a reader of Montgomery limbs.\<close>

type_synonym fq_ring = 52435875175126190479447740508185965837690552500527637822603658699938581184513

definition fq_edwards :: "(unit, fq_ring, unit) edwards" where
  "fq_edwards = \<lparr>to_affine = \<lambda>_. \<lparr>af_x = 0, af_y = 1\<rparr>,
     new_unchecked = \<lambda>l. of_int (int (limbs_value l) * radix_inverse), into_bigint = \<lambda>_. []\<rparr>"

lemma fq_reader: "montgomery_reader fq_edwards"
proof -
  have p: "of_int fq_modulus = (0 :: fq_ring)"
    by (simp add: fq_modulus_def)
  show ?thesis
    using radix_cancel [OF p] p
    by (simp add: montgomery_reader_def fq_edwards_def mult.assoc mult.commute [of "of_int radix_inverse"])
qed

theorem add_affine_point_variants_witness:
  "read_point fq_edwards (add_affine_point_asm add_limbs sub_limbs
     \<lparr>pr_x = to_mont 1, pr_y = to_mont 2, pr_t = to_mont 2, pr_z = to_mont 1\<rparr> (to_mont 3) (to_mont 4)) =
   (let d = of_int curve_d_value
    in \<lparr>pr_x = 10 * (1 - 24 * d), pr_y = (1 + 24 * d) * 23, pr_t = 230, pr_z = (1 - 24 * d) * (1 + 24 * d)\<rparr>)"
proof -
  have ok: "add_ok add_limbs" "sub_ok sub_limbs" and form: "mont_form (to_mont v) v" for v
    by (simp_all add: add_ok_def sub_ok_def add_limbs_def sub_limbs_def mont_form_def to_mont_def int_limbs_mod)
  have limbs: "limbs_ok (to_mont v)" for v
    using form [of v] by (simp add: mont_form_def)
  have reads: "new_unchecked fq_edwards (to_mont v) = of_int v" "new_unchecked fq_edwards curve_d_limbs = of_int curve_d_value" for v
    by (rule reads_mont_form [OF fq_reader] form mont_form_curve_d)+
  show ?thesis
    using add_affine_point_variants [OF ok fq_reader,
        of "\<lparr>pr_x = to_mont 1, pr_y = to_mont 2, pr_t = to_mont 2, pr_z = to_mont 1\<rparr>" "to_mont 3" "to_mont 4"] limbs
    by (simp add: limbs_point_def read_point_def reads add_affine_point_def Let_def)
qed

end
